(* ===== verification/Prelude.thy ===== *)
theory Prelude
  imports Main
begin

text \<open>
  What every theory of this development shares: the type names of the model (instants,
  durations, results), the collections the proofs use, and generic lemmas on lists and maps.

  Instants are nanoseconds since the zero \<open>time.Time\<close> of Go (year 1), so \<open>t.IsZero()\<close>
  is \<open>t = 0\<close>; \<open>t.UTC()\<close> does not change the instant and is the identity. A function that can
  fail returns \<open>error + value\<close>, the error on the left.
\<close>

type_synonym instant = int
type_synonym duration = int

definition is_zero :: "instant \<Rightarrow> bool" where
  "is_zero t \<longleftrightarrow> t = 0"

text \<open>\<open>t.Sub(u)\<close>, which saturates at the limits of a 64-bit duration.\<close>

definition max_duration :: duration where
  "max_duration = 2 ^ 63 - 1"

definition time_sub :: "instant \<Rightarrow> instant \<Rightarrow> duration" where
  "time_sub t u = max (- (2 ^ 63)) (min max_duration (t - u))"

text \<open>
  A \<open>time.Time\<close> whose location matters: its instant, and the offset of its location from UTC
  at that instant. \<open>calendar_date\<close> is midnight UTC of the civil date read in the location.
\<close>

record ztime =
  zt_instant :: instant
  zt_offset :: duration

definition day_ns :: duration where
  "day_ns = 86400 * 1000000000"

definition utc :: "instant \<Rightarrow> ztime" where
  "utc t = \<lparr>zt_instant = t, zt_offset = 0\<rparr>"

named_theorems guards \<open>unfoldings of the guards and early returns of operations\<close>
named_theorems frames \<open>fields an operation does not write\<close>

subsection \<open>Results\<close>

text \<open>The Go idiom \<open>x, err := f(); if err != nil { return err }\<close>.\<close>

definition bindr :: "'e + 'a \<Rightarrow> ('a \<Rightarrow> 'e + 'b) \<Rightarrow> 'e + 'b" where
  "bindr r f = (case r of Inl e \<Rightarrow> Inl e | Inr x \<Rightarrow> f x)"

definition mapl :: "('e \<Rightarrow> 'f) \<Rightarrow> 'e + 'a \<Rightarrow> 'f + 'a" where
  "mapl f r = (case r of Inl e \<Rightarrow> Inl (f e) | Inr x \<Rightarrow> Inr x)"

definition is_ok :: "'e + 'a \<Rightarrow> bool" where
  "is_ok r \<longleftrightarrow> (case r of Inl _ \<Rightarrow> False | Inr _ \<Rightarrow> True)"

lemma bindr_simps [simp]:
  "bindr (Inl e) f = Inl e"
  "bindr (Inr x) f = f x"
  by (simp_all add: bindr_def)

lemma mapl_simps [simp]:
  "mapl g (Inl e) = Inl (g e)"
  "mapl g (Inr x) = Inr x"
  by (simp_all add: mapl_def)

lemma is_ok_simps [simp]:
  "\<not> is_ok (Inl e)"
  "is_ok (Inr x)"
  by (simp_all add: is_ok_def)

lemma is_ok_projr: "is_ok r \<Longrightarrow> r = Inr (projr r)"
  by (cases r) auto

lemma is_ok_pair: "is_ok r \<Longrightarrow> r = Inr (fst (projr r), snd (projr r))"
  by (cases r) auto

lemma bindr_Inr_iff: "bindr r f = Inr y \<longleftrightarrow> (\<exists>x. r = Inr x \<and> f x = Inr y)"
  by (cases r) auto

lemma bindr_Inl_iff: "bindr r f = Inl e \<longleftrightarrow> r = Inl e \<or> (\<exists>x. r = Inr x \<and> f x = Inl e)"
  by (cases r) auto

lemma mapl_Inr_iff [simp]: "mapl g r = Inr x \<longleftrightarrow> r = Inr x"
  by (cases r) auto

lemma mapl_Inl_iff: "mapl g r = Inl e \<longleftrightarrow> (\<exists>d. r = Inl d \<and> e = g d)"
  by (cases r) auto

text \<open>A guard that fails with \<open>e\<close>: \<open>if c { return e }\<close>.\<close>

definition failif :: "bool \<Rightarrow> 'e \<Rightarrow> 'e + 'a \<Rightarrow> 'e + 'a" where
  "failif c e k = (if c then Inl e else k)"

lemma failif_Inr_iff [simp]: "failif c e k = Inr y \<longleftrightarrow> \<not> c \<and> k = Inr y"
  by (simp add: failif_def)

lemma failif_Inl_iff: "failif c e k = Inl d \<longleftrightarrow> (c \<and> d = e) \<or> (\<not> c \<and> k = Inl d)"
  by (auto simp: failif_def)

lemma failif_simps [simp]:
  "failif True e k = Inl e"
  "failif False e k = k"
  by (simp_all add: failif_def)

subsection \<open>The greatest of two optional instants, NULL being absent\<close>

fun opt_max :: "('a::linorder) option \<Rightarrow> 'a option \<Rightarrow> 'a option" where
  "opt_max None b = b"
| "opt_max a None = a"
| "opt_max (Some a) (Some b) = Some (max a b)"

lemma opt_max_assoc: "opt_max (opt_max a b) c = opt_max a (opt_max b c)"
  by (cases a; cases b; cases c) (auto simp: max.assoc)

lemma opt_max_None_right [simp]: "opt_max a None = a"
  by (cases a) auto

subsection \<open>Lists\<close>

lemma filter_eq_map_of_distinct:
  "distinct (map f xs) \<Longrightarrow> x \<in> set xs \<Longrightarrow> filter (\<lambda>y. f y = f x) xs = [x]"
proof (induction xs)
  case Nil
  then show ?case by simp
next
  case (Cons y ys)
  show ?case
  proof (cases "x = y")
    case True
    with Cons.prems have "\<forall>z \<in> set ys. f z \<noteq> f x" by (auto simp: rev_image_eqI)
    then have "filter (\<lambda>z. f z = f x) ys = []" by (simp add: filter_empty_conv)
    with True show ?thesis by simp
  next
    case False
    with Cons.prems have "x \<in> set ys" by simp
    with Cons.prems have "f y \<noteq> f x" by (auto simp: image_iff)
    with Cons \<open>x \<in> set ys\<close> show ?thesis by simp
  qed
qed

lemma map_of_distinct_in:
  "distinct (map f xs) \<Longrightarrow> x \<in> set xs \<Longrightarrow> y \<in> set xs \<Longrightarrow> f x = f y \<Longrightarrow> x = y"
  by (auto simp: distinct_map dest: inj_onD)

end
