(* ===== verification/GoError.thy ===== *)
theory GoError
  imports Prelude
begin

text \<open>
  Go's error values. A sentinel is a package-level \<open>errors.New\<close> value, compared by identity;
  \<open>fmt.Errorf\<close> with \<open>%w\<close> wraps one or more errors and \<open>errors.Join\<close> joins several, so an
  error is a tree whose leaves are sentinels or anonymous errors. \<open>err_is\<close> is
  \<open>errors.Is\<close>. The texts of messages are not modelled.
\<close>

datatype product_err =
    ErrProductNotFound | ErrInvalidProductState | ErrMissingCanonicalField | ErrMalformedRecord
  | ErrInvalidFieldMapping | ErrMissingFieldMapping | ErrInvalidOriginCountry
  | ErrDuplicateAttributeKey | ErrIdentityConflict | ErrVersionConflict | ErrDeadlockConflict
  | ErrInvalidProductTransition | ErrNegativeMetric | ErrInvalidListParams

datatype source_err =
    ErrSourceNotFound | ErrInvalidSourceConfig | ErrInvalidSourceState | ErrInvalidSourceID
  | ErrInvalidSourceName | ErrInvalidSourceType | ErrInvalidRateLimit | ErrSourceInUse
  | ErrInvalidSecretRef

datatype ingestion_err =
    ErrRunNotFound | ErrInvalidRunState | ErrInvalidRunTransition | ErrInvalidRunID
  | ErrInvalidClaimToken | ErrInvalidLeaseDuration | ErrInvalidBatchSize | ErrRecordNotFound
  | ErrInvalidRecordID | ErrInvalidExternalProductID | ErrEmptyPayload | ErrInvalidPayloadJSON
  | ErrInvalidRecordState | ErrAdapterUnavailable | ErrAuthenticationFailed
  | ErrRateLimitExceeded | ErrSourceContractViolation | ErrErrorBudgetExceeded
  | ErrInvalidCheckpoint | ErrPathNotFound | ErrIdentityNotFound | ErrRecordNotObject
  | ErrInactiveSource | ErrRunAlreadyActive | ErrPathWrongType | ErrInvalidErrorBudget

datatype processing_err =
    ErrLeaseLost | ErrProgressNotReturned | ErrRunProcessingNotFound | ErrLeaseHeld

datatype regulatory_err =
    ErrInvalidDataset | ErrDatasetNotFound | ErrDuplicateVersion | ErrInvalidTransition
  | ErrInvalidReview | ErrReviewRequired | ErrReviewerIsLoader | ErrConcurrentActivation
  | ErrInvalidRule | ErrInvalidSLA | ErrNoCoverage | ErrStaleCoverage | ErrInvalidTariffQuery
  | ErrNoTariffRate | ErrAmbiguousTariff | ErrUnsupportedMeasure

datatype idempotency_err =
    ErrKeyInProgress | ErrKeyLeaseLost | ErrPayloadMismatch | ErrInvalidScope | ErrInvalidKey
  | ErrInvalidLeaseTTL | ErrInvalidPayloadHash | ErrNotCompletedInTx | ErrKeyNotFound

datatype dlq_err =
    ErrPermanent | ErrHandlerPanic | ErrCorruptEnvelope | ErrDLQNotFound | ErrAlreadyReplayed
  | ErrNotReplayable | ErrInvalidDLQID | ErrInvalidDLQInput

datatype outbox_err = ErrInvalidConfig | ErrClaimLost

datatype platform_err =
    ErrInvalidRetryPolicy | ErrInvalidPathSyntax | ErrMalformedNumber | ErrExponentTooLarge
  | ErrZeroTimestamp | ErrInvalidPoolConfig | ErrNilTask | ErrPoolClosed | ErrDrainTimeout

datatype context_err = Canceled | DeadlineExceeded

datatype sentinel =
    Product product_err
  | Source source_err
  | Ingestion ingestion_err
  | Processing processing_err
  | Regulatory regulatory_err
  | Idempotency idempotency_err
  | Dlq dlq_err
  | Outbox outbox_err
  | Platform platform_err
  | Context context_err
  | ErrBrokerUnavailable

text \<open>An error value: a sentinel, an anonymous error, one \<open>%w\<close>, or several.\<close>

datatype gerr =
    Leaf sentinel
  | Opaque string
  | Wrap gerr
  | Join "gerr list"

text \<open>\<open>errors.Is(err, target)\<close> for a sentinel target.\<close>

fun err_is :: "gerr \<Rightarrow> sentinel \<Rightarrow> bool" where
  "err_is (Leaf s) t \<longleftrightarrow> s = t"
| "err_is (Opaque m) t \<longleftrightarrow> False"
| "err_is (Wrap e) t \<longleftrightarrow> err_is e t"
| "err_is (Join es) t \<longleftrightarrow> list_ex (\<lambda>e. err_is e t) es"

text \<open>\<open>fmt.Errorf("%w: %w", a, b)\<close>.\<close>

definition wrap2 :: "sentinel \<Rightarrow> gerr \<Rightarrow> gerr" where
  "wrap2 s e = Join [Leaf s, e]"

lemma err_is_wrap2 [simp]: "err_is (wrap2 s e) t \<longleftrightarrow> s = t \<or> err_is e t"
  by (simp add: wrap2_def)

text \<open>\<open>errors.Join\<close>: nil when every argument is nil.\<close>

definition somes :: "'a option list \<Rightarrow> 'a list" where
  "somes xs = map the (filter (\<lambda>x. x \<noteq> None) xs)"

definition join_errs :: "gerr option list \<Rightarrow> gerr option" where
  "join_errs es = (case somes es of [] \<Rightarrow> None | xs \<Rightarrow> Some (Join xs))"

lemma somes_simps [simp]:
  "somes [] = []"
  "somes (None # xs) = somes xs"
  "somes (Some x # xs) = x # somes xs"
  by (simp_all add: somes_def)

lemma somes_append [simp]: "somes (xs @ ys) = somes xs @ somes ys"
  by (simp add: somes_def)

lemma set_somes: "x \<in> set (somes xs) \<longleftrightarrow> Some x \<in> set xs"
  by (induction xs) (auto simp: somes_def)

lemma somes_Nil_iff: "somes xs = [] \<longleftrightarrow> (\<forall>x \<in> set xs. x = None)"
  by (auto simp: somes_def filter_empty_conv)

lemma join_errs_None_iff: "join_errs es = None \<longleftrightarrow> (\<forall>e \<in> set es. e = None)"
  by (simp add: join_errs_def somes_Nil_iff [symmetric] split: list.split)

lemma join_errs_is:
  "join_errs es = Some e \<Longrightarrow> err_is e t \<longleftrightarrow> (\<exists>d. Some d \<in> set es \<and> err_is d t)"
proof -
  assume "join_errs es = Some e"
  then have "e = Join (somes es)" by (auto simp: join_errs_def split: list.splits)
  then show ?thesis by (auto simp: list_ex_iff set_somes)
qed

text \<open>A run-time panic of the Go program, as a result of the operation that panics.\<close>

definition nil_deref :: gerr where
  "nil_deref = Opaque ''invalid memory address or nil pointer dereference''"

end
