(* ===== verification/GoText.thy ===== *)
theory GoText
  imports Prelude "HOL-Library.Char_ord" "HOL-Library.List_Lexorder"
begin

text \<open>
  The parts of Go's \<open>strings\<close> package the program uses. A Go string is a list of bytes and
  so is \<^typ>\<open>string\<close>: a \<^typ>\<open>char\<close> is one byte, \<open>length\<close> is \<open>len\<close>, and the order of
  \<open>List_Lexorder\<close> is \<open>strings.Compare\<close>. \<open>trim_space\<close> strips every rune of
  \<open>unicode.IsSpace\<close>, recognised by its UTF-8 encoding.
\<close>

abbreviation code_of :: "char \<Rightarrow> nat" where
  "code_of c \<equiv> of_char c"

subsection \<open>strings.TrimSpace\<close>

definition ascii_space :: "nat \<Rightarrow> bool" where
  "ascii_space a \<longleftrightarrow> a \<in> {9, 10, 11, 12, 13, 32}"

text \<open>U+0085 and U+00A0.\<close>

definition space2 :: "nat \<Rightarrow> nat \<Rightarrow> bool" where
  "space2 a b \<longleftrightarrow> a = 0xC2 \<and> (b = 0x85 \<or> b = 0xA0)"

text \<open>U+1680, U+2000 to U+200A, U+2028, U+2029, U+202F, U+205F and U+3000.\<close>

definition space3 :: "nat \<Rightarrow> nat \<Rightarrow> nat \<Rightarrow> bool" where
  "space3 a b c \<longleftrightarrow>
     (a = 0xE1 \<and> b = 0x9A \<and> c = 0x80)
   \<or> (a = 0xE2 \<and> b = 0x80 \<and> ((0x80 \<le> c \<and> c \<le> 0x8A) \<or> c = 0xA8 \<or> c = 0xA9 \<or> c = 0xAF))
   \<or> (a = 0xE2 \<and> b = 0x81 \<and> c = 0x9F)
   \<or> (a = 0xE3 \<and> b = 0x80 \<and> c = 0x80)"

text \<open>The width of the space rune at the front of a string, 0 when there is none.\<close>

fun space_len :: "string \<Rightarrow> nat" where
  "space_len [] = 0"
| "space_len [a] = (if ascii_space (code_of a) then 1 else 0)"
| "space_len [a, b] =
     (if ascii_space (code_of a) then 1 else if space2 (code_of a) (code_of b) then 2 else 0)"
| "space_len (a # b # c # s) =
     (if ascii_space (code_of a) then 1
      else if space2 (code_of a) (code_of b) then 2
      else if space3 (code_of a) (code_of b) (code_of c) then 3 else 0)"

text \<open>The same at the back, of the reversed string.\<close>

fun space_len_back :: "string \<Rightarrow> nat" where
  "space_len_back [] = 0"
| "space_len_back [a] = (if ascii_space (code_of a) then 1 else 0)"
| "space_len_back [a, b] =
     (if ascii_space (code_of a) then 1 else if space2 (code_of b) (code_of a) then 2 else 0)"
| "space_len_back (a # b # c # s) =
     (if ascii_space (code_of a) then 1
      else if space2 (code_of b) (code_of a) then 2
      else if space3 (code_of c) (code_of b) (code_of a) then 3 else 0)"

lemma space_len_pos_length: "0 < space_len s \<Longrightarrow> 0 < length s"
  by (cases s) auto

lemma space_len_back_pos_length: "0 < space_len_back s \<Longrightarrow> 0 < length s"
  by (cases s) auto

function trim_left :: "string \<Rightarrow> string" where
  "trim_left s = (if space_len s = 0 then s else trim_left (drop (space_len s) s))"
  by pat_completeness auto
termination
  by (relation "measure length") (use space_len_pos_length in auto)

function trim_back :: "string \<Rightarrow> string" where
  "trim_back s = (if space_len_back s = 0 then s else trim_back (drop (space_len_back s) s))"
  by pat_completeness auto
termination
  by (relation "measure length") (use space_len_back_pos_length in auto)

declare trim_left.simps [simp del] trim_back.simps [simp del]

definition trim_space :: "string \<Rightarrow> string" where
  "trim_space s = rev (trim_back (rev (trim_left s)))"

definition is_blank :: "string \<Rightarrow> bool" where
  "is_blank s \<longleftrightarrow> trim_space s = []"

lemma space_len_trim_left: "space_len (trim_left s) = 0"
proof (induction s rule: trim_left.induct)
  case (1 s)
  then show ?case by (cases "space_len s = 0") (simp_all add: trim_left.simps [of s])
qed

lemma space_len_trim_back: "space_len_back (trim_back s) = 0"
proof (induction s rule: trim_back.induct)
  case (1 s)
  then show ?case by (cases "space_len_back s = 0") (simp_all add: trim_back.simps [of s])
qed

lemma trim_back_suffix: "\<exists>p. s = p @ trim_back s"
proof (induction s rule: trim_back.induct)
  case (1 s)
  show ?case
  proof (cases "space_len_back s = 0")
    case True
    then show ?thesis by (simp add: trim_back.simps [of s])
  next
    case False
    with 1 obtain p where "drop (space_len_back s) s = p @ trim_back (drop (space_len_back s) s)"
      by blast
    then have "s = (take (space_len_back s) s @ p) @ trim_back (drop (space_len_back s) s)"
      by (metis append.assoc append_take_drop_id)
    with False show ?thesis by (metis trim_back.simps)
  qed
qed

text \<open>A rune at the front of a prefix is at the front of the whole.\<close>

lemma space_len_prefix: "space_len (s @ t) = 0 \<Longrightarrow> space_len s = 0"
  by (induction s rule: space_len.induct; cases t rule: space_len.cases)
     (auto split: if_splits)

lemma trim_left_id: "space_len s = 0 \<Longrightarrow> trim_left s = s"
  by (simp add: trim_left.simps [of s])

lemma trim_back_id: "space_len_back s = 0 \<Longrightarrow> trim_back s = s"
  by (simp add: trim_back.simps [of s])

lemma trim_space_id:
  "space_len s = 0 \<Longrightarrow> space_len_back (rev s) = 0 \<Longrightarrow> trim_space s = s"
  by (simp add: trim_space_def trim_left_id trim_back_id)

lemma space_len_trim_space: "space_len (trim_space s) = 0"
proof -
  obtain p where "rev (trim_left s) = p @ trim_back (rev (trim_left s))"
    using trim_back_suffix by blast
  then have "trim_left s = trim_space s @ rev p"
    unfolding trim_space_def by (metis rev_append rev_rev_ident)
  then show ?thesis using space_len_trim_left [of s] space_len_prefix by metis
qed

lemma trim_space_idem [simp]: "trim_space (trim_space s) = trim_space s"
  by (rule trim_space_id)
     (simp_all add: space_len_trim_space, simp add: trim_space_def space_len_trim_back)

lemma trim_space_Nil [simp]: "trim_space [] = []"
  by (simp add: trim_space_id)

lemma is_blank_Nil [simp]: "is_blank []"
  by (simp add: is_blank_def)

lemma is_blank_trim [simp]: "is_blank (trim_space s) \<longleftrightarrow> is_blank s"
  by (simp add: is_blank_def)

lemma not_blank_trim_nonempty: "\<not> is_blank s \<longleftrightarrow> trim_space s \<noteq> []"
  by (simp add: is_blank_def)

text \<open>\<open>optionalString\<close> and its kin: a blank string stands for an absent value.\<close>

definition has_prefix :: "string \<Rightarrow> string \<Rightarrow> bool" where
  "has_prefix s p \<longleftrightarrow> take (length p) s = p"

lemma has_prefix_append [simp]: "has_prefix (p @ s) p"
  by (simp add: has_prefix_def)

subsection \<open>strings.ToUpper, strings.Cut, strings.Join\<close>

definition is_lower_ascii :: "char \<Rightarrow> bool" where
  "is_lower_ascii c \<longleftrightarrow> 97 \<le> code_of c \<and> code_of c \<le> 122"

definition is_upper_ascii :: "char \<Rightarrow> bool" where
  "is_upper_ascii c \<longleftrightarrow> 65 \<le> code_of c \<and> code_of c \<le> 90"

definition is_digit_ascii :: "char \<Rightarrow> bool" where
  "is_digit_ascii c \<longleftrightarrow> 48 \<le> code_of c \<and> code_of c \<le> 57"

definition upper_char :: "char \<Rightarrow> char" where
  "upper_char c = (if is_lower_ascii c then char_of (code_of c - 32) else c)"

definition lower_char :: "char \<Rightarrow> char" where
  "lower_char c = (if is_upper_ascii c then char_of (code_of c + 32) else c)"

text \<open>
  \<open>strings.ToUpper\<close>, up to the runes whose upper case is not ASCII: ASCII letters, and the two
  runes outside ASCII that Go maps into it, dotless i (\<open>C4 B1\<close>, to I) and long s
  (\<open>C5 BF\<close>, to S). Any other rune is left alone; Go maps it to some rune outside ASCII, and
  every caller modelled here rejects a string with such a rune.
\<close>

fun to_upper :: "string \<Rightarrow> string" where
  "to_upper [] = []"
| "to_upper [a] = [upper_char a]"
| "to_upper (a # b # s) =
     (if code_of a = (0xC4 :: nat) \<and> code_of b = (0xB1 :: nat) then CHR ''I'' # to_upper s
      else if code_of a = (0xC5 :: nat) \<and> code_of b = (0xBF :: nat) then CHR ''S'' # to_upper s
      else upper_char a # to_upper (b # s))"

text \<open>\<open>strings.Cut\<close> at the first occurrence of a byte.\<close>

fun cut_at :: "char \<Rightarrow> string \<Rightarrow> (string \<times> string) option" where
  "cut_at c [] = None"
| "cut_at c (x # s) =
     (if x = c then Some ([], s) else map_option (\<lambda>(a, b). (x # a, b)) (cut_at c s))"

lemma cut_at_Some: "cut_at c s = Some (a, b) \<longleftrightarrow> s = a @ c # b \<and> c \<notin> set a"
proof (induction s arbitrary: a)
  case Nil
  then show ?case by simp
next
  case (Cons x s)
  show ?case
  proof (cases "x = c")
    case True
    then show ?thesis by (cases a) auto
  next
    case False
    then show ?thesis using Cons by (cases a) auto
  qed
qed

fun join_with :: "string \<Rightarrow> string list \<Rightarrow> string" where
  "join_with sep [] = []"
| "join_with sep [x] = x"
| "join_with sep (x # y # xs) = x @ sep @ join_with sep (y # xs)"

end
