(* ===== verification/Dataset.thy ===== *)
theory Dataset
  imports GoError GoText
begin

text \<open>
  \<open>internal/domain/regulatory\<close> without tariffs: categories and jurisdictions, the dataset
  entity and its lifecycle (\<open>dataset.go\<close>), curated rules and validity ranges
  (\<open>rules.go\<close>), refresh SLAs and hold reasons (\<open>coverage.go\<close>). The folding table of
  \<open>strings.EqualFold\<close> is the argument \<open>fold_case\<close>, which maps a string to the
  representative of its class; the identifier drawn by \<open>uuid.NewString\<close> is an argument too.
\<close>

subsection \<open>Categories, jurisdictions\<close>

datatype category =
    CategoryTariff | CategoryImportRestriction | CategoryPermit
  | CategorySanctions | CategoryExportControl | CategoryPreferentialAgreement

definition categories :: "category list" where
  "categories = [CategoryTariff, CategoryImportRestriction, CategoryPermit,
     CategorySanctions, CategoryExportControl, CategoryPreferentialAgreement]"

fun category_name :: "category \<Rightarrow> string" where
  "category_name CategoryTariff = ''TARIFF''"
| "category_name CategoryImportRestriction = ''IMPORT_RESTRICTION''"
| "category_name CategoryPermit = ''PERMIT''"
| "category_name CategorySanctions = ''SANCTIONS''"
| "category_name CategoryExportControl = ''EXPORT_CONTROL''"
| "category_name CategoryPreferentialAgreement = ''PREFERENTIAL_AGREEMENT''"

definition parse_category :: "string \<Rightarrow> gerr + category" where
  "parse_category s =
     (case find (\<lambda>c. category_name c = to_upper (trim_space s)) categories of
        None \<Rightarrow> Inl (Leaf (Regulatory ErrInvalidDataset)) | Some c \<Rightarrow> Inr c)"

definition jurisdiction_pattern :: "string \<Rightarrow> bool" where
  "jurisdiction_pattern s \<longleftrightarrow> length s = 2 \<and> list_all is_upper_ascii s"

definition parse_country :: "string \<Rightarrow> string \<times> bool" where
  "parse_country s = (let c = to_upper (trim_space s) in (c, jurisdiction_pattern c))"

definition parse_jurisdiction :: "string \<Rightarrow> gerr + string" where
  "parse_jurisdiction s =
     (let (j, ok) = parse_country s in
      if \<not> ok then Inl (Leaf (Regulatory ErrInvalidDataset)) else Inr j)"

definition eu_member_states :: "string list" where
  "eu_member_states = [''AT'', ''BE'', ''BG'', ''CY'', ''CZ'', ''DE'', ''DK'', ''EE'', ''ES'',
     ''FI'', ''FR'', ''GR'', ''HR'', ''HU'', ''IE'', ''IT'', ''LT'', ''LU'', ''LV'', ''MT'',
     ''NL'', ''PL'', ''PT'', ''RO'', ''SE'', ''SI'', ''SK'']"

definition import_jurisdiction :: "string \<Rightarrow> string" where
  "import_jurisdiction country = (if country \<in> set eu_member_states then ''EU'' else country)"

subsection \<open>The dataset entity\<close>

datatype ds_status = StatusLoaded | StatusActive | StatusSuperseded | StatusRejected

record review =
  rv_by :: string
  rv_note :: string
  rv_at :: instant

record dataset =
  ds_id :: string
  ds_jurisdiction :: string
  ds_category :: category
  ds_source :: string
  ds_version :: string
  ds_fetched_at :: instant
  ds_content_sha256 :: string
  ds_licence :: string
  ds_attribution :: string
  ds_loaded_by :: string
  ds_requires_review :: bool
  ds_status :: ds_status
  ds_review :: "review option"
  ds_activated_at :: "instant option"
  ds_superseded_at :: "instant option"
  ds_rejected_reason :: string

record new_dataset_params =
  np_jurisdiction :: string
  np_category :: string
  np_source :: string
  np_version :: string
  np_fetched_at :: instant
  np_content_sha256 :: string
  np_licence :: string
  np_attribution :: string
  np_loaded_by :: string
  np_requires_review :: bool

definition validate_provenance :: "dataset \<Rightarrow> instant \<Rightarrow> gerr + unit" where
  "validate_provenance d fetched_at =
     (if ds_source d = [] \<or> ds_version d = [] \<or> ds_licence d = [] \<or> ds_attribution d = []
         \<or> ds_loaded_by d = [] then Inl (Leaf (Regulatory ErrInvalidDataset))
      else if is_zero fetched_at then Inl (Leaf (Regulatory ErrInvalidDataset))
      else if ds_content_sha256 d = replicate 32 (CHR 0x00) then Inl (Leaf (Regulatory ErrInvalidDataset))
      else Inr ())"

definition new_dataset :: "gerr + string \<Rightarrow> new_dataset_params \<Rightarrow> gerr + dataset" where
  "new_dataset uuid p =
     bindr (parse_jurisdiction (np_jurisdiction p)) (\<lambda>jurisdiction.
     bindr (parse_category (np_category p)) (\<lambda>category.
     let d = \<lparr>ds_id = [], ds_jurisdiction = jurisdiction, ds_category = category,
              ds_source = trim_space (np_source p), ds_version = trim_space (np_version p),
              ds_fetched_at = np_fetched_at p, ds_content_sha256 = np_content_sha256 p,
              ds_licence = trim_space (np_licence p), ds_attribution = trim_space (np_attribution p),
              ds_loaded_by = trim_space (np_loaded_by p), ds_requires_review = np_requires_review p,
              ds_status = StatusLoaded, ds_review = None, ds_activated_at = None,
              ds_superseded_at = None, ds_rejected_reason = []\<rparr>
     in bindr (validate_provenance d (np_fetched_at p)) (\<lambda>_.
        bindr (mapl Wrap uuid) (\<lambda>i. Inr (d\<lparr>ds_id := i\<rparr>)))))"

definition record_review ::
  "(string \<Rightarrow> string) \<Rightarrow> dataset \<Rightarrow> string \<Rightarrow> string \<Rightarrow> instant \<Rightarrow> gerr + dataset" where
  "record_review fold_case d by_raw note_raw now =
     (if ds_status d \<noteq> StatusLoaded \<or> ds_review d \<noteq> None
      then Inl (Leaf (Regulatory ErrInvalidTransition))
      else let by = trim_space by_raw; note = trim_space note_raw in
        if by = [] \<or> note = [] then Inl (Leaf (Regulatory ErrInvalidReview))
        else if fold_case by = fold_case (ds_loaded_by d)
        then Inl (Leaf (Regulatory ErrReviewerIsLoader))
        else Inr (d\<lparr>ds_review := Some \<lparr>rv_by = by, rv_note = note, rv_at = now\<rparr>\<rparr>))"

definition activate :: "dataset \<Rightarrow> instant \<Rightarrow> gerr + dataset" where
  "activate d now =
     (if ds_status d \<noteq> StatusLoaded then Inl (Leaf (Regulatory ErrInvalidTransition))
      else if ds_requires_review d \<and> ds_review d = None then Inl (Leaf (Regulatory ErrReviewRequired))
      else Inr (d\<lparr>ds_status := StatusActive, ds_activated_at := Some now\<rparr>))"

definition supersede :: "dataset \<Rightarrow> instant \<Rightarrow> gerr + dataset" where
  "supersede d now =
     (if ds_status d \<noteq> StatusActive then Inl (Leaf (Regulatory ErrInvalidTransition))
      else case ds_activated_at d of None \<Rightarrow> Inl nil_deref
      | Some activated \<Rightarrow>
          if now < activated then Inl (Leaf (Regulatory ErrInvalidTransition))
          else Inr (d\<lparr>ds_status := StatusSuperseded, ds_superseded_at := Some now\<rparr>))"

definition reject :: "dataset \<Rightarrow> string \<Rightarrow> gerr + dataset" where
  "reject d reason_raw =
     (if ds_status d \<noteq> StatusLoaded then Inl (Leaf (Regulatory ErrInvalidTransition))
      else let reason = trim_space reason_raw in
        if reason = [] then Inl (Leaf (Regulatory ErrInvalidDataset))
        else Inr (d\<lparr>ds_status := StatusRejected, ds_rejected_reason := reason\<rparr>))"

subsection \<open>Curated rules\<close>

record validity =
  vd_from :: instant
  vd_to :: "instant option"

definition calendar_date :: "ztime \<Rightarrow> instant" where
  "calendar_date t = (zt_instant t + zt_offset t) div day_ns * day_ns"

definition new_validity :: "ztime \<Rightarrow> ztime option \<Rightarrow> gerr + validity" where
  "new_validity from to =
     (if is_zero (zt_instant from) then Inl (Leaf (Regulatory ErrInvalidRule))
      else let f = calendar_date from; t = map_option calendar_date to in
        if (case t of None \<Rightarrow> False | Some e \<Rightarrow> \<not> e > f) then Inl (Leaf (Regulatory ErrInvalidRule))
        else Inr \<lparr>vd_from = f, vd_to = t\<rparr>)"

record import_restriction =
  ir_hs_code :: string
  ir_origin_country :: string
  ir_description :: string
  ir_source_reference :: string
  ir_validity :: validity

record permit_requirement =
  pr_hs_code :: string
  pr_origin_country :: string
  pr_permit_code :: string
  pr_issuing_agency :: string
  pr_document_type :: string
  pr_source_reference :: string
  pr_validity :: validity

record curated_rules =
  cr_restrictions :: "import_restriction list"
  cr_permits :: "permit_requirement list"

definition rules_category :: "curated_rules \<Rightarrow> gerr + category" where
  "rules_category r =
     (if cr_restrictions r \<noteq> [] \<and> cr_permits r = [] then Inr CategoryImportRestriction
      else if cr_permits r \<noteq> [] \<and> cr_restrictions r = [] then Inr CategoryPermit
      else if cr_restrictions r = [] \<and> cr_permits r = [] then Inl (Leaf (Regulatory ErrInvalidRule))
      else Inl (Leaf (Regulatory ErrInvalidRule)))"

definition require_fields :: "string list \<Rightarrow> gerr + unit" where
  "require_fields values =
     (if list_ex is_blank values then Inl (Leaf (Regulatory ErrInvalidRule)) else Inr ())"

fun require_all :: "string list list \<Rightarrow> gerr + unit" where
  "require_all [] = Inr ()"
| "require_all (r # rs) = bindr (require_fields r) (\<lambda>_. require_all rs)"

definition validate_rules :: "curated_rules \<Rightarrow> category \<Rightarrow> gerr + unit" where
  "validate_rules r category =
     bindr (rules_category r) (\<lambda>got.
     if got \<noteq> category then Inl (Leaf (Regulatory ErrInvalidRule))
     else bindr (require_all (map (\<lambda>x. [ir_hs_code x, ir_origin_country x, ir_description x,
                   ir_source_reference x]) (cr_restrictions r))) (\<lambda>_.
          require_all (map (\<lambda>x. [pr_hs_code x, pr_origin_country x, pr_permit_code x,
             pr_issuing_agency x, pr_document_type x, pr_source_reference x]) (cr_permits r))))"

subsection \<open>Hold reasons and refresh SLAs\<close>

definition hold_reason :: "gerr \<Rightarrow> string option" where
  "hold_reason e =
     (if err_is e (Regulatory ErrNoCoverage) then Some ''NO_REGULATORY_COVERAGE''
      else if err_is e (Regulatory ErrStaleCoverage) then Some ''STALE_REGULATORY_DATA''
      else if err_is e (Regulatory ErrNoTariffRate) then Some ''NO_TARIFF_RATE''
      else if err_is e (Regulatory ErrAmbiguousTariff) then Some ''AMBIGUOUS_TARIFF''
      else if err_is e (Regulatory ErrUnsupportedMeasure) then Some ''UNSUPPORTED_MEASURE''
      else None)"

type_synonym slas = "category \<rightharpoonup> duration"

definition validate_sla :: "category \<Rightarrow> duration \<Rightarrow> gerr option" where
  "validate_sla c d = (if d \<le> 0 then Some (Leaf (Regulatory ErrInvalidSLA)) else None)"

text \<open>Reading a Go map gives the zero duration for a key it does not hold.\<close>

definition sla_of :: "(category \<rightharpoonup> duration) \<Rightarrow> category \<Rightarrow> duration" where
  "sla_of mp c = (case mp c of None \<Rightarrow> 0 | Some d \<Rightarrow> d)"

definition new_slas :: "(category \<rightharpoonup> duration) \<Rightarrow> gerr + (category \<rightharpoonup> duration)" where
  "new_slas mp =
     (case join_errs (map (\<lambda>c. validate_sla c (sla_of mp c)) categories) of
        Some e \<Rightarrow> Inl e | None \<Rightarrow> Inr mp)"

fun stale_at :: "duration \<Rightarrow> dataset list \<Rightarrow> instant \<Rightarrow> gerr + unit" where
  "stale_at sla [] at = Inr ()"
| "stale_at sla (d # ds) at =
     (if time_sub at (ds_fetched_at d) > sla then Inl (Leaf (Regulatory ErrStaleCoverage))
      else stale_at sla ds at)"

definition check_slas :: "(category \<rightharpoonup> duration) \<Rightarrow> category \<Rightarrow> dataset list \<Rightarrow> instant \<Rightarrow> gerr + unit" where
  "check_slas s category active at =
     (if active = [] then Inl (Leaf (Regulatory ErrNoCoverage))
      else stale_at (sla_of s category) active at)"

subsection \<open>The lifecycle as a step relation\<close>

text \<open>
  A dataset in the hands of any caller: created by \<open>NewDataset\<close>, then changed only by the four
  operations of the entity. Times need not increase from one operation to the next.
\<close>

inductive ds_step :: "(string \<Rightarrow> string) \<Rightarrow> dataset \<Rightarrow> dataset \<Rightarrow> bool" for fc where
  review: "record_review fc d who nt now = Inr d' \<Longrightarrow> ds_step fc d d'"
| activate: "activate d now = Inr d' \<Longrightarrow> ds_step fc d d'"
| supersede: "supersede d now = Inr d' \<Longrightarrow> ds_step fc d d'"
| reject: "reject d reason = Inr d' \<Longrightarrow> ds_step fc d d'"

inductive ds_reachable :: "(string \<Rightarrow> string) \<Rightarrow> dataset \<Rightarrow> bool" for fc where
  new: "new_dataset uuid p = Inr d \<Longrightarrow> ds_reachable fc d"
| step: "ds_reachable fc d \<Longrightarrow> ds_step fc d d' \<Longrightarrow> ds_reachable fc d'"

text \<open>
  What the CHECK constraints of migration 000023 ask of a row: the columns each status may have,
  a complete review by someone other than the loader, and a review before activation.
\<close>

fun status_columns :: "ds_status \<Rightarrow> instant option \<Rightarrow> instant option \<Rightarrow> string \<Rightarrow> bool" where
  "status_columns StatusLoaded a s r \<longleftrightarrow> a = None \<and> s = None \<and> r = []"
| "status_columns StatusActive a s r \<longleftrightarrow> a \<noteq> None \<and> s = None \<and> r = []"
| "status_columns StatusSuperseded a s r \<longleftrightarrow> (case (a, s) of (Some x, Some y) \<Rightarrow> x \<le> y | _ \<Rightarrow> False) \<and> r = []"
| "status_columns StatusRejected a s r \<longleftrightarrow> a = None \<and> s = None \<and> \<not> is_blank r"

declare status_columns.simps(3) [simp del]

lemma status_columns_superseded [simp]:
  "status_columns StatusSuperseded a s r \<longleftrightarrow> (\<exists>x y. a = Some x \<and> s = Some y \<and> x \<le> y) \<and> r = []"
  by (auto simp: status_columns.simps(3) split: option.splits)

definition review_ok :: "(string \<Rightarrow> string) \<Rightarrow> dataset \<Rightarrow> bool" where
  "review_ok fc d \<longleftrightarrow> pred_option (\<lambda>r. \<not> is_blank (rv_by r) \<and>
     \<not> is_blank (rv_note r) \<and> fc (rv_by r) \<noteq> fc (ds_loaded_by d)) (ds_review d)"

definition provenance_ok :: "dataset \<Rightarrow> bool" where
  "provenance_ok d \<longleftrightarrow> list_all (\<lambda>s. \<not> is_blank s)
     [ds_source d, ds_version d, ds_licence d, ds_attribution d, ds_loaded_by d]
     \<and> jurisdiction_pattern (ds_jurisdiction d) \<and> \<not> is_zero (ds_fetched_at d)"

definition ds_inv :: "(string \<Rightarrow> string) \<Rightarrow> dataset \<Rightarrow> bool" where
  "ds_inv fc d \<longleftrightarrow>
     status_columns (ds_status d) (ds_activated_at d) (ds_superseded_at d) (ds_rejected_reason d)
     \<and> review_ok fc d
     \<and> (ds_requires_review d \<longrightarrow> ds_activated_at d \<noteq> None \<longrightarrow> ds_review d \<noteq> None)
     \<and> provenance_ok d"

lemmas dataset_ops = record_review_def activate_def supersede_def reject_def Let_def

lemma is_blank_trim_iff [simp]: "trim_space s = [] \<longleftrightarrow> is_blank s"
  by (simp add: is_blank_def)

lemma new_dataset_inv: "new_dataset uuid p = Inr d \<Longrightarrow> ds_inv fc d"
  by (auto simp: new_dataset_def bindr_Inr_iff Let_def ds_inv_def review_ok_def provenance_ok_def
       validate_provenance_def parse_jurisdiction_def parse_country_def split: if_splits)

lemma ds_step_inv: "ds_step fc d d' \<Longrightarrow> ds_inv fc d \<Longrightarrow> ds_inv fc d'"
proof (induction rule: ds_step.induct)
  case (review d who nt now d')
  then show ?case
    by (auto simp: record_review_def Let_def ds_inv_def review_ok_def provenance_ok_def split: if_splits)
next
  case (activate d now d')
  then show ?case
    by (auto simp: activate_def ds_inv_def review_ok_def provenance_ok_def split: if_splits)
next
  case (supersede d now d')
  then show ?case
    by (auto simp: supersede_def ds_inv_def review_ok_def provenance_ok_def
        split: if_splits option.splits)
next
  case (reject d reason d')
  then show ?case
    by (auto simp: reject_def Let_def ds_inv_def review_ok_def provenance_ok_def split: if_splits)
qed


definition demo_params :: new_dataset_params where
  "demo_params = \<lparr>np_jurisdiction = '' us'', np_category = ''Tariff'', np_source = ''USITC'',
     np_version = ''2026-01'', np_fetched_at = 5, np_content_sha256 = replicate 32 (CHR ''a''),
     np_licence = ''PD'', np_attribution = ''USITC '', np_loaded_by = ''ana'', np_requires_review = True\<rparr>"

definition demo_loaded :: dataset where
  "demo_loaded = \<lparr>ds_id = ''d1'', ds_jurisdiction = ''US'', ds_category = CategoryTariff,
     ds_source = ''USITC'', ds_version = ''2026-01'', ds_fetched_at = 5,
     ds_content_sha256 = replicate 32 (CHR ''a''), ds_licence = ''PD'', ds_attribution = ''USITC'',
     ds_loaded_by = ''ana'', ds_requires_review = True, ds_status = StatusLoaded, ds_review = None,
     ds_activated_at = None, ds_superseded_at = None, ds_rejected_reason = []\<rparr>"

definition demo_active :: dataset where
  "demo_active = demo_loaded\<lparr>ds_review := Some \<lparr>rv_by = ''bo'', rv_note = ''ok'', rv_at = 7\<rparr>,
     ds_status := StatusActive, ds_activated_at := Some 9\<rparr>"

lemma demo_new: "new_dataset (Inr ''d1'') demo_params = Inr demo_loaded"
  by code_simp

lemma demo_review: "record_review (\<lambda>s. s) demo_loaded ''bo '' ''ok'' 7 =
    Inr (demo_loaded\<lparr>ds_review := Some \<lparr>rv_by = ''bo'', rv_note = ''ok'', rv_at = 7\<rparr>\<rparr>)"
  by code_simp

lemma demo_activate: "activate (demo_loaded\<lparr>ds_review := Some \<lparr>rv_by = ''bo'', rv_note = ''ok'', rv_at = 7\<rparr>\<rparr>) 9
    = Inr demo_active"
  by code_simp


fun status_order :: "ds_status \<Rightarrow> nat" where
  "status_order StatusLoaded = 0" | "status_order StatusActive = 1"
| "status_order StatusSuperseded = 2" | "status_order StatusRejected = 2"

lemma ds_step_status:
  "ds_step fc d d' \<Longrightarrow> (ds_status d, ds_status d') \<in>
     {(StatusLoaded, StatusLoaded), (StatusLoaded, StatusActive),
      (StatusLoaded, StatusRejected), (StatusActive, StatusSuperseded)}"
  by (induction rule: ds_step.induct) (auto simp: dataset_ops split: if_splits option.splits)

inductive_cases ds_step_elim: "ds_step fc d d'"

lemma ds_final:
  "ds_status d = StatusSuperseded \<or> ds_status d = StatusRejected \<Longrightarrow> \<not> ds_step fc d d'"
  by (auto dest: ds_step_status)

text \<open>An immutable load: no step changes the provenance of a dataset, or a review once recorded.\<close>

lemma ds_step_provenance [frames]:
  "ds_step fc d d' \<Longrightarrow> ds_id d' = ds_id d \<and> ds_jurisdiction d' = ds_jurisdiction d
     \<and> ds_category d' = ds_category d \<and> ds_source d' = ds_source d \<and> ds_version d' = ds_version d
     \<and> ds_fetched_at d' = ds_fetched_at d \<and> ds_content_sha256 d' = ds_content_sha256 d
     \<and> ds_loaded_by d' = ds_loaded_by d \<and> ds_requires_review d' = ds_requires_review d"
  by (induction rule: ds_step.induct) (auto simp: dataset_ops split: if_splits option.splits)

lemma ds_step_review_kept: "ds_step fc d d' \<Longrightarrow> ds_review d = Some r \<Longrightarrow> ds_review d' = Some r"
  by (induction rule: ds_step.induct) (auto simp: dataset_ops split: if_splits option.splits)

lemma stale_at_ok: "stale_at sla ds at = Inr () \<longleftrightarrow> (\<forall>d \<in> set ds. time_sub at (ds_fetched_at d) \<le> sla)"
  by (induction ds) auto

lemma time_sub_le: "t - u \<le> sla \<Longrightarrow> - (2 ^ 63) \<le> sla \<Longrightarrow> time_sub t u \<le> sla"
  by (auto simp: time_sub_def)

lemma time_sub_le_iff: "- (2 ^ 63) \<le> sla \<Longrightarrow> sla < max_duration \<Longrightarrow> time_sub t u \<le> sla \<longleftrightarrow> t - u \<le> sla"
  by (auto simp: time_sub_def)

lemma stale_at_result: "stale_at sla ds at \<noteq> Inr () \<Longrightarrow> stale_at sla ds at = Inl (Leaf (Regulatory ErrStaleCoverage))"
  by (induction ds) auto

lemma all_categories: "c \<in> set categories"
  by (cases c) (simp_all add: categories_def)

lemma new_slas_iff: "new_slas m = Inr s \<longleftrightarrow> s = m \<and> (\<forall>c. 0 < sla_of m c)"
proof -
  have "join_errs (map (\<lambda>c. validate_sla c (sla_of m c)) categories) = None
      \<longleftrightarrow> (\<forall>c \<in> set categories. 0 < sla_of m c)"
    unfolding join_errs_None_iff set_map ball_simps
    by (rule ball_cong) (simp_all add: validate_sla_def not_le)
  then show ?thesis by (auto simp: new_slas_def all_categories split: option.splits)
qed

lemma stale_at_cases: "stale_at sla ds at = Inr () \<or> stale_at sla ds at = Inl (Leaf (Regulatory ErrStaleCoverage))"
  by (induction ds) auto



end
