(* ===== verification/Tariff.thy ===== *)
theory Tariff
  imports Dataset "HOL-Library.Multiset" "HOL-Library.Product_Lexorder"
begin

text \<open>
  \<open>internal/domain/regulatory/tariff.go\<close>: HS codes, tariff queries, and the choice of the rules
  in force for a query. The decimals of \<open>shopspring/decimal\<close> are the type parameter \<open>'d\<close>; its
  zero and its sum are arguments of \<open>ad_valorem_percent\<close>. \<open>resolve_tariff\<close> is compared with
  \<open>most_specific_in\<close>, a specification over the multiset of candidates that fixes neither their
  order nor how the best one is found.
\<close>

subsection \<open>Queries\<close>

definition hs_code_pattern :: "string \<Rightarrow> bool" where
  "hs_code_pattern s \<longleftrightarrow> list_all is_digit_ascii s \<and> even (length s) \<and> 2 \<le> length s \<and> length s \<le> 10"

definition parse_hs_code :: "string \<Rightarrow> gerr + string" where
  "parse_hs_code s =
     (let code = filter (\<lambda>c. c \<noteq> CHR ''.'' \<and> c \<noteq> CHR '' '') s in
      if \<not> hs_code_pattern code then Inl (Leaf (Regulatory ErrInvalidTariffQuery)) else Inr code)"

record tariff_query =
  tq_jurisdiction :: string
  tq_origin :: string
  tq_hs_code :: string
  tq_transaction_at :: instant
  tq_evaluated_at :: instant

record tariff_query_params =
  tp_destination :: string
  tp_origin :: string
  tp_hs_code :: string
  tp_transaction_at :: instant
  tp_evaluated_at :: instant

definition new_tariff_query :: "tariff_query_params \<Rightarrow> gerr + tariff_query" where
  "new_tariff_query p =
     (let (destination, ok) = parse_country (tp_destination p) in
      if \<not> ok then Inl (Leaf (Regulatory ErrInvalidTariffQuery))
      else let (origin, ok') = parse_country (tp_origin p) in
      if \<not> ok' then Inl (Leaf (Regulatory ErrInvalidTariffQuery))
      else let jurisdiction = import_jurisdiction destination in
      if import_jurisdiction origin = jurisdiction then Inl (Leaf (Regulatory ErrInvalidTariffQuery))
      else bindr (parse_hs_code (tp_hs_code p)) (\<lambda>hs.
      if is_zero (tp_transaction_at p) \<or> is_zero (tp_evaluated_at p)
      then Inl (Leaf (Regulatory ErrInvalidTariffQuery))
      else Inr \<lparr>tq_jurisdiction = jurisdiction, tq_origin = origin, tq_hs_code = hs,
                tq_transaction_at = tp_transaction_at p, tq_evaluated_at = tp_evaluated_at p\<rparr>))"

definition transaction_date :: "tariff_query \<Rightarrow> instant" where
  "transaction_date q = calendar_date (utc (tq_transaction_at q))"

text \<open>The loop \<open>for n := len(hsCode); n >= 2; n -= 2\<close>.\<close>

fun prefixes_from :: "string \<Rightarrow> nat \<Rightarrow> string list" where
  "prefixes_from s 0 = []"
| "prefixes_from s (Suc 0) = []"
| "prefixes_from s (Suc (Suc n)) = take (Suc (Suc n)) s # prefixes_from s n"

definition hs_prefixes :: "tariff_query \<Rightarrow> string list" where
  "hs_prefixes q = prefixes_from (tq_hs_code q) (length (tq_hs_code q))"

subsection \<open>Measures\<close>

datatype measure_type = MeasureMFN | MeasureAdditionalDuty
datatype rate_type = RateAdValorem | RateSpecific | RateCompound | RateUnsupported

record 'd specific_duty =
  sd_amount :: 'd
  sd_currency :: string
  sd_unit :: string

record 'd tariff_measure =
  tm_id :: string
  tm_dataset_id :: string
  tm_hs_code :: string
  tm_origin_country :: string
  tm_measure_type :: measure_type
  tm_measure_code :: string
  tm_rate_type :: rate_type
  tm_ad_valorem :: "'d option"
  tm_specific :: "'d specific_duty option"
  tm_rate_expression :: string
  tm_source_reference :: string
  tm_validity :: validity

record 'd tariff_resolution =
  tr_query :: tariff_query
  tr_datasets :: "dataset list"
  tr_measures :: "'d tariff_measure list"

definition ad_valorem_percent :: "'d \<Rightarrow> ('d \<Rightarrow> 'd \<Rightarrow> 'd) \<Rightarrow> 'd tariff_resolution \<Rightarrow> 'd" where
  "ad_valorem_percent zero add r = fold (\<lambda>m total.
     (case tm_ad_valorem m of None \<Rightarrow> total | Some x \<Rightarrow> add total x)) (tr_measures r) zero"

type_synonym measure_key = "measure_type \<times> string"

definition key_of :: "'d tariff_measure \<Rightarrow> measure_key" where
  "key_of m = (tm_measure_type m, tm_measure_code m)"

subsection \<open>Resolution\<close>

definition bool_rank :: "bool \<Rightarrow> nat" where
  "bool_rank b = (if b then 1 else 0)"

definition go_cmp :: "'a::linorder \<Rightarrow> 'a \<Rightarrow> int" where
  "go_cmp a b = (if a < b then - 1 else if a = b then 0 else 1)"

text \<open>\<open>cmp.Or\<close>: the first argument that is not zero.\<close>

definition cmp_or :: "int \<Rightarrow> int \<Rightarrow> int" where
  "cmp_or a b = (if a \<noteq> 0 then a else b)"

definition compare_specificity :: "tariff_query \<Rightarrow> 'd tariff_measure \<Rightarrow> 'd tariff_measure \<Rightarrow> int" where
  "compare_specificity q a b = cmp_or
     (go_cmp (bool_rank (tm_origin_country a = tq_origin q)) (bool_rank (tm_origin_country b = tq_origin q)))
     (go_cmp (length (tm_hs_code a)) (length (tm_hs_code b)))"

definition compare_measure_keys :: "measure_key \<Rightarrow> measure_key \<Rightarrow> int" where
  "compare_measure_keys a b = cmp_or
     (go_cmp (bool_rank (fst b = MeasureMFN)) (bool_rank (fst a = MeasureMFN)))
     (go_cmp (snd a) (snd b))"

type_synonym best_state = "(measure_key \<rightharpoonup> nat) \<times> (measure_key \<Rightarrow> bool)"

definition best_step :: "tariff_query \<Rightarrow> 'd tariff_measure list \<Rightarrow> nat \<Rightarrow> best_state \<Rightarrow> best_state" where
  "best_step q candidates i s =
     (let (best, tied) = s; key = key_of (candidates ! i) in
      case best key of
        None \<Rightarrow> (best(key \<mapsto> i), tied)
      | Some j \<Rightarrow>
          let c = compare_specificity q (candidates ! i) (candidates ! j) in
          if c > 0 then (best(key \<mapsto> i), tied(key := False))
          else if c = 0 then (best, tied(key := True))
          else (best, tied))"

definition most_specific :: "tariff_query \<Rightarrow> 'd tariff_measure list \<Rightarrow> best_state" where
  "most_specific q candidates =
     fold (best_step q candidates) [0..<length candidates] (Map.empty, \<lambda>_. False)"

text \<open>
  The keys are taken from the map in an unspecified order and sorted; \<open>sorted_keys\<close> inserts them
  in the order of \<open>compareMeasureKeys\<close>, under which two different keys never tie.
\<close>

fun insert_key :: "measure_key \<Rightarrow> measure_key list \<Rightarrow> measure_key list" where
  "insert_key k [] = [k]"
| "insert_key k (x # xs) = (if compare_measure_keys k x \<le> 0 then k # x # xs else x # insert_key k xs)"

definition sorted_keys :: "measure_key list \<Rightarrow> measure_key list" where
  "sorted_keys ks = foldr insert_key ks []"

fun pick_measures ::
  "'d tariff_measure list \<Rightarrow> best_state \<Rightarrow> measure_key list \<Rightarrow> gerr + 'd tariff_measure list" where
  "pick_measures candidates s [] = Inr []"
| "pick_measures candidates s (k # ks) =
     (let m = candidates ! the (fst s k) in
      if snd s k then Inl (Leaf (Regulatory ErrAmbiguousTariff))
      else if tm_rate_type m = RateUnsupported then Inl (Leaf (Regulatory ErrUnsupportedMeasure))
      else bindr (pick_measures candidates s ks) (\<lambda>ms. Inr (m # ms)))"

definition resolve_tariff ::
  "tariff_query \<Rightarrow> dataset list \<Rightarrow> 'd tariff_measure list \<Rightarrow> gerr + 'd tariff_resolution" where
  "resolve_tariff q datasets candidates =
     (let s = most_specific q candidates in
      if fst s (MeasureMFN, []) = None then Inl (Leaf (Regulatory ErrNoTariffRate))
      else bindr (pick_measures candidates s (sorted_keys (remdups (map key_of candidates)))) (\<lambda>ms.
        Inr \<lparr>tr_query = q, tr_datasets = datasets, tr_measures = ms\<rparr>))"

subsection \<open>The candidate a query must use\<close>

definition rank :: "tariff_query \<Rightarrow> 'd tariff_measure \<Rightarrow> nat \<times> nat" where
  "rank q m = (bool_rank (tm_origin_country m = tq_origin q), length (tm_hs_code m))"

text \<open>\<open>m\<close> is in the multiset and beats every other candidate for the same measure.\<close>

definition most_specific_in :: "tariff_query \<Rightarrow> 'd tariff_measure multiset \<Rightarrow> 'd tariff_measure \<Rightarrow> bool" where
  "most_specific_in q M m \<longleftrightarrow> m \<in># M \<and>
     (\<forall>m' \<in># M - {#m#}. key_of m' = key_of m \<longrightarrow> rank q m' < rank q m)"

lemma compare_specificity_pos: "0 < compare_specificity q a b \<longleftrightarrow> rank q b < rank q a"
  by (auto simp: compare_specificity_def cmp_or_def go_cmp_def rank_def)

lemma compare_specificity_zero: "compare_specificity q a b = 0 \<longleftrightarrow> rank q a = rank q b"
  by (auto simp: compare_specificity_def cmp_or_def go_cmp_def rank_def)

lemma most_specific_in_unique:
  assumes "most_specific_in q M m" "most_specific_in q M m'" "key_of m = key_of m'"
  shows "m = m'"
proof (rule ccontr)
  assume "m \<noteq> m'"
  with assms have "m' \<in># M - {#m#}" "m \<in># M - {#m'#}"
    by (auto simp: most_specific_in_def in_diff_count)
  with assms have "rank q m' < rank q m" "rank q m < rank q m'"
    by (auto simp: most_specific_in_def)
  then show False by simp
qed

lemma most_specific_in_index:
  assumes "i < length cs"
  shows "most_specific_in q (mset cs) (cs ! i) \<longleftrightarrow>
    (\<forall>j < length cs. j \<noteq> i \<longrightarrow> key_of (cs ! j) = key_of (cs ! i) \<longrightarrow> rank q (cs ! j) < rank q (cs ! i))"
proof -
  have cs: "cs = take i cs @ cs ! i # drop (Suc i) cs" using assms by (simp add: id_take_nth_drop)
  have "mset cs - {#cs ! i#} = mset (take i cs @ drop (Suc i) cs)"
    by (subst cs) (simp add: union_assoc)
  moreover have "x \<in> set (take i cs @ drop (Suc i) cs) \<longleftrightarrow> (\<exists>j < length cs. j \<noteq> i \<and> cs ! j = x)" for x
  proof -
    have "x \<in> set (take i cs) \<longleftrightarrow> (\<exists>j < i. cs ! j = x)"
      using assms by (auto simp: in_set_conv_nth)
    moreover have "x \<in> set (drop (Suc i) cs) \<longleftrightarrow> (\<exists>j < length cs. i < j \<and> cs ! j = x)"
    proof
      assume "x \<in> set (drop (Suc i) cs)"
      then obtain k where "k < length cs - Suc i" "cs ! (Suc i + k) = x"
        by (auto simp: in_set_conv_nth)
      then show "\<exists>j < length cs. i < j \<and> cs ! j = x" by (intro exI [of _ "Suc i + k"]) auto
    next
      assume "\<exists>j < length cs. i < j \<and> cs ! j = x"
      then obtain j where j: "j < length cs" "i < j" "cs ! j = x" by blast
      then have "drop (Suc i) cs ! (j - Suc i) = x" "j - Suc i < length (drop (Suc i) cs)" by auto
      then show "x \<in> set (drop (Suc i) cs)" by (metis nth_mem)
    qed
    ultimately show ?thesis using assms by (auto intro: less_trans) (metis nat_neq_iff)
  qed
  ultimately have "x \<in># mset cs - {#cs ! i#} \<longleftrightarrow> (\<exists>j < length cs. j \<noteq> i \<and> cs ! j = x)" for x
    by (simp only: set_mset_mset)
  moreover have "cs ! i \<in># mset cs" using assms by simp
  ultimately show ?thesis by (auto simp only: most_specific_in_def Ball_def)
qed

subsection \<open>What \<open>mostSpecific\<close> computes\<close>

definition best_at :: "tariff_query \<Rightarrow> 'd tariff_measure list \<Rightarrow> nat \<Rightarrow> best_state \<Rightarrow> measure_key \<Rightarrow> bool" where
  "best_at q cs n s k \<longleftrightarrow> (case fst s k of
     None \<Rightarrow> (\<forall>j < n. key_of (cs ! j) \<noteq> k) \<and> \<not> snd s k
   | Some i \<Rightarrow> i < n \<and> key_of (cs ! i) = k \<and>
       (\<forall>j < n. key_of (cs ! j) = k \<longrightarrow> rank q (cs ! j) \<le> rank q (cs ! i)) \<and>
       (snd s k \<longleftrightarrow> (\<exists>j < n. j \<noteq> i \<and> key_of (cs ! j) = k \<and> rank q (cs ! j) = rank q (cs ! i))))"

lemma best_step_other:
  "k \<noteq> key_of (cs ! n) \<Longrightarrow> best_at q cs n s k \<Longrightarrow> best_at q cs (Suc n) (best_step q cs n s) k"
  by (cases s) (auto simp: best_at_def best_step_def Let_def less_Suc_eq split: option.splits)

lemma best_step_same:
  assumes "best_at q cs n s (key_of (cs ! n))"
  shows "best_at q cs (Suc n) (best_step q cs n s) (key_of (cs ! n))"
proof -
  obtain best tied where s: "s = (best, tied)" by (cases s)
  show ?thesis
  proof (cases "best (key_of (cs ! n))")
    case None
    with assms s show ?thesis by (auto simp: best_at_def best_step_def less_Suc_eq)
  next
    case (Some i)
    consider "rank q (cs ! i) < rank q (cs ! n)" | "rank q (cs ! n) = rank q (cs ! i)"
      | "rank q (cs ! n) < rank q (cs ! i)" by fastforce
    then show ?thesis
    proof cases
      case 1
      with Some s assms have "\<forall>j < n. key_of (cs ! j) = key_of (cs ! n) \<longrightarrow> rank q (cs ! j) < rank q (cs ! n)"
        by (auto simp: best_at_def)
      with 1 Some s assms show ?thesis
        by (fastforce simp: best_at_def best_step_def Let_def compare_specificity_pos less_Suc_eq)
    next
      case 2
      with Some s assms show ?thesis
        by (auto simp: best_at_def best_step_def Let_def compare_specificity_pos
            compare_specificity_zero less_Suc_eq)
    next
      case 3
      then have "\<not> 0 < compare_specificity q (cs ! n) (cs ! i)" "compare_specificity q (cs ! n) (cs ! i) \<noteq> 0"
        by (auto simp: compare_specificity_pos compare_specificity_zero)
      with 3 Some s assms show ?thesis
        by (auto simp: best_at_def best_step_def Let_def less_Suc_eq)
    qed
  qed
qed

lemma most_specific_at: "best_at q cs (length cs) (most_specific q cs) k"
proof -
  have "best_at q cs n (fold (best_step q cs) [0..<n] (Map.empty, \<lambda>_. False)) k" for n
    by (induction n) (simp add: best_at_def, simp, metis best_step_other best_step_same)
  then show ?thesis by (simp add: most_specific_def)
qed

subsection \<open>The order of the keys\<close>

definition key_less :: "measure_key \<Rightarrow> measure_key \<Rightarrow> bool" where
  "key_less a b \<longleftrightarrow> (fst a = MeasureMFN \<and> fst b = MeasureAdditionalDuty) \<or> (fst a = fst b \<and> snd a < snd b)"

lemma compare_measure_keys_less: "compare_measure_keys a b \<le> 0 \<longleftrightarrow> key_less a b \<or> a = b"
  by (cases a; cases b; cases "fst a"; cases "fst b")
     (auto simp: compare_measure_keys_def key_less_def cmp_or_def go_cmp_def bool_rank_def)

lemma key_less_total: "key_less a b \<or> a = b \<or> key_less b a"
  by (cases a; cases b; cases "fst a"; cases "fst b") (auto simp: key_less_def)

lemma key_less_trans: "key_less a b \<Longrightarrow> key_less b c \<Longrightarrow> key_less a c"
  by (auto simp: key_less_def)

lemma key_less_irrefl [simp]: "\<not> key_less a a"
  by (auto simp: key_less_def)

lemma set_insert_key [simp]: "set (insert_key k xs) = insert k (set xs)"
  by (induction xs) auto

lemma insert_key_sorted:
  "sorted_wrt key_less xs \<Longrightarrow> k \<notin> set xs \<Longrightarrow> sorted_wrt key_less (insert_key k xs)"
proof (induction xs)
  case Nil
  then show ?case by simp
next
  case (Cons x xs)
  then show ?case
    using key_less_total [of k x] by (auto simp: compare_measure_keys_less intro: key_less_trans)
qed

lemma set_sorted_keys [simp]: "set (sorted_keys ks) = set ks"
  by (induction ks) (simp_all add: sorted_keys_def)

lemma sorted_keys_sorted: "distinct ks \<Longrightarrow> sorted_wrt key_less (sorted_keys ks)"
proof (induction ks)
  case Nil
  then show ?case by (simp add: sorted_keys_def)
next
  case (Cons k ks)
  then show ?case using insert_key_sorted set_sorted_keys [of ks] by (simp add: sorted_keys_def)
qed

lemma key_less_sorted_unique:
  "sorted_wrt key_less xs \<Longrightarrow> sorted_wrt key_less ys \<Longrightarrow> set xs = set ys \<Longrightarrow> xs = ys"
proof (induction xs arbitrary: ys)
  case Nil
  then show ?case by simp
next
  case (Cons x xs)
  from Cons.prems obtain y zs where ys: "ys = y # zs" by (cases ys) auto
  have x: "x \<notin> set xs" using Cons.prems(1) key_less_irrefl by (auto dest: bspec)
  have y: "y \<notin> set zs" using Cons.prems(2) ys key_less_irrefl by (auto dest: bspec)
  have "x = y"
  proof (rule ccontr)
    assume "x \<noteq> y"
    with Cons.prems ys have "x \<in> set zs" "y \<in> set xs" by auto
    with Cons.prems ys have "key_less y x" "key_less x y" by auto
    then show False using key_less_trans key_less_irrefl by blast
  qed
  moreover from this Cons.prems ys x y have "set xs = set zs" by (auto simp: set_eq_iff)
  ultimately show ?case using Cons.IH [of zs] Cons.prems ys by simp
qed

subsection \<open>Resolution meets its specification\<close>

lemma pick_measures_Inr:
  "pick_measures cs s ks = Inr ms \<longleftrightarrow>
     ms = map (\<lambda>k. cs ! the (fst s k)) ks \<and>
     (\<forall>k \<in> set ks. \<not> snd s k \<and> tm_rate_type (cs ! the (fst s k)) \<noteq> RateUnsupported)"
  by (induction ks arbitrary: ms) (auto simp: Let_def bindr_Inr_iff)

lemma pick_measures_Inl:
  "pick_measures cs s ks = Inl e \<Longrightarrow>
     (\<exists>k \<in> set ks. snd s k \<and> e = Leaf (Regulatory ErrAmbiguousTariff)) \<or>
     (\<exists>k \<in> set ks. tm_rate_type (cs ! the (fst s k)) = RateUnsupported \<and>
        e = Leaf (Regulatory ErrUnsupportedMeasure))"
  by (induction ks) (auto simp: Let_def bindr_Inl_iff split: if_splits)

lemma best_of_key:
  assumes "k \<in> key_of ` set cs"
  obtains i where "fst (most_specific q cs) k = Some i" "i < length cs" "key_of (cs ! i) = k"
    "\<forall>j < length cs. key_of (cs ! j) = k \<longrightarrow> rank q (cs ! j) \<le> rank q (cs ! i)"
    "snd (most_specific q cs) k \<longleftrightarrow> (\<exists>j < length cs. j \<noteq> i \<and> key_of (cs ! j) = k \<and> rank q (cs ! j) = rank q (cs ! i))"
proof -
  from assms obtain j where "j < length cs" "key_of (cs ! j) = k" by (auto simp: in_set_conv_nth)
  with most_specific_at [of q cs k] that show ?thesis
    by (auto simp: best_at_def split: option.splits)
qed

lemma best_not_tied:
  assumes "k \<in> key_of ` set cs"
  shows "\<not> snd (most_specific q cs) k \<longleftrightarrow>
    most_specific_in q (mset cs) (cs ! the (fst (most_specific q cs) k))"
proof -
  obtain i where i: "fst (most_specific q cs) k = Some i" "i < length cs" "key_of (cs ! i) = k"
    and le: "\<forall>j < length cs. key_of (cs ! j) = k \<longrightarrow> rank q (cs ! j) \<le> rank q (cs ! i)"
    and tied: "snd (most_specific q cs) k \<longleftrightarrow>
      (\<exists>j < length cs. j \<noteq> i \<and> key_of (cs ! j) = k \<and> rank q (cs ! j) = rank q (cs ! i))"
    by (rule best_of_key [OF assms, of q])
  from i le tied show ?thesis
    by (auto simp: most_specific_in_index order_le_less)
qed

lemma mfn_found:
  "fst (most_specific q cs) k = None \<longleftrightarrow> k \<notin> key_of ` set cs"
proof
  assume "fst (most_specific q cs) k = None"
  with most_specific_at [of q cs k] show "k \<notin> key_of ` set cs"
    by (auto simp: best_at_def in_set_conv_nth)
next
  assume "k \<notin> key_of ` set cs"
  with most_specific_at [of q cs k] show "fst (most_specific q cs) k = None"
    by (auto simp: best_at_def split: option.splits)
qed

text \<open>
  The duty in force, as a multiset of candidates determines it: an MFN rate; for every measure one
  candidate that beats all the others; no unsupported rate; MFN first, then programmes in order.
\<close>

definition duty_in_force :: "tariff_query \<Rightarrow> 'd tariff_measure multiset \<Rightarrow> 'd tariff_measure list \<Rightarrow> bool" where
  "duty_in_force q M ms \<longleftrightarrow>
     (MeasureMFN, []) \<in> key_of ` set_mset M
     \<and> key_of ` set ms = key_of ` set_mset M \<and> sorted_wrt key_less (map key_of ms)
     \<and> (\<forall>m \<in> set ms. most_specific_in q M m \<and> tm_rate_type m \<noteq> RateUnsupported)"

lemma duty_in_force_unique:
  assumes "duty_in_force q M ms" "duty_in_force q M ms'"
  shows "ms = ms'"
proof -
  have "map key_of ms = map key_of ms'"
    using assms by (intro key_less_sorted_unique) (auto simp: duty_in_force_def)
  moreover have "inj_on key_of (set ms \<union> set ms')"
    using assms by (auto simp: duty_in_force_def inj_on_def intro: most_specific_in_unique)
  ultimately show ?thesis using inj_on_map_eq_map by blast
qed

lemma chosen_key:
  "k \<in> key_of ` set cs \<Longrightarrow> key_of (cs ! the (fst (most_specific q cs) k)) = k"
  by (rule best_of_key [of k cs q]) auto

lemma chosen_duty:
  assumes "(MeasureMFN, []) \<in> key_of ` set cs"
    and "\<forall>k \<in> key_of ` set cs. \<not> snd (most_specific q cs) k \<and>
      tm_rate_type (cs ! the (fst (most_specific q cs) k)) \<noteq> RateUnsupported"
  shows "duty_in_force q (mset cs) (map (\<lambda>k. cs ! the (fst (most_specific q cs) k))
    (sorted_keys (remdups (map key_of cs))))"
proof -
  have "map key_of (map (\<lambda>k. cs ! the (fst (most_specific q cs) k)) (sorted_keys (remdups (map key_of cs))))
      = sorted_keys (remdups (map key_of cs))"
    by (auto intro!: map_idI simp: chosen_key)
  then show ?thesis using assms
    by (auto simp: duty_in_force_def best_not_tied chosen_key sorted_keys_sorted image_image simp del: map_map)
qed

lemma resolve_tariff_sound:
  assumes "resolve_tariff q ds cs = Inr r"
  shows "duty_in_force q (mset cs) (tr_measures r) \<and> tr_query r = q \<and> tr_datasets r = ds"
proof -
  from assms have "fst (most_specific q cs) (MeasureMFN, []) \<noteq> None"
    and "pick_measures cs (most_specific q cs) (sorted_keys (remdups (map key_of cs))) = Inr (tr_measures r)"
    and "tr_query r = q" "tr_datasets r = ds"
    by (auto simp: resolve_tariff_def Let_def bindr_Inr_iff split: if_splits)
  then show ?thesis using chosen_duty [of cs q] by (auto simp: pick_measures_Inr mfn_found)
qed

lemma duty_measure_of_key:
  assumes "duty_in_force q (mset cs) ms" "k \<in> key_of ` set cs"
  shows "\<not> snd (most_specific q cs) k \<and>
    tm_rate_type (cs ! the (fst (most_specific q cs) k)) \<noteq> RateUnsupported"
proof -
  from assms have "k \<in> key_of ` set ms" by (simp add: duty_in_force_def)
  then obtain m where m: "m \<in> set ms" "key_of m = k" by blast
  with assms have ms: "most_specific_in q (mset cs) m" "tm_rate_type m \<noteq> RateUnsupported"
    by (auto simp: duty_in_force_def)
  then obtain i where i: "i < length cs" "cs ! i = m"
    by (auto simp: most_specific_in_def in_set_conv_nth)
  obtain j where j: "fst (most_specific q cs) k = Some j" "j < length cs" "key_of (cs ! j) = k"
    "\<forall>j' < length cs. key_of (cs ! j') = k \<longrightarrow> rank q (cs ! j') \<le> rank q (cs ! j)"
    by (rule best_of_key [OF assms(2), of q])
  have "i = j"
  proof (rule ccontr)
    assume "i \<noteq> j"
    with ms i j m have "rank q (cs ! j) < rank q (cs ! i)" by (auto simp: most_specific_in_index)
    moreover from i j m have "rank q (cs ! i) \<le> rank q (cs ! j)" by auto
    ultimately show False by simp
  qed
  with i j ms show ?thesis using assms(2) by (simp add: best_not_tied)
qed

lemma resolve_tariff_complete:
  assumes "duty_in_force q (mset cs) ms"
  shows "resolve_tariff q ds cs = Inr \<lparr>tr_query = q, tr_datasets = ds, tr_measures = ms\<rparr>"
proof -
  have all: "\<forall>k \<in> key_of ` set cs. \<not> snd (most_specific q cs) k \<and>
      tm_rate_type (cs ! the (fst (most_specific q cs) k)) \<noteq> RateUnsupported"
    using duty_measure_of_key [OF assms] by blast
  have mfn: "(MeasureMFN, []) \<in> key_of ` set cs" using assms by (simp add: duty_in_force_def)
  define ms' where "ms' = map (\<lambda>k. cs ! the (fst (most_specific q cs) k)) (sorted_keys (remdups (map key_of cs)))"
  have "pick_measures cs (most_specific q cs) (sorted_keys (remdups (map key_of cs))) = Inr ms'"
    using all by (simp add: pick_measures_Inr ms'_def)
  moreover have "ms' = ms"
    using duty_in_force_unique [OF chosen_duty [OF mfn all] assms] by (simp add: ms'_def)
  ultimately show ?thesis using mfn by (simp add: resolve_tariff_def Let_def mfn_found)
qed

text \<open>Claim C11. \<open>ResolveTariff\<close> returns a resolution exactly when the candidates, taken as a
  multiset, determine the duty in force, and it returns that duty: the order in which the
  database lists the candidates never decides which rule applies.\<close>

theorem resolve_tariff_spec:
  "resolve_tariff q ds cs = Inr r \<longleftrightarrow>
     duty_in_force q (mset cs) (tr_measures r) \<and> tr_query r = q \<and> tr_datasets r = ds"
  using resolve_tariff_sound resolve_tariff_complete
  by (metis tariff_resolution.surjective unit.exhaust tariff_resolution.select_convs)

text \<open>Every failure is one a shipment is held for: \<open>HoldReason\<close> maps it.\<close>

lemma resolve_tariff_holds:
  "resolve_tariff q ds cs = Inl e \<Longrightarrow> hold_reason e \<in>
     {Some ''NO_TARIFF_RATE'', Some ''AMBIGUOUS_TARIFF'', Some ''UNSUPPORTED_MEASURE''}"
  by (auto simp: resolve_tariff_def Let_def bindr_Inl_iff hold_reason_def dest!: pick_measures_Inl
      split: if_splits)

subsection \<open>Queries and codes\<close>

lemma parse_hs_code_Inr:
  "parse_hs_code s = Inr c \<longleftrightarrow> c = filter (\<lambda>c. c \<noteq> CHR ''.'' \<and> c \<noteq> CHR '' '') s \<and> hs_code_pattern c"
  by (auto simp: parse_hs_code_def Let_def)

lemma set_prefixes_from:
  "set (prefixes_from s n) = {take m s | m. 2 \<le> m \<and> m \<le> n \<and> (even m \<longleftrightarrow> even n)}"
proof (induction s n rule: prefixes_from.induct)
  case (3 s n)
  have "{take m s | m. 2 \<le> m \<and> m \<le> Suc (Suc n) \<and> (even m \<longleftrightarrow> even (Suc (Suc n)))} =
    insert (take (Suc (Suc n)) s) {take m s | m. 2 \<le> m \<and> m \<le> n \<and> (even m \<longleftrightarrow> even n)}"
    by (auto simp: le_Suc_eq) (rule exI [of _ "Suc (Suc n)"], simp)
  with 3 show ?case by simp
qed (auto simp: le_Suc_eq)

lemma sorted_prefixes_from:
  "n \<le> length s \<Longrightarrow> sorted_wrt (\<lambda>a b. length b < length a) (prefixes_from s n)"
  by (induction s n rule: prefixes_from.induct) (auto simp: set_prefixes_from min_def)

text \<open>The prefixes a query looks up are exactly the valid HS codes its own code starts
  with, longest first; none is missed and none is repeated.\<close>

theorem hs_prefixes_exact:
  assumes "new_tariff_query p = Inr q"
  shows "(c \<in> set (hs_prefixes q) \<longleftrightarrow> hs_code_pattern c \<and> take (length c) (tq_hs_code q) = c)
    \<and> sorted_wrt (\<lambda>a b. length b < length a) (hs_prefixes q)"
proof -
  from assms have code: "hs_code_pattern (tq_hs_code q)"
    by (auto simp: new_tariff_query_def Let_def bindr_Inr_iff parse_hs_code_Inr split: prod.splits if_splits)
  have "c \<in> set (hs_prefixes q) \<longleftrightarrow> hs_code_pattern c \<and> take (length c) (tq_hs_code q) = c"
  proof
    assume "c \<in> set (hs_prefixes q)"
    with code show "hs_code_pattern c \<and> take (length c) (tq_hs_code q) = c"
      by (auto simp: hs_prefixes_def set_prefixes_from hs_code_pattern_def list_all_iff min_def
          dest: in_set_takeD)
  next
    assume c: "hs_code_pattern c \<and> take (length c) (tq_hs_code q) = c"
    then have "length c \<le> length (tq_hs_code q)" by (metis length_take min.cobounded1)
    with c code show "c \<in> set (hs_prefixes q)"
      by (auto simp: hs_prefixes_def set_prefixes_from hs_code_pattern_def intro!: exI [of _ "length c"])
  qed
  then show ?thesis by (simp add: hs_prefixes_def sorted_prefixes_from)
qed

definition demo_query :: tariff_query where
  "demo_query = \<lparr>tq_jurisdiction = ''EU'', tq_origin = ''CN'', tq_hs_code = ''852872'',
     tq_transaction_at = 5, tq_evaluated_at = 6\<rparr>"

definition demo_query_params :: tariff_query_params where
  "demo_query_params = \<lparr>tp_destination = ''de'', tp_origin = ''CN '', tp_hs_code = ''8528.72'',
     tp_transaction_at = 5, tp_evaluated_at = 6\<rparr>"

theorem hs_prefixes_exact_witness:
  "(''8528'' \<in> set (hs_prefixes demo_query) \<longleftrightarrow>
      hs_code_pattern ''8528'' \<and> take (length ''8528'') (tq_hs_code demo_query) = ''8528'')
    \<and> sorted_wrt (\<lambda>a b. length b < length a) (hs_prefixes demo_query)"
  by (rule hs_prefixes_exact [of demo_query_params]) code_simp

text \<open>Goods that are not imported are refused: the origin is never of the destination's customs
  jurisdiction.\<close>

lemma new_tariff_query_imports:
  "new_tariff_query p = Inr q \<Longrightarrow> import_jurisdiction (tq_origin q) \<noteq> tq_jurisdiction q
     \<and> jurisdiction_pattern (tq_origin q)"
  by (auto simp: new_tariff_query_def parse_country_def Let_def bindr_Inr_iff split: if_splits)

text \<open>The sum of the ad valorem parts does not depend on the order of the measures.\<close>

lemma ad_valorem_percent_sum:
  "ad_valorem_percent 0 (+) r = sum_list (map (\<lambda>m. case tm_ad_valorem m of None \<Rightarrow> 0 | Some x \<Rightarrow> x) (tr_measures r))"
  for r :: "('d::comm_monoid_add) tariff_resolution"
proof -
  have "fold (\<lambda>m total. (case tm_ad_valorem m of None \<Rightarrow> total | Some x \<Rightarrow> total + x)) ms z =
     z + sum_list (map (\<lambda>m. case tm_ad_valorem m of None \<Rightarrow> 0 | Some x \<Rightarrow> x) ms)"
    for ms :: "'d tariff_measure list" and z
    by (induction ms arbitrary: z) (auto simp: add.assoc split: option.splits)
  then show ?thesis by (simp add: ad_valorem_percent_def)
qed

end
