(* ===== verification/Db.thy ===== *)
theory Db
  imports GoError GoText
begin

text \<open>
  The helpers of \<open>internal/infrastructure/postgres\<close> that every repository shares:
  \<open>convert.go\<close>, \<open>uuid.go\<close> and the transaction runner of \<open>tx.go\<close>.

  A UUID column is represented by its canonical text. The scanner of \<open>pgtype.UUID\<close> is the
  argument \<open>scan\<close>: the canonical text of the UUID a string denotes, or none. A transaction is a
  function on the state of the tables; what \<open>Begin\<close> and \<open>Commit\<close> report are arguments, and a
  transaction whose body or commit fails leaves the tables as they were.
\<close>

subsection \<open>Conversions\<close>

definition max_list_limit :: int where
  "max_list_limit = 1000"

definition to_int32 :: "int \<Rightarrow> gerr + int" where
  "to_int32 n = (if n > 2 ^ 31 - 1 \<or> n < - (2 ^ 31) then Inl (Opaque ''overflows int32'') else Inr n)"

definition list_limit :: "int \<Rightarrow> int \<Rightarrow> int" where
  "list_limit limit default_limit =
     min (if limit \<le> 0 then default_limit else limit) max_list_limit"

text \<open>\<open>toTimestamptz\<close>: nil and the zero time are both NULL.\<close>

definition to_timestamptz :: "instant option \<Rightarrow> instant option" where
  "to_timestamptz t = (case t of None \<Rightarrow> None | Some u \<Rightarrow> if is_zero u then None else Some u)"

definition required_timestamptz :: "instant \<Rightarrow> gerr + instant" where
  "required_timestamptz t = (if is_zero t then Inl (Leaf (Platform ErrZeroTimestamp)) else Inr t)"

definition required_audit_timestamps :: "instant \<Rightarrow> instant \<Rightarrow> gerr + instant \<times> instant" where
  "required_audit_timestamps created_at updated_at =
     bindr (mapl Wrap (required_timestamptz created_at)) (\<lambda>c.
     bindr (mapl Wrap (required_timestamptz updated_at)) (\<lambda>u. Inr (c, u)))"

definition optional_text :: "string \<Rightarrow> string option" where
  "optional_text s = (if s = [] then None else Some s)"

text \<open>\<open>toInterval\<close> keeps whole microseconds.\<close>

definition to_interval :: "duration \<Rightarrow> duration" where
  "to_interval d = (if d < 0 then - ((- d) div 1000 * 1000) else d div 1000 * 1000)"

subsection \<open>UUIDs\<close>

type_synonym scanner = "string \<Rightarrow> string option"

definition parse_uuid :: "scanner \<Rightarrow> string \<Rightarrow> gerr + string" where
  "parse_uuid scan s =
     (let t = trim_space s in
      if t = [] then Inl (Opaque ''uuid cannot be empty'')
      else case scan t of None \<Rightarrow> Inl (Wrap (Opaque ''parse uuid'')) | Some u \<Rightarrow> Inr u)"

definition parse_optional_uuid :: "scanner \<Rightarrow> string option \<Rightarrow> gerr + string option" where
  "parse_optional_uuid scan s =
     (case s of None \<Rightarrow> Inr None
      | Some t \<Rightarrow> if is_blank t then Inr None else bindr (parse_uuid scan t) (\<lambda>u. Inr (Some u)))"

fun parse_uuids :: "scanner \<Rightarrow> string list \<Rightarrow> gerr + string list" where
  "parse_uuids scan [] = Inr []"
| "parse_uuids scan (i # is) =
     bindr (mapl Wrap (parse_uuid scan i)) (\<lambda>u. bindr (parse_uuids scan is) (\<lambda>us. Inr (u # us)))"

lemma parse_uuids_Inr: "parse_uuids scan is = Inr us \<longleftrightarrow> map (parse_uuid scan) is = map Inr us"
  by (induction "is" arbitrary: us) (auto simp: bindr_Inr_iff map_eq_Cons_conv)

lemma parse_uuids_length: "parse_uuids scan is = Inr us \<Longrightarrow> length us = length is"
  by (metis length_map parse_uuids_Inr)

text \<open>The canonical text of a UUID is read as itself.\<close>

definition canonical_scan :: "scanner \<Rightarrow> bool" where
  "canonical_scan scan \<longleftrightarrow> (\<forall>s u. scan s = Some u \<longrightarrow> trim_space u = u \<and> u \<noteq> [] \<and> scan u = Some u)"

lemma canonical_scan_parse: "canonical_scan scan \<Longrightarrow> parse_uuid scan s = Inr u \<Longrightarrow> parse_uuid scan u = Inr u"
  by (auto simp: parse_uuid_def canonical_scan_def Let_def split: if_splits option.splits)

subsection \<open>Contexts\<close>

text \<open>The context of a call: the caller's, or the one of \<open>cleanup.Context\<close>, which the caller's
  cancellation does not reach. What a cancelled context reports is \<open>canceled_err\<close>.\<close>

datatype ctx = CallerCtx | DetachedCtx

definition canceled_err :: gerr where
  "canceled_err = Leaf (Context Canceled)"

subsection \<open>Transactions\<close>

text \<open>What a transaction reports when it begins and when it commits.\<close>

record tx_env =
  tx_begin :: "gerr option"
  tx_commit :: "gerr option"

definition tx_ok :: tx_env where
  "tx_ok = \<lparr>tx_begin = None, tx_commit = None\<rparr>"

definition within_tx :: "tx_env \<Rightarrow> ('s \<Rightarrow> gerr + ('s \<times> 'a)) \<Rightarrow> 's \<Rightarrow> 's \<times> (gerr + 'a)" where
  "within_tx e fn s =
     (case tx_begin e of Some x \<Rightarrow> (s, Inl (Wrap x))
      | None \<Rightarrow> (case fn s of Inl x \<Rightarrow> (s, Inl x)
          | Inr (t, a) \<Rightarrow> (case tx_commit e of Some x \<Rightarrow> (s, Inl (Wrap x)) | None \<Rightarrow> (t, Inr a))))"

text \<open>A transaction commits its body's state with its result, or changes nothing and reports an error.\<close>

lemma within_tx_Inr:
  "within_tx e fn s = (t, Inr a) \<longleftrightarrow> tx_begin e = None \<and> tx_commit e = None \<and> fn s = Inr (t, a)"
  by (auto simp: within_tx_def split: option.splits sum.splits prod.splits)

lemma within_tx_Inl: "within_tx e fn s = (t, Inl x) \<Longrightarrow> t = s"
  by (auto simp: within_tx_def split: option.splits sum.splits prod.splits)

lemma within_tx_cases:
  obtains x where "within_tx e fn s = (s, Inl x)" |
    t a where "within_tx e fn s = (t, Inr a)" "fn s = Inr (t, a)"
proof (cases "snd (within_tx e fn s)")
  case (Inl x)
  then show ?thesis using that(1) within_tx_Inl by (metis prod.collapse)
next
  case (Inr a)
  then show ?thesis using that(2) within_tx_Inr by (metis prod.collapse)
qed

lemma within_tx_ok: "fn s = Inr (t, a) \<Longrightarrow> within_tx tx_ok fn s = (t, Inr a)"
  by (simp add: within_tx_def tx_ok_def)

text \<open>An invariant of the tables that the body keeps, the transaction keeps.\<close>

lemma within_tx_inv:
  "P s \<Longrightarrow> (\<And>t a. fn s = Inr (t, a) \<Longrightarrow> P t) \<Longrightarrow> P (fst (within_tx e fn s))"
  by (rule within_tx_cases [of e fn s]) auto

lemma optional_text_Some [simp]: "optional_text s = Some t \<longleftrightarrow> s = t \<and> t \<noteq> []"
  by (auto simp: optional_text_def)

lemma list_limit_bounds: "0 < d \<Longrightarrow> 1 \<le> list_limit n d \<and> list_limit n d \<le> max_list_limit"
  by (auto simp: list_limit_def max_list_limit_def)

end
