(* ===== verification/RegulatoryService.thy ===== *)
theory RegulatoryService
  imports Tariff Db
begin

text \<open>
  The dataset lifecycle over the database: \<open>internal/application/regulatory/service.go\<close> on
  \<open>internal/infrastructure/postgres/regulatory_repository.go\<close>, with the SQL of its queries
  (\<open>generated/regulatory_datasets.sql.go\<close>, \<open>generated/tariff_rates.sql.go\<close>) and the unique
  indexes of migrations 22 and 23 read as functions on the rows of the tables. The environment
  \<open>reg_env\<close> holds what the code leaves to others: the UUID scanner, PostgreSQL's verdict on the
  CHECK constraints of a dataset row and of a curated file, its rounding of a timestamptz, and the
  collation of \<open>source\<close>.
\<close>

subsection \<open>Tables\<close>

datatype 'd numeric = Finite 'd | NotFinite

text \<open>A row of \<open>tariff_rates\<close>: PREFERENTIAL rows have no constant in the Go code.\<close>

record 'd tariff_row =
  row_preferential :: bool
  row_measure :: "'d numeric tariff_measure"

record activated_event =
  ae_event_id :: string
  ae_dataset :: dataset
  ae_previous :: string

record 'd regdb =
  rd_rows :: "dataset list"
  rd_curated :: "(string \<times> curated_rules) list"
  rd_tariffs :: "'d tariff_row list"
  rd_events :: "activated_event list"

record reg_env =
  re_scan :: scanner
  re_check_row :: "dataset \<Rightarrow> gerr option"
  re_check_rules :: "curated_rules \<Rightarrow> gerr option"
  re_round :: "instant \<Rightarrow> instant"
  re_collate :: "string \<Rightarrow> string"

type_synonym ds_key = "string \<times> category \<times> string"

definition ds_key :: "dataset \<Rightarrow> ds_key" where
  "ds_key d = (ds_jurisdiction d, ds_category d, ds_source d)"

subsection \<open>The repository\<close>

definition db_error :: "gerr \<Rightarrow> gerr" where
  "db_error e = Wrap e"

definition violates_version :: "dataset \<Rightarrow> dataset \<Rightarrow> bool" where
  "violates_version d r \<longleftrightarrow> ds_key r = ds_key d \<and> ds_version r = ds_version d"

text \<open>The INSERT writes the columns up to \<open>requires_review\<close>; the others are NULL.\<close>

definition new_row :: "reg_env \<Rightarrow> string \<Rightarrow> dataset \<Rightarrow> dataset" where
  "new_row e i d = d\<lparr>ds_id := i, ds_fetched_at := re_round e (ds_fetched_at d), ds_review := None,
     ds_activated_at := None, ds_superseded_at := None, ds_rejected_reason := []\<rparr>"

definition create_dataset :: "reg_env \<Rightarrow> dataset \<Rightarrow> 'd regdb \<Rightarrow> gerr + 'd regdb \<times> unit" where
  "create_dataset e d db =
     bindr (mapl Wrap (parse_uuid (re_scan e) (ds_id d))) (\<lambda>i.
     bindr (mapl Wrap (required_timestamptz (ds_fetched_at d))) (\<lambda>_.
     case re_check_row e (new_row e i d) of Some x \<Rightarrow> Inl (Wrap x) | None \<Rightarrow>
     if list_ex (\<lambda>r. ds_id r = i) (rd_rows db) then Inl (Wrap (Opaque ''regulatory_datasets_pkey''))
     else if list_ex (violates_version d) (rd_rows db)
     then Inl (Wrap (wrap2 (Regulatory ErrDuplicateVersion) (Opaque ''uq_regulatory_datasets_version'')))
     else if ds_status d = StatusActive \<and> list_ex (\<lambda>r. ds_status r = StatusActive \<and> ds_key r = ds_key d) (rd_rows db)
     then Inl (Wrap (wrap2 (Regulatory ErrConcurrentActivation) (Opaque ''uq_regulatory_datasets_active'')))
     else Inr (db\<lparr>rd_rows := rd_rows db @ [new_row e i d]\<rparr>, ())))"

definition to_domain_dataset :: "dataset \<Rightarrow> gerr + dataset" where
  "to_domain_dataset r =
     (if length (ds_content_sha256 r) \<noteq> 32 then Inl (Opaque ''content hash length'') else Inr r)"

definition get_for_update :: "reg_env \<Rightarrow> string \<Rightarrow> 'd regdb \<Rightarrow> gerr + dataset" where
  "get_for_update e rid db =
     (case parse_uuid (re_scan e) rid of Inl _ \<Rightarrow> Inl (Wrap (Leaf (Regulatory ErrDatasetNotFound)))
      | Inr i \<Rightarrow> (case find (\<lambda>r. ds_id r = i) (rd_rows db) of
          None \<Rightarrow> Inl (Wrap (Leaf (Regulatory ErrDatasetNotFound)))
        | Some r \<Rightarrow> to_domain_dataset r))"

definition active_for_update :: "ds_key \<Rightarrow> 'd regdb \<Rightarrow> gerr + dataset option" where
  "active_for_update k db =
     (case find (\<lambda>r. ds_key r = k \<and> ds_status r = StatusActive) (rd_rows db) of
        None \<Rightarrow> Inr None
      | Some r \<Rightarrow> bindr (to_domain_dataset r) (\<lambda>d. Inr (Some d)))"

text \<open>
  The row the UPDATE writes: nil and zero times are NULL, and a review is read back only when its
  time is not NULL.
\<close>

definition lifecycle_row :: "dataset \<Rightarrow> dataset \<Rightarrow> dataset" where
  "lifecycle_row d r = r\<lparr>ds_status := ds_status d,
     ds_review := (case ds_review d of None \<Rightarrow> None
        | Some v \<Rightarrow> if is_zero (rv_at v) then None else Some v),
     ds_activated_at := to_timestamptz (ds_activated_at d),
     ds_superseded_at := to_timestamptz (ds_superseded_at d),
     ds_rejected_reason := ds_rejected_reason d\<rparr>"

definition save_lifecycle ::
  "reg_env \<Rightarrow> dataset \<Rightarrow> ds_status \<Rightarrow> 'd regdb \<Rightarrow> gerr + 'd regdb \<times> unit" where
  "save_lifecycle e d expected db =
     bindr (mapl Wrap (parse_uuid (re_scan e) (ds_id d))) (\<lambda>i.
     case find (\<lambda>r. ds_id r = i \<and> ds_status r = expected) (rd_rows db) of
       None \<Rightarrow> Inl (Wrap (Leaf (Regulatory ErrInvalidTransition)))
     | Some r \<Rightarrow>
        let r' = lifecycle_row d r in
        case re_check_row e r' of Some x \<Rightarrow> Inl (Wrap x) | None \<Rightarrow>
        if ds_status r' = StatusActive \<and>
           list_ex (\<lambda>row. ds_id row \<noteq> i \<and> ds_key row = ds_key r' \<and> ds_status row = StatusActive) (rd_rows db)
        then Inl (Wrap (wrap2 (Regulatory ErrConcurrentActivation) (Opaque ''uq_regulatory_datasets_active'')))
        else Inr (db\<lparr>rd_rows := map (\<lambda>row. if ds_id row = i \<and> ds_status row = expected
                                  then lifecycle_row d row else row) (rd_rows db)\<rparr>, ()))"

definition in_force :: "instant \<Rightarrow> dataset \<Rightarrow> bool" where
  "in_force at r \<longleftrightarrow> (case ds_activated_at r of None \<Rightarrow> False | Some a \<Rightarrow> a \<le> at) \<and>
     (case ds_superseded_at r of None \<Rightarrow> True | Some s \<Rightarrow> s > at)"

fun mapM :: "('a \<Rightarrow> 'e + 'b) \<Rightarrow> 'a list \<Rightarrow> 'e + 'b list" where
  "mapM f [] = Inr []"
| "mapM f (x # xs) = bindr (f x) (\<lambda>y. bindr (mapM f xs) (\<lambda>ys. Inr (y # ys)))"

definition active_at ::
  "reg_env \<Rightarrow> string \<Rightarrow> category \<Rightarrow> instant \<Rightarrow> 'd regdb \<Rightarrow> gerr + dataset list" where
  "active_at e j c at db =
     bindr (mapl Wrap (required_timestamptz at)) (\<lambda>_.
     mapM to_domain_dataset (sort_key (\<lambda>r. (re_collate e (ds_source r), ds_id r))
       (filter (\<lambda>r. ds_jurisdiction r = j \<and> ds_category r = c \<and> in_force at r) (rd_rows db))))"

text \<open>\<open>InsertCurated\<close>: the trigger refuses rules of a dataset that is no longer LOADED.\<close>

definition insert_curated ::
  "reg_env \<Rightarrow> string \<Rightarrow> curated_rules \<Rightarrow> 'd regdb \<Rightarrow> gerr + 'd regdb \<times> unit" where
  "insert_curated e rid rules db =
     bindr (mapl Wrap (parse_uuid (re_scan e) rid)) (\<lambda>i.
     bindr (rules_category rules) (\<lambda>c.
     if c \<noteq> CategoryImportRestriction \<and> c \<noteq> CategoryPermit then Inl (Leaf (Regulatory ErrInvalidRule))
     else if list_ex (\<lambda>r. ds_id r = i \<and> ds_status r \<noteq> StatusLoaded) (rd_rows db)
     then Inl (Wrap (wrap2 (Regulatory ErrInvalidRule) (Opaque ''55000'')))
     else case re_check_rules e rules of Some x \<Rightarrow> Inl (Wrap (wrap2 (Regulatory ErrInvalidRule) x))
     | None \<Rightarrow> Inr (db\<lparr>rd_curated := rd_curated db @ [(i, rules)]\<rparr>, ())))"

definition to_decimal :: "'d numeric option \<Rightarrow> gerr + 'd option" where
  "to_decimal n = (case n of None \<Rightarrow> Inr None | Some NotFinite \<Rightarrow> Inl (Leaf (Regulatory ErrInvalidRule))
     | Some (Finite d) \<Rightarrow> Inr (Some d))"

definition to_tariff_measure :: "'d numeric tariff_measure \<Rightarrow> gerr + 'd tariff_measure" where
  "to_tariff_measure r =
     bindr (mapl Wrap (to_decimal (tm_ad_valorem r))) (\<lambda>ad.
     bindr (mapl Wrap (to_decimal (map_option sd_amount (tm_specific r)))) (\<lambda>amount.
     bindr (new_validity (utc (vd_from (tm_validity r))) (map_option utc (vd_to (tm_validity r)))) (\<lambda>v.
     Inr \<lparr>tm_id = tm_id r, tm_dataset_id = tm_dataset_id r, tm_hs_code = tm_hs_code r,
       tm_origin_country = tm_origin_country r, tm_measure_type = tm_measure_type r,
       tm_measure_code = tm_measure_code r, tm_rate_type = tm_rate_type r, tm_ad_valorem = ad,
       tm_specific = (case (amount, tm_specific r) of
          (Some a, Some s) \<Rightarrow> Some \<lparr>sd_amount = a, sd_currency = sd_currency s, sd_unit = sd_unit s\<rparr>
        | _ \<Rightarrow> None),
       tm_rate_expression = tm_rate_expression r, tm_source_reference = tm_source_reference r,
       tm_validity = v\<rparr>)))"

definition candidate_row :: "string list \<Rightarrow> tariff_query \<Rightarrow> 'd tariff_row \<Rightarrow> bool" where
  "candidate_row ids q r \<longleftrightarrow> (let m = row_measure r; on_date = transaction_date q in
     tm_dataset_id m \<in> set ids \<and> tm_hs_code m \<in> set (hs_prefixes q)
     \<and> (tm_origin_country m = tq_origin q \<or> tm_origin_country m = ''*'') \<and> \<not> row_preferential r
     \<and> vd_from (tm_validity m) \<le> on_date
     \<and> (case vd_to (tm_validity m) of None \<Rightarrow> True | Some t \<Rightarrow> t > on_date))"

definition tariff_candidates ::
  "reg_env \<Rightarrow> string list \<Rightarrow> tariff_query \<Rightarrow> 'd regdb \<Rightarrow> gerr + 'd tariff_measure list" where
  "tariff_candidates e dataset_ids q db =
     bindr (mapl Wrap (parse_uuids (re_scan e) dataset_ids)) (\<lambda>ids.
     mapM (\<lambda>r. mapl Wrap (to_tariff_measure (row_measure r)))
       (filter (candidate_row ids q) (rd_tariffs db)))"

subsection \<open>The service\<close>

definition load_curated ::
  "reg_env \<Rightarrow> tx_env \<Rightarrow> gerr + string \<Rightarrow> new_dataset_params \<Rightarrow> curated_rules \<Rightarrow> 'd regdb
     \<Rightarrow> 'd regdb \<times> (gerr + dataset)" where
  "load_curated e t uuid p rules db =
     (case new_dataset uuid (p\<lparr>np_requires_review := True\<rparr>) of Inl x \<Rightarrow> (db, Inl x)
      | Inr d \<Rightarrow> (case validate_rules rules (ds_category d) of Inl x \<Rightarrow> (db, Inl x)
        | Inr _ \<Rightarrow>
            (let (db', r) = within_tx t (\<lambda>s. bindr (create_dataset e d s) (\<lambda>(s, _).
               insert_curated e (ds_id d) rules s)) db
             in (db', bindr (mapl Wrap r) (\<lambda>_. Inr d)))))"

definition transition ::
  "reg_env \<Rightarrow> tx_env \<Rightarrow> string \<Rightarrow> (dataset \<Rightarrow> gerr + dataset) \<Rightarrow> 'd regdb
     \<Rightarrow> 'd regdb \<times> (gerr + dataset)" where
  "transition e t rid apply db =
     (let (db', r) = within_tx t (\<lambda>s. bindr (get_for_update e rid s) (\<lambda>d.
          bindr (apply d) (\<lambda>d'. bindr (save_lifecycle e d' (ds_status d) s) (\<lambda>(s, _). Inr (s, d'))))) db
      in (db', mapl Wrap r))"

definition review_op where
  "review_op e t fold_case rid reviewer rnote now db =
     transition e t rid (\<lambda>d. record_review fold_case d reviewer rnote now) db"

definition reject_op where
  "reject_op e t rid reason db = transition e t rid (\<lambda>d. reject d reason) db"

definition supersede_previous ::
  "reg_env \<Rightarrow> dataset option \<Rightarrow> instant \<Rightarrow> 'd regdb \<Rightarrow> gerr + 'd regdb \<times> string" where
  "supersede_previous e previous now db =
     (case previous of None \<Rightarrow> Inr (db, [])
      | Some p \<Rightarrow> bindr (supersede p now) (\<lambda>p'.
          bindr (save_lifecycle e p' StatusActive db) (\<lambda>(db, _). Inr (db, ds_id p))))"

definition activate_tx ::
  "reg_env \<Rightarrow> string \<Rightarrow> string \<Rightarrow> instant \<Rightarrow> 'd regdb \<Rightarrow> gerr + 'd regdb \<times> dataset" where
  "activate_tx e event_id rid now db =
     bindr (get_for_update e rid db) (\<lambda>d.
     bindr (activate d now) (\<lambda>d'.
     bindr (active_for_update (ds_key d') db) (\<lambda>previous.
     bindr (supersede_previous e previous now db) (\<lambda>(db1, prev_id).
     bindr (save_lifecycle e d' StatusLoaded db1) (\<lambda>(db2, _).
     Inr (db2\<lparr>rd_events := rd_events db2 @
       [\<lparr>ae_event_id = event_id, ae_dataset = d', ae_previous = prev_id\<rparr>]\<rparr>, d'))))))"

definition activate_op ::
  "reg_env \<Rightarrow> tx_env \<Rightarrow> gerr + string \<Rightarrow> string \<Rightarrow> instant \<Rightarrow> 'd regdb \<Rightarrow> 'd regdb \<times> (gerr + dataset)" where
  "activate_op e t uuid rid now db =
     (case uuid of Inl x \<Rightarrow> (db, Inl (Wrap x))
      | Inr event_id \<Rightarrow>
          (let (db', r) = within_tx t (activate_tx e event_id rid now) db in (db', mapl Wrap r)))"

text \<open>\<open>Coverage\<close> returns the datasets with the error of the SLA check, so a caller can report them.\<close>

definition coverage ::
  "reg_env \<Rightarrow> (category \<rightharpoonup> duration) \<Rightarrow> string \<Rightarrow> string \<Rightarrow> instant \<Rightarrow> 'd regdb
     \<Rightarrow> dataset list \<times> gerr option" where
  "coverage e s j c at db =
     (case parse_jurisdiction j of Inl x \<Rightarrow> ([], Some x)
      | Inr j' \<Rightarrow> (case parse_category c of Inl x \<Rightarrow> ([], Some x)
        | Inr c' \<Rightarrow> (case active_at e j' c' at db of Inl x \<Rightarrow> ([], Some (Wrap x))
          | Inr active \<Rightarrow> (active, case check_slas s c' active at of Inl x \<Rightarrow> Some x | Inr _ \<Rightarrow> None))))"

definition resolve_tariff_op ::
  "reg_env \<Rightarrow> (category \<rightharpoonup> duration) \<Rightarrow> tariff_query \<Rightarrow> 'd regdb \<Rightarrow> gerr + 'd tariff_resolution" where
  "resolve_tariff_op e s q db =
     (case coverage e s (tq_jurisdiction q) ''TARIFF'' (tq_evaluated_at q) db of
        (_, Some x) \<Rightarrow> Inl (Wrap x)
      | (datasets, None) \<Rightarrow>
          bindr (mapl Wrap (tariff_candidates e (map ds_id datasets) q db)) (\<lambda>candidates.
          mapl Wrap (resolve_tariff q datasets candidates)))"

subsection \<open>The timeline of a key\<close>

text \<open>
  What the code relies on: the scanner returns canonical texts, and the CHECK constraint
  \<open>chk_regulatory_datasets_status_columns\<close> of migration 23 holds of every row PostgreSQL accepts.
\<close>

definition scanner_ok :: "scanner \<Rightarrow> bool" where
  "scanner_ok scan \<longleftrightarrow> (\<forall>t u. scan t = Some u \<longrightarrow> parse_uuid scan u = Inr u)"

definition checks_status :: "reg_env \<Rightarrow> bool" where
  "checks_status e \<longleftrightarrow> (\<forall>r. re_check_row e r = None \<longrightarrow>
     status_columns (ds_status r) (ds_activated_at r) (ds_superseded_at r) (ds_rejected_reason r))"

definition live :: "dataset list \<Rightarrow> dataset set" where
  "live rows = {r \<in> set rows. ds_status r = StatusActive \<or> ds_status r = StatusSuperseded}"

text \<open>
  One ACTIVE version of a key at most; a superseded one is followed by an ACTIVE one that took
  over no earlier; two superseded ones were in force one after the other.
\<close>

definition before :: "dataset \<Rightarrow> dataset \<Rightarrow> bool" where
  "before r s \<longleftrightarrow> (\<exists>x y. ds_superseded_at r = Some x \<and> ds_activated_at s = Some y \<and> x \<le> y)"

definition timeline :: "dataset set \<Rightarrow> bool" where
  "timeline L \<longleftrightarrow>
     (\<forall>a \<in> L. \<forall>b \<in> L. ds_status a = StatusActive \<longrightarrow> ds_status b = StatusActive \<longrightarrow> ds_key a = ds_key b \<longrightarrow> a = b)
   \<and> (\<forall>s \<in> L. ds_status s = StatusSuperseded \<longrightarrow>
        (\<exists>a \<in> L. ds_status a = StatusActive \<and> ds_key a = ds_key s \<and> before s a))
   \<and> (\<forall>s \<in> L. \<forall>r \<in> L. ds_status s = StatusSuperseded \<longrightarrow> ds_status r = StatusSuperseded \<longrightarrow>
        ds_key s = ds_key r \<longrightarrow> s \<noteq> r \<longrightarrow> before s r \<or> before r s)"

definition row_times :: "dataset \<Rightarrow> bool" where
  "row_times r \<longleftrightarrow>
     status_columns (ds_status r) (ds_activated_at r) (ds_superseded_at r) (ds_rejected_reason r)"

definition reg_inv :: "reg_env \<Rightarrow> dataset list \<Rightarrow> bool" where
  "reg_inv e rows \<longleftrightarrow> distinct (map ds_id rows) \<and>
     (\<forall>r \<in> set rows. parse_uuid (re_scan e) (ds_id r) = Inr (ds_id r) \<and> row_times r) \<and>
     timeline (live rows)"

text \<open>Datasets in force at one time have different sources.\<close>

lemma before_disjoint: "before r s \<Longrightarrow> in_force at r \<Longrightarrow> in_force at s \<Longrightarrow> False"
  by (auto simp: before_def in_force_def)

lemma in_force_live:
  "row_times r \<Longrightarrow> r \<in> set rows \<Longrightarrow> in_force at r \<Longrightarrow> r \<in> live rows"
  by (cases "ds_status r") (auto simp: row_times_def in_force_def live_def)

lemma in_force_unique:
  assumes "reg_inv e rows" "r \<in> set rows" "s \<in> set rows" "in_force at r" "in_force at s"
    and key: "ds_key r = ds_key s"
  shows "r = s"
proof (rule ccontr)
  assume "r \<noteq> s"
  from assms have L: "r \<in> live rows" "s \<in> live rows" by (auto intro!: in_force_live simp: reg_inv_def)
  have t: "timeline (live rows)" using assms by (simp add: reg_inv_def)
  have active: "x = y \<or> \<not> in_force at y" if "x \<in> live rows" "y \<in> live rows" "ds_status x = StatusActive"
    "ds_key x = ds_key y" "in_force at x" for x y
  proof (cases "ds_status y = StatusActive")
    case True
    with t that show ?thesis by (auto simp: timeline_def)
  next
    case False
    with that have "ds_status y = StatusSuperseded" by (auto simp: live_def)
    with t that obtain a where "a \<in> live rows" "ds_status a = StatusActive" "ds_key a = ds_key y" "before y a"
      unfolding timeline_def by blast
    moreover from this t that have "a = x" unfolding timeline_def by metis
    ultimately show ?thesis using that before_disjoint by blast
  qed
  show False
  proof (cases "ds_status r = StatusActive \<or> ds_status s = StatusActive")
    case True
    then show False using active [OF L] active [OF L(2) L(1)] assms(4,5) key \<open>r \<noteq> s\<close> by auto
  next
    case False
    with L have "ds_status r = StatusSuperseded" "ds_status s = StatusSuperseded" by (auto simp: live_def)
    with t L key \<open>r \<noteq> s\<close> have "before r s \<or> before s r" unfolding timeline_def by blast
    with assms(4,5) before_disjoint show False by blast
  qed
qed

lemma timeline_activate:
  assumes t: "timeline L" and r: "ds_status r = StatusActive" "ds_activated_at r = Some now"
    and p: "p \<in> L" "ds_status p = StatusActive" "ds_key p = ds_key r" "ds_activated_at p = Some x" "x \<le> now"
    and p': "ds_status p' = StatusSuperseded" "ds_key p' = ds_key r" "ds_activated_at p' = Some x"
      "ds_superseded_at p' = Some now"
  shows "timeline (insert r (insert p' (L - {p})))"
proof -
  let ?M = "insert r (insert p' (L - {p}))"
  have one: "a = p" if "a \<in> L" "ds_status a = StatusActive" "ds_key a = ds_key r" for a
    using t p that unfolding timeline_def by metis
  have old: "\<exists>y \<le> x. ds_superseded_at s = Some y" if s: "s \<in> L" "ds_status s = StatusSuperseded" "ds_key s = ds_key r" for s
  proof -
    from t s obtain a where "a \<in> L" "ds_status a = StatusActive" "ds_key a = ds_key s" "before s a"
      unfolding timeline_def by blast
    with one s have "before s p" by metis
    with p show ?thesis by (auto simp: before_def)
  qed
  have "a = b" if "a \<in> ?M" "b \<in> ?M" "ds_status a = StatusActive" "ds_status b = StatusActive" "ds_key a = ds_key b" for a b
    using that t r p' one unfolding timeline_def by (metis (no_types, lifting) Diff_iff insert_iff ds_status.distinct(7))
  moreover have "\<exists>a \<in> ?M. ds_status a = StatusActive \<and> ds_key a = ds_key s \<and> before s a"
    if s: "s \<in> ?M" "ds_status s = StatusSuperseded" for s
  proof (cases "ds_key s = ds_key r")
    case True
    with s old r p p' have "before s r" by (fastforce simp: before_def)
    with r True show ?thesis by auto
  next
    case False
    with s r p' have "s \<in> L" by auto
    with t s obtain a where a: "a \<in> L" "ds_status a = StatusActive" "ds_key a = ds_key s" "before s a"
      unfolding timeline_def by blast
    with False p have "a \<noteq> p" by auto
    with a show ?thesis by auto
  qed
  moreover have "before s u \<or> before u s"
    if su: "s \<in> ?M" "u \<in> ?M" "ds_status s = StatusSuperseded" "ds_status u = StatusSuperseded"
      "ds_key s = ds_key u" "s \<noteq> u" for s u
  proof -
    have new: "before v p'" if v: "v \<in> L" "ds_status v = StatusSuperseded" "ds_key v = ds_key r" for v
      using old [OF v] p' by (auto simp: before_def)
    from su r have "s \<in> insert p' L" "u \<in> insert p' L" by auto
    then show ?thesis using su new p' t unfolding timeline_def by (metis insert_iff)
  qed
  ultimately show ?thesis unfolding timeline_def by blast
qed

lemma timeline_first:
  assumes t: "timeline L" and r: "ds_status r = StatusActive"
    and none: "\<And>a. a \<in> L \<Longrightarrow> ds_status a = StatusActive \<Longrightarrow> ds_key a \<noteq> ds_key r"
  shows "timeline (insert r L)"
proof -
  have old: "ds_key s \<noteq> ds_key r" if "s \<in> L" "ds_status s = StatusSuperseded" for s
    using t that none unfolding timeline_def by metis
  show ?thesis using t r none old unfolding timeline_def
    by (auto dest: spec) (metis ds_status.distinct)+
qed

subsection \<open>What the statements do to the rows\<close>

lemma save_lifecycle_Inr:
  assumes "save_lifecycle e d expected db = Inr (db', u)"
  obtains i r where "parse_uuid (re_scan e) (ds_id d) = Inr i"
    "find (\<lambda>r. ds_id r = i \<and> ds_status r = expected) (rd_rows db) = Some r"
    "re_check_row e (lifecycle_row d r) = None"
    "rd_rows db' = map (\<lambda>row. if ds_id row = i \<and> ds_status row = expected then lifecycle_row d row else row)
       (rd_rows db)"
    "rd_events db' = rd_events db"
  using assms
  by (auto simp: save_lifecycle_def bindr_Inr_iff Let_def split: option.splits if_splits)

lemma find_in: "find P xs = Some x \<Longrightarrow> x \<in> set xs \<and> P x"
  by (auto simp: find_Some_iff)

lemma lifecycle_row_id [simp]: "ds_id (lifecycle_row d r) = ds_id r"
  "ds_key (lifecycle_row d r) = ds_key r" "ds_status (lifecycle_row d r) = ds_status d"
  by (simp_all add: lifecycle_row_def ds_key_def)

lemma map_ids:
  "(\<And>r. ds_id (f r) = ds_id r) \<Longrightarrow> map ds_id (map f rows) = map ds_id rows"
  by (induction rows) auto

text \<open>With distinct ids, an UPDATE of one id replaces one row.\<close>

lemma set_update_one:
  assumes "distinct (map ds_id rows)" "r \<in> set rows" "P r"
  shows "set (map (\<lambda>row. if ds_id row = ds_id r \<and> P row then f row else row) rows) =
    insert (f r) (set rows - {r})"
proof -
  have "row = r" if "row \<in> set rows" "ds_id row = ds_id r" for row
    using assms that map_of_distinct_in by metis
  then have "ds_id row = ds_id r \<and> P row \<longleftrightarrow> row = r" if "row \<in> set rows" for row
    using that assms by auto
  then have "set (map (\<lambda>row. if ds_id row = ds_id r \<and> P row then f row else row) rows) =
    (\<lambda>row. if row = r then f row else row) ` set rows"
    by (simp cong: image_cong)
  also have "\<dots> = insert (f r) (set rows - {r})" using assms by auto
  finally show ?thesis .
qed

lemma canonical_row: "reg_inv e rows \<Longrightarrow> r \<in> set rows \<Longrightarrow> parse_uuid (re_scan e) (ds_id r) = Inr (ds_id r)"
  by (auto simp: reg_inv_def)

text \<open>One \<open>SaveLifecycle\<close> of an entity that was read from the row of its id.\<close>

lemma save_row:
  assumes inv: "distinct (map ds_id rows)" "rd_rows db = rows"
    and r: "r \<in> set rows" "ds_status r = expected" "ds_id d = ds_id r"
      "parse_uuid (re_scan e) (ds_id r) = Inr (ds_id r)"
    and save: "save_lifecycle e d expected db = Inr (db', u)"
  shows "re_check_row e (lifecycle_row d r) = None"
    "set (rd_rows db') = insert (lifecycle_row d r) (set rows - {r})"
    "map ds_id (rd_rows db') = map ds_id rows" "rd_events db' = rd_events db"
proof -
  obtain i q where q: "parse_uuid (re_scan e) (ds_id d) = Inr i"
    "find (\<lambda>r. ds_id r = i \<and> ds_status r = expected) (rd_rows db) = Some q"
    "re_check_row e (lifecycle_row d q) = None"
    "rd_rows db' = map (\<lambda>row. if ds_id row = i \<and> ds_status row = expected then lifecycle_row d row else row)
       (rd_rows db)" "rd_events db' = rd_events db"
    by (rule save_lifecycle_Inr [OF save])
  with r have i: "i = ds_id r" by simp
  have "q = r" using find_in [OF q(2)] i inv r map_of_distinct_in by metis
  with q inv i r show "re_check_row e (lifecycle_row d r) = None" "rd_events db' = rd_events db" by auto
  show "set (rd_rows db') = insert (lifecycle_row d r) (set rows - {r})"
    using set_update_one [OF inv(1) r(1), of "\<lambda>x. ds_status x = expected" "lifecycle_row d"] q(4) i inv r
    by simp
  show "map ds_id (rd_rows db') = map ds_id rows"
    using q(4) inv map_ids [of "\<lambda>row. if ds_id row = i \<and> ds_status row = expected then lifecycle_row d row else row" rows]
    by simp
qed

lemma checks_times: "checks_status e \<Longrightarrow> re_check_row e r = None \<Longrightarrow> row_times r"
  by (auto simp: checks_status_def row_times_def)

text \<open>What a \<open>SaveLifecycle\<close> keeps of the invariant, timeline apart.\<close>

definition rows_ok :: "reg_env \<Rightarrow> dataset list \<Rightarrow> bool" where
  "rows_ok e rows \<longleftrightarrow> distinct (map ds_id rows) \<and>
     (\<forall>r \<in> set rows. parse_uuid (re_scan e) (ds_id r) = Inr (ds_id r) \<and> row_times r)"

lemma reg_inv_iff: "reg_inv e rows \<longleftrightarrow> rows_ok e rows \<and> timeline (live rows)"
  by (simp add: reg_inv_def rows_ok_def)

lemma save_row_ok:
  assumes "checks_status e" "rows_ok e (rd_rows db)" "r \<in> set (rd_rows db)" "ds_status r = expected"
    "ds_id d = ds_id r" "save_lifecycle e d expected db = Inr (db', u)"
  shows "rows_ok e (rd_rows db')" "row_times (lifecycle_row d r)"
    "set (rd_rows db') = insert (lifecycle_row d r) (set (rd_rows db) - {r})"
    "rd_events db' = rd_events db"
proof -
  have dist: "distinct (map ds_id (rd_rows db))" and can: "parse_uuid (re_scan e) (ds_id r) = Inr (ds_id r)"
    using assms by (auto simp: rows_ok_def)
  note row = save_row [OF dist refl assms(3,4,5) can assms(6)]
  show t: "row_times (lifecycle_row d r)" using checks_times [OF assms(1) row(1)] .
  show "set (rd_rows db') = insert (lifecycle_row d r) (set (rd_rows db) - {r})" by (rule row(2))
  show "rd_events db' = rd_events db" by (rule row(4))
  have "\<forall>q \<in> set (rd_rows db'). parse_uuid (re_scan e) (ds_id q) = Inr (ds_id q) \<and> row_times q"
    unfolding row(2) using assms(2) t can by (auto simp: rows_ok_def)
  then show "rows_ok e (rd_rows db')" using row(3) dist by (simp add: rows_ok_def)
qed

lemma live_set_eq: "live rows = {r \<in> set rows. ds_status r \<in> {StatusActive, StatusSuperseded}}"
  by (auto simp: live_def)

subsection \<open>Every operation keeps the timeline\<close>

lemma create_dataset_inv:
  assumes "scanner_ok (re_scan e)" "checks_status e" "reg_inv e (rd_rows db)" "ds_status d = StatusLoaded"
    and "create_dataset e d db = Inr (db', u)"
  shows "reg_inv e (rd_rows db')"
proof -
  from assms(5) obtain i where i: "parse_uuid (re_scan e) (ds_id d) = Inr i"
    "re_check_row e (new_row e i d) = None" "i \<notin> ds_id ` set (rd_rows db)"
    "rd_rows db' = rd_rows db @ [new_row e i d]"
    by (auto simp: create_dataset_def bindr_Inr_iff list_ex_iff image_iff split: option.splits if_splits) metis+
  then have "parse_uuid (re_scan e) i = Inr i"
    using assms(1) by (auto simp: parse_uuid_def scanner_ok_def Let_def split: if_splits option.splits)
  moreover have "row_times (new_row e i d)" using assms(2) i checks_times by blast
  moreover have "live (rd_rows db') = live (rd_rows db)" using assms(4) i by (auto simp: live_def new_row_def)
  moreover have "ds_id (new_row e i d) = i" by (simp add: new_row_def)
  ultimately show ?thesis using assms(3) i by (auto simp: reg_inv_def)
qed

lemma insert_curated_rows: "insert_curated e rid rules db = Inr (db', u) \<Longrightarrow> rd_rows db' = rd_rows db"
  by (auto simp: insert_curated_def bindr_Inr_iff split: if_splits option.splits)

lemma load_curated_inv:
  assumes "scanner_ok (re_scan e)" "checks_status e" "reg_inv e (rd_rows db)"
  shows "reg_inv e (rd_rows (fst (load_curated e t uuid p rules db)))"
proof (cases "new_dataset uuid (p\<lparr>np_requires_review := True\<rparr>)")
  case (Inr d)
  then have "ds_status d = StatusLoaded" by (auto simp: new_dataset_def bindr_Inr_iff Let_def)
  then have "reg_inv e (rd_rows s')" if "bindr (create_dataset e d db) (\<lambda>(s, _). insert_curated e (ds_id d) rules s) = Inr (s', a)" for s' a
    using that assms create_dataset_inv insert_curated_rows by (fastforce simp: bindr_Inr_iff)
  then have "reg_inv e (rd_rows (fst (within_tx t (\<lambda>s. bindr (create_dataset e d s) (\<lambda>(s, _). insert_curated e (ds_id d) rules s)) db)))"
    using assms(3) by (intro within_tx_inv [where P = "\<lambda>s. reg_inv e (rd_rows s)"]) auto
  with Inr assms show ?thesis by (auto simp: load_curated_def split: sum.splits prod.splits)
qed (use assms in \<open>simp add: load_curated_def\<close>)

lemma get_for_update_Inr:
  assumes "get_for_update e rid db = Inr d"
  shows "d \<in> set (rd_rows db) \<and> parse_uuid (re_scan e) rid = Inr (ds_id d)"
  using assms
  by (auto simp: get_for_update_def to_domain_dataset_def dest!: find_in split: sum.splits option.splits if_splits)

text \<open>A transition that stays outside ACTIVE and SUPERSEDED.\<close>

lemma transition_inv:
  assumes "checks_status e" "reg_inv e (rd_rows db)"
    and ap: "\<And>d d'. apply d = Inr d' \<Longrightarrow> ds_id d' = ds_id d \<and> ds_status d = StatusLoaded \<and>
      ds_status d' \<in> {StatusLoaded, StatusRejected}"
  shows "reg_inv e (rd_rows (fst (transition e t rid apply db)))"
proof -
  have "reg_inv e (rd_rows s')"
    if step: "bindr (get_for_update e rid db) (\<lambda>d. bindr (apply d) (\<lambda>d'.
      bindr (save_lifecycle e d' (ds_status d) db) (\<lambda>(s, _). Inr (s, d')))) = Inr (s', a)" for s' a
  proof -
    from step obtain d d' u where d: "get_for_update e rid db = Inr d" "apply d = Inr d'"
      "save_lifecycle e d' (ds_status d) db = Inr (s', u)"
      by (auto simp: bindr_Inr_iff)
    have r: "d \<in> set (rd_rows db)" using get_for_update_Inr [OF d(1)] by simp
    have a: "ds_id d' = ds_id d" "ds_status d = StatusLoaded" "ds_status d' \<in> {StatusLoaded, StatusRejected}"
      using ap [OF d(2)] by auto
    have ok: "rows_ok e (rd_rows db)" using assms by (simp add: reg_inv_iff)
    note row = save_row_ok [OF assms(1) ok r refl a(1) d(3)]
    have "live (rd_rows s') = live (rd_rows db)" unfolding live_def row(3) using a r by auto
    with row(1) assms(2) show ?thesis by (simp add: reg_inv_iff)
  qed
  then have "reg_inv e (rd_rows (fst (within_tx t (\<lambda>s. bindr (get_for_update e rid s) (\<lambda>d. bindr (apply d) (\<lambda>d'.
      bindr (save_lifecycle e d' (ds_status d) s) (\<lambda>(s, _). Inr (s, d'))))) db)))"
    using assms(2) by (intro within_tx_inv [where P = "\<lambda>s. reg_inv e (rd_rows s)"]) auto
  then show ?thesis by (simp add: transition_def Let_def case_prod_unfold)
qed

lemma review_op_inv:
  "checks_status e \<Longrightarrow> reg_inv e (rd_rows db) \<Longrightarrow> reg_inv e (rd_rows (fst (review_op e t fc rid who nt now db)))"
  unfolding review_op_def
  by (rule transition_inv) (auto simp: record_review_def Let_def split: if_splits)

lemma reject_op_inv:
  "checks_status e \<Longrightarrow> reg_inv e (rd_rows db) \<Longrightarrow> reg_inv e (rd_rows (fst (reject_op e t rid reason db)))"
  unfolding reject_op_def
  by (rule transition_inv) (auto simp: reject_def Let_def split: if_splits)

lemma active_for_update_Some:
  assumes "active_for_update k db = Inr (Some p)"
  shows "p \<in> set (rd_rows db) \<and> ds_key p = k \<and> ds_status p = StatusActive"
  using assms
  by (auto simp: active_for_update_def to_domain_dataset_def bindr_Inr_iff dest!: find_in
      split: option.splits if_splits)

lemma active_for_update_None:
  "active_for_update k db = Inr None \<Longrightarrow> p \<in> set (rd_rows db) \<Longrightarrow> ds_status p = StatusActive \<Longrightarrow> ds_key p \<noteq> k"
  by (auto simp: active_for_update_def bindr_Inr_iff find_None_iff split: option.splits)

text \<open>What a committed activation did to the rows.\<close>

lemma activate_tx_effect:
  assumes chk: "checks_status e" and inv: "reg_inv e (rd_rows db)"
    and act: "activate_tx e event_id rid now db = Inr (db', d')"
  obtains d row where "d \<in> set (rd_rows db)" "parse_uuid (re_scan e) rid = Inr (ds_id d)"
    "activate d now = Inr d'" "rows_ok e (rd_rows db')" "row_times row"
    "ds_status row = StatusActive" "ds_activated_at row = Some now" "ds_key row = ds_key d" "ds_id row = ds_id d"
    "(\<forall>q \<in> set (rd_rows db). ds_status q = StatusActive \<longrightarrow> ds_key q \<noteq> ds_key d) \<and>
        set (rd_rows db') = insert row (set (rd_rows db) - {d}) \<and>
        rd_events db' = rd_events db @ [\<lparr>ae_event_id = event_id, ae_dataset = d', ae_previous = []\<rparr>]
     \<or> (\<exists>p x q. p \<in> set (rd_rows db) \<and> ds_status p = StatusActive \<and> ds_key p = ds_key d \<and>
        ds_activated_at p = Some x \<and> x \<le> now \<and>
        ds_id q = ds_id p \<and> ds_key q = ds_key p \<and> ds_status q = StatusSuperseded \<and>
        ds_activated_at q = Some x \<and> ds_superseded_at q = Some now \<and>
        set (rd_rows db') = insert row (insert q (set (rd_rows db) - {p}) - {d}) \<and>
        rd_events db' = rd_events db @ [\<lparr>ae_event_id = event_id, ae_dataset = d', ae_previous = ds_id p\<rparr>])"
proof -
  from act obtain d previous db1 prev_id db2 u where d: "get_for_update e rid db = Inr d" "activate d now = Inr d'"
    "active_for_update (ds_key d') db = Inr previous" "supersede_previous e previous now db = Inr (db1, prev_id)"
    "save_lifecycle e d' StatusLoaded db1 = Inr (db2, u)"
    "db' = db2\<lparr>rd_events := rd_events db2 @ [\<lparr>ae_event_id = event_id, ae_dataset = d', ae_previous = prev_id\<rparr>]\<rparr>"
    by (auto simp: activate_tx_def bindr_Inr_iff)
  have mem: "d \<in> set (rd_rows db)" "parse_uuid (re_scan e) rid = Inr (ds_id d)"
    using get_for_update_Inr [OF d(1)] by auto
  have d': "d' = d\<lparr>ds_status := StatusActive, ds_activated_at := Some now\<rparr>" "ds_status d = StatusLoaded"
    "ds_id d' = ds_id d" "ds_key d' = ds_key d"
    using d(2) by (auto simp: activate_def ds_key_def split: if_splits)
  have ok: "rows_ok e (rd_rows db)" using inv by (simp add: reg_inv_iff)
  have row: "ds_activated_at (lifecycle_row d' d) = Some now" if "row_times (lifecycle_row d' d)"
    using that d' by (auto simp: row_times_def lifecycle_row_def to_timestamptz_def split: if_splits)
  show thesis
  proof (cases previous)
    case None
    with d have db1: "db1 = db" "prev_id = []" by (auto simp: supersede_previous_def)
    note save = save_row_ok [OF chk ok mem(1) d'(2,3) d(5) [unfolded db1]]
    show thesis
      by (rule that [OF mem d(2), of "lifecycle_row d' d"])
         (use save row d d' db1 None active_for_update_None [of "ds_key d'" db] in auto)
  next
    case (Some p)
    with d obtain p' v where p': "supersede p now = Inr p'" "save_lifecycle e p' StatusActive db = Inr (db1, v)"
      "prev_id = ds_id p"
      by (auto simp: supersede_previous_def bindr_Inr_iff)
    have "active_for_update (ds_key d') db = Inr (Some p)" using d(3) Some by simp
    then have p: "p \<in> set (rd_rows db)" "ds_key p = ds_key d" "ds_status p = StatusActive"
      using active_for_update_Some [of "ds_key d'" db p] d'(4) by simp_all
    from p'(1) obtain x where x: "p' = p\<lparr>ds_status := StatusSuperseded, ds_superseded_at := Some now\<rparr>"
      "ds_activated_at p = Some x" "x \<le> now"
      by (auto simp: supersede_def split: if_splits option.splits)
    have id1: "ds_id p' = ds_id p" "ds_status p' = StatusSuperseded" using x by simp_all
    note s1 = save_row_ok [OF chk ok p(1,3) id1(1) p'(2)]
    define q where "q = lifecycle_row p' p"
    have q: "ds_id q = ds_id p" "ds_key q = ds_key p" "ds_status q = StatusSuperseded" "row_times q"
      using s1(2) id1 by (simp_all add: q_def)
    have qt: "ds_activated_at q = Some x" "ds_superseded_at q = Some now"
      using s1(2) x by (auto simp: q_def row_times_def lifecycle_row_def to_timestamptz_def split: if_splits)
    have "p \<noteq> d" using p d'(2) by auto
    have "d \<in> set (rd_rows db1)" using s1(3) mem(1) \<open>p \<noteq> d\<close> by auto
    note s2 = save_row_ok [OF chk s1(1) this d'(2,3) d(5)]
    have rows: "set (rd_rows db') = insert (lifecycle_row d' d) (insert q (set (rd_rows db) - {p}) - {d})"
      using d(6) s2(3) s1(3) by (simp add: q_def)
    have ev: "rd_events db' = rd_events db @ [\<lparr>ae_event_id = event_id, ae_dataset = d', ae_previous = ds_id p\<rparr>]"
      using d(6) s2(4) s1(4) p'(3) by simp
    have ok': "rows_ok e (rd_rows db')" using d(6) s2(1) by simp
    have "\<exists>p x q. p \<in> set (rd_rows db) \<and> ds_status p = StatusActive \<and> ds_key p = ds_key d \<and>
        ds_activated_at p = Some x \<and> x \<le> now \<and>
        ds_id q = ds_id p \<and> ds_key q = ds_key p \<and> ds_status q = StatusSuperseded \<and>
        ds_activated_at q = Some x \<and> ds_superseded_at q = Some now \<and>
        set (rd_rows db') = insert (lifecycle_row d' d) (insert q (set (rd_rows db) - {p}) - {d}) \<and>
        rd_events db' = rd_events db @ [\<lparr>ae_event_id = event_id, ae_dataset = d', ae_previous = ds_id p\<rparr>]"
      by (rule exI [of _ p], rule exI [of _ x], rule exI [of _ q]) (simp add: p x(2,3) q qt rows ev)
    then show thesis
      using that [OF mem d(2) ok' s2(2)] d' row [OF s2(2)] by simp
  qed
qed

lemma activate_tx_inv:
  assumes chk: "checks_status e" and inv: "reg_inv e (rd_rows db)"
    and act: "activate_tx e event_id rid now db = Inr (db', d')"
  shows "reg_inv e (rd_rows db')"
proof (rule activate_tx_effect [OF assms])
  fix d row
  assume d: "d \<in> set (rd_rows db)" "activate d now = Inr d'" and ok: "rows_ok e (rd_rows db')"
    and row: "ds_status row = StatusActive" "ds_activated_at row = Some now" "ds_key row = ds_key d"
    and cases: "(\<forall>q \<in> set (rd_rows db). ds_status q = StatusActive \<longrightarrow> ds_key q \<noteq> ds_key d) \<and>
        set (rd_rows db') = insert row (set (rd_rows db) - {d}) \<and>
        rd_events db' = rd_events db @ [\<lparr>ae_event_id = event_id, ae_dataset = d', ae_previous = []\<rparr>]
     \<or> (\<exists>p x q. p \<in> set (rd_rows db) \<and> ds_status p = StatusActive \<and> ds_key p = ds_key d \<and>
        ds_activated_at p = Some x \<and> x \<le> now \<and>
        ds_id q = ds_id p \<and> ds_key q = ds_key p \<and> ds_status q = StatusSuperseded \<and>
        ds_activated_at q = Some x \<and> ds_superseded_at q = Some now \<and>
        set (rd_rows db') = insert row (insert q (set (rd_rows db) - {p}) - {d}) \<and>
        rd_events db' = rd_events db @ [\<lparr>ae_event_id = event_id, ae_dataset = d', ae_previous = ds_id p\<rparr>])"
  have t: "timeline (live (rd_rows db))" using inv by (simp add: reg_inv_iff)
  have nd: "ds_status d = StatusLoaded" using d(2) by (auto simp: activate_def split: if_splits)
  show ?thesis
  proof (rule disjE [OF cases])
    assume first: "(\<forall>q \<in> set (rd_rows db). ds_status q = StatusActive \<longrightarrow> ds_key q \<noteq> ds_key d) \<and>
        set (rd_rows db') = insert row (set (rd_rows db) - {d}) \<and>
        rd_events db' = rd_events db @ [\<lparr>ae_event_id = event_id, ae_dataset = d', ae_previous = []\<rparr>]"
    then have "live (rd_rows db') = insert row (live (rd_rows db))" using nd row(1) by (auto simp: live_def)
    moreover have "timeline (insert row (live (rd_rows db)))"
      using t row(1) by (rule timeline_first) (use first row(3) in \<open>auto simp: live_def\<close>)
    ultimately show ?thesis using ok by (simp add: reg_inv_iff)
  next
    assume "\<exists>p x q. p \<in> set (rd_rows db) \<and> ds_status p = StatusActive \<and> ds_key p = ds_key d \<and>
        ds_activated_at p = Some x \<and> x \<le> now \<and>
        ds_id q = ds_id p \<and> ds_key q = ds_key p \<and> ds_status q = StatusSuperseded \<and>
        ds_activated_at q = Some x \<and> ds_superseded_at q = Some now \<and>
        set (rd_rows db') = insert row (insert q (set (rd_rows db) - {p}) - {d}) \<and>
        rd_events db' = rd_events db @ [\<lparr>ae_event_id = event_id, ae_dataset = d', ae_previous = ds_id p\<rparr>]"
    then obtain p x q where p: "p \<in> set (rd_rows db)" "ds_status p = StatusActive" "ds_key p = ds_key d"
        "ds_activated_at p = Some x" "x \<le> now"
      and q: "ds_key q = ds_key p" "ds_status q = StatusSuperseded" "ds_activated_at q = Some x"
        "ds_superseded_at q = Some now"
      and rows: "set (rd_rows db') = insert row (insert q (set (rd_rows db) - {p}) - {d})" by blast
    have "live (rd_rows db') = insert row (insert q (live (rd_rows db) - {p}))"
      unfolding live_def rows using nd row(1) p q by auto
    moreover have "timeline (insert row (insert q (live (rd_rows db) - {p})))"
      using t row(1,2) by (rule timeline_activate [where x = x]) (use p q row(3) in \<open>auto simp: live_def\<close>)
    ultimately show ?thesis using ok by (simp add: reg_inv_iff)
  qed
qed

lemma activate_op_inv:
  assumes "checks_status e" "reg_inv e (rd_rows db)"
  shows "reg_inv e (rd_rows (fst (activate_op e t uuid rid now db)))"
proof -
  have "reg_inv e (rd_rows (fst (within_tx t (activate_tx e eid rid now) db)))" for eid
    using assms activate_tx_inv by (intro within_tx_inv [where P = "\<lambda>s. reg_inv e (rd_rows s)"]) blast+
  with assms show ?thesis by (simp add: activate_op_def Let_def case_prod_unfold split: sum.splits)
qed

subsection \<open>The service from the outside\<close>

inductive reg_step :: "reg_env \<Rightarrow> 'd regdb \<Rightarrow> 'd regdb \<Rightarrow> bool" for e where
  load: "reg_step e db (fst (load_curated e t uuid p rules db))"
| review: "reg_step e db (fst (review_op e t fc rid who nt now db))"
| reject: "reg_step e db (fst (reject_op e t rid reason db))"
| activate: "reg_step e db (fst (activate_op e t uuid rid now db))"

inductive reg_reachable :: "reg_env \<Rightarrow> 'd regdb \<Rightarrow> bool" for e where
  start: "rd_rows db = [] \<Longrightarrow> reg_reachable e db"
| step: "reg_reachable e db \<Longrightarrow> reg_step e db db' \<Longrightarrow> reg_reachable e db'"

lemma reg_step_inv:
  "reg_step e db db' \<Longrightarrow> scanner_ok (re_scan e) \<Longrightarrow> checks_status e \<Longrightarrow> reg_inv e (rd_rows db) \<Longrightarrow> reg_inv e (rd_rows db')"
  by (induction rule: reg_step.induct)
     (auto intro: load_curated_inv review_op_inv reject_op_inv activate_op_inv)

lemma reg_reachable_inv:
  "reg_reachable e db \<Longrightarrow> scanner_ok (re_scan e) \<Longrightarrow> checks_status e \<Longrightarrow> reg_inv e (rd_rows db)"
proof (induction rule: reg_reachable.induct)
  case (start db)
  then show ?case by (simp add: reg_inv_def timeline_def live_def)
next
  case (step db db')
  then show ?case by (blast intro: reg_step_inv)
qed

lemma mapM_Inr: "mapM f xs = Inr ys \<longleftrightarrow> map f xs = map Inr ys"
  by (induction xs arbitrary: ys) (auto simp: bindr_Inr_iff map_eq_Cons_conv)

lemma mapM_set: "mapM f xs = Inr ys \<Longrightarrow> y \<in> set ys \<Longrightarrow> \<exists>x \<in> set xs. f x = Inr y"
  by (induction xs arbitrary: ys) (auto simp: bindr_Inr_iff)

lemma mapM_same: "mapM f xs = Inr ys \<Longrightarrow> (\<And>x y. f x = Inr y \<Longrightarrow> y = x) \<Longrightarrow> ys = xs"
  by (induction xs arbitrary: ys) (auto simp: bindr_Inr_iff)

lemma active_at_Inr:
  assumes "active_at e j c at db = Inr ds"
  shows "ds = sort_key (\<lambda>r. (re_collate e (ds_source r), ds_id r))
       (filter (\<lambda>r. ds_jurisdiction r = j \<and> ds_category r = c \<and> in_force at r) (rd_rows db))"
  using assms unfolding active_at_def
  by (auto simp: bindr_Inr_iff to_domain_dataset_def split: if_splits intro!: mapM_same)

text \<open>Claim C10. Whatever sequence of loads, reviews, rejections and activations has run, with
  whatever clock readings, the datasets in force for a category at any instant are one version per
  source: two versions of a key are never in force together, and history stays that way.\<close>

theorem coverage_one_version_per_source:
  assumes "scanner_ok (re_scan e)" "checks_status e" "reg_reachable e db"
    and "active_at e j c at db = Inr ds"
  shows "distinct (map ds_source ds) \<and> (\<forall>d \<in> set ds. d \<in> set (rd_rows db) \<and> in_force at d)"
proof -
  have inv: "reg_inv e (rd_rows db)" using reg_reachable_inv assms by blast
  have "distinct (rd_rows db)" using inv by (auto simp: reg_inv_def distinct_map)
  then have d: "distinct ds" using active_at_Inr [OF assms(4)] by simp
  have mem: "\<forall>d \<in> set ds. d \<in> set (rd_rows db) \<and> in_force at d \<and> ds_jurisdiction d = j \<and> ds_category d = c"
    using active_at_Inr [OF assms(4)] by auto
  then have "inj_on ds_source (set ds)"
    using in_force_unique [OF inv, of _ _ at] by (auto simp: inj_on_def ds_key_def)
  with d mem show ?thesis by (simp add: distinct_map)
qed

definition demo_env :: reg_env where
  "demo_env = \<lparr>re_scan = (\<lambda>t. if t \<in> {''d1'', ''d2''} then Some t else None),
     re_check_row = (\<lambda>r. if status_columns (ds_status r) (ds_activated_at r) (ds_superseded_at r)
        (ds_rejected_reason r) then None else Some (Opaque ''23514'')),
     re_check_rules = (\<lambda>_. None), re_round = (\<lambda>t. t), re_collate = (\<lambda>s. s)\<rparr>"

definition demo_rules :: curated_rules where
  "demo_rules = \<lparr>cr_restrictions = [\<lparr>ir_hs_code = ''8528'', ir_origin_country = ''CN'',
     ir_description = ''tv'', ir_source_reference = ''r1'', ir_validity = \<lparr>vd_from = day_ns, vd_to = None\<rparr>\<rparr>],
     cr_permits = []\<rparr>"

definition demo_import_params :: "string \<Rightarrow> new_dataset_params" where
  "demo_import_params v = demo_params\<lparr>np_category := ''import_restriction'', np_version := v\<rparr>"

definition demo_db0 :: "int regdb" where
  "demo_db0 = \<lparr>rd_rows = [], rd_curated = [], rd_tariffs = [], rd_events = []\<rparr>"

definition demo_load :: "string \<Rightarrow> string \<Rightarrow> int regdb \<Rightarrow> int regdb" where
  "demo_load rid v db = fst (load_curated demo_env tx_ok (Inr rid) (demo_import_params v) demo_rules db)"

definition demo_go :: "string \<Rightarrow> instant \<Rightarrow> int regdb \<Rightarrow> int regdb" where
  "demo_go rid now db = fst (activate_op demo_env tx_ok (Inr ''e1'') rid now
     (fst (review_op demo_env tx_ok (\<lambda>s. s) rid ''bo'' ''ok'' 7 db)))"

definition demo_db :: "int regdb" where
  "demo_db = demo_go ''d2'' 20 (demo_load ''d2'' ''v2'' (demo_go ''d1'' 10 (demo_load ''d1'' ''v1'' demo_db0)))"

lemma demo_env_ok: "scanner_ok (re_scan demo_env)" "checks_status demo_env"
proof -
  have "parse_uuid (re_scan demo_env) ''d1'' = Inr ''d1''" "parse_uuid (re_scan demo_env) ''d2'' = Inr ''d2''"
    by code_simp+
  then show "scanner_ok (re_scan demo_env)"
    by (auto simp: scanner_ok_def demo_env_def split: if_splits)
  show "checks_status demo_env" by (simp add: demo_env_def checks_status_def)
qed

lemma demo_load_reach: "reg_reachable demo_env db \<Longrightarrow> reg_reachable demo_env (demo_load rid v db)"
  unfolding demo_load_def by (rule reg_reachable.step, assumption, rule reg_step.load)

lemma demo_go_reach: "reg_reachable demo_env db \<Longrightarrow> reg_reachable demo_env (demo_go rid now db)"
  unfolding demo_go_def
  by (rule reg_reachable.step, rule reg_reachable.step, assumption, rule reg_step.review, rule reg_step.activate)

lemma demo_db_reach: "reg_reachable demo_env demo_db"
  unfolding demo_db_def
  by (intro demo_go_reach demo_load_reach reg_reachable.start) (simp add: demo_db0_def)

definition demo_in_force :: "instant \<Rightarrow> dataset list" where
  "demo_in_force at = projr (active_at demo_env ''US'' CategoryImportRestriction at demo_db)"

lemma demo_db_at:
  "map ds_id (demo_in_force 15) = [''d1'']" "map ds_id (demo_in_force 20) = [''d2'']"
  by code_simp+

lemma demo_db_at_ok: "is_ok (active_at demo_env ''US'' CategoryImportRestriction 20 demo_db)"
  by code_simp

theorem coverage_one_version_per_source_witness:
  "distinct (map ds_source (demo_in_force 20)) \<and>
     set (demo_in_force 20) \<subseteq> {d. d \<in> set (rd_rows demo_db) \<and> in_force 20 d}"
  unfolding demo_in_force_def
  using coverage_one_version_per_source [OF demo_env_ok demo_db_reach is_ok_projr [OF demo_db_at_ok]] by blast


definition demo_pending :: "int regdb" where
  "demo_pending = fst (review_op demo_env tx_ok (\<lambda>s. s) ''d2'' ''bo'' ''ok'' 7
     (demo_load ''d2'' ''v2'' (demo_go ''d1'' 10 (demo_load ''d1'' ''v1'' demo_db0))))"

lemma demo_pending_reach: "reg_reachable demo_env demo_pending"
  unfolding demo_pending_def
  by (rule reg_reachable.step [OF _ reg_step.review])
     (intro demo_go_reach demo_load_reach reg_reachable.start, simp add: demo_db0_def)

definition demo_activated :: "int regdb \<times> (gerr + dataset)" where
  "demo_activated = activate_op demo_env tx_ok (Inr ''e2'') ''d2'' 20 demo_pending"

lemma demo_activated_ok: "is_ok (snd demo_activated)"
  by code_simp



definition demo_tariff :: "int tariff_row" where
  "demo_tariff = \<lparr>row_preferential = False, row_measure = \<lparr>tm_id = ''m1'', tm_dataset_id = ''d1'',
     tm_hs_code = ''8528'', tm_origin_country = ''*'', tm_measure_type = MeasureMFN, tm_measure_code = [],
     tm_rate_type = RateAdValorem, tm_ad_valorem = Some (Finite 14), tm_specific = None,
     tm_rate_expression = ''14%'', tm_source_reference = ''s'',
     tm_validity = \<lparr>vd_from = day_ns, vd_to = None\<rparr>\<rparr>\<rparr>"

definition demo_tariff_db :: "int regdb" where
  "demo_tariff_db = \<lparr>rd_rows = [demo_active\<lparr>ds_jurisdiction := ''EU''\<rparr>], rd_curated = [], rd_tariffs = [demo_tariff],
     rd_events = []\<rparr>"

definition demo_tariff_query :: tariff_query where
  "demo_tariff_query = \<lparr>tq_jurisdiction = ''EU'', tq_origin = ''CN'', tq_hs_code = ''852872'',
     tq_transaction_at = day_ns + 5, tq_evaluated_at = 12\<rparr>"

definition demo_resolved :: "gerr + int tariff_resolution" where
  "demo_resolved = resolve_tariff_op demo_env (\<lambda>_. Some 100) demo_tariff_query demo_tariff_db"

lemma demo_resolved_ok: "is_ok demo_resolved"
  by code_simp


end
