(* ===== verification/Backoff.thy ===== *)
theory Backoff
  imports GoError "HOL-Library.Word" "HOL-Library.Signed_Division"
begin

text \<open>
  \<open>internal/platform/backoff/backoff.go\<close>: the retry delays and the check of a retry policy.
  \<open>time.Duration\<close> and \<open>int\<close> are 64-bit two's complement here, because the code is about
  overflow: \<open>+\<close> and \<open>*\<close> wrap, comparisons are signed, division truncates towards zero.
\<close>

type_synonym i64 = "64 word"

definition max_int64 :: i64 where
  "max_int64 = 0x7FFFFFFFFFFFFFFF"

definition go_div :: "i64 \<Rightarrow> i64 \<Rightarrow> i64" where
  "go_div a b = word_of_int (sint a sdiv sint b)"

definition exponential :: "i64 \<Rightarrow> i64 \<Rightarrow> i64 \<Rightarrow> i64" where
  "exponential attempt base maxBackoff =
     (if base \<le>s 0 then 0
      else if maxBackoff \<le>s 0 then 0
      else let attempt = (if attempt <s 0 then 0 else attempt) in
        if 62 \<le>s attempt then maxBackoff
        else let multiplier = push_bit (unat attempt) 1; res = base * multiplier in
          if res \<le>s 0 \<or> maxBackoff <s res \<or> go_div res multiplier \<noteq> base
          then maxBackoff else res)"

text \<open>
  \<open>rand.Int64N\<close> panics (\<open>None\<close>) for a bound that is not positive; the drawn value is
  the argument \<open>draw\<close>.
\<close>

definition int64n :: "nat \<Rightarrow> i64 \<Rightarrow> i64 option" where
  "int64n draw n = (if n \<le>s 0 then None else Some (word_of_int (int draw mod sint n)))"

definition full_jitter :: "nat \<Rightarrow> i64 \<Rightarrow> i64 \<Rightarrow> i64 \<Rightarrow> i64 option" where
  "full_jitter draw attempt base maxBackoff =
     (let ceiling = exponential attempt base maxBackoff in
      if ceiling \<le>s 0 then Some 0 else int64n draw (ceiling + 1))"

definition max_retry_attempts :: i64 where
  "max_retry_attempts = 100"

definition max_retry_window :: "i64 \<Rightarrow> i64 \<Rightarrow> i64 \<Rightarrow> gerr + i64" where
  "max_retry_window attempts handlerTimeout maxBackoff =
     (if go_div max_int64 attempts <s handlerTimeout then Inl (Leaf (Platform ErrInvalidRetryPolicy))
      else let window = attempts * handlerTimeout; sleeps = attempts - 1 in
        if 0 <s sleeps \<and> 0 <s maxBackoff then
          (if go_div (max_int64 - window) sleeps <s maxBackoff
           then Inl (Leaf (Platform ErrInvalidRetryPolicy))
           else Inr (window + sleeps * maxBackoff))
        else Inr window)"

definition validate_retry_policy :: "i64 \<Rightarrow> i64 \<Rightarrow> i64 \<Rightarrow> i64 \<Rightarrow> i64 \<Rightarrow> gerr + unit" where
  "validate_retry_policy attempts baseBackoff maxBackoff handlerTimeout claimMinIdle =
     failif (attempts <s 1 \<or> max_retry_attempts <s attempts) (Leaf (Platform ErrInvalidRetryPolicy))
    (failif (baseBackoff \<le>s 0) (Leaf (Platform ErrInvalidRetryPolicy))
    (failif (maxBackoff <s baseBackoff) (Leaf (Platform ErrInvalidRetryPolicy))
    (failif (handlerTimeout \<le>s 0) (Leaf (Platform ErrInvalidRetryPolicy))
    (bindr (max_retry_window attempts handlerTimeout maxBackoff) (\<lambda>window.
      if claimMinIdle \<le>s window then Inl (Leaf (Platform ErrInvalidRetryPolicy)) else Inr ())))))"

subsection \<open>Signed 64-bit arithmetic that does not overflow\<close>


lemma word_sless_sint: "a <s b \<longleftrightarrow> sint a < sint b" for a b :: i64
  by (simp add: word_sless_alt)

lemma word_sle_sint: "a \<le>s b \<longleftrightarrow> sint a \<le> sint b" for a b :: i64
  by (simp add: word_sle_eq)

lemmas signed_simps = word_sless_sint word_sle_sint

lemma sint_word_of_int_range:
  "- (2 ^ 63) \<le> k \<Longrightarrow> k < 2 ^ 63 \<Longrightarrow> sint (word_of_int k :: i64) = k"
  by (simp add: signed_of_int signed_take_bit_int_eq_self_iff)

lemma sint_range: "- (2 ^ 63) \<le> sint w" "sint w < 2 ^ 63" for w :: i64
  using sint_greater_eq [of w] sint_lt [of w] by simp_all

lemma word_of_sint: "word_of_int (sint w) = w" for w :: i64
  by (metis scast_eq scast_id)

lemma unat_nonneg: "0 \<le> sint w \<Longrightarrow> unat w = nat (sint w)" for w :: i64
proof -
  assume w: "0 \<le> sint w"
  have "uint (word_of_int k :: i64) = k" if "0 \<le> k" "k < 2 ^ 63" for k
    using that by (simp add: unsigned_of_int take_bit_int_eq_self)
  from this [OF w sint_range(2)] have "uint w = sint w" by (simp only: word_of_sint)
  then show ?thesis by (simp add: unat_eq_nat_uint)
qed

lemma sint_mult_exact:
  "- (2 ^ 63) \<le> sint a * sint b \<Longrightarrow> sint a * sint b < 2 ^ 63 \<Longrightarrow> sint (a * b) = sint a * sint b"
  for a b :: i64
  by (metis sint_word_of_int_range wi_hom_mult word_of_sint) 

lemma sint_add_exact:
  "- (2 ^ 63) \<le> sint a + sint b \<Longrightarrow> sint a + sint b < 2 ^ 63 \<Longrightarrow> sint (a + b) = sint a + sint b"
  for a b :: i64
  by (metis sint_word_of_int_range wi_hom_add word_of_sint)

lemma sint_sub_exact:
  "- (2 ^ 63) \<le> sint a - sint b \<Longrightarrow> sint a - sint b < 2 ^ 63 \<Longrightarrow> sint (a - b) = sint a - sint b"
  for a b :: i64
  by (metis sint_word_of_int_range wi_hom_sub word_of_sint)

lemma sint_push_bit_1: "n \<le> 62 \<Longrightarrow> sint (push_bit n 1 :: i64) = 2 ^ n"
proof -
  assume "n \<le> 62"
  then have "(2::int) ^ n \<le> 2 ^ 62" by (intro power_increasing) auto
  then have "sint (word_of_int (2 ^ n) :: i64) = 2 ^ n" by (intro sint_word_of_int_range) (auto intro: order_trans [of _ 0])
  then show ?thesis by (simp add: push_bit_eq_mult)
qed

lemma sint_go_div_pos:
  "0 \<le> sint a \<Longrightarrow> 0 < sint b \<Longrightarrow> sint (go_div a b) = sint a div sint b" for a b :: i64
proof -
  assume a: "0 \<le> sint a" "0 < sint b"
  then have "sint a sdiv sint b = sint a div sint b"
    by (cases "sint a = 0") (simp_all add: signed_divide_int_def)
  moreover have "0 \<le> sint a div sint b" using a by (simp add: pos_imp_zdiv_nonneg_iff)
  moreover have "sint a div sint b \<le> sint a"
    using a by (cases "sint a = 0") (simp_all add: int_div_le_self)
  ultimately show ?thesis
    using sint_range [of a] by (simp add: go_div_def sint_word_of_int_range)
qed

lemma go_div_eq_iff:
  "0 < sint a \<Longrightarrow> 0 < sint b \<Longrightarrow> go_div a b = c \<longleftrightarrow> sint a div sint b = sint c" for a b c :: i64
  using sint_go_div_pos [of a b] by (metis less_imp_le signed_word_eqI)

subsection \<open>The delay is the capped power\<close>

lemma exponential_core:
  assumes b: "0 < sint base" and mx: "0 < sint mx" and m: "sint m = 2 ^ n"
  shows "sint (if base * m \<le>s 0 \<or> mx <s base * m \<or> go_div (base * m) m \<noteq> base
               then mx else base * m) =
         min (sint mx) (sint base * 2 ^ n)"
proof -
  let ?m = "m" and ?v = "sint base * 2 ^ n"
  show ?thesis
  proof (cases "?v < 2 ^ 63")
    case True
    have "- (2 ^ 63) \<le> ?v" using b by (smt (verit) mult_pos_pos zero_less_power)
    then have r: "sint (base * ?m) = ?v"
      using True m sint_mult_exact [of base ?m] by simp
    moreover have "0 < ?v" using b by simp
    ultimately have "go_div (base * ?m) ?m = base" by (simp add: go_div_eq_iff m)
    with r \<open>0 < ?v\<close> show ?thesis by (auto simp: signed_simps)
  next
    case False
    have "base * ?m \<le>s 0 \<or> go_div (base * ?m) ?m \<noteq> base"
    proof (cases "sint (base * ?m) > 0")
      case pos: True
      have "sint (base * m) < sint base * 2 ^ n" using False sint_range(2) [of "base * ?m"] by linarith
      moreover have "sint (base * m) div 2 ^ n * 2 ^ n \<le> sint (base * m)"
        by (simp add: minus_mod_eq_div_mult [symmetric])
      ultimately have "sint (base * m) div 2 ^ n * 2 ^ n < sint base * 2 ^ n" by linarith
      then have "sint (base * m) div 2 ^ n < sint base" by simp
      with pos show ?thesis by (simp add: go_div_eq_iff m)
    qed (simp add: signed_simps)
    moreover have "sint mx \<le> ?v" using False sint_range(2) [of mx] by linarith
    ultimately show ?thesis by auto
  qed
qed

lemma exponential_exceeds: "exponential 62 1 max_int64 = max_int64"
  by (simp add: exponential_def max_int64_def signed_simps)

lemma exponential_bounds:
  assumes "0 <s base" "0 <s mx"
  shows "0 < sint (exponential attempt base mx)" "sint (exponential attempt base mx) \<le> sint mx"
  using assms by (auto simp: exponential_def Let_def signed_simps)

lemma exponential_nonneg: "0 \<le> sint (exponential attempt base mx)"
  by (auto simp: exponential_def Let_def signed_simps)

text \<open>
  At attempt 62 the code returns the cap without looking at the product, which the comment of
  \<open>Exponential\<close> does not say: with a base of one nanosecond and the largest cap the delay is
  the cap, twice \<open>base * 2^62\<close>.
\<close>

lemma full_jitter_bounds:
  assumes "full_jitter draw attempt base mx = Some d"
  shows "0 \<le> sint d \<and> sint d \<le> sint (exponential attempt base mx)"
proof (cases "exponential attempt base mx \<le>s 0")
  case True
  with assms exponential_nonneg show ?thesis by (simp add: full_jitter_def)
next
  case False
  let ?c = "exponential attempt base mx"
  from assms False have pos: "0 < sint (?c + 1)" and d: "d = word_of_int (int draw mod sint (?c + 1))"
    by (auto simp: full_jitter_def int64n_def Let_def signed_simps split: if_splits)
  have "sint ?c + 1 < 2 ^ 63"
  proof (rule ccontr)
    assume "\<not> ?thesis"
    then have "sint ?c = 2 ^ 63 - 1" using sint_range(2) [of ?c] by linarith
    then have "?c = word_of_int (2 ^ 63 - 1)" by (metis word_of_sint)
    then have "?c + 1 = 0x8000000000000000" by simp
    with pos show False by simp
  qed
  then have c1: "sint (?c + 1) = sint ?c + 1"
    using False by (simp add: sint_add_exact signed_simps)
  have "0 \<le> int draw mod (sint ?c + 1)" "int draw mod (sint ?c + 1) < sint ?c + 1"
    using pos c1 pos_mod_bound [of "sint ?c + 1" "int draw"] pos_mod_sign [of "sint ?c + 1" "int draw"]
    by auto
  moreover from this have "sint d = int draw mod (sint ?c + 1)"
    using \<open>sint ?c + 1 < 2 ^ 63\<close> unfolding d c1 by (intro sint_word_of_int_range) linarith+
  ultimately show ?thesis by linarith
qed

lemma max_int64_sint: "sint max_int64 = 2 ^ 63 - 1"
  by (simp add: max_int64_def)

lemma full_jitter_panics_iff:
  "full_jitter draw attempt base mx = None \<longleftrightarrow> exponential attempt base mx = max_int64"
proof (cases "exponential attempt base mx = max_int64")
  case True
  then show ?thesis by (simp add: full_jitter_def int64n_def Let_def max_int64_def signed_simps)
next
  case False
  let ?c = "exponential attempt base mx"
  have "sint ?c \<noteq> 2 ^ 63 - 1" using False max_int64_sint by (metis word_of_sint)
  then have "sint (?c + 1) = sint ?c + 1"
    using sint_range(2) [of ?c] exponential_nonneg [of attempt base mx]
    by (subst sint_add_exact) auto
  then show ?thesis using False exponential_nonneg [of attempt base mx]
    by (auto simp: full_jitter_def int64n_def Let_def signed_simps)
qed

subsection \<open>The retry window\<close>

lemma le_go_div_max: "0 < sint n \<Longrightarrow> 0 \<le> sint a \<Longrightarrow> \<not> go_div a n <s b \<Longrightarrow> sint n * sint b \<le> sint a"
proof -
  assume a: "0 < sint n" "0 \<le> sint a" "\<not> go_div a n <s b"
  then have "sint b \<le> sint a div sint n" by (simp add: sint_go_div_pos signed_simps)
  then have "sint n * sint b \<le> sint n * (sint a div sint n)" using a(1) by simp
  also have "\<dots> \<le> sint a" using a(1) by (simp add: mult_div_mod_eq [symmetric] minus_mod_eq_mult_div [symmetric])
  finally show ?thesis .
qed

lemma max_retry_window_exact:
  assumes "max_retry_window n h mx = Inr w" and "1 \<le> sint n" and "0 < sint h" and "0 < sint mx"
  shows "sint w = sint n * sint h + (sint n - 1) * sint mx"
proof -
  have g: "\<not> go_div max_int64 n <s h" using assms(1) by (auto simp: max_retry_window_def split: if_splits)
  then have "sint n * sint h \<le> 2 ^ 63 - 1"
    using le_go_div_max [of n max_int64 h] assms(2) max_int64_sint by simp
  moreover have "0 \<le> sint n * sint h" using assms by simp
  ultimately have win: "sint (n * h) = sint n * sint h" by (intro sint_mult_exact) linarith+
  have sl: "sint (n - 1) = sint n - 1"
    using assms(2) sint_range(2) [of n] by (subst sint_sub_exact) auto
  show ?thesis
  proof (cases "sint n = 1")
    case True
    then show ?thesis using assms(1) g win sl
      by (auto simp: max_retry_window_def Let_def signed_simps split: if_splits)
  next
    case False
    then have pos: "0 < sint (n - 1)" using assms(2) sl by simp
    have mw: "sint (max_int64 - n * h) = 2 ^ 63 - 1 - sint n * sint h"
      using \<open>sint n * sint h \<le> 2 ^ 63 - 1\<close> \<open>0 \<le> sint n * sint h\<close> win max_int64_sint
      by (subst sint_sub_exact) auto
    have g2: "\<not> go_div (max_int64 - n * h) (n - 1) <s mx" and w: "w = n * h + (n - 1) * mx"
      using assms(1,4) g pos by (auto simp: max_retry_window_def Let_def signed_simps split: if_splits)
    have le: "sint (n - 1) * sint mx \<le> 2 ^ 63 - 1 - sint n * sint h"
      using le_go_div_max [OF pos _ g2] mw \<open>sint n * sint h \<le> 2 ^ 63 - 1\<close> by simp
    have "0 \<le> sint (n - 1) * sint mx" using pos assms(4) by simp
    then have sm: "sint ((n - 1) * mx) = sint (n - 1) * sint mx"
      using le \<open>0 \<le> sint n * sint h\<close> by (intro sint_mult_exact) linarith+
    then have "sint (n * h + (n - 1) * mx) = sint (n * h) + sint ((n - 1) * mx)"
      using le \<open>0 \<le> sint (n - 1) * sint mx\<close> \<open>0 \<le> sint n * sint h\<close> win
      by (intro sint_add_exact) linarith+
    then show ?thesis using w win sm sl by simp
  qed
qed

subsection \<open>Properties\<close>

text \<open>
  Claim C39. The delay before a retry is exactly \<open>min(maxBackoff, base * 2^attempt)\<close>, computed
  without overflow for every pair of positive durations, at any attempt below 62, and beyond
  that whenever the cap is what the product has reached.
\<close>

theorem exponential_spec:
  assumes "0 <s base" and "0 <s mx"
    and "attempt <s 62 \<or> sint mx \<le> sint base * 2 ^ 62"
  shows "sint (exponential attempt base mx) =
           min (sint mx) (sint base * 2 ^ nat (max 0 (sint attempt)))"
proof (cases "attempt <s 62")
  case True
  let ?a = "if attempt <s 0 then 0 else attempt"
  have u: "unat ?a = nat (max 0 (sint attempt))"
    by (auto simp: signed_simps unat_nonneg max_def)
  have "unat ?a \<le> 61" using True u by (auto simp: signed_simps)
  then have m: "sint (push_bit (unat ?a) 1 :: i64) = 2 ^ unat ?a" (is "sint ?m = _")
    by (intro sint_push_bit_1) simp
  have "exponential attempt base mx =
      (if base * ?m \<le>s 0 \<or> mx <s base * ?m \<or> go_div (base * ?m) ?m \<noteq> base then mx else base * ?m)"
    using assms True by (simp add: exponential_def Let_def signed_simps)
  then show ?thesis
    using exponential_core [OF _ _ m, of base mx] assms by (simp only: u) (simp add: signed_simps)
next
  case False
  have "sint base * 2 ^ 62 \<le> sint base * 2 ^ nat (max 0 (sint attempt))"
    using False assms(1) by (intro mult_left_mono power_increasing) (auto simp: signed_simps)
  moreover have "sint mx \<le> sint base * 2 ^ 62" using assms(3) False by blast
  ultimately have "sint mx \<le> sint base * 2 ^ nat (max 0 (sint attempt))" by (rule order_trans [rotated])
  moreover have "exponential attempt base mx = mx"
    using False assms(1,2) by (auto simp: exponential_def signed_simps)
  ultimately show ?thesis by simp
qed

theorem exponential_spec_witness:
  "sint (exponential 3 1000000000 300000000000) =
     min 300000000000 (1000000000 * 2 ^ 3)"
  using exponential_spec [of 1000000000 300000000000 3] by (simp add: signed_simps)

text \<open>
  A retry policy that \<open>ValidateRetryPolicy\<close> accepts has a worst-case window (every
  attempt runs into its handler timeout and every pause lasts the whole cap), computed over the
  integers, strictly below the idle time after which another consumer may claim the message.
\<close>

theorem validate_retry_policy_window:
  assumes "validate_retry_policy n b mx h idle = Inr ()"
  shows "sint n * sint h + (sint n - 1) * sint mx < sint idle"
proof -
  from assms obtain w where "1 \<le> sint n" "0 < sint h" "0 < sint mx"
    and w: "max_retry_window n h mx = Inr w" and "sint w < sint idle"
    by (fastforce simp: validate_retry_policy_def bindr_Inr_iff signed_simps split: if_splits)
  then show ?thesis using max_retry_window_exact [OF w] by simp
qed

theorem validate_retry_policy_window_witness:
  "sint (5 :: i64) * sint (5000000000 :: i64) + (sint (5 :: i64) - 1) * sint (2000000000 :: i64)
     < sint (60000000000 :: i64)"
  by (rule validate_retry_policy_window [of 5 200000000 2000000000 5000000000 60000000000])
     (simp add: validate_retry_policy_def max_retry_window_def max_retry_attempts_def Let_def
        max_int64_def go_div_def signed_simps)

end
