(* ===== verification/Product.thy ===== *)
theory Product
  imports GoError GoText "HOL-Library.AList" "HOL-Library.Option_ord" "HOL-Library.Product_Lexorder"
begin

text \<open>
  \<open>internal/domain/product\<close>: the entities (\<open>entity.go\<close>, \<open>source.go\<close>, \<open>version.go\<close>,
  \<open>change.go\<close>, \<open>events.go\<close>), canonical payloads and fingerprints (\<open>fingerprint.go\<close>),
  change detection for one record (\<open>transition.go\<close>), and the run counters.

  A Go map with string keys is an association list, in the order a traversal happens to visit it.
  The text environment \<open>text_env\<close> holds the Unicode tables the code calls (\<open>norm.NFC\<close> of
  \<open>golang.org/x/text\<close>, \<open>strings.ToLower\<close>) and the hexadecimal SHA-256 of the JSON encoding
  of a canonical payload.
\<close>

subsection \<open>Entities\<close>

datatype product_status = StatusDraft
datatype change_type = ChangeTypeNew | ChangeTypeChanged

record product =
  p_id :: string
  p_canonical_name :: string
  p_description :: string
  p_brand :: string
  p_origin_country :: string
  p_status :: product_status
  p_current_version_id :: "string option"
  p_current_fingerprint :: string
  p_created_at :: instant
  p_updated_at :: instant

record product_source =
  ps_id :: string
  ps_product_id :: string
  ps_source_id :: string
  ps_external_product_id :: string
  ps_first_seen_at :: instant
  ps_last_changed_at :: instant
  ps_last_source_updated_at :: "instant option"
  ps_last_received_at :: instant

record product_version =
  v_id :: string
  v_product_id :: string
  v_number :: int
  v_fingerprint :: string
  v_canonical_name :: string
  v_description :: string
  v_brand :: string
  v_origin_country :: string
  v_attributes :: "(string \<times> string) list"
  v_ingestion_run_id :: "string option"
  v_created_at :: instant

record product_change =
  ch_id :: string
  ch_product_id :: string
  ch_from_version_id :: "string option"
  ch_to_version_id :: string
  ch_type :: change_type
  ch_changed_fields :: "string list"
  ch_ingestion_run_id :: "string option"
  ch_raw_record_id :: "string option"
  ch_detected_at :: instant

record product_changed =
  ev_event_id :: string
  ev_product_id :: string
  ev_version_id :: string
  ev_version_number :: int
  ev_fingerprint :: string
  ev_change_type :: change_type
  ev_changed_fields :: "string list"

record normalized =
  n_canonical_name :: string
  n_description :: string
  n_brand :: string
  n_origin_country :: string
  n_attributes :: "(string \<times> string) list"

subsection \<open>Run counters\<close>

record metrics =
  m_seen :: int
  m_new :: int
  m_changed :: int
  m_unchanged :: int
  m_failed :: int

definition validate_metrics :: "metrics \<Rightarrow> gerr + unit" where
  "validate_metrics m =
     (if m_seen m < 0 \<or> m_new m < 0 \<or> m_changed m < 0 \<or> m_unchanged m < 0 \<or> m_failed m < 0
      then Inl (Leaf (Product ErrNegativeMetric)) else Inr ())"

subsection \<open>Fingerprints\<close>

record canonical_payload =
  cp_attributes :: "(string \<times> string) list"
  cp_brand :: string
  cp_canonical_name :: string
  cp_description :: string
  cp_origin_country :: string

record text_env =
  te_nfc :: "string \<Rightarrow> string"
  te_lower :: "string \<Rightarrow> string"
  te_digest :: "canonical_payload \<Rightarrow> string"

definition fold_key :: "text_env \<Rightarrow> string \<Rightarrow> string" where
  "fold_key te k = te_lower te (te_nfc te (trim_space k))"

definition fold_attributes :: "text_env \<Rightarrow> (string \<times> string) list \<Rightarrow> (string \<times> string) list" where
  "fold_attributes te attrs = fold (\<lambda>(k, v) m. AList.update (fold_key te k) v m) attrs []"

definition canonicalize :: "text_env \<Rightarrow> normalized \<Rightarrow> canonical_payload" where
  "canonicalize te p = \<lparr>cp_attributes = fold_attributes te (n_attributes p),
     cp_brand = fold_key te (n_brand p), cp_canonical_name = n_canonical_name p,
     cp_description = n_description p, cp_origin_country = n_origin_country p\<rparr>"

definition fingerprint_v1_prefix :: string where
  "fingerprint_v1_prefix = ''v1:''"

text \<open>\<open>json.Marshal\<close> writes the attributes in the order of their keys.\<close>

definition marshal_order :: "canonical_payload \<Rightarrow> canonical_payload" where
  "marshal_order c = c\<lparr>cp_attributes := sort_key fst (cp_attributes c)\<rparr>"

definition fingerprint :: "text_env \<Rightarrow> normalized \<Rightarrow> string" where
  "fingerprint te p = fingerprint_v1_prefix @ te_digest te (marshal_order (canonicalize te p))"

definition version_product :: "product_version \<Rightarrow> normalized" where
  "version_product v = \<lparr>n_canonical_name = v_canonical_name v, n_description = v_description v,
     n_brand = v_brand v, n_origin_country = v_origin_country v, n_attributes = v_attributes v\<rparr>"

definition fingerprint_from_version :: "text_env \<Rightarrow> product_version \<Rightarrow> string" where
  "fingerprint_from_version te v = fingerprint te (version_product v)"

definition attributes_changed :: "(string \<times> string) list \<Rightarrow> (string \<times> string) list \<Rightarrow> bool" where
  "attributes_changed a b \<longleftrightarrow>
     (if length a \<noteq> length b then True else list_ex (\<lambda>(k, v). map_of b k \<noteq> Some v) a)"

definition detect_field_changes :: "text_env \<Rightarrow> product_version \<Rightarrow> normalized \<Rightarrow> string list" where
  "detect_field_changes te cur next =
     (let c = canonicalize te (version_product cur); n = canonicalize te next in
      sort ((if cp_canonical_name c \<noteq> cp_canonical_name n then [''canonical_name''] else []) @
        (if cp_description c \<noteq> cp_description n then [''description''] else []) @
        (if cp_brand c \<noteq> cp_brand n then [''brand''] else []) @
        (if cp_origin_country c \<noteq> cp_origin_country n then [''origin_country''] else []) @
        (if attributes_changed (cp_attributes c) (cp_attributes n) then [''attributes''] else [])))"

subsection \<open>The transition of one record\<close>

datatype transition_type =
  TransitionNew | TransitionChanged | TransitionUnchanged | TransitionStale | TransitionVersionMismatch

record transition_result =
  t_type :: transition_type
  t_changed_fields :: "string list"

record snapshot =
  sn_product_source_id :: string
  sn_product_id :: string
  sn_current_version_id :: "string option"
  sn_current_fingerprint :: string
  sn_last_source_updated_at :: "instant option"
  sn_last_received_at :: instant
  sn_stored_current_version :: "product_version option"

record incoming_record =
  in_normalized :: normalized
  in_fingerprint :: string
  in_source_updated_at :: "instant option"
  in_received_at :: instant
  in_raw_record_id :: string

definition is_stale :: "snapshot \<Rightarrow> incoming_record \<Rightarrow> bool" where
  "is_stale s r \<longleftrightarrow>
     (case (in_source_updated_at r, sn_last_source_updated_at s) of
        (Some a, Some b) \<Rightarrow>
           if a < b then True
           else if a = b then in_received_at r < sn_last_received_at s
           else False
      | _ \<Rightarrow> in_received_at r < sn_last_received_at s)"

definition decide_transition :: "text_env \<Rightarrow> snapshot option \<Rightarrow> incoming_record \<Rightarrow> transition_result" where
  "decide_transition te cur r =
     (case cur of None \<Rightarrow> \<lparr>t_type = TransitionNew, t_changed_fields = []\<rparr>
      | Some s \<Rightarrow>
          if is_stale s r then \<lparr>t_type = TransitionStale, t_changed_fields = []\<rparr>
          else if \<not> has_prefix fingerprint_v1_prefix (sn_current_fingerprint s)
            \<and> (case sn_stored_current_version s of None \<Rightarrow> False
               | Some v \<Rightarrow> fingerprint_from_version te v = in_fingerprint r)
          then \<lparr>t_type = TransitionVersionMismatch, t_changed_fields = []\<rparr>
          else if sn_current_fingerprint s = in_fingerprint r
          then \<lparr>t_type = TransitionUnchanged, t_changed_fields = []\<rparr>
          else \<lparr>t_type = TransitionChanged, t_changed_fields =
            (case sn_stored_current_version s of None \<Rightarrow> []
             | Some v \<Rightarrow> detect_field_changes te v (in_normalized r))\<rparr>)"

subsection \<open>Fingerprints and field changes agree\<close>

lemma fold_attributes_distinct: "distinct (map fst (fold_attributes te attrs))"
proof -
  have "distinct (map fst acc) \<Longrightarrow>
    distinct (map fst (fold (\<lambda>(k, v) m. AList.update (fold_key te k) v m) attrs acc))" for acc
    by (induction attrs arbitrary: acc) (auto simp: distinct_update)
  then show ?thesis by (simp add: fold_attributes_def)
qed

lemma attributes_changed_iff:
  assumes "distinct (map fst a)" "distinct (map fst b)"
  shows "attributes_changed a b \<longleftrightarrow> map_of a \<noteq> map_of b"
proof
  assume ch: "attributes_changed a b"
  show "map_of a \<noteq> map_of b"
  proof
    assume eq: "map_of a = map_of b"
    then have "dom (map_of a) = dom (map_of b)" by simp
    then have "set (map fst a) = set (map fst b)" by (simp add: dom_map_of_conv_image_fst)
    then have "length a = length b" using assms by (metis distinct_card length_map)
    with ch obtain k v where "(k, v) \<in> set a" "map_of b k \<noteq> Some v"
      by (auto simp: attributes_changed_def list_ex_iff)
    with eq assms(1) show False by (metis map_of_is_SomeI)
  qed
next
  assume ne: "map_of a \<noteq> map_of b"
  show "attributes_changed a b"
  proof (rule ccontr)
    assume "\<not> attributes_changed a b"
    then have len: "length a = length b" and le: "\<And>k v. (k, v) \<in> set a \<Longrightarrow> map_of b k = Some v"
      by (auto simp: attributes_changed_def list_ex_iff split: if_splits)
    have sub: "set a \<subseteq> set b" using le by (auto dest: map_of_SomeD)
    moreover have "card (set a) = card (set b)"
    proof -
      have "distinct a" "distinct b" using assms by (auto simp: distinct_map)
      then show ?thesis using len by (simp add: distinct_card)
    qed
    ultimately have "set a = set b" by (simp add: card_subset_eq)
    then have "map_of a = map_of b" using assms by (simp add: map_of_inject_set)
    with ne show False by contradiction
  qed
qed

lemma sorted_attributes_iff:
  assumes "distinct (map fst a)" "distinct (map fst (b :: (string \<times> string) list))"
  shows "sort_key fst a = sort_key fst b \<longleftrightarrow> map_of a = map_of b"
proof
  assume "sort_key fst a = sort_key fst b"
  then have "set a = set b" by (metis set_sort)
  with assms show "map_of a = map_of b" by (simp add: map_of_inject_set)
next
  assume "map_of a = map_of b"
  with assms have sets: "set a = set b" by (simp add: map_of_inject_set)
  have inj: "inj_on fst (set (sort_key fst a) \<union> set (sort_key fst b))"
    using assms sets by (simp add: distinct_map)
  have "map fst (sort_key fst a) = map fst (sort_key fst b)"
  proof (rule sorted_distinct_set_unique)
    show "distinct (map fst (sort_key fst a))" "distinct (map fst (sort_key fst b))"
      using assms by (simp_all add: distinct_map)
  qed (simp_all add: sets)
  with inj show "sort_key fst a = sort_key fst b" by (simp add: inj_on_map_eq_map)
qed

lemma detect_none_iff:
  "detect_field_changes te v n = [] \<longleftrightarrow>
     marshal_order (canonicalize te (version_product v)) = marshal_order (canonicalize te n)"
proof -
  let ?c = "canonicalize te (version_product v)" and ?n = "canonicalize te n"
  have d: "distinct (map fst (cp_attributes ?c))" "distinct (map fst (cp_attributes ?n))"
    by (simp_all add: canonicalize_def fold_attributes_distinct)
  have "detect_field_changes te v n = [] \<longleftrightarrow>
     cp_canonical_name ?c = cp_canonical_name ?n \<and> cp_description ?c = cp_description ?n \<and>
     cp_brand ?c = cp_brand ?n \<and> cp_origin_country ?c = cp_origin_country ?n \<and>
     \<not> attributes_changed (cp_attributes ?c) (cp_attributes ?n)"
    by (simp add: detect_field_changes_def Let_def)
  also have "\<dots> \<longleftrightarrow> marshal_order ?c = marshal_order ?n"
    unfolding attributes_changed_iff [OF d] not_not sorted_attributes_iff [OF d, symmetric]
    by (cases ?c; cases ?n) (auto simp: marshal_order_def)
  finally show ?thesis .
qed


definition demo_te :: text_env where
  "demo_te = \<lparr>te_nfc = (\<lambda>s. s), te_lower = map lower_char, te_digest = (\<lambda>c. cp_canonical_name c @ ''|'' @ cp_brand c)\<rparr>"

definition demo_version :: product_version where
  "demo_version = \<lparr>v_id = ''v1'', v_product_id = ''p1'', v_number = 1, v_fingerprint = ''v1:TV|acme'',
     v_canonical_name = ''TV'', v_description = [], v_brand = ''Acme'', v_origin_country = ''CN'',
     v_attributes = [], v_ingestion_run_id = None, v_created_at = 5\<rparr>"

definition demo_normalized :: normalized where
  "demo_normalized = \<lparr>n_canonical_name = ''TV'', n_description = [], n_brand = ''ACME'', n_origin_country = ''CN'',
     n_attributes = []\<rparr>"


subsection \<open>Order of source timestamps\<close>

text \<open>A record at or after both watermarks is never stale.\<close>

lemma not_stale_if_newer:
  "in_received_at r \<ge> sn_last_received_at s \<Longrightarrow>
   (case (in_source_updated_at r, sn_last_source_updated_at s) of (Some a, Some b) \<Rightarrow> b \<le> a | _ \<Rightarrow> True) \<Longrightarrow>
   \<not> is_stale s r"
  by (auto simp: is_stale_def split: option.splits)

lemma decide_transition_stale_iff:
  "t_type (decide_transition te (Some s) r) = TransitionStale \<longleftrightarrow> is_stale s r"
  by (auto simp: decide_transition_def)

lemma decide_transition_new_iff:
  "t_type (decide_transition te cur r) = TransitionNew \<longleftrightarrow> cur = None"
  by (auto simp: decide_transition_def split: option.splits)

end
