(* ===== verification/Batch.thy ===== *)
theory Batch
  imports Product "HOL-Library.Multiset"
begin

text \<open>
  \<open>internal/domain/product/batch.go\<close>: one page of normalized records, folded identity by
  identity into the rows to write. The random identifiers are a supply \<open>ids\<close> read in order, each
  draw an error or a string; the next position of the supply is threaded through the fold.
\<close>

subsection \<open>The plan\<close>

record batch_record =
  br_raw_record_id :: string
  br_source_id :: string
  br_external_product_id :: string
  br_normalized :: normalized
  br_fingerprint :: string
  br_source_updated_at :: "instant option"
  br_received_at :: instant
  br_ingestion_run_id :: string

record guarded_update =
  gu_product_id :: string
  gu_expected_version_id :: "string option"
  gu_to_version_id :: string
  gu_current_fingerprint :: string
  gu_canonical_name :: string
  gu_description :: string
  gu_brand :: string
  gu_origin_country :: string
  gu_updated_at :: instant

record fingerprint_update =
  fu_product_id :: string
  fu_expected_version_id :: "string option"
  fu_current_fingerprint :: string
  fu_updated_at :: instant

record watermark_update =
  wu_product_source_id :: string
  wu_source_updated_at :: "instant option"
  wu_received_at :: instant

record changed_update =
  cu_product_source_id :: string
  cu_last_changed_at :: instant
  cu_source_updated_at :: "instant option"
  cu_received_at :: instant

record plan =
  pl_products :: "product list"
  pl_sources :: "product_source list"
  pl_versions :: "product_version list"
  pl_changes :: "product_change list"
  pl_events :: "product_changed list"
  pl_updates :: "guarded_update list"
  pl_fingerprints :: "fingerprint_update list"
  pl_watermarks :: "watermark_update list"
  pl_source_changes :: "changed_update list"
  pl_metrics :: metrics

definition empty_plan :: "int \<Rightarrow> plan" where
  "empty_plan n = \<lparr>pl_products = [], pl_sources = [], pl_versions = [], pl_changes = [],
     pl_events = [], pl_updates = [], pl_fingerprints = [], pl_watermarks = [], pl_source_changes = [],
     pl_metrics = \<lparr>m_seen = n, m_new = 0, m_changed = 0, m_unchanged = 0, m_failed = 0\<rparr>\<rparr>"

subsection \<open>Grouping\<close>

definition identity_key :: "string \<Rightarrow> string \<Rightarrow> string" where
  "identity_key source_id external_id = source_id @ [CHR 0x00] @ external_id"

definition record_key :: "batch_record \<Rightarrow> string" where
  "record_key r = identity_key (br_source_id r) (br_external_product_id r)"

definition int_cmp :: "int \<Rightarrow> int \<Rightarrow> int" where
  "int_cmp a b = (if a < b then - 1 else if a = b then 0 else 1)"

definition string_cmp :: "string \<Rightarrow> string \<Rightarrow> int" where
  "string_cmp a b = (if a < b then - 1 else if a = b then 0 else 1)"

definition compare_processing_order :: "batch_record \<Rightarrow> batch_record \<Rightarrow> int" where
  "compare_processing_order a b =
     (let rest = (let c = int_cmp (br_received_at a) (br_received_at b) in
        if c \<noteq> 0 then c else string_cmp (br_raw_record_id a) (br_raw_record_id b)) in
      case (br_source_updated_at a, br_source_updated_at b) of
        (None, Some _) \<Rightarrow> - 1
      | (Some _, None) \<Rightarrow> 1
      | (Some x, Some y) \<Rightarrow> (let c = int_cmp x y in if c \<noteq> 0 then c else rest)
      | (None, None) \<Rightarrow> rest)"

text \<open>\<open>slices.SortStableFunc\<close>: the stable order of a comparison function.\<close>

fun insert_stable :: "('a \<Rightarrow> 'a \<Rightarrow> int) \<Rightarrow> 'a \<Rightarrow> 'a list \<Rightarrow> 'a list" where
  "insert_stable cmp x [] = [x]"
| "insert_stable cmp x (y # ys) = (if cmp x y \<le> 0 then x # y # ys else y # insert_stable cmp x ys)"

definition sort_stable :: "('a \<Rightarrow> 'a \<Rightarrow> int) \<Rightarrow> 'a list \<Rightarrow> 'a list" where
  "sort_stable cmp xs = foldr (insert_stable cmp) xs []"

record identity_group =
  ig_key :: string
  ig_source_id :: string
  ig_external_product_id :: string
  ig_records :: "batch_record list"

fun add_to_groups :: "batch_record \<Rightarrow> identity_group list \<Rightarrow> identity_group list" where
  "add_to_groups r [] = [\<lparr>ig_key = record_key r, ig_source_id = br_source_id r,
     ig_external_product_id = br_external_product_id r, ig_records = [r]\<rparr>]"
| "add_to_groups r (g # gs) =
     (if ig_key g = record_key r then g\<lparr>ig_records := ig_records g @ [r]\<rparr> # gs
      else g # add_to_groups r gs)"

definition group_by_identity :: "batch_record list \<Rightarrow> identity_group list" where
  "group_by_identity records =
     map (\<lambda>g. g\<lparr>ig_records := sort_stable compare_processing_order (ig_records g)\<rparr>)
       (fold add_to_groups records [])"

subsection \<open>The fold of one identity\<close>

type_synonym id_supply = "nat \<Rightarrow> gerr + string"

fun new_ids :: "id_supply \<Rightarrow> nat \<Rightarrow> nat \<Rightarrow> gerr + (string list \<times> nat)" where
  "new_ids ids i 0 = Inr ([], i)"
| "new_ids ids i (Suc n) =
     (case ids i of Inl x \<Rightarrow> Inl (Wrap x)
      | Inr s \<Rightarrow> bindr (new_ids ids (Suc i) n) (\<lambda>(ss, j). Inr (s # ss, j)))"

text \<open>The state of a fold: the supply's position, the plan, and the identity's fields.\<close>

record identity_fold =
  if_next :: nat
  if_plan :: plan
  if_start :: "snapshot option"
  if_cur :: "snapshot option"
  if_versioned :: bool
  if_touched :: bool

definition new_identity_fold :: "nat \<Rightarrow> plan \<Rightarrow> snapshot option \<Rightarrow> identity_fold" where
  "new_identity_fold i p start = \<lparr>if_next = i, if_plan = p, if_start = start, if_cur = start,
     if_versioned = False, if_touched = False\<rparr>"

definition optional_string :: "string \<Rightarrow> string option" where
  "optional_string s = (if is_blank s then None else Some s)"

definition greatest_timestamptz :: "instant option \<Rightarrow> instant option \<Rightarrow> instant option" where
  "greatest_timestamptz a b =
     (case (a, b) of (None, _) \<Rightarrow> b | (_, None) \<Rightarrow> a | (Some x, Some y) \<Rightarrow> if x > y then a else b)"

definition greatest_time :: "instant \<Rightarrow> instant \<Rightarrow> instant" where
  "greatest_time a b = (if a > b then a else b)"

definition to_incoming :: "batch_record \<Rightarrow> incoming_record" where
  "to_incoming r = \<lparr>in_normalized = br_normalized r, in_fingerprint = br_fingerprint r,
     in_source_updated_at = br_source_updated_at r, in_received_at = br_received_at r,
     in_raw_record_id = br_raw_record_id r\<rparr>"

definition inc_new :: "plan \<Rightarrow> plan" where
  "inc_new p = p\<lparr>pl_metrics := (pl_metrics p)\<lparr>m_new := m_new (pl_metrics p) + 1\<rparr>\<rparr>"

definition inc_changed :: "plan \<Rightarrow> plan" where
  "inc_changed p = p\<lparr>pl_metrics := (pl_metrics p)\<lparr>m_changed := m_changed (pl_metrics p) + 1\<rparr>\<rparr>"

definition inc_unchanged :: "plan \<Rightarrow> plan" where
  "inc_unchanged p = p\<lparr>pl_metrics := (pl_metrics p)\<lparr>m_unchanged := m_unchanged (pl_metrics p) + 1\<rparr>\<rparr>"

definition new_version :: "instant \<Rightarrow> batch_record \<Rightarrow> snapshot \<Rightarrow> string \<Rightarrow> product_version" where
  "new_version now r cur version_id = \<lparr>v_id = version_id, v_product_id = sn_product_id cur,
     v_number = (case sn_stored_current_version cur of None \<Rightarrow> 1 | Some v \<Rightarrow> v_number v + 1),
     v_fingerprint = br_fingerprint r, v_canonical_name = n_canonical_name (br_normalized r),
     v_description = n_description (br_normalized r), v_brand = n_brand (br_normalized r),
     v_origin_country = n_origin_country (br_normalized r), v_attributes = n_attributes (br_normalized r),
     v_ingestion_run_id = optional_string (br_ingestion_run_id r), v_created_at = now\<rparr>"

definition record_version ::
  "instant \<Rightarrow> batch_record \<Rightarrow> change_type \<Rightarrow> string list \<Rightarrow> snapshot \<Rightarrow> string list \<Rightarrow> identity_fold \<Rightarrow> identity_fold" where
  "record_version now r ct chf cur vids f =
     (let version = new_version now r cur (vids ! 0);
          change = \<lparr>ch_id = vids ! 1, ch_product_id = sn_product_id cur,
            ch_from_version_id = sn_current_version_id cur, ch_to_version_id = vids ! 0, ch_type = ct,
            ch_changed_fields = chf, ch_ingestion_run_id = optional_string (br_ingestion_run_id r),
            ch_raw_record_id = Some (br_raw_record_id r), ch_detected_at = now\<rparr>;
          event = \<lparr>ev_event_id = vids ! 2, ev_product_id = v_product_id version, ev_version_id = v_id version,
            ev_version_number = v_number version, ev_fingerprint = v_fingerprint version,
            ev_change_type = ct, ev_changed_fields = chf\<rparr>;
          p = if_plan f;
          p' = p\<lparr>pl_versions := pl_versions p @ [version], pl_changes := pl_changes p @ [change],
                 pl_events := pl_events p @ [event]\<rparr>
      in f\<lparr>if_plan := (if ct = ChangeTypeNew then inc_new p' else inc_changed p'),
           if_cur := Some (cur\<lparr>sn_current_version_id := Some (v_id version),
              sn_current_fingerprint := v_fingerprint version, sn_stored_current_version := Some version\<rparr>),
           if_versioned := True\<rparr>)"

definition add_version ::
  "id_supply \<Rightarrow> instant \<Rightarrow> batch_record \<Rightarrow> transition_result \<Rightarrow> identity_fold \<Rightarrow> gerr + identity_fold" where
  "add_version ids now r t f =
     bindr (case if_cur f of Some cur \<Rightarrow> Inr (cur, if_next f)
       | None \<Rightarrow> bindr (new_ids ids (if_next f) 2) (\<lambda>(is, j).
           Inr (\<lparr>sn_product_source_id = is ! 1, sn_product_id = is ! 0, sn_current_version_id = None,
              sn_current_fingerprint = [], sn_last_source_updated_at = None,
              sn_last_received_at = br_received_at r, sn_stored_current_version = None\<rparr>, j))) (\<lambda>(cur, j).
     bindr (new_ids ids j 3) (\<lambda>(vids, k).
       let (ct, chf) = (if t_type t = TransitionNew then (ChangeTypeNew, [])
                           else (ChangeTypeChanged, t_changed_fields t))
       in Inr ((record_version now r ct chf cur vids f)\<lparr>if_next := k\<rparr>)))"

definition touch :: "batch_record \<Rightarrow> identity_fold \<Rightarrow> identity_fold" where
  "touch r f = f\<lparr>if_cur := map_option (\<lambda>c. c\<lparr>
       sn_last_source_updated_at := greatest_timestamptz (sn_last_source_updated_at c) (br_source_updated_at r),
       sn_last_received_at := greatest_time (sn_last_received_at c) (br_received_at r)\<rparr>) (if_cur f),
     if_touched := True\<rparr>"

definition apply_record ::
  "text_env \<Rightarrow> id_supply \<Rightarrow> instant \<Rightarrow> batch_record \<Rightarrow> identity_fold \<Rightarrow> gerr + identity_fold" where
  "apply_record te ids now r f =
     (let t = decide_transition te (if_cur f) (to_incoming r) in
      case t_type t of
        TransitionStale \<Rightarrow> Inr (f\<lparr>if_plan := inc_unchanged (if_plan f)\<rparr>)
      | TransitionNew \<Rightarrow> bindr (add_version ids now r t f) (\<lambda>f. Inr (touch r f))
      | TransitionChanged \<Rightarrow> bindr (add_version ids now r t f) (\<lambda>f. Inr (touch r f))
      | TransitionVersionMismatch \<Rightarrow> Inr (touch r (f\<lparr>
          if_cur := map_option (\<lambda>c. c\<lparr>sn_current_fingerprint := br_fingerprint r\<rparr>) (if_cur f),
          if_plan := inc_unchanged (if_plan f)\<rparr>))
      | TransitionUnchanged \<Rightarrow> Inr (touch r (f\<lparr>if_plan := inc_unchanged (if_plan f)\<rparr>)))"

fun apply_all ::
  "text_env \<Rightarrow> id_supply \<Rightarrow> instant \<Rightarrow> batch_record list \<Rightarrow> identity_fold \<Rightarrow> gerr + identity_fold" where
  "apply_all te ids now [] f = Inr f"
| "apply_all te ids now (r # rs) f = bindr (apply_record te ids now r f) (apply_all te ids now rs)"

subsection \<open>The rows of one identity\<close>

definition product_row :: "instant \<Rightarrow> snapshot \<Rightarrow> product_version \<Rightarrow> product" where
  "product_row now c v = \<lparr>p_id = sn_product_id c, p_canonical_name = v_canonical_name v,
     p_description = v_description v, p_brand = v_brand v, p_origin_country = v_origin_country v,
     p_status = StatusDraft, p_current_version_id = sn_current_version_id c,
     p_current_fingerprint = sn_current_fingerprint c, p_created_at = now, p_updated_at = now\<rparr>"

definition source_row :: "instant \<Rightarrow> identity_group \<Rightarrow> snapshot \<Rightarrow> product_source" where
  "source_row now g c = \<lparr>ps_id = sn_product_source_id c, ps_product_id = sn_product_id c,
     ps_source_id = ig_source_id g, ps_external_product_id = ig_external_product_id g,
     ps_first_seen_at = now, ps_last_changed_at = now,
     ps_last_source_updated_at = sn_last_source_updated_at c, ps_last_received_at = sn_last_received_at c\<rparr>"

definition emit_insert :: "instant \<Rightarrow> identity_group \<Rightarrow> snapshot \<Rightarrow> product_version \<Rightarrow> plan \<Rightarrow> plan" where
  "emit_insert now g c v p = p\<lparr>pl_products := pl_products p @ [product_row now c v],
     pl_sources := pl_sources p @ [source_row now g c]\<rparr>"

definition version_update :: "instant \<Rightarrow> snapshot \<Rightarrow> snapshot \<Rightarrow> product_version \<Rightarrow> guarded_update" where
  "version_update now s c v = \<lparr>gu_product_id = sn_product_id c, gu_expected_version_id = sn_current_version_id s,
     gu_to_version_id = v_id v, gu_current_fingerprint = sn_current_fingerprint c,
     gu_canonical_name = v_canonical_name v, gu_description = v_description v, gu_brand = v_brand v,
     gu_origin_country = v_origin_country v, gu_updated_at = now\<rparr>"

definition emit_version_update :: "instant \<Rightarrow> snapshot \<Rightarrow> snapshot \<Rightarrow> product_version \<Rightarrow> plan \<Rightarrow> plan" where
  "emit_version_update now s c v p = p\<lparr>pl_updates := pl_updates p @ [version_update now s c v],
     pl_source_changes := pl_source_changes p @ [\<lparr>cu_product_source_id = sn_product_source_id c,
       cu_last_changed_at = now, cu_source_updated_at = sn_last_source_updated_at c,
       cu_received_at = sn_last_received_at c\<rparr>]\<rparr>"

definition emit_touched :: "instant \<Rightarrow> snapshot \<Rightarrow> snapshot \<Rightarrow> plan \<Rightarrow> plan" where
  "emit_touched now s c p =
     (let p' = (if sn_current_fingerprint c \<noteq> sn_current_fingerprint s
        then p\<lparr>pl_fingerprints := pl_fingerprints p @ [\<lparr>fu_product_id = sn_product_id c,
          fu_expected_version_id = sn_current_version_id s,
          fu_current_fingerprint = sn_current_fingerprint c, fu_updated_at = now\<rparr>]\<rparr> else p) in
      p'\<lparr>pl_watermarks := pl_watermarks p' @ [\<lparr>wu_product_source_id = sn_product_source_id c,
        wu_source_updated_at = sn_last_source_updated_at c, wu_received_at = sn_last_received_at c\<rparr>]\<rparr>)"

text \<open>
  A missing current state or version is a nil dereference in the code; no group reaches those
  branches.
\<close>

definition emit :: "instant \<Rightarrow> identity_group \<Rightarrow> identity_fold \<Rightarrow> gerr + plan" where
  "emit now g f =
     (case if_start f of
        None \<Rightarrow> (case if_cur f of None \<Rightarrow> Inl nil_deref
          | Some c \<Rightarrow> (case sn_stored_current_version c of None \<Rightarrow> Inl nil_deref
            | Some v \<Rightarrow> Inr (emit_insert now g c v (if_plan f))))
      | Some s \<Rightarrow> (case if_cur f of None \<Rightarrow> Inl nil_deref
          | Some c \<Rightarrow>
              if if_versioned f then (case sn_stored_current_version c of None \<Rightarrow> Inl nil_deref
                | Some v \<Rightarrow> Inr (emit_version_update now s c v (if_plan f)))
              else if if_touched f then Inr (emit_touched now s c (if_plan f))
              else Inr (if_plan f)))"

definition fold_group ::
  "text_env \<Rightarrow> id_supply \<Rightarrow> instant \<Rightarrow> (string \<rightharpoonup> snapshot) \<Rightarrow> identity_group \<Rightarrow> nat \<times> plan \<Rightarrow> gerr + (nat \<times> plan)" where
  "fold_group te ids now snapshots g s =
     bindr (apply_all te ids now (ig_records g) (new_identity_fold (fst s) (snd s) (snapshots (ig_key g)))) (\<lambda>f.
     bindr (emit now g f) (\<lambda>p. Inr (if_next f, p)))"

fun fold_groups ::
  "text_env \<Rightarrow> id_supply \<Rightarrow> instant \<Rightarrow> (string \<rightharpoonup> snapshot) \<Rightarrow> identity_group list \<Rightarrow> nat \<times> plan \<Rightarrow> gerr + (nat \<times> plan)" where
  "fold_groups te ids now snapshots [] s = Inr s"
| "fold_groups te ids now snapshots (g # gs) s =
     bindr (fold_group te ids now snapshots g s) (fold_groups te ids now snapshots gs)"

definition decide_batch ::
  "text_env \<Rightarrow> id_supply \<Rightarrow> (string \<rightharpoonup> snapshot) \<Rightarrow> batch_record list \<Rightarrow> instant \<Rightarrow> gerr + plan" where
  "decide_batch te ids snapshots incoming now =
     (if is_zero now then Inl (Leaf (Product ErrInvalidProductState))
      else bindr (fold_groups te ids now snapshots (group_by_identity incoming)
        (0, empty_plan (int (length incoming)))) (\<lambda>s. Inr (snd s)))"

subsection \<open>Order and grouping\<close>

definition processing_key :: "batch_record \<Rightarrow> instant option \<times> instant \<times> string" where
  "processing_key r = (br_source_updated_at r, br_received_at r, br_raw_record_id r)"

lemma compare_processing_order_le:
  "compare_processing_order a b \<le> 0 \<longleftrightarrow> processing_key a \<le> processing_key b"
  by (auto simp: compare_processing_order_def processing_key_def int_cmp_def string_cmp_def Let_def
      less_eq_option_def less_option_def split: option.splits)

lemma sort_stable_processing: "sort_stable compare_processing_order xs = sort_key processing_key xs"
proof -
  have "insert_stable compare_processing_order x ys = insort_key processing_key x ys" for x ys
    by (induction ys) (simp_all add: compare_processing_order_le)
  then show ?thesis by (simp add: sort_stable_def sort_key_def fun_eq_iff cong: foldr_cong)
qed

lemma add_to_groups_keys:
  "set (map ig_key (add_to_groups r gs)) = insert (record_key r) (set (map ig_key gs))"
  by (induction gs) auto

lemma add_to_groups_distinct: "distinct (map ig_key gs) \<Longrightarrow> distinct (map ig_key (add_to_groups r gs))"
  using add_to_groups_keys by (induction gs) (fastforce simp: image_iff)+

definition grouped :: "batch_record list \<Rightarrow> identity_group list \<Rightarrow> bool" where
  "grouped xs gs \<longleftrightarrow> distinct (map ig_key gs) \<and> set (map ig_key gs) = record_key ` set xs \<and>
     (\<forall>g \<in> set gs. ig_records g = filter (\<lambda>r. record_key r = ig_key g) xs)"

lemma add_to_groups_records:
  "distinct (map ig_key gs) \<Longrightarrow> g \<in> set (add_to_groups r gs) \<Longrightarrow>
     (if ig_key g = record_key r
      then (\<exists>h \<in> set gs. ig_key h = ig_key g \<and> ig_records g = ig_records h @ [r])
         \<or> (record_key r \<notin> set (map ig_key gs) \<and> ig_records g = [r])
      else g \<in> set gs)"
  by (induction gs) (auto split: if_splits simp: image_iff)

lemma grouped_step:
  assumes "grouped xs gs" shows "grouped (xs @ [r]) (add_to_groups r gs)"
proof -
  have d: "distinct (map ig_key gs)" using assms by (simp add: grouped_def)
  have "ig_records g = filter (\<lambda>q. record_key q = ig_key g) (xs @ [r])" if g: "g \<in> set (add_to_groups r gs)" for g
  proof (cases "ig_key g = record_key r")
    case True
    then consider h where "h \<in> set gs" "ig_key h = ig_key g" "ig_records g = ig_records h @ [r]"
      | "record_key r \<notin> set (map ig_key gs)" "ig_records g = [r]"
      using add_to_groups_records [OF d g] by auto
    then show ?thesis
    proof cases
      case 1
      with assms True show ?thesis by (simp add: grouped_def)
    next
      case 2
      then have "record_key r \<notin> record_key ` set xs" using assms by (simp add: grouped_def)
      then have "filter (\<lambda>q. record_key q = record_key r) xs = []" by (auto simp: filter_empty_conv image_iff)
      with 2 True show ?thesis by simp
    qed
  next
    case False
    with add_to_groups_records [OF d g] assms show ?thesis by (auto simp: grouped_def)
  qed
  then show ?thesis
    using assms add_to_groups_distinct [OF d] add_to_groups_keys [of r gs] by (auto simp: grouped_def)
qed

lemma grouped_fold: "grouped xs (fold add_to_groups xs [])"
proof (induction xs rule: rev_induct)
  case Nil
  then show ?case by (simp add: grouped_def)
next
  case (snoc r xs)
  then show ?case by (simp add: grouped_step)
qed

lemma group_by_identity_spec:
  "distinct (map ig_key (group_by_identity xs)) \<and>
   set (map ig_key (group_by_identity xs)) = record_key ` set xs \<and>
   (\<forall>g \<in> set (group_by_identity xs).
      ig_records g = sort_key processing_key (filter (\<lambda>r. record_key r = ig_key g) xs) \<and> ig_records g \<noteq> [])"
proof -
  have g: "grouped xs (fold add_to_groups xs [])" by (rule grouped_fold)
  then have keys: "map ig_key (group_by_identity xs) = map ig_key (fold add_to_groups xs [])"
    by (simp add: group_by_identity_def comp_def)
  have "ig_records h = sort_key processing_key (filter (\<lambda>r. record_key r = ig_key h) xs) \<and> ig_records h \<noteq> []"
    if h: "h \<in> set (group_by_identity xs)" for h
  proof -
    from h obtain k where k: "k \<in> set (fold add_to_groups xs [])"
      "h = k\<lparr>ig_records := sort_stable compare_processing_order (ig_records k)\<rparr>"
      by (auto simp: group_by_identity_def)
    have recs: "ig_records k = filter (\<lambda>r. record_key r = ig_key k) xs" using g k(1) by (simp add: grouped_def)
    have "ig_key k \<in> record_key ` set xs" using g k(1) unfolding grouped_def by (metis image_eqI list.set_map)
    then have "ig_records k \<noteq> []" using recs by (auto simp: filter_empty_conv)
    moreover have "ig_records h = sort_key processing_key (ig_records k)" "ig_key h = ig_key k"
      using k(2) by (simp_all add: sort_stable_processing)
    ultimately show ?thesis using recs by (metis length_0_conv length_sort)
  qed
  then have "\<forall>g \<in> set (group_by_identity xs).
      ig_records g = sort_key processing_key (filter (\<lambda>r. record_key r = ig_key g) xs) \<and> ig_records g \<noteq> []"
    by blast
  moreover have "distinct (map ig_key (group_by_identity xs))"
    "set (map ig_key (group_by_identity xs)) = record_key ` set xs"
    unfolding keys using g by (simp_all add: grouped_def)
  ultimately show ?thesis by blast
qed

text \<open>Claim C37. The order in which a page lists its records does not matter: two pages with the
  same records split into groups with the same keys, and each group is processed in the same order,
  oldest source time first, then oldest receipt, then raw record id.\<close>

theorem grouping_ignores_page_order:
  assumes "mset xs = mset ys" "distinct (map br_raw_record_id xs)"
    and "g \<in> set (group_by_identity xs)"
  shows "(\<exists>h \<in> set (group_by_identity ys). ig_key h = ig_key g \<and> ig_records h = ig_records g)
    \<and> sorted (map processing_key (ig_records g))"
proof -
  have "set xs = set ys" using assms(1) by (metis set_mset_mset)
  then have "ig_key g \<in> set (map ig_key (group_by_identity ys))"
    using group_by_identity_spec [of xs] group_by_identity_spec [of ys] assms(3) by auto
  then obtain h where h: "h \<in> set (group_by_identity ys)" "ig_key h = ig_key g" by auto
  let ?f = "filter (\<lambda>r. record_key r = ig_key g)"
  have gr: "ig_records g = sort_key processing_key (?f xs)"
    using group_by_identity_spec [of xs] assms(3) by blast
  have hr: "ig_records h = sort_key processing_key (?f ys)"
    using group_by_identity_spec [of ys] h by metis
  have inj: "inj_on processing_key (set (?f xs))"
    using assms(2) by (auto simp: inj_on_def processing_key_def distinct_map)
  have "mset (?f xs) = mset (?f ys)" using assms(1) by (simp add: mset_filter)
  then have "sort_key processing_key (?f xs) = sort_key processing_key (?f ys)"
    using inj by (intro sort_key_inj_key_eq) simp_all
  with gr hr h show ?thesis by auto
qed

subsection \<open>The abstract identity\<close>

text \<open>
  What an identity is apart from the identifiers of its rows: how many versions it has, the
  fingerprint and content of the current one, and the two watermarks. \<open>abs_step\<close> says what one
  record does to it.
\<close>

record astate =
  a_version :: int
  a_fingerprint :: string
  a_content :: "normalized option"
  a_updated :: "instant option"
  a_received :: instant

definition abs_of :: "snapshot \<Rightarrow> astate" where
  "abs_of s = \<lparr>a_version = (case sn_stored_current_version s of None \<Rightarrow> 0 | Some v \<Rightarrow> v_number v),
     a_fingerprint = sn_current_fingerprint s,
     a_content = map_option version_product (sn_stored_current_version s),
     a_updated = sn_last_source_updated_at s, a_received = sn_last_received_at s\<rparr>"

definition older :: "batch_record \<Rightarrow> astate \<Rightarrow> bool" where
  "older r a \<longleftrightarrow> (case (br_source_updated_at r, a_updated a) of
     (Some x, Some y) \<Rightarrow> x < y \<or> x = y \<and> br_received_at r < a_received a
   | _ \<Rightarrow> br_received_at r < a_received a)"

definition abs_step :: "text_env \<Rightarrow> batch_record \<Rightarrow> astate option \<Rightarrow> astate option" where
  "abs_step te r st = Some (case st of
     None \<Rightarrow> \<lparr>a_version = 1, a_fingerprint = br_fingerprint r, a_content = Some (br_normalized r),
       a_updated = br_source_updated_at r, a_received = br_received_at r\<rparr>
   | Some a \<Rightarrow>
       if older r a then a
       else (let b = a\<lparr>a_updated := opt_max (a_updated a) (br_source_updated_at r),
                       a_received := max (a_received a) (br_received_at r)\<rparr> in
         if \<not> has_prefix fingerprint_v1_prefix (a_fingerprint a) \<and>
            (case a_content a of None \<Rightarrow> False | Some c \<Rightarrow> fingerprint te c = br_fingerprint r)
         then b\<lparr>a_fingerprint := br_fingerprint r\<rparr>
         else if a_fingerprint a = br_fingerprint r then b
         else b\<lparr>a_version := a_version a + 1, a_fingerprint := br_fingerprint r,
                a_content := Some (br_normalized r)\<rparr>))"

lemma greatest_timestamptz_max: "greatest_timestamptz a b = opt_max a b"
  by (cases a; cases b) (auto simp: greatest_timestamptz_def max_def)

lemma greatest_time_max: "greatest_time a b = max a b"
  by (auto simp: greatest_time_def max_def)

lemma is_stale_older: "is_stale s (to_incoming r) \<longleftrightarrow> older r (abs_of s)"
  by (auto simp: is_stale_def older_def to_incoming_def abs_of_def split: option.splits)

subsection \<open>One record\<close>

text \<open>Consecutive versions of one product, each with its change row and its event.\<close>

fun chain :: "string \<Rightarrow> string option \<Rightarrow> int \<Rightarrow> product_version list \<Rightarrow> product_change list \<Rightarrow> product_changed list \<Rightarrow> bool" where
  "chain p fr n [] [] [] \<longleftrightarrow> True"
| "chain p fr n (v # vs) (c # cs) (e # es) \<longleftrightarrow>
     v_number v = n + 1 \<and> v_product_id v = p \<and>
     ch_product_id c = p \<and> ch_from_version_id c = fr \<and> ch_to_version_id c = v_id v \<and>
     ev_product_id e = p \<and> ev_version_id e = v_id v \<and> ev_version_number e = v_number v \<and>
     ev_fingerprint e = v_fingerprint v \<and> ev_change_type e = ch_type c \<and>
     ev_changed_fields e = ch_changed_fields c \<and>
     chain p (Some (v_id v)) (n + 1) vs cs es"
| "chain p fr n _ _ _ \<longleftrightarrow> False"

lemma chain_lengths: "chain p fr n vs cs es \<Longrightarrow> length cs = length vs \<and> length es = length vs"
  by (induction p fr n vs cs es rule: chain.induct) auto

definition chain_end :: "string option \<Rightarrow> product_version list \<Rightarrow> string option" where
  "chain_end fr vs = (if vs = [] then fr else Some (v_id (last vs)))"

lemma chain_snoc:
  "chain p fr n vs cs es \<Longrightarrow> chain p (chain_end fr vs) (n + int (length vs)) [v] [c] [e] \<Longrightarrow>
     chain p fr n (vs @ [v]) (cs @ [c]) (es @ [e])"
  by (induction p fr n vs cs es rule: chain.induct) (auto simp: chain_end_def algebra_simps split: if_splits)

definition start_version :: "snapshot option \<Rightarrow> string option" where
  "start_version s = (case s of None \<Rightarrow> None | Some c \<Rightarrow> sn_current_version_id c)"

definition start_number :: "snapshot option \<Rightarrow> int" where
  "start_number s = (case s of None \<Rightarrow> 0 | Some c \<Rightarrow> a_version (abs_of c))"

text \<open>The rows a fold has appended to the plan it started from, and its counters.\<close>

definition appended :: "plan \<Rightarrow> nat \<Rightarrow> product_version list \<Rightarrow> product_change list \<Rightarrow> product_changed list \<Rightarrow> plan \<Rightarrow> bool" where
  "appended p0 n vs cs es p \<longleftrightarrow>
     pl_products p = pl_products p0 \<and> pl_sources p = pl_sources p0 \<and> pl_updates p = pl_updates p0 \<and>
     pl_fingerprints p = pl_fingerprints p0 \<and> pl_watermarks p = pl_watermarks p0 \<and>
     pl_source_changes p = pl_source_changes p0 \<and> pl_versions p = pl_versions p0 @ vs \<and>
     pl_changes p = pl_changes p0 @ cs \<and> pl_events p = pl_events p0 @ es \<and>
     m_seen (pl_metrics p) = m_seen (pl_metrics p0) \<and> m_failed (pl_metrics p) = m_failed (pl_metrics p0) \<and>
     m_new (pl_metrics p) + m_changed (pl_metrics p) =
       m_new (pl_metrics p0) + m_changed (pl_metrics p0) + int (length vs) \<and>
     m_unchanged (pl_metrics p) + int (length vs) = m_unchanged (pl_metrics p0) + int n \<and>
     m_new (pl_metrics p0) \<le> m_new (pl_metrics p) \<and> m_changed (pl_metrics p0) \<le> m_changed (pl_metrics p)
     \<and> m_unchanged (pl_metrics p0) \<le> m_unchanged (pl_metrics p)"

definition fold_inv :: "snapshot option \<Rightarrow> plan \<Rightarrow> nat \<Rightarrow> identity_fold \<Rightarrow> product_version list
    \<Rightarrow> product_change list \<Rightarrow> product_changed list \<Rightarrow> bool" where
  "fold_inv s0 p0 n f vs cs es \<longleftrightarrow>
     if_start f = s0 \<and> appended p0 n vs cs es (if_plan f) \<and> (if_versioned f \<longleftrightarrow> vs \<noteq> []) \<and>
     (case if_cur f of None \<Rightarrow> s0 = None \<and> n = 0 \<and> vs = [] \<and> cs = [] \<and> es = []
      | Some c \<Rightarrow> chain (sn_product_id c) (start_version s0) (start_number s0) vs cs es \<and>
          sn_current_version_id c = chain_end (start_version s0) vs \<and>
          (case s0 of None \<Rightarrow> vs \<noteq> [] | Some s \<Rightarrow>
             sn_product_id c = sn_product_id s \<and> sn_product_source_id c = sn_product_source_id s \<and>
             (if_touched f \<or> c = s)) \<and>
          (if vs = [] then sn_stored_current_version c = (case s0 of None \<Rightarrow> None | Some s \<Rightarrow> sn_stored_current_version s)
           else sn_stored_current_version c = Some (last vs)) \<and>
          (vs \<noteq> [] \<longrightarrow> if_touched f))"

lemma fold_inv_start: "\<exists>f. f = new_identity_fold i p s0 \<and> fold_inv s0 p 0 f [] [] []"
  by (auto simp: new_identity_fold_def fold_inv_def appended_def chain_end_def start_version_def
      split: option.split)

lemma new_ids_length: "new_ids ids i n = Inr (is, j) \<Longrightarrow> length is = n"
  by (induction ids i n arbitrary: "is" j rule: new_ids.induct) (auto simp: bindr_Inr_iff split: sum.splits)

lemma appended_inc:
  "appended p0 n vs cs es p \<Longrightarrow> appended p0 (Suc n) vs cs es (inc_unchanged p)"
  by (auto simp: appended_def inc_unchanged_def)

lemma touch_simps [simp]:
  "if_start (touch r f) = if_start f" "if_plan (touch r f) = if_plan f"
  "if_versioned (touch r f) = if_versioned f" "if_touched (touch r f)" "if_next (touch r f) = if_next f"
  by (simp_all add: touch_def)

text \<open>The base snapshot a version is added to: the current one, or a fresh one for a new identity.\<close>

lemma add_version_Inr:
  assumes "add_version ids now r t f = Inr f'"
  obtains cur vids k ct chf where
    "f' = (record_version now r ct chf cur vids f)\<lparr>if_next := k\<rparr>" "length vids = 3"
    "case if_cur f of Some c \<Rightarrow> cur = c
       | None \<Rightarrow> sn_current_version_id cur = None \<and> sn_stored_current_version cur = None
           \<and> sn_last_source_updated_at cur = None \<and> sn_last_received_at cur = br_received_at r"
proof -
  let ?rv = "record_version now r (if t_type t = TransitionNew then ChangeTypeNew else ChangeTypeChanged)
       (if t_type t = TransitionNew then [] else t_changed_fields t)"
  let ?fresh = "\<lambda>is. \<lparr>sn_product_source_id = is ! 1, sn_product_id = is ! 0, sn_current_version_id = None,
              sn_current_fingerprint = [], sn_last_source_updated_at = None,
              sn_last_received_at = br_received_at r, sn_stored_current_version = None\<rparr>"
  show thesis
  proof (cases "if_cur f")
    case None
    with assms obtain "is" j vids k where "new_ids ids (if_next f) 2 = Inr (is, j)"
      and v: "new_ids ids j 3 = Inr (vids, k)" and f': "f' = (?rv (?fresh is) vids f)\<lparr>if_next := k\<rparr>"
      by (auto simp: add_version_def bindr_Inr_iff Let_def split: if_splits)
    show thesis by (rule that [OF f' new_ids_length [OF v]]) (simp add: None)
  next
    case (Some c)
    with assms obtain vids k where v: "new_ids ids (if_next f) 3 = Inr (vids, k)"
      and f': "f' = (?rv c vids f)\<lparr>if_next := k\<rparr>"
      by (auto simp: add_version_def bindr_Inr_iff Let_def split: if_splits)
    show thesis by (rule that [OF f' new_ids_length [OF v]]) (simp add: Some)
  qed
qed

lemma chain_last:
  "chain p fr n vs cs es \<Longrightarrow> vs \<noteq> [] \<Longrightarrow> v_number (last vs) = n + int (length vs)"
  by (induction p fr n vs cs es rule: chain.induct) (auto split: if_splits)

lemma record_version_inv:
  assumes inv: "fold_inv s0 p0 n f vs cs es" and len: "length vids = 3"
    and cur: "case if_cur f of Some c \<Rightarrow> cur = c
       | None \<Rightarrow> sn_current_version_id cur = None \<and> sn_stored_current_version cur = None
           \<and> sn_last_source_updated_at cur = None \<and> sn_last_received_at cur = br_received_at r"
  shows "\<exists>v c e. v = new_version now r cur (vids ! 0) \<and>
    fold_inv s0 p0 (Suc n) (touch r ((record_version now r ct chf cur vids f)\<lparr>if_next := k\<rparr>)) (vs @ [v]) (cs @ [c]) (es @ [e])"
proof -
  let ?f = "touch r ((record_version now r ct chf cur vids f)\<lparr>if_next := k\<rparr>)"
  define v where "v = new_version now r cur (vids ! 0)"
  define c where "c = \<lparr>ch_id = vids ! 1, ch_product_id = sn_product_id cur,
            ch_from_version_id = sn_current_version_id cur, ch_to_version_id = vids ! 0, ch_type = ct,
            ch_changed_fields = chf, ch_ingestion_run_id = optional_string (br_ingestion_run_id r),
            ch_raw_record_id = Some (br_raw_record_id r), ch_detected_at = now\<rparr>"
  define e where "e = \<lparr>ev_event_id = vids ! 2, ev_product_id = v_product_id v, ev_version_id = v_id v,
            ev_version_number = v_number v, ev_fingerprint = v_fingerprint v,
            ev_change_type = ct, ev_changed_fields = chf\<rparr>"
  have app: "appended p0 n vs cs es (if_plan f)" using inv by (simp add: fold_inv_def)
  then have app': "appended p0 (Suc n) (vs @ [v]) (cs @ [c]) (es @ [e]) (if_plan ?f)"
    by (auto simp: appended_def record_version_def Let_def v_def c_def e_def inc_new_def inc_changed_def)
  have curf: "if_cur ?f = Some (cur\<lparr>sn_current_version_id := Some (v_id v), sn_current_fingerprint := v_fingerprint v,
      sn_stored_current_version := Some v,
      sn_last_source_updated_at := greatest_timestamptz (sn_last_source_updated_at cur) (br_source_updated_at r),
      sn_last_received_at := greatest_time (sn_last_received_at cur) (br_received_at r)\<rparr>)"
    by (simp add: touch_def record_version_def Let_def v_def)
  have one: "chain (sn_product_id cur) (sn_current_version_id cur) m [v] [c] [e] \<longleftrightarrow> v_number v = m + 1" for m
    by (simp add: c_def e_def v_def new_version_def)
  have new: "chain (sn_product_id cur) (start_version s0) (start_number s0) (vs @ [v]) (cs @ [c]) (es @ [e])"
  proof (cases "if_cur f")
    case None
    with inv cur one show ?thesis
      by (auto simp: fold_inv_def start_version_def start_number_def v_def new_version_def)
  next
    case (Some q)
    then have q: "cur = q" using cur by simp
    have ch: "chain (sn_product_id q) (start_version s0) (start_number s0) vs cs es"
      "sn_current_version_id q = chain_end (start_version s0) vs"
      using inv Some by (auto simp: fold_inv_def)
    have num: "v_number v = start_number s0 + int (length vs) + 1"
    proof (cases "vs = []")
      case True
      with inv Some have "sn_stored_current_version q = (case s0 of None \<Rightarrow> None | Some s \<Rightarrow> sn_stored_current_version s)"
        by (simp add: fold_inv_def)
      then show ?thesis using True inv Some q
        by (auto simp: v_def new_version_def start_number_def abs_of_def fold_inv_def split: option.splits)
    next
      case False
      with inv Some have "sn_stored_current_version q = Some (last vs)" by (simp add: fold_inv_def)
      moreover have "v_number (last vs) = start_number s0 + int (length vs)"
        by (rule chain_last [OF ch(1) False])
      ultimately show ?thesis using q by (simp add: v_def new_version_def)
    qed
    have "chain (sn_product_id q) (chain_end (start_version s0) vs) (start_number s0 + int (length vs)) [v] [c] [e]"
      using one [of "start_number s0 + int (length vs)"] num ch(2) q by (simp del: chain.simps)
    then show ?thesis unfolding q by (rule chain_snoc [OF ch(1)])
  qed
  have "fold_inv s0 p0 (Suc n) ?f (vs @ [v]) (cs @ [c]) (es @ [e])"
    unfolding fold_inv_def curf using app' new inv cur
    by (auto simp: fold_inv_def chain_end_def record_version_def Let_def split: option.splits)
  then show ?thesis using v_def by blast
qed

text \<open>What one record does, in the abstract and to the rows.\<close>

lemma fold_inv_touch:
  assumes "fold_inv s0 p0 n f vs cs es" "if_cur f = Some c"
    and "if_cur g = Some (c\<lparr>sn_current_fingerprint := fp\<rparr>)" "if_plan g = inc_unchanged (if_plan f)"
      "if_start g = if_start f" "if_versioned g = if_versioned f"
  shows "fold_inv s0 p0 (Suc n) (touch r g) vs cs es"
  using assms
  by (auto simp: fold_inv_def appended_inc touch_def split: option.splits)

lemma apply_record_inv:
  assumes inv: "fold_inv s0 p0 n f vs cs es"
    and ap: "apply_record te ids now r f = Inr f'"
  shows "(\<exists>vs' cs' es'. fold_inv s0 p0 (Suc n) f' vs' cs' es') \<and>
    map_option abs_of (if_cur f') = abs_step te r (map_option abs_of (if_cur f)) \<and>
    (if_touched f' \<longleftrightarrow> if_touched f \<or> (case if_cur f of None \<Rightarrow> True | Some c \<Rightarrow> \<not> older r (abs_of c)))"
proof (cases "if_cur f")
  case None
  let ?t = "decide_transition te None (to_incoming r)"
  have t: "t_type ?t = TransitionNew" by (simp add: decide_transition_def)
  with ap None obtain g where g: "add_version ids now r ?t f = Inr g" "f' = touch r g"
    by (auto simp: apply_record_def Let_def bindr_Inr_iff)
  obtain cur vids k ct chf where
    rv: "g = (record_version now r ct chf cur vids f)\<lparr>if_next := k\<rparr>" "length vids = 3"
    and cur: "case if_cur f of Some c \<Rightarrow> cur = c
       | None \<Rightarrow> sn_current_version_id cur = None \<and> sn_stored_current_version cur = None
           \<and> sn_last_source_updated_at cur = None \<and> sn_last_received_at cur = br_received_at r"
    by (rule add_version_Inr [OF g(1)])
  have "\<exists>vs' cs' es'. fold_inv s0 p0 (Suc n) f' vs' cs' es'"
    using record_version_inv [OF inv rv(2) cur] rv(1) g(2) by blast
  moreover have "map_option abs_of (if_cur f') = abs_step te r None"
    using cur None by (simp add: g(2) rv(1) touch_def record_version_def Let_def abs_of_def abs_step_def
        new_version_def version_product_def greatest_timestamptz_def greatest_time_def normalized.equality)
  ultimately show ?thesis using None g(2) by simp
next
  case (Some c)
  let ?t = "decide_transition te (Some c) (to_incoming r)"
  show ?thesis
  proof (cases "older r (abs_of c)")
    case True
    then have "t_type ?t = TransitionStale" by (simp add: decide_transition_stale_iff is_stale_older)
    with ap Some have f': "f' = f\<lparr>if_plan := inc_unchanged (if_plan f)\<rparr>" by (auto simp: apply_record_def Let_def)
    with inv Some have "fold_inv s0 p0 (Suc n) f' vs cs es"
      by (auto simp: fold_inv_def appended_inc split: option.splits)
    with True Some f' show ?thesis by (auto simp: abs_step_def)
  next
    case False
    then have ns: "t_type ?t \<noteq> TransitionStale" "\<not> is_stale c (to_incoming r)"
      by (simp_all add: decide_transition_stale_iff is_stale_older)
    have nn: "t_type ?t \<noteq> TransitionNew" by (simp add: decide_transition_new_iff)
    let ?upgrade = "\<not> has_prefix fingerprint_v1_prefix (sn_current_fingerprint c) \<and>
      (case sn_stored_current_version c of None \<Rightarrow> False | Some v \<Rightarrow> fingerprint_from_version te v = br_fingerprint r)"
    have content: "(case sn_stored_current_version c of None \<Rightarrow> False
        | Some v \<Rightarrow> fingerprint_from_version te v = br_fingerprint r) \<longleftrightarrow>
      (case a_content (abs_of c) of None \<Rightarrow> False | Some n \<Rightarrow> fingerprint te n = br_fingerprint r)"
      by (simp add: abs_of_def fingerprint_from_version_def split: option.split)
    have afp: "a_fingerprint (abs_of c) = sn_current_fingerprint c" by (simp add: abs_of_def)
    have fp: "in_fingerprint (to_incoming r) = br_fingerprint r" by (simp add: to_incoming_def)
    have keep: "map_option abs_of (if_cur (touch r g)) = Some (abs_of c\<lparr>a_updated := opt_max (a_updated (abs_of c)) (br_source_updated_at r),
        a_received := max (a_received (abs_of c)) (br_received_at r), a_fingerprint := x\<rparr>)"
      if "if_cur g = Some (c\<lparr>sn_current_fingerprint := x\<rparr>)" for g x
      using that by (simp add: touch_def abs_of_def greatest_timestamptz_max greatest_time_max)
    consider (up) ?upgrade | (same) "\<not> ?upgrade" "sn_current_fingerprint c = br_fingerprint r"
      | (diff) "\<not> ?upgrade" "sn_current_fingerprint c \<noteq> br_fingerprint r" by blast
    then show ?thesis
    proof cases
      case up
      then have "t_type ?t = TransitionVersionMismatch"
        using ns(2) unfolding decide_transition_def fp by (simp split: option.splits)
      with ap Some have f': "f' = touch r (f\<lparr>if_cur := Some (c\<lparr>sn_current_fingerprint := br_fingerprint r\<rparr>),
          if_plan := inc_unchanged (if_plan f)\<rparr>)" by (auto simp: apply_record_def Let_def)
      have "fold_inv s0 p0 (Suc n) f' vs cs es"
        unfolding f' by (rule fold_inv_touch [OF inv Some]) simp_all
      moreover have "map_option abs_of (if_cur f') = abs_step te r (Some (abs_of c))"
        using keep [of "f\<lparr>if_cur := Some (c\<lparr>sn_current_fingerprint := br_fingerprint r\<rparr>),
          if_plan := inc_unchanged (if_plan f)\<rparr>" "br_fingerprint r"] False up content afp
        by (simp add: f' abs_step_def Let_def)
      ultimately show ?thesis using Some False f' by auto
    next
      case same
      then have "t_type ?t = TransitionUnchanged"
        using ns(2) unfolding decide_transition_def fp by (auto split: option.splits)
      with ap Some have f': "f' = touch r (f\<lparr>if_plan := inc_unchanged (if_plan f)\<rparr>)"
        by (auto simp: apply_record_def Let_def)
      have c: "if_cur (f\<lparr>if_plan := inc_unchanged (if_plan f)\<rparr>) = Some (c\<lparr>sn_current_fingerprint := sn_current_fingerprint c\<rparr>)"
        using Some by simp
      have "fold_inv s0 p0 (Suc n) f' vs cs es"
        unfolding f' by (rule fold_inv_touch [OF inv Some c]) simp_all
      moreover have "map_option abs_of (if_cur f') = abs_step te r (Some (abs_of c))"
        using keep [OF c] False same content afp
        by (cases "abs_of c") (auto simp: f' abs_step_def Let_def)
      ultimately show ?thesis using Some False f' by auto
    next
      case diff
      then have "t_type ?t = TransitionChanged"
        using ns(2) unfolding decide_transition_def fp by (auto split: option.splits)
      with ap Some obtain g where g: "add_version ids now r ?t f = Inr g" "f' = touch r g"
        by (auto simp: apply_record_def Let_def bindr_Inr_iff)
      obtain cur vids k ct chf where
        rv: "g = (record_version now r ct chf cur vids f)\<lparr>if_next := k\<rparr>" "length vids = 3"
        and cur: "case if_cur f of Some c \<Rightarrow> cur = c
           | None \<Rightarrow> sn_current_version_id cur = None \<and> sn_stored_current_version cur = None
               \<and> sn_last_source_updated_at cur = None \<and> sn_last_received_at cur = br_received_at r"
        by (rule add_version_Inr [OF g(1)])
      have "\<exists>vs' cs' es'. fold_inv s0 p0 (Suc n) f' vs' cs' es'"
        using record_version_inv [OF inv rv(2) cur] rv(1) g(2) by blast
      moreover have "map_option abs_of (if_cur f') = abs_step te r (Some (abs_of c))"
      proof -
        have "abs_step te r (Some (abs_of c)) = Some (abs_of c\<lparr>a_updated := opt_max (a_updated (abs_of c)) (br_source_updated_at r),
          a_received := max (a_received (abs_of c)) (br_received_at r), a_version := a_version (abs_of c) + 1,
          a_fingerprint := br_fingerprint r, a_content := Some (br_normalized r)\<rparr>)"
          using False diff content afp by (auto simp: abs_step_def Let_def)
        then show ?thesis using cur Some
          by (simp add: g(2) rv(1) touch_def record_version_def Let_def greatest_timestamptz_max
              greatest_time_max abs_of_def new_version_def version_product_def split: option.split)
      qed
      ultimately show ?thesis using Some False g(2) by auto
    qed
  qed
qed

subsection \<open>One identity, one page\<close>

lemma apply_all_inv:
  "fold_inv s0 p0 n f vs cs es \<Longrightarrow> apply_all te ids now rs f = Inr f' \<Longrightarrow>
    (\<exists>vs' cs' es'. fold_inv s0 p0 (n + length rs) f' vs' cs' es') \<and>
    map_option abs_of (if_cur f') = fold (abs_step te) rs (map_option abs_of (if_cur f))"
proof (induction rs arbitrary: n f vs cs es)
  case Nil
  then show ?case by auto
next
  case (Cons r rs)
  then obtain g where g: "apply_record te ids now r f = Inr g" "apply_all te ids now rs g = Inr f'"
    by (auto simp: bindr_Inr_iff)
  from apply_record_inv [OF Cons.prems(1) g(1)] obtain vs1 cs1 es1 where
    s: "fold_inv s0 p0 (Suc n) g vs1 cs1 es1" "map_option abs_of (if_cur g) = abs_step te r (map_option abs_of (if_cur f))"
    by blast
  from Cons.IH [OF s(1) g(2)] s(2) show ?case by simp
qed

lemma new_ids_total: "(\<And>k. is_ok (ids k)) \<Longrightarrow> \<exists>is j. new_ids ids i n = Inr (is, j)"
proof (induction n arbitrary: i)
  case (Suc n)
  then obtain s where "ids i = Inr s" by (metis is_ok_def sum.case_eq_if sum.collapse(2))
  with Suc show ?case by (metis (no_types, lifting) bindr_simps(2) case_prod_conv new_ids.simps(2) sum.case(2))
qed simp

lemma add_version_total:
  assumes "\<And>k. is_ok (ids k)" shows "\<exists>f'. add_version ids now r t f = Inr f'"
proof (cases "if_cur f")
  case None
  obtain "is" j where 1: "new_ids ids (if_next f) 2 = Inr (is, j)" using new_ids_total assms by blast
  obtain vids k where "new_ids ids j 3 = Inr (vids, k)" using new_ids_total assms by blast
  with 1 None show ?thesis by (simp add: add_version_def Let_def)
next
  case (Some c)
  obtain vids k where "new_ids ids (if_next f) 3 = Inr (vids, k)" using new_ids_total assms by blast
  with Some show ?thesis by (simp add: add_version_def Let_def)
qed

lemma apply_record_total:
  assumes "\<And>k. is_ok (ids k)" shows "\<exists>f'. apply_record te ids now r f = Inr f'"
  using add_version_total [where ids = ids and now = now and r = r and t = "decide_transition te (if_cur f) (to_incoming r)" and f = f, OF assms]
  by (auto simp: apply_record_def Let_def split: transition_type.split)

lemma apply_all_total: "(\<And>k. is_ok (ids k)) \<Longrightarrow> \<exists>f'. apply_all te ids now rs f = Inr f'"
proof (induction rs arbitrary: f)
  case (Cons r rs)
  obtain g where "apply_record te ids now r f = Inr g" using apply_record_total Cons.prems by blast
  with Cons show ?case by simp
qed simp

lemma fold_some: "rs \<noteq> [] \<Longrightarrow> fold (abs_step te) rs a \<noteq> None"
proof (induction rs rule: rev_induct)
  case (snoc r rs)
  then show ?case by (simp add: abs_step_def)
qed simp

lemma fold_inv_cur:
  assumes "fold_inv s0 p0 n f vs cs es" "n \<noteq> 0 \<or> s0 \<noteq> None"
  obtains c where "if_cur f = Some c"
  using assms by (cases "if_cur f") (auto simp: fold_inv_def)

lemma emit_total:
  assumes "fold_inv s0 p0 n f vs cs es" "n \<noteq> 0" shows "\<exists>p. emit now g f = Inr p"
  using assms by (cases s0; cases "if_cur f") (auto simp: emit_def fold_inv_def)

text \<open>The counters of a page: every record is counted once, and every version has its change row and event.\<close>

definition counted :: "int \<Rightarrow> nat \<Rightarrow> plan \<Rightarrow> bool" where
  "counted s n p \<longleftrightarrow> (let m = pl_metrics p in
     m_seen m = s \<and> m_failed m = 0 \<and> 0 \<le> m_new m \<and> 0 \<le> m_changed m \<and> 0 \<le> m_unchanged m \<and>
     m_new m + m_changed m + m_unchanged m = int n \<and>
     m_new m + m_changed m = int (length (pl_versions p)) \<and>
     length (pl_changes p) = length (pl_versions p) \<and> length (pl_events p) = length (pl_versions p))"

lemma appended_counted:
  assumes "appended p0 n vs cs es p" "length cs = length vs" "length es = length vs" "counted s k p0"
  shows "counted s (k + n) p"
  using assms by (auto simp: appended_def counted_def Let_def)

lemma emit_counted: "emit now g f = Inr p \<Longrightarrow> counted s n (if_plan f) \<Longrightarrow> counted s n p"
  by (auto simp: emit_def emit_insert_def emit_version_update_def emit_touched_def counted_def Let_def
      split: option.splits if_splits)

lemma fold_group_counted:
  assumes "fold_group te ids now sn g st = Inr st'" "counted s k (snd st)"
  shows "counted s (k + length (ig_records g)) (snd st')"
proof -
  from assms(1) obtain f p where f: "apply_all te ids now (ig_records g) (new_identity_fold (fst st) (snd st) (sn (ig_key g))) = Inr f"
    "emit now g f = Inr p" "st' = (if_next f, p)"
    by (auto simp: fold_group_def bindr_Inr_iff)
  obtain f0 where f0: "f0 = new_identity_fold (fst st) (snd st) (sn (ig_key g))" "fold_inv (sn (ig_key g)) (snd st) 0 f0 [] [] []"
    using fold_inv_start by blast
  with f(1) obtain vs cs es where inv: "fold_inv (sn (ig_key g)) (snd st) (0 + length (ig_records g)) f vs cs es"
    using apply_all_inv by blast
  then have "appended (snd st) (length (ig_records g)) vs cs es (if_plan f)" "length cs = length vs" "length es = length vs"
    using chain_lengths by (auto simp: fold_inv_def split: option.splits)
  then show ?thesis using emit_counted [OF f(2)] appended_counted assms(2) f(3) by simp
qed

lemma fold_groups_counted:
  "fold_groups te ids now sn gs st = Inr st' \<Longrightarrow> counted s k (snd st) \<Longrightarrow>
     counted s (k + sum_list (map (length \<circ> ig_records) gs)) (snd st')"
proof (induction gs arbitrary: st k)
  case (Cons g gs)
  then obtain st1 where st1: "fold_group te ids now sn g st = Inr st1" "fold_groups te ids now sn gs st1 = Inr st'"
    by (auto simp: bindr_Inr_iff)
  have "counted s (k + length (ig_records g)) (snd st1)"
    by (rule fold_group_counted [OF st1(1) Cons.prems(2)])
  from Cons.IH [OF st1(2) this] show ?case by (simp add: add.assoc)
qed simp

lemma add_to_groups_total: "sum_list (map (length \<circ> ig_records) (add_to_groups r gs)) = Suc (sum_list (map (length \<circ> ig_records) gs))"
  by (induction gs) auto

lemma group_by_identity_total: "sum_list (map (length \<circ> ig_records) (group_by_identity xs)) = length xs"
proof -
  have "sum_list (map (length \<circ> ig_records) (fold add_to_groups xs gs)) = length xs + sum_list (map (length \<circ> ig_records) gs)" for gs
    by (induction xs arbitrary: gs) (simp_all add: add_to_groups_total)
  then show ?thesis by (simp add: group_by_identity_def comp_def sort_stable_processing)
qed

lemma fold_groups_total:
  "(\<And>k. is_ok (ids k)) \<Longrightarrow> \<forall>g \<in> set gs. ig_records g \<noteq> [] \<Longrightarrow> \<exists>st'. fold_groups te ids now sn gs st = Inr st'"
proof (induction gs arbitrary: st)
  case (Cons g gs)
  obtain f where f: "apply_all te ids now (ig_records g) (new_identity_fold (fst st) (snd st) (sn (ig_key g))) = Inr f"
    using apply_all_total Cons.prems(1) by blast
  obtain f0 where "f0 = new_identity_fold (fst st) (snd st) (sn (ig_key g))" "fold_inv (sn (ig_key g)) (snd st) 0 f0 [] [] []"
    using fold_inv_start by blast
  with f obtain vs cs es where "fold_inv (sn (ig_key g)) (snd st) (0 + length (ig_records g)) f vs cs es"
    using apply_all_inv by blast
  with Cons.prems(2) obtain p where "emit now g f = Inr p" using emit_total by fastforce
  with f have "fold_group te ids now sn g st = Inr (if_next f, p)" by (simp add: fold_group_def)
  with Cons show ?case by simp
qed simp


text \<open>
  The rows written for one identity carry its abstract state: for a new identity a product and a
  source row; for a known one a guarded update to its newest version, or the watermarks (and the
  upgraded fingerprint), or nothing when every record was stale.
\<close>

definition carries_version :: "astate \<Rightarrow> product_version list \<Rightarrow> string \<Rightarrow> bool" where
  "carries_version a vs i \<longleftrightarrow> vs \<noteq> [] \<and> v_id (last vs) = i \<and> a_version a = v_number (last vs)
     \<and> a_content a = Some (version_product (last vs))"

definition writes_new :: "identity_group \<Rightarrow> astate \<Rightarrow> product_version list \<Rightarrow> plan \<Rightarrow> plan \<Rightarrow> bool" where
  "writes_new g a vs p q \<longleftrightarrow> (\<exists>pr sr. pl_products q = pl_products p @ [pr] \<and> pl_sources q = pl_sources p @ [sr] \<and>
     pl_updates q = pl_updates p \<and> pl_fingerprints q = pl_fingerprints p \<and> pl_watermarks q = pl_watermarks p \<and>
     pl_source_changes q = pl_source_changes p \<and>
     p_current_fingerprint pr = a_fingerprint a \<and>
     (\<exists>i. p_current_version_id pr = Some i \<and> carries_version a vs i) \<and>
     ps_product_id sr = p_id pr \<and> ps_source_id sr = ig_source_id g \<and>
     ps_external_product_id sr = ig_external_product_id g \<and>
     ps_last_source_updated_at sr = a_updated a \<and> ps_last_received_at sr = a_received a)"

definition writes_known :: "snapshot \<Rightarrow> astate \<Rightarrow> product_version list \<Rightarrow> plan \<Rightarrow> plan \<Rightarrow> bool" where
  "writes_known s a vs p q \<longleftrightarrow> pl_products q = pl_products p \<and> pl_sources q = pl_sources p \<and>
     (if vs \<noteq> [] then
        (\<exists>u w. pl_updates q = pl_updates p @ [u] \<and> pl_source_changes q = pl_source_changes p @ [w] \<and>
           pl_fingerprints q = pl_fingerprints p \<and> pl_watermarks q = pl_watermarks p \<and>
           gu_product_id u = sn_product_id s \<and> gu_expected_version_id u = sn_current_version_id s \<and>
           carries_version a vs (gu_to_version_id u) \<and> gu_current_fingerprint u = a_fingerprint a \<and>
           cu_product_source_id w = sn_product_source_id s \<and>
           cu_source_updated_at w = a_updated a \<and> cu_received_at w = a_received a)
      else
        pl_updates q = pl_updates p \<and> pl_source_changes q = pl_source_changes p \<and>
        a_version a = a_version (abs_of s) \<and> a_content a = a_content (abs_of s) \<and>
        (a = abs_of s \<and> pl_watermarks q = pl_watermarks p \<and> pl_fingerprints q = pl_fingerprints p
         \<or> (\<exists>w. pl_watermarks q = pl_watermarks p @ [w] \<and> wu_product_source_id w = sn_product_source_id s \<and>
              wu_source_updated_at w = a_updated a \<and> wu_received_at w = a_received a) \<and>
           (if a_fingerprint a = sn_current_fingerprint s then pl_fingerprints q = pl_fingerprints p
            else (\<exists>u. pl_fingerprints q = pl_fingerprints p @ [u] \<and> fu_product_id u = sn_product_id s \<and>
               fu_expected_version_id u = sn_current_version_id s \<and> fu_current_fingerprint u = a_fingerprint a))))"

lemma chain_ids: "chain pid fr n vs cs es \<Longrightarrow> \<forall>v \<in> set vs. v_product_id v = pid"
  by (induction pid fr n vs cs es rule: chain.induct) auto

lemma emit_writes:
  assumes inv: "fold_inv s0 p n f vs cs es" and c: "if_cur f = Some c" and e: "emit now g f = Inr q"
  shows "pl_versions q = pl_versions p @ vs \<and> pl_changes q = pl_changes p @ cs \<and> pl_events q = pl_events p @ es \<and>
    (case s0 of None \<Rightarrow> writes_new g (abs_of c) vs p q | Some s \<Rightarrow> writes_known s (abs_of c) vs p q)"
proof (cases s0)
  case None
  with inv c have f: "if_start f = None" "vs \<noteq> []" "sn_stored_current_version c = Some (last vs)"
    "sn_current_version_id c = Some (v_id (last vs))" and app: "appended p n vs cs es (if_plan f)"
    by (auto simp: fold_inv_def chain_end_def start_version_def)
  from e c f have q: "q = emit_insert now g c (last vs) (if_plan f)" by (simp add: emit_def)
  show ?thesis using None app f
    by (simp add: q emit_insert_def appended_def writes_new_def product_row_def source_row_def carries_version_def abs_of_def)
next
  case (Some s)
  with inv c have f: "if_start f = Some s" "if_versioned f \<longleftrightarrow> vs \<noteq> []" "sn_product_id c = sn_product_id s"
    "sn_product_source_id c = sn_product_source_id s" "if_touched f \<or> c = s"
    and app: "appended p n vs cs es (if_plan f)"
    by (auto simp: fold_inv_def)
  show ?thesis
  proof (cases "vs = []")
    case True
    with inv c Some have st: "sn_stored_current_version c = sn_stored_current_version s" by (simp add: fold_inv_def)
    from e c f True have q: "q = (if if_touched f then emit_touched now s c (if_plan f) else if_plan f)"
      by (simp add: emit_def split: if_splits)
    have k: "a_version (abs_of c) = a_version (abs_of s)" "a_content (abs_of c) = a_content (abs_of s)"
      using st by (simp_all add: abs_of_def)
    have w: "a_fingerprint (abs_of c) = sn_current_fingerprint c" "a_updated (abs_of c) = sn_last_source_updated_at c"
      "a_received (abs_of c) = sn_last_received_at c" by (simp_all add: abs_of_def)
    show ?thesis
    proof (cases "if_touched f")
      case touched: True
      with Some True app f k w show ?thesis
        by (auto simp: q emit_touched_def Let_def appended_def writes_known_def)
    next
      case False
      with f have "c = s" by simp
      with False Some True app show ?thesis by (simp add: q appended_def writes_known_def)
    qed
  next
    case False
    with inv c Some have st: "sn_stored_current_version c = Some (last vs)" by (simp add: fold_inv_def)
    with e c f False have q: "q = emit_version_update now s c (last vs) (if_plan f)" by (simp add: emit_def)
    have ab: "a_fingerprint (abs_of c) = sn_current_fingerprint c" "a_updated (abs_of c) = sn_last_source_updated_at c"
      "a_received (abs_of c) = sn_last_received_at c" "a_version (abs_of c) = v_number (last vs)"
      "a_content (abs_of c) = Some (version_product (last vs))"
      using st by (simp_all add: abs_of_def)
    show ?thesis using Some app f False
      by (simp add: q emit_version_update_def version_update_def appended_def writes_known_def carries_version_def ab)
  qed
qed

text \<open>Claim C2. Folding an identity's page has the effect of processing its records one at a time:
  the rows written carry the abstract state that \<open>abs_step\<close>, iterated over the records from the
  stored snapshot, reaches; the new versions are numbered consecutively from the stored one, each
  linked to its predecessor by its change row and announced by its event.\<close>

theorem fold_group_refines:
  assumes "fold_group te ids now sn g (i, p) = Inr (j, q)" "ig_records g \<noteq> []"
  shows "\<exists>a vs cs es pid.
    fold (abs_step te) (ig_records g) (map_option abs_of (sn (ig_key g))) = Some a \<and>
    pl_versions q = pl_versions p @ vs \<and> pl_changes q = pl_changes p @ cs \<and> pl_events q = pl_events p @ es \<and>
    chain pid (start_version (sn (ig_key g))) (start_number (sn (ig_key g))) vs cs es \<and>
    (case sn (ig_key g) of None \<Rightarrow> writes_new g a vs p q | Some s \<Rightarrow> writes_known s a vs p q)"
proof -
  from assms(1) obtain f where f: "apply_all te ids now (ig_records g) (new_identity_fold i p (sn (ig_key g))) = Inr f"
    "emit now g f = Inr q"
    by (auto simp: fold_group_def bindr_Inr_iff)
  obtain f0 where f0: "f0 = new_identity_fold i p (sn (ig_key g))" "fold_inv (sn (ig_key g)) p 0 f0 [] [] []"
    using fold_inv_start by blast
  have ap: "apply_all te ids now (ig_records g) f0 = Inr f" using f(1) f0(1) by simp
  from apply_all_inv [OF f0(2) ap] obtain vs cs es where
    inv: "fold_inv (sn (ig_key g)) p (length (ig_records g)) f vs cs es"
    and abs: "map_option abs_of (if_cur f) = fold (abs_step te) (ig_records g) (map_option abs_of (if_cur f0))"
    by auto
  obtain c where c: "if_cur f = Some c" using fold_inv_cur [OF inv] assms(2) by auto
  have "if_cur f0 = sn (ig_key g)" by (simp add: f0(1) new_identity_fold_def)
  then have "fold (abs_step te) (ig_records g) (map_option abs_of (sn (ig_key g))) = Some (abs_of c)"
    using abs c by simp
  moreover have "chain (sn_product_id c) (start_version (sn (ig_key g))) (start_number (sn (ig_key g))) vs cs es"
    using inv c by (simp add: fold_inv_def)
  ultimately show ?thesis using emit_writes [OF inv c f(2)] by blast
qed

text \<open>The watermarks only move forward, and a version number never goes back.\<close>

lemma opt_max_ge: "x = Some a \<Longrightarrow> \<exists>b \<ge> a. opt_max x y = Some (b :: instant)"
  by (cases y) (auto simp: max_def)

lemma abs_step_forward:
  "abs_step te r (Some a) = Some b \<Longrightarrow> a_version a \<le> a_version b \<and> a_received a \<le> a_received b \<and>
     (\<forall>x. a_updated a = Some x \<longrightarrow> (\<exists>y \<ge> x. a_updated b = Some y))"
  using opt_max_ge [of "a_updated a"] by (auto simp: abs_step_def Let_def split: if_splits)

lemma abs_fold_forward:
  "fold (abs_step te) rs (Some a) = Some b \<Longrightarrow> a_version a \<le> a_version b \<and> a_received a \<le> a_received b \<and>
     (\<forall>x. a_updated a = Some x \<longrightarrow> (\<exists>y \<ge> x. a_updated b = Some y))"
proof (induction rs arbitrary: a)
  case (Cons r rs)
  obtain c where c: "abs_step te r (Some a) = Some c" by (simp add: abs_step_def)
  with Cons.prems have "fold (abs_step te) rs (Some c) = Some b" by simp
  from Cons.IH [OF this] abs_step_forward [OF c] show ?case by (meson order.trans)
qed auto

subsection \<open>A page\<close>

definition demo_record :: "string \<Rightarrow> string \<Rightarrow> instant \<Rightarrow> batch_record" where
  "demo_record i name at = \<lparr>br_raw_record_id = i, br_source_id = ''s1'', br_external_product_id = ''x1'',
     br_normalized = demo_normalized\<lparr>n_canonical_name := name\<rparr>, br_fingerprint = fingerprint demo_te (demo_normalized\<lparr>n_canonical_name := name\<rparr>),
     br_source_updated_at = Some at, br_received_at = at, br_ingestion_run_id = ''run''\<rparr>"

definition demo_page :: "batch_record list" where
  "demo_page = [demo_record ''r2'' ''TV 2'' 20, demo_record ''r1'' ''TV'' 10, demo_record ''r3'' ''TV 2'' 30]"

definition demo_group :: identity_group where
  "demo_group = hd (group_by_identity demo_page)"

definition demo_ids :: id_supply where
  "demo_ids n = Inr (replicate n (CHR ''i''))"

theorem grouping_ignores_page_order_witness:
  "(\<exists>h \<in> set (group_by_identity (rev demo_page)). ig_key h = ig_key demo_group \<and> ig_records h = ig_records demo_group)
    \<and> sorted (map processing_key (ig_records demo_group))"
proof (rule grouping_ignores_page_order)
  show "mset demo_page = mset (rev demo_page)" by simp
  show "distinct (map br_raw_record_id demo_page)" by (simp add: demo_page_def demo_record_def)
  show "demo_group \<in> set (group_by_identity demo_page)"
    unfolding demo_group_def by (rule hd_in_set) code_simp
qed


definition demo_folded :: "gerr + nat \<times> plan" where
  "demo_folded = fold_group demo_te demo_ids 40 Map.empty demo_group (0, empty_plan 3)"

lemma demo_folded_ok: "is_ok demo_folded" "ig_records demo_group \<noteq> []"
  "map (\<lambda>v. (v_number v, v_canonical_name v)) (pl_versions (snd (projr demo_folded))) = [(1, ''TV''), (2, ''TV 2'')]"
  by code_simp+

lemma demo_folded_eq:
  "fold_group demo_te demo_ids 40 Map.empty demo_group (0, empty_plan 3) = Inr (fst (projr demo_folded), snd (projr demo_folded))"
  unfolding demo_folded_def [symmetric] by (rule is_ok_pair [OF demo_folded_ok(1)])

theorem fold_group_refines_witness:
  "\<exists>a vs cs es pid.
    fold (abs_step demo_te) (ig_records demo_group) (map_option abs_of (Map.empty (ig_key demo_group))) = Some a \<and>
    pl_versions (snd (projr demo_folded)) = pl_versions (empty_plan 3) @ vs \<and>
    pl_changes (snd (projr demo_folded)) = pl_changes (empty_plan 3) @ cs \<and>
    pl_events (snd (projr demo_folded)) = pl_events (empty_plan 3) @ es \<and>
    chain pid (start_version (Map.empty (ig_key demo_group))) (start_number (Map.empty (ig_key demo_group))) vs cs es \<and>
    (case Map.empty (ig_key demo_group) of None \<Rightarrow> writes_new demo_group a vs (empty_plan 3) (snd (projr demo_folded))
     | Some s \<Rightarrow> writes_known s a vs (empty_plan 3) (snd (projr demo_folded)))"
  by (rule fold_group_refines [OF demo_folded_eq demo_folded_ok(2)])

end
