(* ===== verification/RunProcessing.thy ===== *)
theory RunProcessing
  imports Product Db
begin

text \<open>
  The processing queue of finished runs: the entity of
  \<open>internal/domain/ingestion/run_processing.go\<close> and the repository
  \<open>internal/infrastructure/postgres/run_processing_repository.go\<close> with the SQL of
  \<open>generated/run_processing.sql.go\<close>, read as functions on the rows of
  \<open>ingestion_run_processing\<close>. \<open>NOW()\<close> is the argument \<open>now\<close>; the rows other transactions have
  locked (\<open>SKIP LOCKED\<close>) and the runs that exist (the foreign key) are arguments. A worker is
  known by the claim token it passes.
\<close>

subsection \<open>Rows\<close>

datatype processing_status = ProcessingPending | ProcessingRunning | ProcessingCompleted | ProcessingFailed

record run_processing =
  rp_run_id :: string
  rp_status :: processing_status
  rp_claim_token :: "string option"
  rp_lease_expires_at :: "instant option"
  rp_cursor :: "string option"
  rp_metrics :: metrics
  rp_error_summary :: string
  rp_started_at :: "instant option"
  rp_completed_at :: "instant option"
  rp_created_at :: instant
  rp_updated_at :: instant

definition zero_metrics :: metrics where
  "zero_metrics = \<lparr>m_seen = 0, m_new = 0, m_changed = 0, m_unchanged = 0, m_failed = 0\<rparr>"

definition new_processing_row :: "instant \<Rightarrow> string \<Rightarrow> run_processing" where
  "new_processing_row now rid = \<lparr>rp_run_id = rid, rp_status = ProcessingPending, rp_claim_token = None,
     rp_lease_expires_at = None, rp_cursor = None, rp_metrics = zero_metrics, rp_error_summary = [],
     rp_started_at = None, rp_completed_at = None, rp_created_at = now, rp_updated_at = now\<rparr>"

definition expired :: "instant \<Rightarrow> run_processing \<Rightarrow> bool" where
  "expired now r \<longleftrightarrow> (case rp_lease_expires_at r of None \<Rightarrow> False | Some e \<Rightarrow> e < now)"

definition find_row :: "string \<Rightarrow> run_processing list \<Rightarrow> run_processing option" where
  "find_row rid rows = find (\<lambda>r. rp_run_id r = rid) rows"

text \<open>\<open>UPDATE \<dots> WHERE run_id = rid AND guard RETURNING \<dots>\<close>: the updated row, or no row.\<close>

definition update_where ::
  "string \<Rightarrow> (run_processing \<Rightarrow> bool) \<Rightarrow> (run_processing \<Rightarrow> run_processing) \<Rightarrow> run_processing list
     \<Rightarrow> run_processing list \<times> run_processing option" where
  "update_where rid guard f rows =
     (case find_row rid rows of
        None \<Rightarrow> (rows, None)
      | Some r \<Rightarrow> if guard r
          then (map (\<lambda>x. if rp_run_id x = rid then f x else x) rows, Some (f r))
          else (rows, None))"

subsection \<open>Statements\<close>

definition claim_set :: "instant \<Rightarrow> string \<Rightarrow> duration \<Rightarrow> run_processing \<Rightarrow> run_processing" where
  "claim_set now token d r = r\<lparr>rp_status := ProcessingRunning, rp_claim_token := Some token,
     rp_lease_expires_at := Some (now + to_interval d),
     rp_started_at := (case rp_started_at r of None \<Rightarrow> Some now | Some t \<Rightarrow> Some t),
     rp_updated_at := now\<rparr>"

definition claimable_next :: "instant \<Rightarrow> run_processing \<Rightarrow> bool" where
  "claimable_next now r \<longleftrightarrow> rp_status r = ProcessingPending \<or> rp_status r = ProcessingRunning \<and> expired now r"

definition claim_candidate :: "instant \<Rightarrow> (string \<Rightarrow> bool) \<Rightarrow> run_processing list \<Rightarrow> run_processing option" where
  "claim_candidate now locked rows =
     (case sort_key rp_created_at (filter (\<lambda>r. claimable_next now r \<and> \<not> locked (rp_run_id r)) rows) of
        [] \<Rightarrow> None | r # _ \<Rightarrow> Some r)"

definition claimable_specific :: "instant \<Rightarrow> string \<Rightarrow> run_processing \<Rightarrow> bool" where
  "claimable_specific now token r \<longleftrightarrow> rp_status r = ProcessingPending \<or> rp_status r = ProcessingFailed
     \<or> rp_status r = ProcessingCompleted \<or> expired now r \<or> rp_claim_token r = Some token"

definition resettable :: "instant \<Rightarrow> run_processing \<Rightarrow> bool" where
  "resettable now r \<longleftrightarrow> rp_status r = ProcessingPending \<or> rp_status r = ProcessingFailed
     \<or> rp_status r = ProcessingCompleted \<or> expired now r"

definition reset_set :: "instant \<Rightarrow> run_processing \<Rightarrow> run_processing" where
  "reset_set now r = r\<lparr>rp_status := ProcessingPending, rp_cursor := None, rp_metrics := zero_metrics,
     rp_error_summary := [], rp_started_at := None, rp_completed_at := None, rp_claim_token := None,
     rp_lease_expires_at := None, rp_updated_at := now\<rparr>"

definition finish_set :: "instant \<Rightarrow> processing_status \<Rightarrow> run_processing \<Rightarrow> run_processing" where
  "finish_set now st r = r\<lparr>rp_status := st, rp_claim_token := None, rp_lease_expires_at := None,
     rp_completed_at := Some now, rp_updated_at := now\<rparr>"

definition release_set :: "instant \<Rightarrow> run_processing \<Rightarrow> run_processing" where
  "release_set now r = r\<lparr>rp_status := ProcessingPending, rp_claim_token := None,
     rp_lease_expires_at := None, rp_updated_at := now\<rparr>"

text \<open>The counters are int4 columns: a sum that does not fit is an error of the statement.\<close>

definition to_run_counters :: "metrics \<Rightarrow> gerr + metrics" where
  "to_run_counters m =
     bindr (mapl Wrap (to_int32 (m_seen m))) (\<lambda>_. bindr (mapl Wrap (to_int32 (m_new m))) (\<lambda>_.
     bindr (mapl Wrap (to_int32 (m_changed m))) (\<lambda>_. bindr (mapl Wrap (to_int32 (m_unchanged m))) (\<lambda>_.
     bindr (mapl Wrap (to_int32 (m_failed m))) (\<lambda>_. Inr m)))))"

definition add_metrics :: "metrics \<Rightarrow> metrics \<Rightarrow> metrics" where
  "add_metrics a b = \<lparr>m_seen = m_seen a + m_seen b, m_new = m_new a + m_new b,
     m_changed = m_changed a + m_changed b, m_unchanged = m_unchanged a + m_unchanged b,
     m_failed = m_failed a + m_failed b\<rparr>"

definition progress_set :: "instant \<Rightarrow> metrics \<Rightarrow> string option \<Rightarrow> duration \<Rightarrow> run_processing \<Rightarrow> run_processing" where
  "progress_set now m cursor d r = r\<lparr>rp_cursor := cursor, rp_metrics := add_metrics (rp_metrics r) m,
     rp_lease_expires_at := Some (now + to_interval d), rp_updated_at := now\<rparr>"

subsection \<open>The repository\<close>

record rp_env =
  pe_scan :: scanner
  pe_run_exists :: "string \<Rightarrow> bool"

type_synonym 'a rp_result = "gerr + (run_processing list \<times> 'a)"

definition bad_run_id :: "gerr \<Rightarrow> gerr" where
  "bad_run_id e = wrap2 (Ingestion ErrInvalidRunID) e"

definition parse_run_id :: "rp_env \<Rightarrow> string \<Rightarrow> gerr + string" where
  "parse_run_id e rid = mapl bad_run_id (parse_uuid (pe_scan e) rid)"

definition parse_token :: "rp_env \<Rightarrow> string \<Rightarrow> gerr + string" where
  "parse_token e token = mapl Wrap (parse_uuid (pe_scan e) token)"

definition guard_failure :: "string \<Rightarrow> processing_err \<Rightarrow> run_processing list \<Rightarrow> gerr" where
  "guard_failure rid when_exists rows =
     (if find_row rid rows \<noteq> None then Leaf (Processing when_exists)
      else Leaf (Processing ErrRunProcessingNotFound))"

definition claim_next ::
  "rp_env \<Rightarrow> instant \<Rightarrow> (string \<Rightarrow> bool) \<Rightarrow> string \<Rightarrow> duration \<Rightarrow> run_processing list
     \<Rightarrow> run_processing option rp_result" where
  "claim_next e now locked token d rows =
     bindr (parse_token e token) (\<lambda>t.
     case claim_candidate now locked rows of None \<Rightarrow> Inr (rows, None)
     | Some c \<Rightarrow> Inr (update_where (rp_run_id c) (\<lambda>_. True) (claim_set now t d) rows))"

definition claim_specific ::
  "rp_env \<Rightarrow> instant \<Rightarrow> string \<Rightarrow> string \<Rightarrow> duration \<Rightarrow> run_processing list \<Rightarrow> run_processing rp_result" where
  "claim_specific e now rid token d rows =
     bindr (parse_run_id e rid) (\<lambda>i. bindr (parse_token e token) (\<lambda>t.
     case update_where i (claimable_specific now t) (claim_set now t d) rows of
       (_, None) \<Rightarrow> Inl (guard_failure i ErrLeaseHeld rows)
     | (rows', Some r) \<Rightarrow> Inr (rows', r)))"

definition ensure_exists ::
  "rp_env \<Rightarrow> instant \<Rightarrow> string \<Rightarrow> run_processing list \<Rightarrow> run_processing rp_result" where
  "ensure_exists e now rid rows =
     bindr (parse_run_id e rid) (\<lambda>i.
     if \<not> pe_run_exists e i then Inl (Wrap (Opaque ''23503''))
     else case update_where i (\<lambda>_. True) (\<lambda>r. r\<lparr>rp_updated_at := now\<rparr>) rows of
       (rows', Some r) \<Rightarrow> Inr (rows', r)
     | (_, None) \<Rightarrow> Inr (rows @ [new_processing_row now i], new_processing_row now i))"

definition parse_progress ::
  "rp_env \<Rightarrow> string \<Rightarrow> string \<Rightarrow> metrics \<Rightarrow> string option \<Rightarrow> gerr + (string \<times> string \<times> string option \<times> metrics)" where
  "parse_progress e rid token m cursor =
     bindr (parse_run_id e rid) (\<lambda>i. bindr (parse_token e token) (\<lambda>t.
     bindr (mapl Wrap (parse_optional_uuid (pe_scan e) cursor)) (\<lambda>c.
     bindr (to_run_counters m) (\<lambda>cm. Inr (i, t, c, cm)))))"

definition update_progress ::
  "rp_env \<Rightarrow> instant \<Rightarrow> string \<Rightarrow> string \<Rightarrow> metrics \<Rightarrow> string option \<Rightarrow> duration \<Rightarrow> run_processing list
     \<Rightarrow> run_processing rp_result" where
  "update_progress e now rid token m cursor d rows =
     bindr (mapl Wrap (parse_progress e rid token m cursor)) (\<lambda>(i, t, c, cm).
     case update_where i (\<lambda>r. rp_status r = ProcessingRunning \<and> rp_claim_token r = Some t)
            (progress_set now cm c d) rows of
       (_, None) \<Rightarrow> Inl (Leaf (Processing ErrLeaseLost))
     | (rows', Some r) \<Rightarrow>
         (case to_run_counters (rp_metrics r) of
            Inl _ \<Rightarrow> Inl (Wrap (Opaque ''22003'')) | Inr _ \<Rightarrow> Inr (rows', r)))"

definition release_claim ::
  "rp_env \<Rightarrow> instant \<Rightarrow> string \<Rightarrow> string \<Rightarrow> run_processing list \<Rightarrow> unit rp_result" where
  "release_claim e now rid token rows =
     bindr (parse_run_id e rid) (\<lambda>i. bindr (parse_token e token) (\<lambda>t.
     Inr (fst (update_where i (\<lambda>r. rp_claim_token r = Some t) (release_set now) rows), ())))"

definition complete_processing ::
  "rp_env \<Rightarrow> instant \<Rightarrow> string \<Rightarrow> string \<Rightarrow> run_processing list \<Rightarrow> run_processing rp_result" where
  "complete_processing e now rid token rows =
     bindr (parse_run_id e rid) (\<lambda>i. bindr (parse_token e token) (\<lambda>t.
     case update_where i (\<lambda>r. rp_claim_token r = Some t) (finish_set now ProcessingCompleted) rows of
       (_, None) \<Rightarrow> Inl (Leaf (Processing ErrLeaseLost))
     | (rows', Some r) \<Rightarrow> Inr (rows', r)))"

definition fail_processing ::
  "rp_env \<Rightarrow> instant \<Rightarrow> string \<Rightarrow> string \<Rightarrow> string \<Rightarrow> run_processing list \<Rightarrow> unit rp_result" where
  "fail_processing e now rid token summary rows =
     bindr (parse_run_id e rid) (\<lambda>i.
     bindr (if is_blank token then Inr None else map_sum (\<lambda>x. x) Some (parse_token e token)) (\<lambda>t.
     case update_where i (\<lambda>r. t = None \<or> rp_claim_token r = t)
            (\<lambda>r. (finish_set now ProcessingFailed r)\<lparr>rp_error_summary := trim_space summary\<rparr>) rows of
       (_, None) \<Rightarrow> Inl (guard_failure i ErrLeaseLost rows)
     | (rows', Some _) \<Rightarrow> Inr (rows', ())))"

definition reset_from_start ::
  "rp_env \<Rightarrow> instant \<Rightarrow> string \<Rightarrow> run_processing list \<Rightarrow> run_processing rp_result" where
  "reset_from_start e now rid rows =
     bindr (parse_run_id e rid) (\<lambda>i.
     case update_where i (resettable now) (reset_set now) rows of
       (_, None) \<Rightarrow> Inl (guard_failure i ErrLeaseHeld rows)
     | (rows', Some r) \<Rightarrow> Inr (rows', r))"

subsection \<open>Rows under updates\<close>

lemma find_row_Some: "find_row rid rows = Some r \<Longrightarrow> r \<in> set rows \<and> rp_run_id r = rid"
  by (auto simp: find_row_def find_Some_iff)

lemma find_row_None: "find_row rid rows = None \<longleftrightarrow> rid \<notin> rp_run_id ` set rows"
  by (auto simp: find_row_def find_None_iff)

lemma update_where_Some:
  assumes "update_where rid g f rows = (rows', Some r')"
  obtains r where "find_row rid rows = Some r" "g r" "r' = f r"
    "rows' = map (\<lambda>x. if rp_run_id x = rid then f x else x) rows"
  using assms by (auto simp: update_where_def split: option.splits if_splits)

lemma update_where_None: "update_where rid g f rows = (rows', None) \<Longrightarrow> rows' = rows"
  by (auto simp: update_where_def split: option.splits if_splits)

lemma find_row_append: "find_row i (rows @ xs) = (case find_row i rows of None \<Rightarrow> find_row i xs | Some r \<Rightarrow> Some r)"
  by (induction rows) (auto simp: find_row_def)

lemma find_row_update:
  assumes "\<And>x. rp_run_id (f x) = rp_run_id x"
  shows "find_row q (map (\<lambda>x. if rp_run_id x = rid then f x else x) rows) =
    (if q = rid then map_option f (find_row q rows) else find_row q rows)"
  using assms by (induction rows) (auto simp: find_row_def)

lemma find_row_update_where:
  assumes "\<And>x. rp_run_id (f x) = rp_run_id x"
  shows "find_row q (fst (update_where rid g f rows)) =
    (case find_row q rows of None \<Rightarrow> None | Some r \<Rightarrow> if q = rid \<and> g r then Some (f r) else Some r)"
  using find_row_update [where f = f, OF assms, of q rid rows]
  by (auto simp: update_where_def split: option.splits)

lemma setters_id [simp]:
  "rp_run_id (claim_set now t d r) = rp_run_id r"
  "rp_run_id (reset_set now r) = rp_run_id r"
  "rp_run_id (finish_set now st r) = rp_run_id r"
  "rp_run_id (release_set now r) = rp_run_id r"
  "rp_run_id (progress_set now m c d r) = rp_run_id r"
  "rp_run_id (new_processing_row now i) = i"
  by (simp_all add: claim_set_def reset_set_def finish_set_def release_set_def progress_set_def new_processing_row_def)

subsection \<open>Every operation as one step\<close>

text \<open>What any worker, or an operator, may do to the table; an operation that fails changes nothing.\<close>

datatype rp_op =
    ClaimNext "string \<Rightarrow> bool" string duration
  | ClaimSpecific string string duration
  | EnsureExists string
  | UpdateProgress string string metrics "string option" duration
  | Release string string
  | Complete string string
  | Fail string string string
  | ResetFromStart string

definition after :: "run_processing list \<Rightarrow> 'a rp_result \<Rightarrow> run_processing list" where
  "after rows r = (case r of Inl _ \<Rightarrow> rows | Inr (rows', _) \<Rightarrow> rows')"

fun exec_op :: "rp_env \<Rightarrow> instant \<Rightarrow> rp_op \<Rightarrow> run_processing list \<Rightarrow> run_processing list" where
  "exec_op e now (ClaimNext locked t d) rows = after rows (claim_next e now locked t d rows)"
| "exec_op e now (ClaimSpecific i t d) rows = after rows (claim_specific e now i t d rows)"
| "exec_op e now (EnsureExists i) rows = after rows (ensure_exists e now i rows)"
| "exec_op e now (UpdateProgress i t m c d) rows = after rows (update_progress e now i t m c d rows)"
| "exec_op e now (Release i t) rows = after rows (release_claim e now i t rows)"
| "exec_op e now (Complete i t) rows = after rows (complete_processing e now i t rows)"
| "exec_op e now (Fail i t msg) rows = after rows (fail_processing e now i t msg rows)"
| "exec_op e now (ResetFromStart i) rows = after rows (reset_from_start e now i rows)"

text \<open>A claimed row is RUNNING and has a lease; any other row has neither token nor lease.\<close>

definition rp_row_ok :: "run_processing \<Rightarrow> bool" where
  "rp_row_ok r \<longleftrightarrow> (rp_status r = ProcessingRunning \<longleftrightarrow> rp_claim_token r \<noteq> None) \<and>
     (rp_claim_token r \<noteq> None \<longleftrightarrow> rp_lease_expires_at r \<noteq> None)"

definition rp_inv :: "run_processing list \<Rightarrow> bool" where
  "rp_inv rows \<longleftrightarrow> distinct (map rp_run_id rows) \<and> (\<forall>r \<in> set rows. rp_row_ok r)"

lemma rp_inv_update:
  assumes "rp_inv rows" "\<And>x. rp_run_id (f x) = rp_run_id x" "\<And>x. x \<in> set rows \<Longrightarrow> g x \<Longrightarrow> rp_row_ok x \<Longrightarrow> rp_row_ok (f x)"
  shows "rp_inv (fst (update_where rid g f rows))"
proof (cases "find_row rid rows")
  case None
  with assms show ?thesis by (simp add: update_where_def)
next
  case (Some r)
  let ?h = "\<lambda>x. if rp_run_id x = rid then f x else x"
  show ?thesis
  proof (cases "g r")
    case True
    have "map rp_run_id (map ?h rows) = map rp_run_id rows"
      using assms(2) by (induction rows) auto
    moreover have "\<forall>y \<in> set (map ?h rows). rp_row_ok y"
    proof
      fix y assume "y \<in> set (map ?h rows)"
      then obtain x where x: "x \<in> set rows" "y = ?h x" by auto
      have "rp_run_id x = rid \<Longrightarrow> x = r"
        using assms(1) x(1) find_row_Some [OF Some] map_of_distinct_in by (metis rp_inv_def)
      then show "rp_row_ok y" using assms x True by (auto simp: rp_inv_def)
    qed
    ultimately have "rp_inv (map ?h rows)" using assms(1) by (simp only: rp_inv_def)
    then show ?thesis using Some True by (simp add: update_where_def)
  next
    case False
    with Some assms(1) show ?thesis by (simp add: update_where_def)
  qed
qed

lemma row_ok_setters:
  "rp_row_ok (claim_set now t d r)" "rp_row_ok (reset_set now r)" "rp_row_ok (release_set now r)"
  "st \<noteq> ProcessingRunning \<Longrightarrow> rp_row_ok (finish_set now st r)" "rp_row_ok (new_processing_row now i)"
  "rp_row_ok r \<Longrightarrow> rp_status r = ProcessingRunning \<Longrightarrow> rp_row_ok (progress_set now m c d r)"
  "rp_row_ok r \<Longrightarrow> rp_row_ok (r\<lparr>rp_updated_at := now\<rparr>)"
  "st \<noteq> ProcessingRunning \<Longrightarrow> rp_row_ok ((finish_set now st r)\<lparr>rp_error_summary := s\<rparr>)"
  by (auto simp: rp_row_ok_def claim_set_def reset_set_def finish_set_def release_set_def progress_set_def new_processing_row_def)

lemma parse_progress_token: "parse_progress e rid k m c = Inr (i, t, c', cm) \<Longrightarrow>
    parse_token e k = Inr t \<and> parse_run_id e rid = Inr i \<and> cm = m \<and> to_run_counters m = Inr m"
  by (auto simp: parse_progress_def to_run_counters_def bindr_Inr_iff)

lemma update_progress_Inr:
  assumes "update_progress e now rid token m cursor d rows = Inr p"
  obtains i t c cm r where "parse_progress e rid token m cursor = Inr (i, t, c, cm)"
    "update_where i (\<lambda>r. rp_status r = ProcessingRunning \<and> rp_claim_token r = Some t) (progress_set now cm c d) rows
       = (fst p, Some r)" "snd p = r" "is_ok (to_run_counters (rp_metrics r))"
proof -
  from assms obtain i t c cm where pp: "parse_progress e rid token m cursor = Inr (i, t, c, cm)"
    by (auto simp: update_progress_def bindr_Inr_iff)
  let ?u = "update_where i (\<lambda>r. rp_status r = ProcessingRunning \<and> rp_claim_token r = Some t) (progress_set now cm c d) rows"
  obtain rows' q where u: "?u = (rows', q)" by (cases ?u)
  with assms pp obtain r where r: "q = Some r" "p = (rows', r)" "is_ok (to_run_counters (rp_metrics r))"
    by (cases q) (auto simp: update_progress_def split: sum.splits)
  show thesis by (rule that [OF pp]) (use u r in simp_all)
qed

text \<open>The state after each operation, as one guarded update.\<close>

lemma after_update:
  "after rows (case update_where i g f rows of (_, None) \<Rightarrow> Inl x | (rows', Some r) \<Rightarrow> Inr (rows', r)) = fst (update_where i g f rows)"
  "after rows (case update_where i g f rows of (_, None) \<Rightarrow> Inl x | (rows', Some r) \<Rightarrow> Inr (rows', ())) = fst (update_where i g f rows)"
  by (auto simp: after_def update_where_def split: option.splits)

text \<open>What an operation makes of a row it writes: the token is the one passed, or none, or as it was; the
  cursor and the counters stay, but for a reset, which clears them, and for progress.\<close>

definition same_progress :: "run_processing \<Rightarrow> run_processing \<Rightarrow> bool" where
  "same_progress x y \<longleftrightarrow> rp_cursor y = rp_cursor x \<and> rp_metrics y = rp_metrics x"

definition carries :: "rp_env \<Rightarrow> string \<Rightarrow> run_processing \<Rightarrow> bool" where
  "carries e k y \<longleftrightarrow> (case parse_token e k of Inl _ \<Rightarrow> False | Inr t \<Rightarrow> rp_claim_token y = Some t)"

fun op_writes :: "rp_env \<Rightarrow> rp_op \<Rightarrow> run_processing \<Rightarrow> run_processing \<Rightarrow> bool" where
  "op_writes e (ClaimNext _ k _) x y \<longleftrightarrow> carries e k y \<and> same_progress x y"
| "op_writes e (ClaimSpecific _ k _) x y \<longleftrightarrow> carries e k y \<and> same_progress x y"
| "op_writes e (EnsureExists _) x y \<longleftrightarrow> rp_claim_token y = rp_claim_token x \<and> same_progress x y"
| "op_writes e (UpdateProgress i k _ _ _) x y \<longleftrightarrow> parse_run_id e i = Inr (rp_run_id x) \<and> carries e k y"
| "op_writes e (ResetFromStart _) x y \<longleftrightarrow> rp_claim_token y = None \<and> rp_cursor y = None \<and> rp_metrics y = zero_metrics"
| "op_writes e _ x y \<longleftrightarrow> rp_claim_token y = None \<and> same_progress x y"

lemma writes_setters:
  "parse_token e k = Inr t \<Longrightarrow> carries e k (claim_set now t d r)" "same_progress r (claim_set now t d r)"
  "same_progress r (r\<lparr>rp_updated_at := now\<rparr>)"
  "same_progress r (release_set now r)" "rp_claim_token (release_set now r) = None"
  "same_progress r (finish_set now st r)" "rp_claim_token (finish_set now st r) = None"
  "same_progress r ((finish_set now st r)\<lparr>rp_error_summary := s\<rparr>)"
  "rp_claim_token (reset_set now r) = None" "rp_cursor (reset_set now r) = None" "rp_metrics (reset_set now r) = zero_metrics"
  "parse_token e k = Inr t \<Longrightarrow> rp_claim_token r = Some t \<Longrightarrow> carries e k (progress_set now m c d r)"
  by (simp_all add: carries_def same_progress_def claim_set_def release_set_def finish_set_def reset_set_def progress_set_def)

lemma exec_cases:
  obtains "exec_op e now op rows = rows"
  | i g f where "exec_op e now op rows = fst (update_where i g f rows)"
      "\<And>x. rp_run_id (f x) = rp_run_id x"
      "\<And>x. g x \<Longrightarrow> rp_row_ok x \<Longrightarrow> rp_row_ok (f x)"
      "\<And>x. g x \<Longrightarrow> rp_run_id x = i \<Longrightarrow> op_writes e op x (f x)"
  | i where "exec_op e now op rows = rows @ [new_processing_row now i]" "find_row i rows = None"
proof (cases op)
  case (ClaimNext locked t d)
  show ?thesis
  proof (cases "claim_next e now locked t d rows")
    case (Inl x)
    with ClaimNext show ?thesis by (intro that(1)) (simp add: after_def)
  next
    case (Inr p)
    then obtain tk where tk: "parse_token e t = Inr tk" by (auto simp: claim_next_def bindr_Inr_iff)
    show ?thesis
    proof (cases "claim_candidate now locked rows")
      case None
      with tk ClaimNext show ?thesis by (intro that(1)) (simp add: after_def claim_next_def)
    next
      case (Some c)
      with tk Inr have "p = update_where (rp_run_id c) (\<lambda>_. True) (claim_set now tk d) rows"
        by (simp add: claim_next_def)
      with ClaimNext Inr show ?thesis
        by (intro that(2) [of "rp_run_id c" "\<lambda>_. True" "claim_set now tk d"]) (simp_all add: after_def case_prod_unfold row_ok_setters writes_setters tk)
    qed
  qed
next
  case (ClaimSpecific i t d)
  show ?thesis
  proof (cases "bindr (parse_run_id e i) (\<lambda>i. bindr (parse_token e t) (\<lambda>t. Inr (i, t)))")
    case (Inl x)
    with ClaimSpecific show ?thesis
      by (intro that(1)) (auto simp: claim_specific_def bindr_Inl_iff after_def)
  next
    case (Inr p)
    then obtain i' t' where "parse_run_id e i = Inr i'" "parse_token e t = Inr t'" by (auto simp: bindr_Inr_iff)
    with ClaimSpecific show ?thesis
      by (intro that(2) [of i' "claimable_specific now t'" "claim_set now t' d"])
         (simp_all add: claim_specific_def after_update row_ok_setters writes_setters)
  qed
next
  case (EnsureExists i)
  show ?thesis
  proof (cases "parse_run_id e i")
    case (Inl x)
    with EnsureExists show ?thesis by (intro that(1)) (simp add: ensure_exists_def after_def)
  next
    case (Inr i')
    show ?thesis
    proof (cases "pe_run_exists e i'")
      case False
      with Inr EnsureExists show ?thesis by (intro that(1)) (simp add: ensure_exists_def after_def)
    next
      case True
      show ?thesis
      proof (cases "find_row i' rows")
        case None
        with True Inr EnsureExists show ?thesis
          by (intro that(3) [of i']) (simp_all add: ensure_exists_def after_def update_where_def)
      next
        case (Some r)
        with True Inr EnsureExists show ?thesis
          by (intro that(2) [of i' "\<lambda>_. True" "\<lambda>r. r\<lparr>rp_updated_at := now\<rparr>"])
             (simp_all add: ensure_exists_def after_def update_where_def row_ok_setters writes_setters)
      qed
    qed
  qed
next
  case (UpdateProgress i t m c d)
  show ?thesis
  proof (cases "update_progress e now i t m c d rows")
    case (Inl x)
    with UpdateProgress show ?thesis by (intro that(1)) (simp add: after_def)
  next
    case (Inr p)
    then obtain i' t' c' cm r where pp: "parse_progress e i t m c = Inr (i', t', c', cm)"
      and u: "update_where i' (\<lambda>r. rp_status r = ProcessingRunning \<and> rp_claim_token r = Some t') (progress_set now cm c' d) rows = (fst p, Some r)"
      by (rule update_progress_Inr)
    with UpdateProgress Inr show ?thesis
      by (intro that(2) [of i' "\<lambda>r. rp_status r = ProcessingRunning \<and> rp_claim_token r = Some t'" "progress_set now cm c' d"])
         (simp_all add: after_def row_ok_setters writes_setters u case_prod_unfold parse_progress_token [OF pp])
  qed
next
  case (Release i t)
  show ?thesis
  proof (cases "bindr (parse_run_id e i) (\<lambda>i. bindr (parse_token e t) (\<lambda>t. Inr (i, t)))")
    case (Inl x)
    with Release show ?thesis by (intro that(1)) (auto simp: release_claim_def bindr_Inl_iff after_def)
  next
    case (Inr p)
    then obtain i' t' where "parse_run_id e i = Inr i'" "parse_token e t = Inr t'" by (auto simp: bindr_Inr_iff)
    with Release show ?thesis
      by (intro that(2) [of i' "\<lambda>r. rp_claim_token r = Some t'" "release_set now"])
         (simp_all add: release_claim_def after_def row_ok_setters writes_setters)
  qed
next
  case (Complete i t)
  show ?thesis
  proof (cases "bindr (parse_run_id e i) (\<lambda>i. bindr (parse_token e t) (\<lambda>t. Inr (i, t)))")
    case (Inl x)
    with Complete show ?thesis by (intro that(1)) (auto simp: complete_processing_def bindr_Inl_iff after_def)
  next
    case (Inr p)
    then obtain i' t' where "parse_run_id e i = Inr i'" "parse_token e t = Inr t'" by (auto simp: bindr_Inr_iff)
    with Complete show ?thesis
      by (intro that(2) [of i' "\<lambda>r. rp_claim_token r = Some t'" "finish_set now ProcessingCompleted"])
         (simp_all add: complete_processing_def after_update row_ok_setters writes_setters)
  qed
next
  case (Fail i t msg)
  show ?thesis
  proof (cases "bindr (parse_run_id e i) (\<lambda>i. bindr (if is_blank t then Inr None else map_sum (\<lambda>x. x) Some (parse_token e t)) (\<lambda>t. Inr (i, t)))")
    case (Inl x)
    with Fail show ?thesis by (intro that(1)) (auto simp: fail_processing_def bindr_Inl_iff after_def)
  next
    case (Inr p)
    then obtain i' t' where "parse_run_id e i = Inr i'"
      "(if is_blank t then Inr None else map_sum (\<lambda>x. x) Some (parse_token e t)) = Inr t'" by (auto simp: bindr_Inr_iff)
    with Fail show ?thesis
      by (intro that(2) [of i' "\<lambda>r. t' = None \<or> rp_claim_token r = t'" "\<lambda>r. (finish_set now ProcessingFailed r)\<lparr>rp_error_summary := trim_space msg\<rparr>"])
         (simp_all add: fail_processing_def after_update row_ok_setters writes_setters)
  qed
next
  case (ResetFromStart i)
  show ?thesis
  proof (cases "parse_run_id e i")
    case (Inl x)
    with ResetFromStart show ?thesis by (intro that(1)) (simp add: reset_from_start_def after_def)
  next
    case (Inr i')
    with ResetFromStart show ?thesis
      by (intro that(2) [of i' "resettable now" "reset_set now"]) (simp_all add: reset_from_start_def after_update row_ok_setters writes_setters)
  qed
qed

lemma exec_op_inv: "rp_inv rows \<Longrightarrow> rp_inv (exec_op e now op rows)"
proof (rule exec_cases [of e now op rows])
  fix i assume "rp_inv rows" "exec_op e now op rows = rows @ [new_processing_row now i]" "find_row i rows = None"
  then show ?thesis by (auto simp: rp_inv_def find_row_None row_ok_setters)
qed (auto intro!: rp_inv_update)

subsection \<open>Leases\<close>

text \<open>Operations that do not carry the claim token \<open>t\<close>, and are not a forced failure (a blank token).\<close>

fun foreign :: "rp_env \<Rightarrow> string \<Rightarrow> rp_op \<Rightarrow> bool" where
  "foreign e t (ClaimNext _ k _) \<longleftrightarrow> parse_token e k \<noteq> Inr t"
| "foreign e t (ClaimSpecific _ k _) \<longleftrightarrow> parse_token e k \<noteq> Inr t"
| "foreign e t (EnsureExists _) \<longleftrightarrow> True"
| "foreign e t (UpdateProgress _ k _ _ _) \<longleftrightarrow> parse_token e k \<noteq> Inr t"
| "foreign e t (Release _ k) \<longleftrightarrow> parse_token e k \<noteq> Inr t"
| "foreign e t (Complete _ k) \<longleftrightarrow> parse_token e k \<noteq> Inr t"
| "foreign e t (Fail _ k _) \<longleftrightarrow> parse_token e k \<noteq> Inr t \<and> \<not> is_blank k"
| "foreign e t (ResetFromStart _) \<longleftrightarrow> True"

definition holds :: "string \<Rightarrow> instant \<Rightarrow> run_processing \<Rightarrow> bool" where
  "holds t until r \<longleftrightarrow> rp_status r = ProcessingRunning \<and> rp_claim_token r = Some t \<and> rp_lease_expires_at r = Some until"

lemma unguarded_update:
  assumes "find_row i rows = Some r" "\<And>x. rp_run_id (f x) = rp_run_id x" "j = i \<Longrightarrow> \<not> g r"
  shows "find_row i (fst (update_where j g f rows)) = Some r"
  using assms(1,3) find_row_update_where [where f = f and q = i and rid = j and g = g and rows = rows, OF assms(2)] by auto

lemma claim_candidate_Some:
  assumes "claim_candidate now locked rows = Some c"
  shows "c \<in> set rows \<and> claimable_next now c \<and> \<not> locked (rp_run_id c) \<and>
    (\<forall>r \<in> set rows. claimable_next now r \<longrightarrow> \<not> locked (rp_run_id r) \<longrightarrow> rp_created_at c \<le> rp_created_at r)"
proof -
  let ?xs = "filter (\<lambda>r. claimable_next now r \<and> \<not> locked (rp_run_id r)) rows"
  obtain cs where cs: "sort_key rp_created_at ?xs = c # cs"
    using assms by (auto simp: claim_candidate_def split: list.splits)
  have "sorted (map rp_created_at (sort_key rp_created_at ?xs))" by simp
  then have le: "\<forall>r \<in> set (c # cs). rp_created_at c \<le> rp_created_at r" unfolding cs by auto
  have set: "set (c # cs) = set ?xs" by (metis cs set_sort)
  then have "c \<in> set ?xs" by (metis list.set_intros(1))
  with le set show ?thesis by auto
qed

lemma claim_candidate_None:
  "claim_candidate now locked rows = None \<longleftrightarrow> (\<forall>r \<in> set rows. claimable_next now r \<longrightarrow> locked (rp_run_id r))"
proof -
  have "claim_candidate now locked rows = None \<longleftrightarrow>
      sort_key rp_created_at (filter (\<lambda>r. claimable_next now r \<and> \<not> locked (rp_run_id r)) rows) = []"
    by (auto simp: claim_candidate_def split: list.splits)
  also have "\<dots> \<longleftrightarrow> filter (\<lambda>r. claimable_next now r \<and> \<not> locked (rp_run_id r)) rows = []"
    using length_sort [of rp_created_at "filter (\<lambda>r. claimable_next now r \<and> \<not> locked (rp_run_id r)) rows"]
    by (simp only: length_0_conv [symmetric])
  finally show ?thesis by (auto simp: filter_empty_conv)
qed

lemma after_Inl_rows: "r = Inl x \<Longrightarrow> after rows r = rows"
  by (simp add: after_def)

lemma foreign_keeps_lease:
  assumes inv: "rp_inv rows" and r: "find_row i rows = Some r" "holds t until r"
    and now: "now \<le> until" and op: "foreign e t op"
  shows "\<exists>u. find_row i (exec_op e now op rows) = Some (r\<lparr>rp_updated_at := u\<rparr>)"
proof -
  have live: "\<not> expired now r" "\<not> claimable_next now r" "\<not> resettable now r"
    and tok: "\<And>k. k \<noteq> t \<Longrightarrow> \<not> claimable_specific now k r"
    using r(2) now by (auto simp: holds_def expired_def claimable_next_def resettable_def claimable_specific_def)
  have same: "\<exists>u. find_row i rows = Some (r\<lparr>rp_updated_at := u\<rparr>)" using r(1) by (auto intro!: exI [of _ "rp_updated_at r"])
  have keep: "\<exists>u. find_row i (fst (update_where j g f rows)) = Some (r\<lparr>rp_updated_at := u\<rparr>)"
    if "\<And>x. rp_run_id (f x) = rp_run_id x" "j = i \<Longrightarrow> \<not> g r" for j g f
  proof -
    have "find_row i (fst (update_where j g f rows)) = Some r"
      by (rule unguarded_update [where f = f and g = g and j = j, OF r(1)]) (use that in auto)
    then show ?thesis using same r(1) by simp
  qed
  show ?thesis
  proof (cases op)
    case (ClaimNext locked k d)
    show ?thesis
    proof (cases "claim_next e now locked k d rows")
      case (Inr p)
      then obtain tk where tk: "parse_token e k = Inr tk" by (auto simp: claim_next_def bindr_Inr_iff)
      show ?thesis
      proof (cases "claim_candidate now locked rows")
        case None
        with tk ClaimNext same show ?thesis by (simp add: after_def claim_next_def)
      next
        case (Some c)
        then have c: "c \<in> set rows" "claimable_next now c" using claim_candidate_Some by auto
        have "rp_run_id c \<noteq> i"
          using c live(2) find_row_Some [OF r(1)] inv map_of_distinct_in by (metis rp_inv_def)
        with Some tk ClaimNext keep [of "claim_set now tk d" "rp_run_id c" "\<lambda>_. True"] show ?thesis
          by (simp add: after_def claim_next_def case_prod_unfold)
      qed
    qed (use ClaimNext same in \<open>simp add: after_def\<close>)
  next
    case (ClaimSpecific j k d)
    show ?thesis
    proof (cases "claim_specific e now j k d rows")
      case (Inr p)
      then obtain j' k' where jk: "parse_run_id e j = Inr j'" "parse_token e k = Inr k'"
        by (auto simp: claim_specific_def bindr_Inr_iff)
      with op ClaimSpecific have "k' \<noteq> t" by auto
      with jk ClaimSpecific keep [of "claim_set now k' d" j' "claimable_specific now k'"] tok show ?thesis
        by (simp add: claim_specific_def after_update)
    qed (use ClaimSpecific same in \<open>simp add: after_def\<close>)
  next
    case (EnsureExists j)
    show ?thesis
    proof (cases "ensure_exists e now j rows")
      case (Inr p)
      then obtain j' where j': "parse_run_id e j = Inr j'" "pe_run_exists e j'"
        by (auto simp: ensure_exists_def bindr_Inr_iff split: if_splits)
      show ?thesis
      proof (cases "j' = i")
        case True
        with j' EnsureExists r(1) have "exec_op e now op rows = fst (update_where i (\<lambda>_. True) (\<lambda>r. r\<lparr>rp_updated_at := now\<rparr>) rows)"
          by (simp add: ensure_exists_def after_def update_where_def)
        with r(1) show ?thesis by (auto simp: find_row_update_where)
      next
        case False
        show ?thesis
        proof (cases "find_row j' rows")
          case None
          with j' EnsureExists have "exec_op e now op rows = rows @ [new_processing_row now j']"
            by (simp add: ensure_exists_def after_def update_where_def)
          moreover have "find_row i (rows @ [new_processing_row now j']) = find_row i rows"
            using r(1) by (simp add: find_row_append)
          ultimately show ?thesis using same by simp
        next
          case (Some q)
          with j' EnsureExists have "exec_op e now op rows = fst (update_where j' (\<lambda>_. True) (\<lambda>r. r\<lparr>rp_updated_at := now\<rparr>) rows)"
            by (simp add: ensure_exists_def after_def update_where_def)
          with False keep [of "\<lambda>r. r\<lparr>rp_updated_at := now\<rparr>" j' "\<lambda>_. True"] show ?thesis by simp
        qed
      qed
    qed (use EnsureExists same in \<open>simp add: after_def\<close>)
  next
    case (UpdateProgress j k m c d)
    show ?thesis
    proof (cases "update_progress e now j k m c d rows")
      case (Inr p)
      then obtain j' k' c' cm q where pp: "parse_progress e j k m c = Inr (j', k', c', cm)"
        and u: "update_where j' (\<lambda>r. rp_status r = ProcessingRunning \<and> rp_claim_token r = Some k') (progress_set now cm c' d) rows = (fst p, Some q)"
        by (rule update_progress_Inr)
      have "k' \<noteq> t" using parse_progress_token [OF pp] op UpdateProgress by auto
      with r(2) keep [of "progress_set now cm c' d" j' "\<lambda>r. rp_status r = ProcessingRunning \<and> rp_claim_token r = Some k'"]
        u Inr UpdateProgress show ?thesis by (simp add: after_def case_prod_unfold holds_def)
    qed (use UpdateProgress same in \<open>simp add: after_def\<close>)
  next
    case (Release j k)
    show ?thesis
    proof (cases "release_claim e now j k rows")
      case (Inr p)
      then obtain j' k' where jk: "parse_run_id e j = Inr j'" "parse_token e k = Inr k'"
        by (auto simp: release_claim_def bindr_Inr_iff)
      with op Release have "k' \<noteq> t" by auto
      with jk Release r(2) keep [of "release_set now" j' "\<lambda>r. rp_claim_token r = Some k'"] show ?thesis
        by (simp add: release_claim_def after_def holds_def)
    qed (use Release same in \<open>simp add: after_def\<close>)
  next
    case (Complete j k)
    show ?thesis
    proof (cases "complete_processing e now j k rows")
      case (Inr p)
      then obtain j' k' where jk: "parse_run_id e j = Inr j'" "parse_token e k = Inr k'"
        by (auto simp: complete_processing_def bindr_Inr_iff)
      with op Complete have "k' \<noteq> t" by auto
      with jk Complete r(2) keep [of "finish_set now ProcessingCompleted" j' "\<lambda>r. rp_claim_token r = Some k'"] show ?thesis
        by (simp add: complete_processing_def after_update holds_def)
    qed (use Complete same in \<open>simp add: after_def\<close>)
  next
    case (Fail j k msg)
    show ?thesis
    proof (cases "fail_processing e now j k msg rows")
      case (Inr p)
      with op Fail obtain j' k' where jk: "parse_run_id e j = Inr j'" "parse_token e k = Inr k'" "\<not> is_blank k" "k' \<noteq> t"
        by (cases "parse_token e k") (auto simp: fail_processing_def bindr_Inr_iff)
      with Fail r(2) keep [of "\<lambda>r. (finish_set now ProcessingFailed r)\<lparr>rp_error_summary := trim_space msg\<rparr>" j' "\<lambda>r. Some k' = None \<or> rp_claim_token r = Some k'"]
      show ?thesis by (simp add: fail_processing_def after_update holds_def)
    qed (use Fail same in \<open>simp add: after_def\<close>)
  next
    case (ResetFromStart j)
    show ?thesis
    proof (cases "parse_run_id e j")
      case (Inr j')
      with ResetFromStart live(3) keep [of "reset_set now" j' "resettable now"] show ?thesis
        by (simp add: reset_from_start_def after_update)
    qed (use ResetFromStart same in \<open>simp add: after_def reset_from_start_def\<close>)
  qed
qed

fun exec_all :: "rp_env \<Rightarrow> (instant \<times> rp_op) list \<Rightarrow> run_processing list \<Rightarrow> run_processing list" where
  "exec_all e [] rows = rows"
| "exec_all e ((now, op) # ops) rows = exec_all e ops (exec_op e now op rows)"

text \<open>Claim C8. A live lease is exclusive: whatever other workers and operators do to the table, as
  long as they do not carry the holder's token, do not force a failure, and the lease has not
  expired, the holder's row keeps its status, token, lease, cursor and counters.\<close>

theorem live_lease_is_exclusive:
  assumes "rp_inv rows" "find_row i rows = Some r" "holds t until r"
    and "\<forall>(now, op) \<in> set ops. now \<le> until \<and> foreign e t op"
  shows "\<exists>u. find_row i (exec_all e ops rows) = Some (r\<lparr>rp_updated_at := u\<rparr>)"
  using assms
proof (induction ops arbitrary: rows r)
  case Nil
  then show ?case by (auto intro!: exI [of _ "rp_updated_at r"])
next
  case (Cons no ops)
  obtain now op where no: "no = (now, op)" by (cases no)
  with Cons.prems obtain u where u: "find_row i (exec_op e now op rows) = Some (r\<lparr>rp_updated_at := u\<rparr>)"
    using foreign_keeps_lease by (metis case_prodD list.set_intros(1))
  moreover have "holds t until (r\<lparr>rp_updated_at := u\<rparr>)" using Cons.prems(3) by (simp add: holds_def)
  ultimately obtain w where "find_row i (exec_all e ops (exec_op e now op rows)) = Some (r\<lparr>rp_updated_at := u\<rparr>\<lparr>rp_updated_at := w\<rparr>)"
    using Cons.IH [OF exec_op_inv [OF Cons.prems(1)]] Cons.prems(4) by (metis list.set_intros(2))
  then show ?case using no by auto
qed

text \<open>Claim C23. Progress is fenced by the claim: when \<open>UpdateProgress\<close> succeeds, the row was RUNNING
  under that very token; its counters grow by exactly the page's, the cursor moves to the page's last
  record, the token stays, and no other row of the table changes.\<close>

theorem progress_is_fenced:
  assumes "rp_inv rows" "update_progress e now rid token m cursor d rows = Inr (rows', r')"
  shows "\<exists>i t c r. parse_run_id e rid = Inr i \<and> parse_token e token = Inr t \<and>
    parse_optional_uuid (pe_scan e) cursor = Inr c \<and> find_row i rows = Some r \<and>
    rp_status r = ProcessingRunning \<and> rp_claim_token r = Some t \<and>
    r' = r\<lparr>rp_cursor := c, rp_metrics := add_metrics (rp_metrics r) m,
       rp_lease_expires_at := Some (now + to_interval d), rp_updated_at := now\<rparr> \<and>
    find_row i rows' = Some r' \<and> (\<forall>j. j \<noteq> i \<longrightarrow> find_row j rows' = find_row j rows)"
proof -
  from assms(2) obtain i t c cm where pp: "parse_progress e rid token m cursor = Inr (i, t, c, cm)"
    and u: "update_where i (\<lambda>r. rp_status r = ProcessingRunning \<and> rp_claim_token r = Some t) (progress_set now cm c d) rows = (rows', Some r')"
    by (rule update_progress_Inr) auto
  obtain r where r: "find_row i rows = Some r" "rp_status r = ProcessingRunning \<and> rp_claim_token r = Some t"
    "r' = progress_set now cm c d r"
    by (rule update_where_Some [OF u])
  have "find_row j rows' = (case find_row j rows of None \<Rightarrow> None
      | Some q \<Rightarrow> if j = i \<and> rp_status q = ProcessingRunning \<and> rp_claim_token q = Some t then Some (progress_set now cm c d q) else Some q)" for j
    using find_row_update_where [where f = "progress_set now cm c d" and q = j and rid = i and rows = rows
        and g = "\<lambda>r. rp_status r = ProcessingRunning \<and> rp_claim_token r = Some t"] u by simp
  then have "find_row i rows' = Some r'" "\<forall>j. j \<noteq> i \<longrightarrow> find_row j rows' = find_row j rows"
    using r by (auto split: option.splits)
  moreover have "parse_optional_uuid (pe_scan e) cursor = Inr c"
    using pp by (auto simp: parse_progress_def bindr_Inr_iff)
  ultimately show ?thesis using r parse_progress_token [OF pp] by (auto simp: progress_set_def)
qed

text \<open>Claim C36. The queue is served oldest first and never starves: with a valid token,
  \<open>ClaimNext\<close> returns nothing only when every claimable run is locked by another transaction;
  otherwise it claims the oldest claimable unlocked run for the token, from the cursor and with the
  counters the run already has.\<close>

theorem claim_next_oldest:
  assumes "rp_inv rows" "parse_token e token = Inr t"
  shows "case claim_next e now locked token d rows of
      Inr (rows', None) \<Rightarrow> rows' = rows \<and> (\<forall>r \<in> set rows. claimable_next now r \<longrightarrow> locked (rp_run_id r))
    | Inr (rows', Some r') \<Rightarrow> (\<exists>r \<in> set rows. claimable_next now r \<and> \<not> locked (rp_run_id r) \<and>
        (\<forall>q \<in> set rows. claimable_next now q \<longrightarrow> \<not> locked (rp_run_id q) \<longrightarrow> rp_created_at r \<le> rp_created_at q) \<and>
        r' = claim_set now t d r \<and> holds t (now + to_interval d) r' \<and>
        rp_cursor r' = rp_cursor r \<and> rp_metrics r' = rp_metrics r \<and> find_row (rp_run_id r) rows' = Some r')
    | Inl _ \<Rightarrow> False"
proof (cases "claim_candidate now locked rows")
  case None
  then have "\<forall>r \<in> set rows. claimable_next now r \<longrightarrow> locked (rp_run_id r)" using claim_candidate_None by blast
  with None show ?thesis using assms(2) by (simp add: claim_next_def)
next
  case (Some c)
  from claim_candidate_Some [OF Some] have c: "c \<in> set rows" by simp
  have f: "find_row (rp_run_id c) rows = Some c"
  proof (cases "find_row (rp_run_id c) rows")
    case None
    with c show ?thesis by (simp add: find_row_None)
  next
    case (Some q)
    then show ?thesis using find_row_Some [OF Some] c assms(1) map_of_distinct_in by (metis rp_inv_def)
  qed
  then have "claim_next e now locked token d rows =
      Inr (fst (update_where (rp_run_id c) (\<lambda>_. True) (claim_set now t d) rows), Some (claim_set now t d c))"
    using Some assms(2) by (simp add: claim_next_def update_where_def)
  moreover have "find_row (rp_run_id c) (fst (update_where (rp_run_id c) (\<lambda>_. True) (claim_set now t d) rows)) = Some (claim_set now t d c)"
    using f by (simp add: find_row_update_where)
  moreover have "holds t (now + to_interval d) (claim_set now t d c)" "rp_cursor (claim_set now t d c) = rp_cursor c"
    "rp_metrics (claim_set now t d c) = rp_metrics c"
    by (simp_all add: holds_def claim_set_def)
  ultimately show ?thesis using claim_candidate_Some [OF Some] by auto
qed

definition demo_rp_env :: rp_env where
  "demo_rp_env = \<lparr>pe_scan = (\<lambda>s. Some s), pe_run_exists = (\<lambda>_. True)\<rparr>"

definition demo_queue :: "run_processing list" where
  "demo_queue = exec_all demo_rp_env [(10, EnsureExists ''r1''), (20, EnsureExists ''r2''),
     (30, ClaimSpecific ''r2'' ''t2'' 50000)] []"

definition demo_r2 :: run_processing where
  "demo_r2 = the (find_row ''r2'' demo_queue)"

lemma rp_inv_exec_all: "rp_inv rows \<Longrightarrow> rp_inv (exec_all e ops rows)"
  by (induction e ops rows rule: exec_all.induct) (simp_all add: exec_op_inv)

lemma demo_queue_inv: "rp_inv demo_queue"
  unfolding demo_queue_def by (rule rp_inv_exec_all) (simp add: rp_inv_def)

lemma demo_r2_holds: "find_row ''r2'' demo_queue = Some demo_r2" "holds ''t2'' 50030 demo_r2"
  by code_simp+

theorem live_lease_is_exclusive_witness:
  "\<exists>u. find_row ''r2'' (exec_all demo_rp_env [(40, ClaimSpecific ''r2'' ''t1'' 9), (41, ResetFromStart ''r2''),
      (50000, ClaimNext (\<lambda>_. False) ''t3'' 7)] demo_queue) = Some (demo_r2\<lparr>rp_updated_at := u\<rparr>)"
  by (rule live_lease_is_exclusive [OF demo_queue_inv demo_r2_holds]) code_simp

definition demo_progress :: "run_processing rp_result" where
  "demo_progress = update_progress demo_rp_env 60 ''r2'' ''t2'' (zero_metrics\<lparr>m_seen := 2, m_new := 2\<rparr>) (Some ''c'') 50000 demo_queue"

lemma demo_progress_ok: "is_ok demo_progress" by code_simp

lemma demo_progress_eq: "update_progress demo_rp_env 60 ''r2'' ''t2'' (zero_metrics\<lparr>m_seen := 2, m_new := 2\<rparr>) (Some ''c'') 50000 demo_queue
    = Inr (fst (projr demo_progress), snd (projr demo_progress))"
  unfolding demo_progress_def [symmetric] by (rule is_ok_pair [OF demo_progress_ok])

theorem progress_is_fenced_witness:
  "\<exists>i t c r. parse_run_id demo_rp_env ''r2'' = Inr i \<and> parse_token demo_rp_env ''t2'' = Inr t \<and>
    parse_optional_uuid (pe_scan demo_rp_env) (Some ''c'') = Inr c \<and> find_row i demo_queue = Some r \<and>
    rp_status r = ProcessingRunning \<and> rp_claim_token r = Some t \<and>
    snd (projr demo_progress) = r\<lparr>rp_cursor := c, rp_metrics := add_metrics (rp_metrics r) (zero_metrics\<lparr>m_seen := 2, m_new := 2\<rparr>),
       rp_lease_expires_at := Some (60 + to_interval 50000), rp_updated_at := 60\<rparr> \<and>
    find_row i (fst (projr demo_progress)) = Some (snd (projr demo_progress)) \<and>
    (\<forall>j. j \<noteq> i \<longrightarrow> find_row j (fst (projr demo_progress)) = find_row j demo_queue)"
  by (rule progress_is_fenced [OF demo_queue_inv demo_progress_eq])

theorem claim_next_oldest_witness:
  "case claim_next demo_rp_env 70 (\<lambda>_. False) ''t4'' 100 demo_queue of
      Inr (rows', None) \<Rightarrow> rows' = demo_queue \<and> (\<forall>r \<in> set demo_queue. claimable_next 70 r \<longrightarrow> False)
    | Inr (rows', Some r') \<Rightarrow> (\<exists>r \<in> set demo_queue. claimable_next 70 r \<and> \<not> False \<and>
        (\<forall>q \<in> set demo_queue. claimable_next 70 q \<longrightarrow> \<not> False \<longrightarrow> rp_created_at r \<le> rp_created_at q) \<and>
        r' = claim_set 70 ''t4'' 100 r \<and> holds ''t4'' (70 + to_interval 100) r' \<and>
        rp_cursor r' = rp_cursor r \<and> rp_metrics r' = rp_metrics r \<and> find_row (rp_run_id r) rows' = Some r')
    | Inl _ \<Rightarrow> False"
  by (rule claim_next_oldest [OF demo_queue_inv]) code_simp

end
