(* ===== verification/Outbox.thy ===== *)
theory Outbox
  imports RegulatoryService RunProcessing
begin

text \<open>
  The transactional outbox: the rows of \<open>outbox_events\<close>, the SQL of
  \<open>generated/outbox_events.sql.go\<close> read as functions on those rows, and the repository
  \<open>internal/infrastructure/postgres/outbox_repository.go\<close> with its three writers and the four
  operations of the relay. \<open>NOW()\<close> is the argument \<open>now\<close>, the rows other transactions have
  locked (\<open>SKIP LOCKED\<close>) an argument of the claim.

  Then what any number of relays and writers may do to the table, one operation at a time: the
  table's CHECK constraints are an invariant, an event that is settled never changes again, a live
  claim excludes other relays, and an event is attempted a bounded number of times.
\<close>


subsection \<open>Rows\<close>

datatype outbox_status = EventPending | EventProcessed | EventFailed

record outbox_row =
  or_id :: string
  or_aggregate_type :: string
  or_aggregate_id :: string
  or_event_type :: string
  or_payload :: string
  or_status :: outbox_status
  or_retry_count :: int
  or_created_at :: instant
  or_processed_at :: "instant option"
  or_available_at :: instant
  or_claim_token :: "string option"
  or_last_error :: "string option"
  or_replay_of :: "string option"
  or_target_group :: "string option"

record outbox_event =
  oe_id :: string
  oe_event_id :: string
  oe_aggregate_type :: string
  oe_aggregate_id :: string
  oe_event_type :: string
  oe_payload :: string
  oe_retry_count :: int
  oe_created_at :: instant
  oe_target_group :: string

record activated_payload =
  ap_dataset_id :: string
  ap_previous_dataset_id :: "string option"
  ap_jurisdiction :: string
  ap_category :: string
  ap_source :: string
  ap_version :: string
  ap_activated_at :: instant

record changed_payload =
  cp_product_id :: string
  cp_version_id :: string
  cp_version_number :: int
  cp_fingerprint :: string
  cp_change_type :: change_type
  cp_changed_fields :: "string list"

record replay_event =
  rv_id :: string
  rv_replay_of_event_id :: string
  rv_target_group :: string
  rv_event_type :: string
  rv_aggregate_type :: string
  rv_aggregate_id :: string
  rv_payload :: string

text \<open>The UUID scanner, \<open>json.Marshal\<close> of the two payloads, and the checks of the columns that
  only the database makes (JSON syntax, widths).\<close>

record outbox_env =
  ox_scan :: scanner
  ox_marshal_activated :: "activated_payload \<Rightarrow> gerr + string"
  ox_marshal_changed :: "changed_payload \<Rightarrow> gerr + string"
  ox_check_row :: "outbox_row \<Rightarrow> gerr option"

definition find_event :: "string \<Rightarrow> outbox_row list \<Rightarrow> outbox_row option" where
  "find_event i rows = find (\<lambda>r. or_id r = i) rows"

subsection \<open>Statements\<close>

definition update_events ::
  "(outbox_row \<Rightarrow> bool) \<Rightarrow> (outbox_row \<Rightarrow> outbox_row) \<Rightarrow> outbox_row list \<Rightarrow> outbox_row list" where
  "update_events sel f rows = map (\<lambda>r. if sel r then f r else r) rows"

definition new_event_row ::
  "instant \<Rightarrow> string \<Rightarrow> string \<Rightarrow> string \<Rightarrow> string \<Rightarrow> string \<Rightarrow> outbox_row" where
  "new_event_row now i agg agg_id typ payload = \<lparr>or_id = i, or_aggregate_type = agg, or_aggregate_id = agg_id,
     or_event_type = typ, or_payload = payload, or_status = EventPending, or_retry_count = 0, or_created_at = now,
     or_processed_at = None, or_available_at = now, or_claim_token = None, or_last_error = None,
     or_replay_of = None, or_target_group = None\<rparr>"

text \<open>\<open>COPY\<close> and \<open>INSERT\<close>: all rows or an error; the primary key refuses a known id.\<close>

fun insert_events :: "outbox_env \<Rightarrow> outbox_row list \<Rightarrow> outbox_row list \<Rightarrow> gerr + outbox_row list" where
  "insert_events e [] rows = Inr rows"
| "insert_events e (r # rs) rows =
     (case ox_check_row e r of Some x \<Rightarrow> Inl x
      | None \<Rightarrow> if find_event (or_id r) rows \<noteq> None then Inl (Opaque ''23505'')
          else insert_events e rs (rows @ [r]))"

definition claimable_event :: "instant \<Rightarrow> (string \<Rightarrow> bool) \<Rightarrow> outbox_row \<Rightarrow> bool" where
  "claimable_event now locked r \<longleftrightarrow>
     or_status r = EventPending \<and> or_available_at r \<le> now \<and> \<not> locked (or_id r)"

definition claim_order :: "outbox_row \<Rightarrow> instant \<times> string" where
  "claim_order r = (or_available_at r, or_id r)"

definition batch_candidates :: "instant \<Rightarrow> (string \<Rightarrow> bool) \<Rightarrow> int \<Rightarrow> outbox_row list \<Rightarrow> outbox_row list" where
  "batch_candidates now locked n rows =
     take (nat n) (sort_key claim_order (filter (claimable_event now locked) rows))"

definition claim_event :: "instant \<Rightarrow> string \<Rightarrow> duration \<Rightarrow> outbox_row \<Rightarrow> outbox_row" where
  "claim_event now t d r = r\<lparr>or_claim_token := Some t, or_available_at := now + to_interval d\<rparr>"

definition mark_event :: "instant \<Rightarrow> outbox_row \<Rightarrow> outbox_row" where
  "mark_event now r = r\<lparr>or_status := EventProcessed, or_processed_at := Some now,
     or_claim_token := None, or_last_error := None\<rparr>"

definition fail_event :: "instant \<Rightarrow> string option \<Rightarrow> duration \<Rightarrow> int \<Rightarrow> outbox_row \<Rightarrow> outbox_row" where
  "fail_event now cause d max_attempts r = r\<lparr>or_retry_count := or_retry_count r + 1, or_last_error := cause,
     or_claim_token := None, or_available_at := now + to_interval d,
     or_status := (if or_retry_count r + 1 \<ge> max_attempts then EventFailed else EventPending)\<rparr>"

definition release_event :: "instant \<Rightarrow> outbox_row \<Rightarrow> outbox_row" where
  "release_event now r = r\<lparr>or_claim_token := None, or_available_at := now\<rparr>"

definition owned :: "string \<Rightarrow> string list \<Rightarrow> outbox_row \<Rightarrow> bool" where
  "owned t ids r \<longleftrightarrow> or_id r \<in> set ids \<and> or_claim_token r = Some t"

definition returned_event :: "outbox_row \<Rightarrow> outbox_event" where
  "returned_event r = \<lparr>oe_id = or_id r,
     oe_event_id = (case or_replay_of r of None \<Rightarrow> or_id r | Some i \<Rightarrow> i),
     oe_aggregate_type = or_aggregate_type r, oe_aggregate_id = or_aggregate_id r,
     oe_event_type = or_event_type r, oe_payload = or_payload r, oe_retry_count = or_retry_count r,
     oe_created_at = or_created_at r,
     oe_target_group = (case or_target_group r of None \<Rightarrow> [] | Some g \<Rightarrow> g)\<rparr>"

subsection \<open>The repository\<close>

type_synonym 'a ob_result = "gerr + (outbox_row list \<times> 'a)"

definition parse_claim_token :: "outbox_env \<Rightarrow> string \<Rightarrow> gerr + string" where
  "parse_claim_token e token = mapl Wrap (parse_uuid (ox_scan e) token)"

definition aggregate_type_product :: string where "aggregate_type_product = ''product''"
definition event_type_product_changed :: string where "event_type_product_changed = ''product.changed''"
definition aggregate_type_dataset :: string where "aggregate_type_dataset = ''regulatory_dataset''"
definition event_type_dataset_activated :: string where
  "event_type_dataset_activated = ''regulatory.dataset_activated''"

definition activated_body :: "activated_event \<Rightarrow> instant \<Rightarrow> activated_payload" where
  "activated_body ev at = \<lparr>ap_dataset_id = ds_id (ae_dataset ev),
     ap_previous_dataset_id = optional_text (ae_previous ev),
     ap_jurisdiction = ds_jurisdiction (ae_dataset ev), ap_category = category_name (ds_category (ae_dataset ev)),
     ap_source = ds_source (ae_dataset ev), ap_version = ds_version (ae_dataset ev), ap_activated_at = at\<rparr>"

definition create_dataset_activated ::
  "outbox_env \<Rightarrow> instant \<Rightarrow> activated_event \<Rightarrow> outbox_row list \<Rightarrow> unit ob_result" where
  "create_dataset_activated e now ev rows =
     bindr (mapl Wrap (parse_uuid (ox_scan e) (ae_event_id ev))) (\<lambda>i.
     case ds_activated_at (ae_dataset ev) of
       None \<Rightarrow> Inl (Opaque ''activated event without an activation time'')
     | Some at \<Rightarrow>
         bindr (mapl Wrap (ox_marshal_activated e (activated_body ev at))) (\<lambda>payload.
         bindr (mapl Wrap (insert_events e [new_event_row now i aggregate_type_dataset (ds_id (ae_dataset ev))
                  event_type_dataset_activated payload] rows)) (\<lambda>rows'. Inr (rows', ()))))"

definition changed_body :: "product_changed \<Rightarrow> changed_payload" where
  "changed_body ev = \<lparr>cp_product_id = ev_product_id ev, cp_version_id = ev_version_id ev,
     cp_version_number = ev_version_number ev, cp_fingerprint = ev_fingerprint ev,
     cp_change_type = ev_change_type ev, cp_changed_fields = ev_changed_fields ev\<rparr>"

fun changed_rows :: "outbox_env \<Rightarrow> instant \<Rightarrow> product_changed list \<Rightarrow> gerr + outbox_row list" where
  "changed_rows e now [] = Inr []"
| "changed_rows e now (ev # evs) =
     bindr (mapl Wrap (parse_uuid (ox_scan e) (ev_event_id ev))) (\<lambda>i.
     bindr (mapl Wrap (ox_marshal_changed e (changed_body ev))) (\<lambda>payload.
     bindr (changed_rows e now evs) (\<lambda>rs.
       Inr (new_event_row now i aggregate_type_product (ev_product_id ev) event_type_product_changed payload # rs))))"

definition create_product_changed ::
  "outbox_env \<Rightarrow> instant \<Rightarrow> product_changed list \<Rightarrow> outbox_row list \<Rightarrow> unit ob_result" where
  "create_product_changed e now evs rows =
     (if evs = [] then Inr (rows, ())
      else bindr (changed_rows e now evs) (\<lambda>rs.
        bindr (mapl Wrap (insert_events e rs rows)) (\<lambda>rows'. Inr (rows', ()))))"

definition create_replay ::
  "outbox_env \<Rightarrow> instant \<Rightarrow> replay_event \<Rightarrow> outbox_row list \<Rightarrow> unit ob_result" where
  "create_replay e now ev rows =
     bindr (mapl Wrap (parse_uuid (ox_scan e) (rv_id ev))) (\<lambda>i.
     failif (is_blank (rv_replay_of_event_id ev)) (Opaque ''replay event id cannot be empty'')
    (failif (is_blank (rv_target_group ev)) (Opaque ''replay target group cannot be empty'')
    (failif (is_blank (rv_event_type ev)) (Opaque ''event type cannot be empty'')
    (failif (rv_payload ev = []) (Opaque ''outbox event payload cannot be empty'')
    (bindr (mapl Wrap (insert_events e
       [(new_event_row now i (rv_aggregate_type ev) (rv_aggregate_id ev) (rv_event_type ev) (rv_payload ev))
          \<lparr>or_replay_of := Some (rv_replay_of_event_id ev), or_target_group := Some (rv_target_group ev)\<rparr>] rows))
       (\<lambda>rows'. Inr (rows', ())))))))"

text \<open>The order in which \<open>UPDATE \<dots> RETURNING\<close> lists the rows is not specified: \<open>ord\<close>.\<close>

definition claim_batch ::
  "outbox_env \<Rightarrow> instant \<Rightarrow> (string \<Rightarrow> bool) \<Rightarrow> (outbox_row list \<Rightarrow> outbox_row list) \<Rightarrow> string \<Rightarrow> int \<Rightarrow> duration
     \<Rightarrow> outbox_row list \<Rightarrow> outbox_event list ob_result" where
  "claim_batch e now locked ord token limit lease rows =
     bindr (parse_claim_token e token) (\<lambda>t.
     failif (limit \<le> 0) (Opaque ''limit must be positive'')
    (bindr (mapl Wrap (to_int32 limit)) (\<lambda>n.
     failif (lease \<le> 0) (Opaque ''lease duration must be positive'')
    (let cs = batch_candidates now locked n rows in
     Inr (update_events (\<lambda>r. or_id r \<in> set (map or_id cs)) (claim_event now t lease) rows,
          map returned_event (ord (map (claim_event now t lease) cs)))))))"

definition mark_published ::
  "outbox_env \<Rightarrow> instant \<Rightarrow> string \<Rightarrow> string list \<Rightarrow> outbox_row list \<Rightarrow> int ob_result" where
  "mark_published e now token ids rows =
     (if ids = [] then Inr (rows, 0)
      else bindr (parse_claim_token e token) (\<lambda>t. bindr (mapl Wrap (parse_uuids (ox_scan e) ids)) (\<lambda>us.
        Inr (update_events (owned t us) (mark_event now) rows, int (length (filter (owned t us) rows))))))"

definition record_failure ::
  "outbox_env \<Rightarrow> instant \<Rightarrow> string \<Rightarrow> string \<Rightarrow> string \<Rightarrow> int \<Rightarrow> duration \<Rightarrow> outbox_row list \<Rightarrow> unit ob_result" where
  "record_failure e now token i cause max_attempts backoff rows =
     bindr (parse_claim_token e token) (\<lambda>t. bindr (mapl Wrap (parse_uuid (ox_scan e) i)) (\<lambda>u.
     bindr (mapl Wrap (to_int32 max_attempts)) (\<lambda>m.
     let rs = filter (owned t [u]) rows in
     if list_ex (\<lambda>r. \<not> is_ok (to_int32 (or_retry_count r + 1))) rs then Inl (Wrap (Opaque ''22003''))
     else if rs = [] then Inl (Leaf (Outbox ErrClaimLost))
     else Inr (update_events (owned t [u]) (fail_event now (optional_text cause) backoff m) rows, ()))))"

definition release_claims ::
  "outbox_env \<Rightarrow> instant \<Rightarrow> string \<Rightarrow> string list \<Rightarrow> outbox_row list \<Rightarrow> unit ob_result" where
  "release_claims e now token ids rows =
     (if ids = [] then Inr (rows, ())
      else bindr (parse_claim_token e token) (\<lambda>t. bindr (mapl Wrap (parse_uuids (ox_scan e) ids)) (\<lambda>us.
        Inr (update_events (owned t us) (release_event now) rows, ()))))"

subsection \<open>Rows under updates\<close>

lemma find_event_Some: "find_event i rows = Some r \<Longrightarrow> r \<in> set rows \<and> or_id r = i"
  by (auto simp: find_event_def find_Some_iff)

lemma find_event_None: "find_event i rows = None \<longleftrightarrow> i \<notin> or_id ` set rows"
  by (auto simp: find_event_def find_None_iff)

lemma find_event_in: "distinct (map or_id rows) \<Longrightarrow> r \<in> set rows \<Longrightarrow> find_event (or_id r) rows = Some r"
  by (induction rows) (auto simp: find_event_def)

lemma find_event_append:
  "find_event i (rows @ xs) = (case find_event i rows of None \<Rightarrow> find_event i xs | Some r \<Rightarrow> Some r)"
  by (induction rows) (auto simp: find_event_def)

lemma find_event_update:
  "(\<And>x. or_id (f x) = or_id x) \<Longrightarrow>
     find_event i (update_events sel f rows) = map_option (\<lambda>r. if sel r then f r else r) (find_event i rows)"
  by (induction rows) (auto simp: find_event_def update_events_def)

lemma ids_update: "(\<And>x. or_id (f x) = or_id x) \<Longrightarrow> map or_id (update_events sel f rows) = map or_id rows"
  by (induction rows) (auto simp: update_events_def)

lemma event_setters_id [simp]:
  "or_id (claim_event now t d r) = or_id r"
  "or_id (mark_event now r) = or_id r"
  "or_id (fail_event now c d m r) = or_id r"
  "or_id (release_event now r) = or_id r"
  "or_id (new_event_row now i a b k p) = i"
  by (simp_all add: claim_event_def mark_event_def fail_event_def release_event_def new_event_row_def)

lemma set_batch_candidates:
  "r \<in> set (batch_candidates now locked n rows) \<Longrightarrow> r \<in> set rows \<and> claimable_event now locked r"
  by (auto simp: batch_candidates_def dest!: in_set_takeD)

lemma insert_events_Inr:
  "insert_events e rs rows = Inr rows' \<Longrightarrow>
     rows' = rows @ rs \<and> (distinct (map or_id rows) \<longrightarrow> distinct (map or_id (rows @ rs))) \<and>
     (\<forall>r \<in> set rs. find_event (or_id r) rows = None)"
proof (induction rs arbitrary: rows)
  case Nil
  then show ?case by simp
next
  case (Cons r rs)
  from Cons.prems have f: "find_event (or_id r) rows = None" and i: "insert_events e rs (rows @ [r]) = Inr rows'"
    by (auto split: option.splits if_splits)
  note IH = Cons.IH [OF i]
  have "distinct (map or_id rows) \<Longrightarrow> distinct (map or_id (rows @ [r]))"
    using f by (auto simp: find_event_None)
  with IH have "distinct (map or_id rows) \<longrightarrow> distinct (map or_id (rows @ r # rs))" by simp
  moreover have "\<forall>q \<in> set (r # rs). find_event (or_id q) rows = None"
    using IH f by (auto simp: find_event_append split: option.splits)
  ultimately show ?case using IH by simp
qed

subsection \<open>Every operation as one step\<close>

datatype outbox_op =
    ClaimBatch "string \<Rightarrow> bool" "outbox_row list \<Rightarrow> outbox_row list" string int duration
  | MarkPublished string "string list"
  | RecordFailure string string string int duration
  | ReleaseClaims string "string list"
  | CreateDatasetActivated activated_event
  | CreateProductChanged "product_changed list"
  | CreateReplay replay_event

definition rows_after :: "outbox_row list \<Rightarrow> 'a ob_result \<Rightarrow> outbox_row list" where
  "rows_after rows r = (case r of Inl _ \<Rightarrow> rows | Inr (rows', _) \<Rightarrow> rows')"

lemma rows_after_simps [simp]:
  "rows_after rows (Inl x) = rows"
  "rows_after rows (Inr p) = fst p"
  by (simp_all add: rows_after_def case_prod_unfold)

fun exec_outbox :: "outbox_env \<Rightarrow> instant \<Rightarrow> outbox_op \<Rightarrow> outbox_row list \<Rightarrow> outbox_row list" where
  "exec_outbox e now (ClaimBatch locked ord t n d) rows = rows_after rows (claim_batch e now locked ord t n d rows)"
| "exec_outbox e now (MarkPublished t ids) rows = rows_after rows (mark_published e now t ids rows)"
| "exec_outbox e now (RecordFailure t i c m d) rows = rows_after rows (record_failure e now t i c m d rows)"
| "exec_outbox e now (ReleaseClaims t ids) rows = rows_after rows (release_claims e now t ids rows)"
| "exec_outbox e now (CreateDatasetActivated ev) rows = rows_after rows (create_dataset_activated e now ev rows)"
| "exec_outbox e now (CreateProductChanged evs) rows = rows_after rows (create_product_changed e now evs rows)"
| "exec_outbox e now (CreateReplay ev) rows = rows_after rows (create_replay e now ev rows)"

fun exec_outbox_all :: "outbox_env \<Rightarrow> (instant \<times> outbox_op) list \<Rightarrow> outbox_row list \<Rightarrow> outbox_row list" where
  "exec_outbox_all e [] rows = rows"
| "exec_outbox_all e ((now, op) # ops) rows = exec_outbox_all e ops (exec_outbox e now op rows)"

text \<open>A row as it is written by an insert.\<close>

definition fresh_row :: "outbox_row \<Rightarrow> bool" where
  "fresh_row r \<longleftrightarrow> or_status r = EventPending \<and> or_retry_count r = 0 \<and> or_processed_at r = None \<and>
     or_claim_token r = None \<and> (or_replay_of r = None \<longleftrightarrow> or_target_group r = None)"

definition new_row :: "outbox_env \<Rightarrow> outbox_row \<Rightarrow> bool" where
  "new_row e r \<longleftrightarrow> fresh_row r \<and> (\<exists>s. parse_uuid (ox_scan e) s = Inr (or_id r))"

text \<open>What one operation does to the table.\<close>

inductive outbox_step :: "outbox_env \<Rightarrow> instant \<Rightarrow> outbox_op \<Rightarrow> outbox_row list \<Rightarrow> outbox_row list \<Rightarrow> bool"
  for e now where
  step_none: "outbox_step e now op rows rows"
| step_claim: "parse_claim_token e token = Inr t \<Longrightarrow> cs = batch_candidates now locked n rows \<Longrightarrow>
    outbox_step e now (ClaimBatch locked ord token n d) rows
      (update_events (\<lambda>r. or_id r \<in> or_id ` set cs) (claim_event now t d) rows)"
| step_mark: "parse_claim_token e token = Inr t \<Longrightarrow> parse_uuids (ox_scan e) ids = Inr us \<Longrightarrow>
    outbox_step e now (MarkPublished token ids) rows (update_events (owned t us) (mark_event now) rows)"
| step_fail: "parse_claim_token e token = Inr t \<Longrightarrow>
    outbox_step e now (RecordFailure token i c m d) rows
      (update_events (owned t us) (fail_event now (optional_text c) d m) rows)"
| step_release: "parse_claim_token e token = Inr t \<Longrightarrow>
    outbox_step e now (ReleaseClaims token ids) rows (update_events (owned t us) (release_event now) rows)"
| step_insert: "insert_events e rs rows = Inr rows' \<Longrightarrow> \<forall>r \<in> set rs. new_row e r \<Longrightarrow>
    outbox_step e now op rows rows'"

lemma to_int32_Inr: "to_int32 n = Inr m \<longleftrightarrow> m = n \<and> - (2 ^ 31) \<le> n \<and> n < 2 ^ 31"
  by (auto simp: to_int32_def)

lemma claim_batch_Inr:
  "claim_batch e now locked ord token limit lease rows = Inr p \<longleftrightarrow>
     (\<exists>t. parse_claim_token e token = Inr t \<and> 0 < limit \<and> limit < 2 ^ 31 \<and> 0 < lease \<and>
       p = (update_events (\<lambda>r. or_id r \<in> or_id ` set (batch_candidates now locked limit rows)) (claim_event now t lease) rows,
         map returned_event (ord (map (claim_event now t lease) (batch_candidates now locked limit rows)))))"
  by (auto simp: claim_batch_def bindr_Inr_iff Let_def to_int32_Inr)

lemma mark_published_Inr:
  "mark_published e now token ids rows = Inr p \<Longrightarrow>
     ids = [] \<and> p = (rows, 0) \<or>
     (\<exists>t us. parse_claim_token e token = Inr t \<and> parse_uuids (ox_scan e) ids = Inr us \<and>
       p = (update_events (owned t us) (mark_event now) rows, int (length (filter (owned t us) rows))))"
  by (auto simp: mark_published_def bindr_Inr_iff split: if_splits)

lemma record_failure_Inr:
  "record_failure e now token i c m d rows = Inr p \<Longrightarrow>
     \<exists>t u. parse_claim_token e token = Inr t \<and> parse_uuid (ox_scan e) i = Inr u \<and>
       filter (owned t [u]) rows \<noteq> [] \<and>
       p = (update_events (owned t [u]) (fail_event now (optional_text c) d m) rows, ())"
  by (auto simp: record_failure_def bindr_Inr_iff Let_def to_int32_Inr split: if_splits)

lemma release_claims_Inr:
  "release_claims e now token ids rows = Inr p \<Longrightarrow>
     ids = [] \<and> fst p = rows \<or>
     (\<exists>t us. parse_claim_token e token = Inr t \<and> parse_uuids (ox_scan e) ids = Inr us \<and>
       p = (update_events (owned t us) (release_event now) rows, ()))"
  by (auto simp: release_claims_def bindr_Inr_iff split: if_splits)

text \<open>The writers insert fresh rows.\<close>

lemma fresh_new_event_row [simp]: "fresh_row (new_event_row now i a b k p)"
  by (simp add: fresh_row_def new_event_row_def)

lemma changed_rows_fresh: "changed_rows e now evs = Inr rs \<Longrightarrow> r \<in> set rs \<Longrightarrow> new_row e r"
  by (induction evs arbitrary: rs) (fastforce simp: bindr_Inr_iff new_row_def)+

lemma create_dataset_activated_Inr:
  "create_dataset_activated e now ev rows = Inr p \<Longrightarrow>
     \<exists>i at payload. parse_uuid (ox_scan e) (ae_event_id ev) = Inr i \<and> ds_activated_at (ae_dataset ev) = Some at \<and>
       ox_marshal_activated e (activated_body ev at) = Inr payload \<and>
       insert_events e [new_event_row now i aggregate_type_dataset (ds_id (ae_dataset ev))
         event_type_dataset_activated payload] rows = Inr (fst p)"
  by (auto simp: create_dataset_activated_def bindr_Inr_iff simp del: insert_events.simps split: option.splits)

lemma create_product_changed_Inr:
  "create_product_changed e now evs rows = Inr p \<Longrightarrow>
     \<exists>rs. changed_rows e now evs = Inr rs \<and> insert_events e rs rows = Inr (fst p)"
  by (auto simp: create_product_changed_def bindr_Inr_iff split: if_splits)

lemma create_replay_Inr:
  "create_replay e now ev rows = Inr p \<Longrightarrow>
     \<exists>i. parse_uuid (ox_scan e) (rv_id ev) = Inr i \<and>
       insert_events e [(new_event_row now i (rv_aggregate_type ev) (rv_aggregate_id ev) (rv_event_type ev) (rv_payload ev))
         \<lparr>or_replay_of := Some (rv_replay_of_event_id ev), or_target_group := Some (rv_target_group ev)\<rparr>] rows = Inr (fst p)"
  by (auto simp: create_replay_def bindr_Inr_iff simp del: insert_events.simps)

lemma fresh_replay_row [simp]:
  "fresh_row ((new_event_row now i a b k p)\<lparr>or_replay_of := Some x, or_target_group := Some y\<rparr>)"
  by (simp add: fresh_row_def new_event_row_def)

lemma exec_outbox_step: "outbox_step e now op rows (exec_outbox e now op rows)"
proof (cases op)
  case (ClaimBatch locked ord token n d)
  show ?thesis
  proof (cases "claim_batch e now locked ord token n d rows")
    case (Inr p)
    with ClaimBatch have ex: "exec_outbox e now op rows = fst p" by simp
    show ?thesis unfolding ex using ClaimBatch Inr [unfolded claim_batch_Inr] by (auto intro: step_claim)
  qed (simp add: ClaimBatch step_none)
next
  case (MarkPublished token ids)
  show ?thesis
  proof (cases "mark_published e now token ids rows")
    case (Inr p)
    with MarkPublished have ex: "exec_outbox e now op rows = fst p" by simp
    show ?thesis unfolding ex using MarkPublished mark_published_Inr [OF Inr] by (auto intro: step_none step_mark)
  qed (simp add: MarkPublished step_none)
next
  case (RecordFailure token i c m d)
  show ?thesis
  proof (cases "record_failure e now token i c m d rows")
    case (Inr p)
    with RecordFailure have ex: "exec_outbox e now op rows = fst p" by simp
    show ?thesis unfolding ex using RecordFailure record_failure_Inr [OF Inr] by (auto intro: step_fail)
  qed (simp add: RecordFailure step_none)
next
  case (ReleaseClaims token ids)
  show ?thesis
  proof (cases "release_claims e now token ids rows")
    case (Inr p)
    with ReleaseClaims have ex: "exec_outbox e now op rows = fst p" by simp
    show ?thesis unfolding ex using ReleaseClaims release_claims_Inr [OF Inr] by (auto intro: step_none step_release)
  qed (simp add: ReleaseClaims step_none)
next
  case (CreateDatasetActivated ev)
  show ?thesis
  proof (cases "create_dataset_activated e now ev rows")
    case (Inr p)
    with CreateDatasetActivated have ex: "exec_outbox e now op rows = fst p" by simp
    show ?thesis unfolding ex using create_dataset_activated_Inr [OF Inr]
      by (auto simp: new_row_def simp del: insert_events.simps intro!: step_insert)
  qed (simp add: CreateDatasetActivated step_none)
next
  case (CreateProductChanged evs)
  show ?thesis
  proof (cases "create_product_changed e now evs rows")
    case (Inr p)
    with CreateProductChanged have ex: "exec_outbox e now op rows = fst p" by simp
    obtain rs where rs: "insert_events e rs rows = Inr (fst p)" "changed_rows e now evs = Inr rs"
      using create_product_changed_Inr [OF Inr] by blast
    then have "\<forall>r \<in> set rs. new_row e r" using changed_rows_fresh by blast
    then show ?thesis unfolding ex by (rule step_insert [OF rs(1)])
  qed (simp add: CreateProductChanged step_none)
next
  case (CreateReplay ev)
  show ?thesis
  proof (cases "create_replay e now ev rows")
    case (Inr p)
    with CreateReplay have ex: "exec_outbox e now op rows = fst p" by simp
    show ?thesis unfolding ex using create_replay_Inr [OF Inr]
      by (auto simp: new_row_def simp del: insert_events.simps intro!: step_insert)
  qed (simp add: CreateReplay step_none)
qed

subsection \<open>The CHECK constraints are an invariant\<close>

text \<open>\<open>chk_outbox_processed_at\<close>, \<open>chk_outbox_claim_pending\<close>, \<open>chk_outbox_retry_count\<close> and
  \<open>chk_outbox_replay_group\<close>.\<close>

definition outbox_row_ok :: "outbox_row \<Rightarrow> bool" where
  "outbox_row_ok r \<longleftrightarrow> (or_status r = EventProcessed \<longleftrightarrow> or_processed_at r \<noteq> None) \<and>
     (or_claim_token r \<noteq> None \<longrightarrow> or_status r = EventPending) \<and> 0 \<le> or_retry_count r \<and>
     (or_replay_of r = None \<longleftrightarrow> or_target_group r = None)"

definition outbox_inv :: "outbox_row list \<Rightarrow> bool" where
  "outbox_inv rows \<longleftrightarrow> distinct (map or_id rows) \<and> (\<forall>r \<in> set rows. outbox_row_ok r)"

lemma outbox_inv_find: "outbox_inv rows \<Longrightarrow> find_event i rows = Some r \<Longrightarrow> outbox_row_ok r"
  using find_event_Some [of i rows r] by (auto simp: outbox_inv_def)

lemma outbox_inv_Nil [simp]: "outbox_inv []"
  by (simp add: outbox_inv_def)

lemma outbox_inv_update:
  assumes "outbox_inv rows" "\<And>x. or_id (f x) = or_id x"
    "\<And>x. x \<in> set rows \<Longrightarrow> sel x \<Longrightarrow> outbox_row_ok x \<Longrightarrow> outbox_row_ok (f x)"
  shows "outbox_inv (update_events sel f rows)"
proof -
  have "distinct (map or_id (update_events sel f rows))"
    using assms(1) ids_update [where f = f, OF assms(2)] by (simp add: outbox_inv_def)
  moreover have "\<forall>r \<in> set (update_events sel f rows). outbox_row_ok r"
    using assms(1,3) by (auto simp: outbox_inv_def update_events_def)
  ultimately show ?thesis by (simp add: outbox_inv_def)
qed

lemma fresh_row_ok: "fresh_row r \<Longrightarrow> outbox_row_ok r"
  by (auto simp: fresh_row_def outbox_row_ok_def)

lemma outbox_setters_ok:
  "outbox_row_ok r \<Longrightarrow> or_status r = EventPending \<Longrightarrow> outbox_row_ok (claim_event now t d r)"
  "outbox_row_ok r \<Longrightarrow> outbox_row_ok (mark_event now r)"
  "outbox_row_ok r \<Longrightarrow> or_claim_token r \<noteq> None \<Longrightarrow> outbox_row_ok (fail_event now c d m r)"
  "outbox_row_ok r \<Longrightarrow> outbox_row_ok (release_event now r)"
  by (auto simp: outbox_row_ok_def claim_event_def mark_event_def fail_event_def release_event_def)

lemma candidate_row:
  assumes "outbox_inv rows" "x \<in> set rows" "or_id x \<in> or_id ` set (batch_candidates now locked n rows)"
  shows "x \<in> set (batch_candidates now locked n rows)" "claimable_event now locked x"
proof -
  from assms(3) obtain y where y: "y \<in> set (batch_candidates now locked n rows)" "or_id x = or_id y" by auto
  with set_batch_candidates have "y \<in> set rows" "claimable_event now locked y" by blast+
  with y assms(1,2) have "x = y" by (auto simp: outbox_inv_def intro: map_of_distinct_in)
  with y \<open>claimable_event now locked y\<close> show "x \<in> set (batch_candidates now locked n rows)" "claimable_event now locked x"
    by simp_all
qed

lemma outbox_step_inv: "outbox_step e now op rows rows' \<Longrightarrow> outbox_inv rows \<Longrightarrow> outbox_inv rows'"
proof (induction rule: outbox_step.cases)
  case (step_claim token t cs locked n rows ord d)
  have "or_status x = EventPending" if "x \<in> set rows" "or_id x \<in> or_id ` set cs" for x
    using candidate_row(2) [of rows x now locked n] that step_claim by (simp add: claimable_event_def)
  with step_claim show ?thesis by (auto intro!: outbox_inv_update outbox_setters_ok(1))
next
  case (step_insert rs rows rows' op)
  with insert_events_Inr [of e rs rows rows'] have "rows' = rows @ rs" "distinct (map or_id rows')"
    by (simp_all add: outbox_inv_def)
  with step_insert show ?thesis by (auto simp: outbox_inv_def fresh_row_ok new_row_def)
qed (auto intro!: outbox_inv_update outbox_setters_ok(2-) simp: owned_def)

lemma exec_outbox_inv: "outbox_inv rows \<Longrightarrow> outbox_inv (exec_outbox e now op rows)"
  by (rule outbox_step_inv [OF exec_outbox_step])

lemma exec_outbox_all_inv: "outbox_inv rows \<Longrightarrow> outbox_inv (exec_outbox_all e ops rows)"
  by (induction e ops rows rule: exec_outbox_all.induct) (simp_all add: exec_outbox_inv)

subsection \<open>An event across one operation\<close>

lemma find_event_insert:
  "insert_events e rs rows = Inr rows' \<Longrightarrow> find_event i rows = Some r \<Longrightarrow> find_event i rows' = Some r"
  using insert_events_Inr [of e rs rows rows'] by (simp add: find_event_append)

text \<open>What happened to the event \<open>r\<close>: nothing, or the write of an operation that was entitled to it.\<close>

lemma event_step:
  assumes "outbox_step e now op rows rows'" "outbox_inv rows" "find_event i rows = Some r"
  obtains "find_event i rows' = Some r"
  | token t locked ord n d where "op = ClaimBatch locked ord token n d" "parse_claim_token e token = Inr t"
      "claimable_event now locked r" "find_event i rows' = Some (claim_event now t d r)"
  | token t ids where "op = MarkPublished token ids" "parse_claim_token e token = Inr t"
      "or_claim_token r = Some t" "find_event i rows' = Some (mark_event now r)"
  | token t j c m d where "op = RecordFailure token j c m d" "parse_claim_token e token = Inr t"
      "or_claim_token r = Some t" "find_event i rows' = Some (fail_event now (optional_text c) d m r)"
  | token t ids where "op = ReleaseClaims token ids" "parse_claim_token e token = Inr t"
      "or_claim_token r = Some t" "find_event i rows' = Some (release_event now r)"
  using assms(1)
proof (cases rule: outbox_step.cases)
  case step_none
  with assms(3) show ?thesis by (intro that(1)) simp
next
  case (step_claim token t cs locked n ord d)
  let ?sel = "\<lambda>r. or_id r \<in> or_id ` set cs"
  have f: "find_event i rows' = Some (if ?sel r then claim_event now t d r else r)"
    using step_claim(2) assms(3) by (simp add: find_event_update)
  show ?thesis
  proof (cases "?sel r")
    case True
    from find_event_Some [OF assms(3)] have "r \<in> set rows" by simp
    with candidate_row(2) [OF assms(2) this, of now locked n] True step_claim(4) have "claimable_event now locked r" by simp
    then show ?thesis using step_claim(1,3) f True by (intro that(2)) simp_all
  qed (use f in \<open>simp add: that(1)\<close>)
next
  case (step_mark token t ids us)
  then have f: "find_event i rows' = Some (if owned t us r then mark_event now r else r)"
    using assms(3) by (simp add: find_event_update)
  show ?thesis
  proof (cases "owned t us r")
    case True
    then show ?thesis using step_mark(1,3) f by (intro that(3)) (simp_all add: owned_def)
  qed (use f in \<open>simp add: that(1)\<close>)
next
  case (step_fail token t ids c m d us)
  then have f: "find_event i rows' = Some (if owned t us r then fail_event now (optional_text c) d m r else r)"
    using assms(3) by (simp add: find_event_update)
  show ?thesis
  proof (cases "owned t us r")
    case True
    then show ?thesis using step_fail(1,3) f by (intro that(4)) (simp_all add: owned_def)
  qed (use f in \<open>simp add: that(1)\<close>)
next
  case (step_release token t ids us)
  then have f: "find_event i rows' = Some (if owned t us r then release_event now r else r)"
    using assms(3) by (simp add: find_event_update)
  show ?thesis
  proof (cases "owned t us r")
    case True
    then show ?thesis using step_release(1,3) f by (intro that(5)) (simp_all add: owned_def)
  qed (use f in \<open>simp add: that(1)\<close>)
next
  case (step_insert rs)
  with assms(3) show ?thesis by (intro that(1)) (simp add: find_event_insert)
qed

text \<open>A fact about a row that no entitled operation changes holds along any sequence.\<close>

lemma settled_step:
  assumes "outbox_inv rows" "find_event i rows = Some r" "or_status r \<noteq> EventPending"
  shows "find_event i (exec_outbox e now op rows) = Some r"
proof -
  have "or_claim_token r = None" using outbox_inv_find [OF assms(1,2)] assms(3) by (auto simp: outbox_row_ok_def)
  then show ?thesis
    by (cases rule: event_step [OF exec_outbox_step [of e now op rows] assms(1,2)])
      (use assms(3) in \<open>simp_all add: claimable_event_def\<close>)
qed

text \<open>Claim C20. A settled event is final: once an outbox event is PROCESSED or FAILED, no sequence of
  operations by relays (under any token) or writers changes its row in any column; in particular it is
  never claimed and published again.\<close>

theorem settled_event_is_final:
  assumes "outbox_inv rows" "find_event i rows = Some r" "or_status r \<noteq> EventPending"
  shows "find_event i (exec_outbox_all e ops rows) = Some r"
  using assms
proof (induction ops arbitrary: rows)
  case (Cons no ops)
  then show ?case using exec_outbox_inv settled_step by (cases no) simp
qed simp

subsection \<open>A live claim\<close>

definition event_held :: "string \<Rightarrow> instant \<Rightarrow> outbox_row \<Rightarrow> bool" where
  "event_held t until r \<longleftrightarrow> or_claim_token r = Some t \<and> or_available_at r = until"

definition foreign_op :: "outbox_env \<Rightarrow> string \<Rightarrow> outbox_op \<Rightarrow> bool" where
  "foreign_op e t op = (case op of
       MarkPublished k _ \<Rightarrow> parse_claim_token e k \<noteq> Inr t
     | RecordFailure k _ _ _ _ \<Rightarrow> parse_claim_token e k \<noteq> Inr t
     | ReleaseClaims k _ \<Rightarrow> parse_claim_token e k \<noteq> Inr t
     | _ \<Rightarrow> True)"

lemma foreign_step:
  assumes "outbox_inv rows" "find_event i rows = Some r" "event_held t until r" "now < until" "foreign_op e t op"
  shows "find_event i (exec_outbox e now op rows) = Some r"
  by (cases rule: event_step [OF exec_outbox_step [of e now op rows] assms(1,2)])
    (use assms(3-5) in \<open>auto simp: claimable_event_def event_held_def foreign_op_def\<close>)

text \<open>Claim C15. A live claim is exclusive: until the lease of a claimed event has expired, no operation
  of another relay and no writer changes its row at all, whatever order the operations come in.\<close>

theorem live_event_claim_is_exclusive:
  assumes "outbox_inv rows" "find_event i rows = Some r" "event_held t until r"
    and "\<forall>(now, op) \<in> set ops. now < until \<and> foreign_op e t op"
  shows "find_event i (exec_outbox_all e ops rows) = Some r"
  using assms
proof (induction ops arbitrary: rows)
  case (Cons no ops)
  then show ?case using exec_outbox_inv foreign_step by (cases no) simp
qed simp

subsection \<open>Attempts are bounded\<close>

definition max_attempts_op :: "int \<Rightarrow> outbox_op \<Rightarrow> bool" where
  "max_attempts_op m op = (case op of RecordFailure _ _ _ k _ \<Rightarrow> k = m | _ \<Rightarrow> True)"

definition attempts_ok :: "int \<Rightarrow> outbox_row \<Rightarrow> bool" where
  "attempts_ok m r \<longleftrightarrow> 0 \<le> or_retry_count r \<and>
     (if or_status r = EventFailed then or_retry_count r = m else or_retry_count r < m)"

lemma attempts_step:
  assumes "outbox_step e now op rows rows'" "outbox_inv rows" "1 \<le> m" "max_attempts_op m op"
    "\<forall>r \<in> set rows. attempts_ok m r"
  shows "\<forall>r \<in> set rows'. attempts_ok m r"
  using assms(1)
proof (cases rule: outbox_step.cases)
  case (step_claim token t cs locked n ord d)
  with assms(5) show ?thesis by (auto simp: update_events_def claim_event_def attempts_ok_def split: if_splits)
next
  case (step_mark token t ids us)
  have "or_status r = EventPending" if "r \<in> set rows" "owned t us r" for r
    using that assms(2) by (auto simp: outbox_inv_def outbox_row_ok_def owned_def)
  with step_mark assms(5) show ?thesis by (fastforce simp: update_events_def mark_event_def attempts_ok_def split: if_splits)
next
  case (step_fail token t i c k d us)
  have "or_status r = EventPending" if "r \<in> set rows" "owned t us r" for r
    using that assms(2) by (auto simp: outbox_inv_def outbox_row_ok_def owned_def)
  moreover have "k = m" using step_fail assms(4) by (simp add: max_attempts_op_def)
  ultimately show ?thesis using step_fail assms(5)
    by (fastforce simp: update_events_def fail_event_def attempts_ok_def split: if_splits)
next
  case (step_release token t ids us)
  with assms(5) show ?thesis by (auto simp: update_events_def release_event_def attempts_ok_def split: if_splits)
next
  case (step_insert rs)
  with insert_events_Inr [of e rs rows rows'] have "rows' = rows @ rs" by simp
  with step_insert assms(3,5) show ?thesis by (auto simp: attempts_ok_def fresh_row_def new_row_def)
qed (use assms in simp)

lemma attempts_run:
  "outbox_inv rows \<Longrightarrow> 1 \<le> m \<Longrightarrow> \<forall>r \<in> set rows. attempts_ok m r \<Longrightarrow>
     \<forall>(now, op) \<in> set ops. max_attempts_op m op \<Longrightarrow> \<forall>r \<in> set (exec_outbox_all e ops rows). attempts_ok m r"
proof (induction ops arbitrary: rows)
  case (Cons no ops)
  obtain now op where no: "no = (now, op)" by (cases no)
  have "\<forall>r \<in> set (exec_outbox e now op rows). attempts_ok m r"
    by (rule attempts_step [OF exec_outbox_step]) (use Cons.prems no in auto)
  then have "\<forall>r \<in> set (exec_outbox_all e ops (exec_outbox e now op rows)). attempts_ok m r"
    by (intro Cons.IH) (use Cons.prems exec_outbox_inv in auto)
  then show ?case using no by simp
qed simp

text \<open>Claim C21. Attempts are bounded: when every failure is recorded with the configured maximum
  \<open>m \<ge> 1\<close>, then in every state the table can reach the attempts of an event lie between 0 and
  \<open>m\<close>; they reach \<open>m\<close> exactly when the event is FAILED, and a PENDING event always has an attempt
  left.\<close>

theorem event_attempts_are_bounded:
  assumes "1 \<le> m" "\<forall>(now, op) \<in> set ops. max_attempts_op m op"
    and "find_event i (exec_outbox_all e ops []) = Some r"
  shows "0 \<le> or_retry_count r \<and> or_retry_count r \<le> m \<and>
    (or_retry_count r = m \<longleftrightarrow> or_status r = EventFailed) \<and>
    (or_status r = EventPending \<longrightarrow> or_retry_count r < m)"
proof -
  have "\<forall>r \<in> set (exec_outbox_all e ops []). attempts_ok m r"
    by (rule attempts_run) (use assms in auto)
  then have "attempts_ok m r" using find_event_Some [OF assms(3)] by simp
  then show ?thesis
    by (auto simp: attempts_ok_def split: if_splits)
qed

subsection \<open>What a claim returns\<close>

lemma returned_claimed [simp]: "returned_event (claim_event now t d r) = returned_event r"
  by (simp add: returned_event_def claim_event_def split: option.splits)

lemma candidates_distinct:
  "outbox_inv rows \<Longrightarrow> distinct (map or_id (batch_candidates now locked n rows))"
  unfolding batch_candidates_def take_map [symmetric]
  by (intro distinct_take) (simp add: outbox_inv_def distinct_map inj_on_def)

lemma candidates_oldest:
  assumes "r \<in> set rows" "claimable_event now locked r" "r \<notin> set (batch_candidates now locked n rows)"
  shows "length (batch_candidates now locked n rows) = nat n"
    "q \<in> set (batch_candidates now locked n rows) \<Longrightarrow> claim_order q \<le> claim_order r"
proof -
  let ?s = "sort_key claim_order (filter (claimable_event now locked) rows)"
  have r: "r \<in> set (drop (nat n) ?s)"
  proof -
    have "r \<in> set (take (nat n) ?s @ drop (nat n) ?s)" using assms(1,2) by simp
    then show ?thesis using assms(3) unfolding set_append batch_candidates_def by blast
  qed
  then have "nat n < length ?s" by (cases "nat n < length ?s") auto
  then show "length (batch_candidates now locked n rows) = nat n" by (simp add: batch_candidates_def)
  have "sorted (map claim_order (take (nat n) ?s @ drop (nat n) ?s))" by simp
  then show "q \<in> set (batch_candidates now locked n rows) \<Longrightarrow> claim_order q \<le> claim_order r"
    using r unfolding map_append sorted_append batch_candidates_def by auto
qed

text \<open>Claim C34. A claim serves the oldest events: a valid \<open>ClaimBatch\<close> succeeds and returns at most
  \<open>limit\<close> events, each a row that was claimable and now carries the token and the lease; an event
  that was claimable and is not returned was left untouched, only because the batch is full, and is
  not older (by availability, then id) than any event returned.\<close>

theorem claim_batch_takes_oldest:
  assumes "outbox_inv rows" "parse_claim_token e token = Inr t" "0 < limit" "limit < 2 ^ 31" "0 < lease"
    and "\<And>xs. mset (ord xs) = mset xs"
  shows "\<exists>rows' evs. claim_batch e now locked ord token limit lease rows = Inr (rows', evs) \<and>
    int (length evs) \<le> limit \<and> distinct (map oe_id evs) \<and>
    (\<forall>ev \<in> set evs. \<exists>q \<in> set rows. claimable_event now locked q \<and> ev = returned_event q \<and>
       find_event (or_id q) rows' = Some (claim_event now t lease q) \<and>
       event_held t (now + to_interval lease) (claim_event now t lease q)) \<and>
    (\<forall>r \<in> set rows. claimable_event now locked r \<and> or_id r \<notin> oe_id ` set evs \<longrightarrow>
       int (length evs) = limit \<and> find_event (or_id r) rows' = Some r \<and>
       (\<forall>ev \<in> set evs. \<forall>q \<in> set rows. or_id q = oe_id ev \<longrightarrow> claim_order q \<le> claim_order r))"
proof -
  let ?cs = "batch_candidates now locked limit rows"
  let ?sel = "\<lambda>r. or_id r \<in> or_id ` set ?cs"
  let ?rows' = "update_events ?sel (claim_event now t lease) rows"
  let ?evs = "map returned_event (ord (map (claim_event now t lease) ?cs))"
  have set_ord: "set (ord xs) = set xs" for xs using assms(6) by (metis set_mset_mset)
  have len: "length ?evs = length ?cs" using assms(6) by (metis length_map size_mset)
  have ids: "oe_id (returned_event q) = or_id q" for q by (simp add: returned_event_def)
  have evs: "set ?evs = returned_event ` set ?cs" by (auto simp: set_ord image_image)
  have "distinct (map or_id (ord (map (claim_event now t lease) ?cs)))"
  proof -
    have "mset (map or_id (ord (map (claim_event now t lease) ?cs))) = mset (map or_id ?cs)"
      by (simp add: assms(6) multiset.map_comp comp_def)
    then show ?thesis using candidates_distinct [OF assms(1)] by (metis mset_eq_imp_distinct_iff)
  qed
  then have dist: "distinct (map oe_id ?evs)" by (simp add: comp_def ids)
  have ok: "claim_batch e now locked ord token limit lease rows = Inr (?rows', ?evs)"
    unfolding claim_batch_Inr using assms(2-5) by auto
  have lim: "int (length ?evs) \<le> limit"
  proof -
    have "length ?cs \<le> nat limit" by (simp add: batch_candidates_def)
    then show ?thesis using len assms(3) by linarith
  qed
  have find: "find_event (or_id q) ?rows' = Some (if ?sel q then claim_event now t lease q else q)" if "q \<in> set rows" for q
    using that assms(1) by (simp add: find_event_update find_event_in outbox_inv_def)
  have got: "\<exists>q \<in> set rows. claimable_event now locked q \<and> ev = returned_event q \<and>
       find_event (or_id q) ?rows' = Some (claim_event now t lease q) \<and>
       event_held t (now + to_interval lease) (claim_event now t lease q)" if ev: "ev \<in> set ?evs" for ev
  proof -
    from ev obtain q where q: "q \<in> set ?cs" "ev = returned_event q" unfolding evs by blast
    then have "q \<in> set rows" "claimable_event now locked q" using set_batch_candidates by blast+
    with q find [of q] show ?thesis by (intro bexI [of _ q]) (simp_all add: event_held_def claim_event_def)
  qed
  have left: "int (length ?evs) = limit \<and> find_event (or_id r) ?rows' = Some r \<and>
      (\<forall>ev \<in> set ?evs. \<forall>q \<in> set rows. or_id q = oe_id ev \<longrightarrow> claim_order q \<le> claim_order r)"
    if r: "r \<in> set rows" "claimable_event now locked r \<and> or_id r \<notin> oe_id ` set ?evs" for r
  proof -
    have sel: "\<not> ?sel r" using r(2) unfolding evs by (auto simp: ids image_image)
    then have n: "r \<notin> set ?cs" by blast
    have c: "claimable_event now locked r" using r(2) by simp
    have "claim_order q \<le> claim_order r" if "q \<in> set rows" "or_id q \<in> oe_id ` set ?evs" for q
    proof -
      have "or_id q \<in> or_id ` set ?cs" using that(2) unfolding evs by (auto simp: ids)
      then have "q \<in> set ?cs" by (rule candidate_row(1) [OF assms(1) that(1)])
      then show ?thesis by (rule candidates_oldest(2) [OF r(1) c n])
    qed
    moreover have "int (length ?evs) = limit" using len candidates_oldest(1) [OF r(1) c n] assms(3) by linarith
    ultimately show ?thesis using find [OF r(1)] sel by auto
  qed
  show ?thesis by (intro exI [of _ ?rows'] exI [of _ ?evs] conjI ballI impI ok lim dist got left)
      (use left in blast)+
qed

subsection \<open>Witnesses\<close>

definition demo_outbox_env :: outbox_env where
  "demo_outbox_env = \<lparr>ox_scan = Some, ox_marshal_activated = (\<lambda>p. Inr (ap_dataset_id p)),
     ox_marshal_changed = (\<lambda>p. Inr (cp_product_id p)), ox_check_row = (\<lambda>_. None)\<rparr>"

definition demo_change :: "string \<Rightarrow> product_changed" where
  "demo_change i = \<lparr>ev_event_id = i, ev_product_id = ''p'', ev_version_id = ''v'', ev_version_number = 1,
     ev_fingerprint = ''f'', ev_change_type = ChangeTypeNew, ev_changed_fields = []\<rparr>"

definition demo_outbox_ops :: "(instant \<times> outbox_op) list" where
  "demo_outbox_ops = [(10, CreateProductChanged [demo_change ''e1'', demo_change ''e2'']),
     (20, CreateProductChanged [demo_change ''e3'']),
     (30, ClaimBatch (\<lambda>_. False) rev ''t1'' 2 50000),
     (31, MarkPublished ''t1'' [''e1'']),
     (32, ClaimBatch (\<lambda>_. False) rev ''t2'' 2 50000),
     (33, RecordFailure ''t2'' ''e3'' ''boom'' 1 1000)]"

definition demo_outbox :: "outbox_row list" where
  "demo_outbox = exec_outbox_all demo_outbox_env demo_outbox_ops []"

definition demo_event :: "string \<Rightarrow> outbox_row" where
  "demo_event i = the (find_event i demo_outbox)"

lemma demo_outbox_inv: "outbox_inv demo_outbox"
  unfolding demo_outbox_def by (rule exec_outbox_all_inv) simp

lemma demo_events:
  "find_event ''e1'' demo_outbox = Some (demo_event ''e1'')" "or_status (demo_event ''e1'') \<noteq> EventPending"
  "find_event ''e2'' demo_outbox = Some (demo_event ''e2'')" "event_held ''t1'' 50030 (demo_event ''e2'')"
  "find_event ''e3'' demo_outbox = Some (demo_event ''e3'')"
  by code_simp+

theorem settled_event_is_final_witness:
  "find_event ''e1'' (exec_outbox_all demo_outbox_env [(99999, ClaimBatch (\<lambda>_. False) rev ''t1'' 2 50000),
      (99999, ReleaseClaims ''t1'' [''e1'', ''e2''])] demo_outbox) = Some (demo_event ''e1'')"
  by (rule settled_event_is_final [OF demo_outbox_inv demo_events(1,2)])

theorem live_event_claim_is_exclusive_witness:
  "find_event ''e2'' (exec_outbox_all demo_outbox_env [(40, ClaimBatch (\<lambda>_. False) rev ''t3'' 2 50000),
      (41, MarkPublished ''t2'' [''e2''])] demo_outbox) = Some (demo_event ''e2'')"
  by (rule live_event_claim_is_exclusive [OF demo_outbox_inv demo_events(3,4)]) code_simp

lemma demo_attempts: "\<forall>(now, op) \<in> set demo_outbox_ops. max_attempts_op 1 op"
  by code_simp

theorem event_attempts_are_bounded_witness:
  "0 \<le> or_retry_count (demo_event ''e3'') \<and> or_retry_count (demo_event ''e3'') \<le> 1 \<and>
   (or_retry_count (demo_event ''e3'') = 1 \<longleftrightarrow> or_status (demo_event ''e3'') = EventFailed) \<and>
   (if or_status (demo_event ''e3'') = EventPending then or_retry_count (demo_event ''e3'') < 1 else True)"
  using event_attempts_are_bounded [OF _ demo_attempts demo_events(5) [unfolded demo_outbox_def]] by simp

lemma demo_token: "parse_claim_token demo_outbox_env ''t9'' = Inr ''t9''"
  by code_simp

theorem claim_batch_takes_oldest_witness:
  "\<exists>rows' evs. claim_batch demo_outbox_env 60000 (\<lambda>_. False) rev ''t9'' 5 1000 demo_outbox = Inr (rows', evs) \<and>
    int (length evs) \<le> 5 \<and> distinct (map oe_id evs) \<and>
    (\<forall>ev \<in> set evs. \<exists>q \<in> set demo_outbox. claimable_event 60000 (\<lambda>_. False) q \<and> ev = returned_event q \<and>
       find_event (or_id q) rows' = Some (claim_event 60000 ''t9'' 1000 q) \<and>
       event_held ''t9'' (60000 + to_interval 1000) (claim_event 60000 ''t9'' 1000 q)) \<and>
    (\<forall>r \<in> set demo_outbox. claimable_event 60000 (\<lambda>_. False) r \<and> or_id r \<notin> oe_id ` set evs \<longrightarrow>
       int (length evs) = 5 \<and> find_event (or_id r) rows' = Some r \<and>
       (\<forall>ev \<in> set evs. \<forall>q \<in> set demo_outbox. or_id q = oe_id ev \<longrightarrow> claim_order q \<le> claim_order r))"
  by (rule claim_batch_takes_oldest [OF demo_outbox_inv demo_token]) simp_all

end
