(* ===== verification/Relay.thy ===== *)
theory Relay
  imports Outbox Backoff
begin

text \<open>
  The outbox relay, \<open>internal/application/outbox/relay.go\<close>. The relay is a client of the store, the
  broker, the UUID generator and its context; \<open>relay_deps\<close> is what it calls, as functions on a
  state, and \<open>run_once\<close> and \<open>run_relay\<close> are its code over them. The context of a store call is
  the caller's or the detached one of \<open>cleanup.Context\<close>. Logging is not modelled.

  The locale \<open>relay_store\<close> states what the relay relies on and proves what it promises from that.
  It is interpreted on the repository of theory Outbox: a state is the table together with a
  schedule that says, for every call, what other relays and writers did before it, the instant, the
  faults of the database and the broker, and when the context is cancelled.
\<close>

subsection \<open>The relay\<close>

definition max_batch_size :: int where
  "max_batch_size = 1000"

record relay_config =
  rc_batch_size :: int
  rc_poll_interval :: i64
  rc_lease :: i64
  rc_base_backoff :: i64
  rc_max_backoff :: i64
  rc_max_attempts :: int

definition validate_config :: "relay_config \<Rightarrow> gerr + unit" where
  "validate_config c =
     (let bad = Wrap (Leaf (Outbox ErrInvalidConfig)) in
      failif (rc_batch_size c \<le> 0 \<or> rc_batch_size c > max_batch_size) bad
     (failif (rc_poll_interval c \<le>s 0) bad
     (failif (rc_lease c \<le>s 0) bad
     (failif (rc_base_backoff c \<le>s 0) bad
     (failif (rc_max_backoff c <s rc_base_backoff c) bad
     (failif (rc_max_attempts c < 1) bad
     (Inr ())))))))"

record 's relay_deps =
  rl_new_token :: "'s \<Rightarrow> 's \<times> (gerr + string)"
  rl_ctx_err :: "'s \<Rightarrow> gerr option"
  rl_claim :: "string \<Rightarrow> int \<Rightarrow> duration \<Rightarrow> 's \<Rightarrow> 's \<times> (gerr + outbox_event list)"
  rl_mark :: "ctx \<Rightarrow> string \<Rightarrow> string list \<Rightarrow> 's \<Rightarrow> 's \<times> (gerr + int)"
  rl_fail :: "string \<Rightarrow> string \<Rightarrow> string \<Rightarrow> int \<Rightarrow> duration \<Rightarrow> 's \<Rightarrow> 's \<times> (gerr + unit)"
  rl_release :: "ctx \<Rightarrow> string \<Rightarrow> string list \<Rightarrow> 's \<Rightarrow> 's \<times> (gerr + unit)"
  rl_publish :: "outbox_event \<Rightarrow> 's \<Rightarrow> 's \<times> gerr option"
  rl_error_text :: "gerr \<Rightarrow> string"
  rl_sleep :: "duration \<Rightarrow> 's \<Rightarrow> 's"

definition wrapped_err :: "gerr + 'a \<Rightarrow> gerr option" where
  "wrapped_err r = (case r of Inl x \<Rightarrow> Some (Wrap x) | Inr _ \<Rightarrow> None)"

text \<open>\<open>if len(publishedIDs) > 0 { MarkPublished }\<close> and its release.\<close>

definition mark_if ::
  "'s relay_deps \<Rightarrow> ctx \<Rightarrow> string \<Rightarrow> string list \<Rightarrow> 's \<Rightarrow> 's \<times> gerr option" where
  "mark_if d c token ids w =
     (if ids \<noteq> [] then (case rl_mark d c token ids w of (w1, r) \<Rightarrow> (w1, wrapped_err r)) else (w, None))"

definition release_if ::
  "'s relay_deps \<Rightarrow> ctx \<Rightarrow> string \<Rightarrow> string list \<Rightarrow> 's \<Rightarrow> 's \<times> gerr option" where
  "release_if d c token ids w =
     (if ids \<noteq> [] then (case rl_release d c token ids w of (w1, r) \<Rightarrow> (w1, wrapped_err r)) else (w, None))"

definition settle_on_cancel ::
  "'s relay_deps \<Rightarrow> string \<Rightarrow> string list \<Rightarrow> string list \<Rightarrow> 's \<Rightarrow> 's \<times> gerr option" where
  "settle_on_cancel d token published unprocessed w =
     (case mark_if d DetachedCtx token published w of (w1, markErr) \<Rightarrow>
      case release_if d DetachedCtx token unprocessed w1 of (w2, relErr) \<Rightarrow>
        (w2, join_errs [markErr, relErr]))"

definition event_ids :: "outbox_event list \<Rightarrow> string list" where
  "event_ids evs = map oe_id evs"

text \<open>The result of \<open>RunOnce\<close>: claimed, published, error.\<close>

type_synonym once_result = "int \<times> int \<times> gerr option"

definition cancelled_return ::
  "'s relay_deps \<Rightarrow> string \<Rightarrow> int \<Rightarrow> outbox_event list \<Rightarrow> string list \<Rightarrow> gerr list \<Rightarrow> 's \<Rightarrow> 's \<times> once_result" where
  "cancelled_return d token cnt rest published errs w =
     (case settle_on_cancel d token published (event_ids rest) w of (w1, settleErr) \<Rightarrow>
        (w1, cnt, int (length published), join_errs [join_errs (map Some errs), rl_ctx_err d w, settleErr]))"

definition outage_return ::
  "'s relay_deps \<Rightarrow> string \<Rightarrow> int \<Rightarrow> outbox_event list \<Rightarrow> string list \<Rightarrow> gerr list \<Rightarrow> gerr \<Rightarrow> 's \<Rightarrow> 's \<times> once_result" where
  "outage_return d token cnt rest published errs pubErr w =
     (case mark_if d CallerCtx token published w of (w1, markErr) \<Rightarrow>
      case rl_release d CallerCtx token (event_ids rest) w1 of (w2, r) \<Rightarrow>
        (w2, cnt, int (length published),
         join_errs [join_errs (map Some errs), Some (Wrap pubErr), markErr, wrapped_err r]))"

definition finish_batch ::
  "'s relay_deps \<Rightarrow> string \<Rightarrow> int \<Rightarrow> string list \<Rightarrow> gerr list \<Rightarrow> 's \<Rightarrow> 's \<times> once_result" where
  "finish_batch d token cnt published errs w =
     (case mark_if d CallerCtx token published w of (w1, markErr) \<Rightarrow>
        (w1, cnt, int (length published), join_errs (map Some errs @ [markErr])))"

fun relay_events ::
  "'s relay_deps \<Rightarrow> relay_config \<Rightarrow> string \<Rightarrow> int \<Rightarrow> outbox_event list \<Rightarrow> string list \<Rightarrow> gerr list \<Rightarrow> 's
     \<Rightarrow> 's \<times> once_result" where
  "relay_events d cfg token cnt [] published errs w = finish_batch d token cnt published errs w"
| "relay_events d cfg token cnt (ev # rest) published errs w =
     (if rl_ctx_err d w \<noteq> None then cancelled_return d token cnt (ev # rest) published errs w
      else case rl_publish d ev w of
        (w1, None) \<Rightarrow> relay_events d cfg token cnt rest (published @ [oe_id ev]) errs w1
      | (w1, Some pubErr) \<Rightarrow>
          if err_is pubErr ErrBrokerUnavailable
          then outage_return d token cnt (ev # rest) published errs pubErr w1
          else if rl_ctx_err d w1 \<noteq> None then cancelled_return d token cnt (ev # rest) published errs w1
          else let bo = sint (exponential (word_of_int (oe_retry_count ev)) (rc_base_backoff cfg) (rc_max_backoff cfg)) in
            case rl_fail d token (oe_id ev) (rl_error_text d pubErr) (rc_max_attempts cfg) bo w1 of
              (w2, r) \<Rightarrow> relay_events d cfg token cnt rest published
                (errs @ (case r of Inl x \<Rightarrow> [Wrap x] | Inr _ \<Rightarrow> [])) w2)"

definition run_once :: "'s relay_deps \<Rightarrow> relay_config \<Rightarrow> 's \<Rightarrow> 's \<times> once_result" where
  "run_once d cfg w =
     (case rl_new_token d w of
        (w1, Inl x) \<Rightarrow> (w1, 0, 0, Some (Wrap x))
      | (w1, Inr token) \<Rightarrow>
          (case rl_claim d token (rc_batch_size cfg) (sint (rc_lease cfg)) w1 of
             (w2, Inl x) \<Rightarrow> (w2, 0, 0, Some (Wrap x))
           | (w2, Inr evs) \<Rightarrow>
               if evs = [] then (w2, 0, 0, None)
               else relay_events d cfg token (int (length evs)) evs [] [] w2))"

text \<open>\<open>isOnlyContextCanceled\<close> of an error that is not nil; a join with no error in it is vacuous.\<close>

fun only_canceled :: "gerr \<Rightarrow> bool" where
  "only_canceled (Leaf s) \<longleftrightarrow> s = Context Canceled"
| "only_canceled (Opaque m) \<longleftrightarrow> False"
| "only_canceled (Wrap e) \<longleftrightarrow> only_canceled e"
| "only_canceled (Join es) \<longleftrightarrow> list_all only_canceled es"

definition without_cancellation :: "gerr \<Rightarrow> gerr option" where
  "without_cancellation e = (if only_canceled e then None else Some e)"

definition wait_after_failure :: "'s relay_deps \<Rightarrow> relay_config \<Rightarrow> int \<Rightarrow> 's \<Rightarrow> 's" where
  "wait_after_failure d cfg k w =
     rl_sleep d (sint (exponential (word_of_int (k - 1)) (rc_base_backoff cfg) (rc_max_backoff cfg))) w"

text \<open>\<open>Run\<close> may loop forever: then it has no value.\<close>

partial_function (option) relay_loop ::
  "'s relay_deps \<Rightarrow> relay_config \<Rightarrow> int \<Rightarrow> 's \<Rightarrow> ('s \<times> gerr option) option" where
  "relay_loop d cfg k w =
     (if rl_ctx_err d w \<noteq> None then Some (w, None)
      else case run_once d cfg w of (w1, claimed, _, err) \<Rightarrow>
        (case err of
           Some x \<Rightarrow> if rl_ctx_err d w1 \<noteq> None then Some (w1, without_cancellation x)
             else relay_loop d cfg (k + 1) (wait_after_failure d cfg (k + 1) w1)
         | None \<Rightarrow> relay_loop d cfg 0
             (if claimed < rc_batch_size cfg then rl_sleep d (sint (rc_poll_interval cfg)) w1 else w1)))"

definition run_relay :: "'s relay_deps \<Rightarrow> relay_config \<Rightarrow> 's \<Rightarrow> ('s \<times> gerr option) option" where
  "run_relay d cfg w = relay_loop d cfg 0 w"

subsection \<open>What the relay relies on and what it promises\<close>

text \<open>
  How a state is looked at: its invariant, the claim tokens the relay drew and may still draw
  (\<open>mine\<close>), the ids of the events a token holds, of those that are PROCESSED, of those the broker
  accepted, of those that other relays marked, and the ids known to the table.
\<close>

record 's relay_view =
  vw_inv :: "'s \<Rightarrow> bool"
  vw_drawn :: "'s \<Rightarrow> string \<Rightarrow> bool"
  vw_mine :: "'s \<Rightarrow> string \<Rightarrow> bool"
  vw_held :: "'s \<Rightarrow> string \<Rightarrow> string set"
  vw_processed :: "'s \<Rightarrow> string set"
  vw_accepted :: "'s \<Rightarrow> string set"
  vw_marked :: "'s \<Rightarrow> string set"
  vw_known :: "'s \<Rightarrow> string set"

text \<open>A call that leaves the world sane and may mark only \<open>S\<close>; \<open>steady\<close> when no own token gains an event.\<close>

definition sane :: "'s relay_view \<Rightarrow> string set \<Rightarrow> 's \<Rightarrow> 's \<Rightarrow> bool" where
  "sane v S w w' \<longleftrightarrow> vw_inv v w' \<and> (\<forall>t. vw_drawn v w t \<longrightarrow> vw_drawn v w' t) \<and>
     (\<forall>t. vw_mine v w' t \<longrightarrow> vw_mine v w t) \<and> vw_accepted v w \<subseteq> vw_accepted v w' \<and>
     vw_marked v w \<subseteq> vw_marked v w' \<and> vw_known v w \<subseteq> vw_known v w' \<and>
     vw_processed v w' \<subseteq> vw_processed v w \<union> S \<union> vw_marked v w'"

definition steady :: "'s relay_view \<Rightarrow> 's \<Rightarrow> 's \<Rightarrow> bool" where
  "steady v w w' \<longleftrightarrow> (\<forall>t. vw_mine v w' t \<longrightarrow> vw_held v w' t \<subseteq> vw_held v w t)"

lemma sane_inv: "sane v S w w' \<Longrightarrow> vw_inv v w'"
  by (simp add: sane_def)

lemma sane_monos:
  "sane v S w w' \<Longrightarrow> vw_drawn v w t \<Longrightarrow> vw_drawn v w' t"
  "sane v S w w' \<Longrightarrow> I \<subseteq> vw_known v w \<Longrightarrow> I \<subseteq> vw_known v w'"
  "sane v S w w' \<Longrightarrow> I \<subseteq> vw_accepted v w \<Longrightarrow> I \<subseteq> vw_accepted v w'"
  unfolding sane_def by blast+

lemma sane_refl: "vw_inv v w \<Longrightarrow> sane v S w w"
  by (auto simp: sane_def)

lemma steady_refl [simp]: "steady v w w"
  by (simp add: steady_def)

lemma sane_trans: "sane v S w w1 \<Longrightarrow> sane v T w1 w2 \<Longrightarrow> S \<subseteq> U \<Longrightarrow> T \<subseteq> U \<Longrightarrow> sane v U w w2"
  unfolding sane_def by blast

lemma steady_trans: "steady v w w1 \<Longrightarrow> steady v w1 w2 \<Longrightarrow> sane v T w1 w2 \<Longrightarrow> steady v w w2"
  unfolding sane_def steady_def by blast

lemma sane_mono: "sane v S w w' \<Longrightarrow> S \<subseteq> T \<Longrightarrow> sane v T w w'"
  unfolding sane_def by blast

text \<open>Marks that only ever follow an acceptance of the broker.\<close>

definition safe :: "'s relay_view \<Rightarrow> 's \<Rightarrow> 's \<Rightarrow> bool" where
  "safe v w w' \<longleftrightarrow> sane v (vw_accepted v w') w w'"

lemma safe_refl: "vw_inv v w \<Longrightarrow> safe v w w"
  by (simp add: safe_def sane_refl)

lemma safe_inv: "safe v w w' \<Longrightarrow> vw_inv v w'"
  by (simp add: safe_def sane_def)

lemma safe_trans: "safe v w w1 \<Longrightarrow> safe v w1 w2 \<Longrightarrow> safe v w w2"
  unfolding safe_def sane_def by blast

lemma sane_safe: "sane v S w w' \<Longrightarrow> S \<subseteq> vw_accepted v w' \<Longrightarrow> safe v w w'"
  unfolding safe_def by (rule sane_mono)

locale relay_store =
  fixes d :: "'s relay_deps" and v :: "'s relay_view"
  assumes token_law: "vw_inv v w \<Longrightarrow> rl_new_token d w = (w', r0) \<Longrightarrow>
      sane v {} w w' \<and> steady v w w' \<and> (\<forall>t. r0 = Inr t \<longrightarrow> vw_drawn v w' t)"
    and drawn_mine: "vw_inv v w \<Longrightarrow> vw_drawn v w t \<Longrightarrow> vw_mine v w t"
    and claim_law: "vw_inv v w \<Longrightarrow> vw_drawn v w t \<Longrightarrow> rl_claim d t n lease w = (w', r2) \<Longrightarrow>
      sane v {} w w' \<and>
      (\<forall>evs. r2 = Inr evs \<longrightarrow> int (length evs) \<le> n \<and> set (event_ids evs) \<subseteq> vw_known v w' \<and>
         (\<forall>s. vw_mine v w' s \<longrightarrow> vw_held v w' s \<subseteq> vw_held v w s \<union> set (event_ids evs)))"
    and mark_law: "vw_inv v w \<Longrightarrow> vw_drawn v w t \<Longrightarrow> set ids \<subseteq> vw_known v w \<Longrightarrow> rl_mark d c t ids w = (w', r3) \<Longrightarrow>
      sane v (set ids) w w' \<and> steady v w w' \<and> (is_ok r3 \<longrightarrow> vw_held v w' t \<inter> set ids = {})"
    and fail_law: "vw_inv v w \<Longrightarrow> vw_drawn v w t \<Longrightarrow> i \<in> vw_known v w \<Longrightarrow> rl_fail d t i txt m b w = (w', r4) \<Longrightarrow>
      sane v {} w w' \<and> steady v w w' \<and> (is_ok r4 \<longrightarrow> i \<notin> vw_held v w' t)"
    and release_law: "vw_inv v w \<Longrightarrow> vw_drawn v w t \<Longrightarrow> set ids \<subseteq> vw_known v w \<Longrightarrow> rl_release d c t ids w = (w', r5) \<Longrightarrow>
      sane v {} w w' \<and> steady v w w' \<and> (is_ok r5 \<longrightarrow> vw_held v w' t \<inter> set ids = {})"
    and publish_law: "vw_inv v w \<Longrightarrow> rl_publish d ev w = (w', p) \<Longrightarrow>
      sane v {} w w' \<and> steady v w w' \<and> (p = None \<longrightarrow> oe_id ev \<in> vw_accepted v w')"
    and sleep_law: "vw_inv v w \<Longrightarrow> sane v {} w (rl_sleep d b w) \<and> steady v w (rl_sleep d b w)"
begin

lemma mark_if_sane:
  assumes "vw_inv v w" "vw_drawn v w t" "set ids \<subseteq> vw_known v w" "mark_if d c t ids w = (w', err)"
  shows "sane v (set ids) w w'" "steady v w w'" "err = None \<Longrightarrow> vw_held v w' t \<inter> set ids = {}"
proof -
  have "sane v (set ids) w w' \<and> steady v w w' \<and> (err = None \<longrightarrow> vw_held v w' t \<inter> set ids = {})"
  proof (cases "ids = []")
    case True
    with assms show ?thesis by (simp add: mark_if_def sane_refl)
  next
    case False
    obtain w1 r where r: "rl_mark d c t ids w = (w1, r)" by (cases "rl_mark d c t ids w")
    with False assms(4) have "w' = w1" "err = wrapped_err r" by (simp_all add: mark_if_def)
    with mark_law [OF assms(1-3) r] show ?thesis by (auto simp: wrapped_err_def is_ok_def split: sum.splits)
  qed
  then show "sane v (set ids) w w'" "steady v w w'" "err = None \<Longrightarrow> vw_held v w' t \<inter> set ids = {}" by auto
qed

lemma release_if_sane:
  assumes "vw_inv v w" "vw_drawn v w t" "set ids \<subseteq> vw_known v w" "release_if d c t ids w = (w', err)"
  shows "sane v {} w w'"
proof (cases "ids = []")
  case True
  with assms show ?thesis by (simp add: release_if_def sane_refl)
next
  case False
  obtain w1 r where r: "rl_release d c t ids w = (w1, r)" by (cases "rl_release d c t ids w")
  with False assms(4) have "w' = w1" by (simp add: release_if_def)
  with release_law [OF assms(1-3) r] show ?thesis by simp
qed

text \<open>The three ways a batch ends, from a state in which the broker accepted every id to be marked.\<close>

lemma cancelled_return_safe:
  assumes "vw_inv v w" "vw_drawn v w t" "set pub \<subseteq> vw_known v w" "set (event_ids rest) \<subseteq> vw_known v w"
    "set pub \<subseteq> vw_accepted v w" "cancelled_return d t n rest pub errs w = (w', res)"
  shows "safe v w w'"
proof -
  obtain w1 m where m: "mark_if d DetachedCtx t pub w = (w1, m)" by (cases "mark_if d DetachedCtx t pub w")
  obtain w2 r where r: "release_if d DetachedCtx t (event_ids rest) w1 = (w2, r)"
    by (cases "release_if d DetachedCtx t (event_ids rest) w1")
  have w': "w' = w2" using assms(6) m r by (simp add: cancelled_return_def settle_on_cancel_def)
  have s1: "sane v (set pub) w w1" by (rule mark_if_sane [OF assms(1-3) m])
  have "sane v {} w1 w2"
    by (rule release_if_sane [OF sane_inv [OF s1] sane_monos(1) [OF s1 assms(2)] sane_monos(2) [OF s1 assms(4)] r])
  then have "sane v (set pub) w w2" using sane_trans [OF s1] by blast
  then show ?thesis unfolding w' by (rule sane_safe) (use assms(5) \<open>sane v (set pub) w w2\<close> in \<open>auto simp: sane_def\<close>)
qed

lemma outage_return_safe:
  assumes "vw_inv v w" "vw_drawn v w t" "set pub \<subseteq> vw_known v w" "set (event_ids rest) \<subseteq> vw_known v w"
    "set pub \<subseteq> vw_accepted v w" "outage_return d t n rest pub errs pe w = (w', res)"
  shows "safe v w w'"
proof -
  obtain w1 m where m: "mark_if d CallerCtx t pub w = (w1, m)" by (cases "mark_if d CallerCtx t pub w")
  obtain w2 r where r: "rl_release d CallerCtx t (event_ids rest) w1 = (w2, r)"
    by (cases "rl_release d CallerCtx t (event_ids rest) w1")
  have w': "w' = w2" using assms(6) m r by (simp add: outage_return_def)
  have s1: "sane v (set pub) w w1" by (rule mark_if_sane [OF assms(1-3) m])
  have "sane v {} w1 w2"
    using release_law [OF sane_inv [OF s1] sane_monos(1) [OF s1 assms(2)] sane_monos(2) [OF s1 assms(4)] r] by simp
  then have "sane v (set pub) w w2" using sane_trans [OF s1] by blast
  then show ?thesis unfolding w' by (rule sane_safe) (use assms(5) \<open>sane v (set pub) w w2\<close> in \<open>auto simp: sane_def\<close>)
qed

lemma finish_batch_safe:
  assumes "vw_inv v w" "vw_drawn v w t" "set pub \<subseteq> vw_known v w"
    "set pub \<subseteq> vw_accepted v w" "finish_batch d t n pub errs w = (w', res)"
  shows "safe v w w'"
proof -
  obtain w1 m where m: "mark_if d CallerCtx t pub w = (w1, m)" by (cases "mark_if d CallerCtx t pub w")
  have w': "w' = w1" using assms(5) m by (simp add: finish_batch_def)
  have s1: "sane v (set pub) w w1" by (rule mark_if_sane [OF assms(1-3) m])
  then show ?thesis unfolding w' by (rule sane_safe) (use assms(4) s1 in \<open>auto simp: sane_def\<close>)
qed

lemma relay_events_safe:
  assumes "vw_inv v w" "vw_drawn v w t" "set pub \<union> set (event_ids evs) \<subseteq> vw_known v w"
    "set pub \<subseteq> vw_accepted v w" "relay_events d cfg t n evs pub errs w = (w', res)"
  shows "safe v w w'"
  using assms
proof (induction evs arbitrary: pub errs w)
  case Nil
  then show ?case by (intro finish_batch_safe [of w t pub]) simp_all
next
  case (Cons ev rest)
  note rest = Cons.prems
  have known: "set pub \<subseteq> vw_known v w" "set (event_ids (ev # rest)) \<subseteq> vw_known v w" using rest(3) by auto
  show ?case
  proof (cases "rl_ctx_err d w")
    case (Some x)
    with rest(5) have "cancelled_return d t n (ev # rest) pub errs w = (w', res)" by simp
    then show ?thesis by (rule cancelled_return_safe [OF rest(1,2) known rest(4)])
  next
    case None
    obtain w1 p where p: "rl_publish d ev w = (w1, p)" by (cases "rl_publish d ev w")
    note law = publish_law [OF rest(1) p]
    then have w1: "vw_inv v w1" "vw_drawn v w1 t" "set pub \<subseteq> vw_known v w1" "set (event_ids (ev # rest)) \<subseteq> vw_known v w1"
      "set pub \<subseteq> vw_accepted v w1" using rest(2,4) known unfolding sane_def by blast+
    have s1: "safe v w w1" using law by (auto intro: sane_safe)
    have "safe v w1 w'"
    proof (cases p)
      case (None)
      with \<open>rl_ctx_err d w = None\<close> rest(5) p
      have r: "relay_events d cfg t n rest (pub @ [oe_id ev]) errs w1 = (w', res)" by simp
      show ?thesis
        by (rule Cons.IH [OF w1(1,2) _ _ r]) (use w1 law None in \<open>auto simp: event_ids_def\<close>)
    next
      case (Some pe)
      show ?thesis
      proof (cases "err_is pe ErrBrokerUnavailable \<or> rl_ctx_err d w1 \<noteq> None")
        case True
        then have "outage_return d t n (ev # rest) pub errs pe w1 = (w', res) \<or>
            cancelled_return d t n (ev # rest) pub errs w1 = (w', res)"
          using \<open>rl_ctx_err d w = None\<close> rest(5) p Some by (auto split: if_splits)
        then show ?thesis using outage_return_safe [OF w1] cancelled_return_safe [OF w1] by blast
      next
        case False
        obtain b where b: "b = sint (exponential (word_of_int (oe_retry_count ev)) (rc_base_backoff cfg) (rc_max_backoff cfg))" by simp
        obtain w2 r where r: "rl_fail d t (oe_id ev) (rl_error_text d pe) (rc_max_attempts cfg) b w1 = (w2, r)"
          by (cases "rl_fail d t (oe_id ev) (rl_error_text d pe) (rc_max_attempts cfg) b w1")
        have law2: "sane v {} w1 w2" using fail_law [OF w1(1,2) _ r] w1(4) by (simp add: event_ids_def)
        from False \<open>rl_ctx_err d w = None\<close> rest(5) p Some r b
        obtain errs' where e: "relay_events d cfg t n rest pub errs' w2 = (w', res)" by (simp add: Let_def)
        have w2: "vw_inv v w2" "vw_drawn v w2 t" "set pub \<union> set (event_ids rest) \<subseteq> vw_known v w2" "set pub \<subseteq> vw_accepted v w2"
          using law2 w1 unfolding sane_def by (auto simp: event_ids_def)
        have "safe v w2 w'" by (rule Cons.IH [OF w2 e])
        moreover have "safe v w1 w2" using law2 by (auto intro: sane_safe)
        ultimately show ?thesis by (rule safe_trans [rotated])
      qed
    qed
    with s1 show ?thesis by (rule safe_trans)
  qed
qed

text \<open>An event becomes PROCESSED by this relay only after the broker accepted it.\<close>

lemma run_once_safe:
  assumes "vw_inv v w" "run_once d cfg w = (w', res)"
  shows "safe v w w'"
proof -
  obtain w1 tk where tk: "rl_new_token d w = (w1, tk)" by (cases "rl_new_token d w")
  note law1 = token_law [OF assms(1) tk]
  then have s1: "safe v w w1" by (auto intro: sane_safe)
  show ?thesis
  proof (cases tk)
    case (Inl x)
    with assms(2) tk s1 show ?thesis by (simp add: run_once_def)
  next
    case (Inr t)
    with law1 have w1: "vw_inv v w1" "vw_drawn v w1 t" by (auto simp: sane_def)
    obtain w2 r where r: "rl_claim d t (rc_batch_size cfg) (sint (rc_lease cfg)) w1 = (w2, r)"
      by (cases "rl_claim d t (rc_batch_size cfg) (sint (rc_lease cfg)) w1")
    note law2 = claim_law [OF w1 r]
    then have s2: "safe v w w2" using s1 by (auto intro: sane_safe safe_trans)
    show ?thesis
    proof (cases "case r of Inl _ \<Rightarrow> True | Inr evs \<Rightarrow> evs = []")
      case True
      then show ?thesis using assms(2) tk Inr r s2 by (auto simp: run_once_def split: sum.splits)
    next
      case False
      then obtain evs where evs: "r = Inr evs" "evs \<noteq> []" by (cases r) auto
      with assms(2) tk Inr r have e: "relay_events d cfg t (int (length evs)) evs [] [] w2 = (w', res)" by (simp add: run_once_def)
      have w2: "vw_inv v w2" "vw_drawn v w2 t" "set [] \<union> set (event_ids evs) \<subseteq> vw_known v w2"
        "set [] \<subseteq> vw_accepted v w2" using law2 w1 evs by (auto simp: sane_def)
      have "safe v w2 w'" by (rule relay_events_safe [OF w2 e])
      with s2 show ?thesis by (rule safe_trans)
    qed
  qed
qed

end

subsection \<open>A batch that reports no error\<close>

lemma join_errs_Some_in: "Some x \<in> set es \<Longrightarrow> join_errs es \<noteq> None"
  by (auto simp: join_errs_None_iff)

lemma cancelled_return_err: "cancelled_return d t n rest pub errs w = (w', c, p, None) \<Longrightarrow> rl_ctx_err d w = None"
  by (auto simp: cancelled_return_def settle_on_cancel_def join_errs_None_iff split: prod.splits)

lemma outage_return_err: "outage_return d t n rest pub errs pe w \<noteq> (w', c, p, None)"
  by (auto simp: outage_return_def join_errs_None_iff split: prod.splits)

lemma relay_events_counts:
  "relay_events d cfg t n evs pub errs w = (w', c, p, err) \<Longrightarrow>
     c = n \<and> int (length pub) \<le> p \<and> p \<le> int (length pub) + int (length evs)"
proof (induction evs arbitrary: pub errs w)
  case Nil
  then show ?case by (auto simp: finish_batch_def split: prod.splits)
next
  case (Cons ev rest)
  from Cons.prems show ?case
    by (auto simp: cancelled_return_def outage_return_def Let_def split: prod.splits if_splits option.splits
        dest!: Cons.IH)
qed

lemma relay_events_errs: "relay_events d cfg t n evs pub errs w = (w', c, p, None) \<Longrightarrow> errs = []"
proof (induction evs arbitrary: pub errs w)
  case Nil
  then show ?case by (auto simp: finish_batch_def join_errs_None_iff split: prod.splits)
next
  case (Cons ev rest)
  from Cons.prems show ?case
    by (auto simp: Let_def outage_return_err split: prod.splits if_splits option.splits
        dest!: cancelled_return_err Cons.IH)
qed

context relay_store
begin

lemma relay_events_clean:
  assumes "vw_inv v w" "vw_drawn v w t" "set pub \<union> set (event_ids evs) \<subseteq> vw_known v w"
    "vw_held v w t \<subseteq> B \<union> set pub \<union> set (event_ids evs)"
    "relay_events d cfg t n evs pub errs w = (w', c, p, None)"
  shows "vw_held v w' t \<subseteq> B \<and> errs = []"
  using assms
proof (induction evs arbitrary: pub errs w)
  case Nil
  obtain w1 m where m: "mark_if d CallerCtx t pub w = (w1, m)" by (cases "mark_if d CallerCtx t pub w")
  with Nil.prems(5) have e: "w' = w1" "join_errs (map Some errs @ [m]) = None" by (auto simp: finish_batch_def)
  then have none: "errs = []" "m = None" by (auto simp: join_errs_None_iff)
  have known: "set pub \<subseteq> vw_known v w" using Nil.prems(3) by simp
  note mk = mark_if_sane [OF Nil.prems(1,2) known m]
  have "vw_mine v w1 t" using mk(1) Nil.prems(2) drawn_mine by (metis sane_inv sane_monos(1))
  then have "vw_held v w1 t \<subseteq> vw_held v w t" using mk(2) by (simp add: steady_def)
  then show ?case using mk(3) none e(1) Nil.prems(4) by (auto simp: event_ids_def)
next
  case (Cons ev rest)
  have ctx: "rl_ctx_err d w = None"
    using Cons.prems(5) cancelled_return_err by (cases "rl_ctx_err d w") fastforce+
  obtain w1 q where q: "rl_publish d ev w = (w1, q)" by (cases "rl_publish d ev w")
  note law = publish_law [OF Cons.prems(1) q]
  then have s1: "sane v {} w w1" and st1: "steady v w w1" by auto
  have w1: "vw_inv v w1" "vw_drawn v w1 t" "set pub \<union> set (event_ids (ev # rest)) \<subseteq> vw_known v w1"
    by (rule sane_inv [OF s1], rule sane_monos(1) [OF s1 Cons.prems(2)], rule sane_monos(2) [OF s1 Cons.prems(3)])
  have h1: "vw_held v w1 t \<subseteq> B \<union> set pub \<union> set (event_ids (ev # rest))"
    using st1 drawn_mine [OF w1(1,2)] Cons.prems(4) unfolding steady_def by blast
  show ?case
  proof (cases q)
    case None
    with ctx Cons.prems(5) q
    have r: "relay_events d cfg t n rest (pub @ [oe_id ev]) errs w1 = (w', c, p, None)" by simp
    show ?thesis by (rule Cons.IH [OF w1(1,2) _ _ r]) (use w1(3) h1 in \<open>auto simp: event_ids_def\<close>)
  next
    case (Some pe)
    have nb: "\<not> err_is pe ErrBrokerUnavailable"
      using ctx Cons.prems(5) q Some outage_return_err [of d t n "ev # rest" pub errs pe w1] by (auto split: if_splits)
    then have ctx1: "rl_ctx_err d w1 = None"
      using ctx Cons.prems(5) q Some cancelled_return_err by (cases "rl_ctx_err d w1") fastforce+
    obtain b where b: "b = sint (exponential (word_of_int (oe_retry_count ev)) (rc_base_backoff cfg) (rc_max_backoff cfg))" by simp
    obtain w2 r where r: "rl_fail d t (oe_id ev) (rl_error_text d pe) (rc_max_attempts cfg) b w1 = (w2, r)"
      by (cases "rl_fail d t (oe_id ev) (rl_error_text d pe) (rc_max_attempts cfg) b w1")
    have law2: "sane v {} w1 w2" "steady v w1 w2" "is_ok r \<Longrightarrow> oe_id ev \<notin> vw_held v w2 t"
      using fail_law [OF w1(1,2) _ r] w1(3) by (auto simp: event_ids_def)
    have w2: "vw_inv v w2" "vw_drawn v w2 t" "set pub \<union> set (event_ids rest) \<subseteq> vw_known v w2"
      using sane_inv [OF law2(1)] sane_monos(1) [OF law2(1) w1(2)] sane_monos(2) [OF law2(1) w1(3)]
      by (auto simp: event_ids_def)
    have e: "relay_events d cfg t n rest pub (errs @ (case r of Inl x \<Rightarrow> [Wrap x] | Inr _ \<Rightarrow> [])) w2 = (w', c, p, None)"
      using nb ctx ctx1 Cons.prems(5) q Some r b by (simp add: Let_def)
    have h2: "vw_held v w2 t \<subseteq> insert (oe_id ev) B \<union> set pub \<union> set (event_ids rest)"
      using law2(2) drawn_mine [OF w2(1,2)] h1 unfolding steady_def by (auto simp: event_ids_def)
    show ?thesis
    proof (cases "is_ok r")
      case True
      with h2 law2(3) have "vw_held v w2 t \<subseteq> B \<union> set pub \<union> set (event_ids rest)" by auto
      from Cons.IH [OF w2 this e] show ?thesis by simp
    next
      case False
      then show ?thesis using relay_events_errs [OF e] by (cases r) auto
    qed
  qed
qed

end

text \<open>The batch ends that a run may continue from.\<close>

context relay_store
begin

lemma run_once_clean:
  assumes "vw_inv v w" "rl_new_token d w = (w1, Inr t)" "run_once d cfg w = (w', c, p, None)"
  shows "vw_held v w' t \<subseteq> vw_held v w t"
proof -
  from token_law [OF assms(1,2)] have s1: "sane v {} w w1" "steady v w w1" "vw_drawn v w1 t" by auto
  have i1: "vw_inv v w1" by (rule sane_inv [OF s1(1)])
  then have h1: "vw_held v w1 t \<subseteq> vw_held v w t" using s1 drawn_mine unfolding steady_def by blast
  obtain w2 r where r: "rl_claim d t (rc_batch_size cfg) (sint (rc_lease cfg)) w1 = (w2, r)"
    by (cases "rl_claim d t (rc_batch_size cfg) (sint (rc_lease cfg)) w1")
  with assms(2,3) obtain evs where evs: "r = Inr evs" by (cases r) (auto simp: run_once_def)
  from claim_law [OF i1 s1(3) r] evs have s2: "sane v {} w1 w2" "set (event_ids evs) \<subseteq> vw_known v w2"
    "\<forall>s. vw_mine v w2 s \<longrightarrow> vw_held v w2 s \<subseteq> vw_held v w1 s \<union> set (event_ids evs)" by auto
  have i2: "vw_inv v w2" "vw_drawn v w2 t" by (rule sane_inv [OF s2(1)], rule sane_monos(1) [OF s2(1) s1(3)])
  then have h2: "vw_held v w2 t \<subseteq> vw_held v w t \<union> set (event_ids evs)" using s2(3) h1 drawn_mine by blast
  show ?thesis
  proof (cases "evs = []")
    case True
    then show ?thesis using assms(2,3) r evs h2 by (auto simp: run_once_def event_ids_def)
  next
    case False
    then have e: "relay_events d cfg t (int (length evs)) evs [] [] w2 = (w', c, p, None)"
      using assms(2,3) r evs by (simp add: run_once_def)
    show ?thesis using relay_events_clean [OF i2 _ _ e, of "vw_held v w t"] s2(2) h2 by simp
  qed
qed

lemma run_once_counts:
  assumes "vw_inv v w" "0 \<le> rc_batch_size cfg" "run_once d cfg w = (w', c, p, err)"
  shows "0 \<le> p \<and> p \<le> c \<and> c \<le> rc_batch_size cfg"
proof -
  obtain w1 tk where tk: "rl_new_token d w = (w1, tk)" by (cases "rl_new_token d w")
  show ?thesis
  proof (cases tk)
    case (Inl x)
    with assms(2,3) tk show ?thesis by (simp add: run_once_def)
  next
    case (Inr t)
    with token_law [OF assms(1) tk] have w1: "vw_inv v w1" "vw_drawn v w1 t" by (auto simp: sane_def)
    obtain w2 r where r: "rl_claim d t (rc_batch_size cfg) (sint (rc_lease cfg)) w1 = (w2, r)"
      by (cases "rl_claim d t (rc_batch_size cfg) (sint (rc_lease cfg)) w1")
    show ?thesis
    proof (cases "case r of Inl _ \<Rightarrow> True | Inr evs \<Rightarrow> evs = []")
      case True
      then show ?thesis using assms(2,3) tk Inr r by (auto simp: run_once_def split: sum.splits)
    next
      case False
      then obtain evs where evs: "r = Inr evs" "evs \<noteq> []" by (cases r) auto
      with assms(3) tk Inr r have "relay_events d cfg t (int (length evs)) evs [] [] w2 = (w', c, p, err)" by (simp add: run_once_def)
      from relay_events_counts [OF this] show ?thesis using claim_law [OF w1 r] evs by auto
    qed
  qed
qed

lemma relay_loop_safe:
  assumes "relay_loop d cfg k w = Some y" "vw_inv v w"
  shows "safe v w (fst y) \<and> rl_ctx_err d (fst y) \<noteq> None \<and> (\<forall>x. snd y = Some x \<longrightarrow> \<not> only_canceled x)"
proof -
  let ?P = "\<lambda>dd cfg k w y. dd = d \<longrightarrow> vw_inv v w \<longrightarrow>
      safe v w (fst y) \<and> rl_ctx_err d (fst y) \<noteq> None \<and> (\<forall>x. snd y = Some x \<longrightarrow> \<not> only_canceled x)"
  have "?P d cfg k w y"
  proof (rule relay_loop.raw_induct [where P = ?P, OF _ assms(1)], intro impI, goal_cases)
    case (1 loop dd cfg k w y)
    have IH: "loop d cfg' k' w' = Some y' \<Longrightarrow> vw_inv v w' \<Longrightarrow>
      safe v w' (fst y') \<and> rl_ctx_err d (fst y') \<noteq> None \<and> (\<forall>x. snd y' = Some x \<longrightarrow> \<not> only_canceled x)" for cfg' k' w' y'
      using 1(1) [of d cfg' k' w' y'] by simp
    show ?case
    proof (cases "rl_ctx_err d w")
      case (Some x)
      with 1(2-4) show ?thesis by (auto simp: safe_refl)
    next
      case None
      obtain w1 c p err where o: "run_once d cfg w = (w1, c, p, err)" by (cases "run_once d cfg w")
      have s1: "safe v w w1" by (rule run_once_safe [OF 1(4) o])
      then have i1: "vw_inv v w1" by (rule safe_inv)
      have sleep: "safe v w (rl_sleep d b w1)" "vw_inv v (rl_sleep d b w1)" for b
        using sleep_law [OF i1, of b] s1 by (auto intro: sane_safe safe_trans sane_inv)
      show ?thesis
      proof (cases err)
        case (Some x)
        show ?thesis
        proof (cases "rl_ctx_err d w1")
          case (Some z)
          with 1(2,3) None o \<open>err = Some x\<close> have "y = (w1, without_cancellation x)" by simp
          with s1 Some show ?thesis by (auto simp: without_cancellation_def)
        next
          case none: None
          with 1(2,3) None o \<open>err = Some x\<close>
          have "loop d cfg (k + 1) (wait_after_failure d cfg (k + 1) w1) = Some y" by simp
          from IH [OF this] sleep
          have "safe v (wait_after_failure d cfg (k + 1) w1) (fst y) \<and> rl_ctx_err d (fst y) \<noteq> None \<and>
              (\<forall>x. snd y = Some x \<longrightarrow> \<not> only_canceled x)" unfolding wait_after_failure_def by blast
          with sleep(1) show ?thesis unfolding wait_after_failure_def by (blast intro: safe_trans)
        qed
      next
        case none: None
        let ?w = "if c < rc_batch_size cfg then rl_sleep d (sint (rc_poll_interval cfg)) w1 else w1"
        from none 1(2) [unfolded 1(3)] None o have l: "loop d cfg 0 ?w = Some y" by simp
        have w: "safe v w ?w" "vw_inv v ?w" using sleep s1 i1 by simp_all
        from IH [OF l w(2)] w(1) show ?thesis by (blast intro: safe_trans)
      qed
    qed
  qed
  then show ?thesis using assms(2) by simp
qed

end

subsection \<open>Shutting down\<close>

text \<open>When the calls that can still be made before the context ends are bounded by a budget.\<close>

locale relay_shutdown = relay_store d v for d :: "'s relay_deps" and v :: "'s relay_view" +
  fixes budget :: "'s \<Rightarrow> nat"
  assumes token_budget: "vw_inv v w \<Longrightarrow> rl_ctx_err d w = None \<Longrightarrow> budget (fst (rl_new_token d w)) < budget w"
    and claim_budget: "budget (fst (rl_claim d t n lease w)) \<le> budget w"
    and mark_budget: "budget (fst (rl_mark d c t ids w)) \<le> budget w"
    and fail_budget: "budget (fst (rl_fail d t i txt m b w)) \<le> budget w"
    and release_budget: "budget (fst (rl_release d c t ids w)) \<le> budget w"
    and publish_budget: "budget (fst (rl_publish d ev w)) \<le> budget w"
    and sleep_budget: "budget (rl_sleep d b w) \<le> budget w"
begin

lemma mark_if_budget: "budget (fst (mark_if d c t ids w)) \<le> budget w"
  using mark_budget [of c t ids w] by (auto simp: mark_if_def split: prod.splits)

lemma release_if_budget: "budget (fst (release_if d c t ids w)) \<le> budget w"
  using release_budget [of c t ids w] by (auto simp: release_if_def split: prod.splits)

lemma returns_budget:
  "budget (fst (cancelled_return d t n rest pub errs w)) \<le> budget w"
  "budget (fst (outage_return d t n rest pub errs pe w)) \<le> budget w"
  "budget (fst (finish_batch d t n pub errs w)) \<le> budget w"
proof -
  obtain w1 m where m: "mark_if d DetachedCtx t pub w = (w1, m)" by (cases "mark_if d DetachedCtx t pub w")
  obtain w2 r where r: "release_if d DetachedCtx t (event_ids rest) w1 = (w2, r)"
    by (cases "release_if d DetachedCtx t (event_ids rest) w1")
  show "budget (fst (cancelled_return d t n rest pub errs w)) \<le> budget w"
    using mark_if_budget [of DetachedCtx t pub w] release_if_budget [of DetachedCtx t "event_ids rest" w1] m r
    by (simp add: cancelled_return_def settle_on_cancel_def)
  obtain w3 m' where m': "mark_if d CallerCtx t pub w = (w3, m')" by (cases "mark_if d CallerCtx t pub w")
  obtain w4 r' where r': "rl_release d CallerCtx t (event_ids rest) w3 = (w4, r')"
    by (cases "rl_release d CallerCtx t (event_ids rest) w3")
  show "budget (fst (outage_return d t n rest pub errs pe w)) \<le> budget w"
    using mark_if_budget [of CallerCtx t pub w] release_budget [of CallerCtx t "event_ids rest" w3] m' r'
    by (simp add: outage_return_def)
  show "budget (fst (finish_batch d t n pub errs w)) \<le> budget w"
    using mark_if_budget [of CallerCtx t pub w] m' by (simp add: finish_batch_def)
qed

lemma relay_events_budget: "budget (fst (relay_events d cfg t n evs pub errs w)) \<le> budget w"
proof (induction evs arbitrary: pub errs w)
  case Nil
  then show ?case by (simp add: returns_budget)
next
  case (Cons ev rest)
  obtain w1 q where q: "rl_publish d ev w = (w1, q)" by (cases "rl_publish d ev w")
  have b1: "budget w1 \<le> budget w" using publish_budget [of ev w] q by simp
  show ?case
  proof (cases q)
    case None
    then show ?thesis using q b1 Cons [of "pub @ [oe_id ev]" errs w1] returns_budget(1) by auto
  next
    case (Some pe)
    obtain w2 r where r: "rl_fail d t (oe_id ev) (rl_error_text d pe) (rc_max_attempts cfg)
        (sint (exponential (word_of_int (oe_retry_count ev)) (rc_base_backoff cfg) (rc_max_backoff cfg))) w1 = (w2, r)"
      by (metis prod.collapse)
    have "budget w2 \<le> budget w1"
      using fail_budget [of t "oe_id ev" "rl_error_text d pe" "rc_max_attempts cfg" _ w1] r by (metis fst_conv)
    with b1 have b2: "budget w2 \<le> budget w" by simp
    have rec: "budget (fst (relay_events d cfg t n rest pub es w2)) \<le> budget w" for es
      by (rule order_trans [OF Cons b2])
    have c1: "budget (fst (cancelled_return d t n (ev # rest) pub errs w1)) \<le> budget w"
      "budget (fst (outage_return d t n (ev # rest) pub errs pe w1)) \<le> budget w"
      by (rule order_trans [OF returns_budget(1) b1], rule order_trans [OF returns_budget(2) b1])
    show ?thesis using q Some r rec c1 returns_budget(1) [of t n "ev # rest" pub errs w] by (simp add: Let_def)
  qed
qed

lemma run_once_budget: "vw_inv v w \<Longrightarrow> rl_ctx_err d w = None \<Longrightarrow> budget (fst (run_once d cfg w)) < budget w"
proof -
  assume w: "vw_inv v w" "rl_ctx_err d w = None"
  obtain w1 tk where tk: "rl_new_token d w = (w1, tk)" by (cases "rl_new_token d w")
  have b: "budget w1 < budget w" using token_budget [OF w] tk by simp
  show ?thesis
  proof (cases tk)
    case (Inr t)
    obtain w2 r where r: "rl_claim d t (rc_batch_size cfg) (sint (rc_lease cfg)) w1 = (w2, r)"
      by (cases "rl_claim d t (rc_batch_size cfg) (sint (rc_lease cfg)) w1")
    have "budget w2 \<le> budget w1" using claim_budget [of t "rc_batch_size cfg" "sint (rc_lease cfg)" w1] r by simp
    with b have b2: "budget w2 < budget w" by simp
    show ?thesis
    proof (cases r)
      case (Inr evs)
      then show ?thesis using tk \<open>tk = Inr t\<close> r b2 relay_events_budget [of cfg t "int (length evs)" evs "[]" "[]" w2]
        by (simp add: run_once_def)
    qed (use tk Inr r b2 in \<open>simp add: run_once_def\<close>)
  qed (use tk b in \<open>simp add: run_once_def\<close>)
qed

lemma relay_loop_returns: "vw_inv v w \<Longrightarrow> \<exists>y. relay_loop d cfg k w = Some y"
proof (induction "budget w" arbitrary: k w rule: less_induct)
  case less
  show ?case
  proof (cases "rl_ctx_err d w")
    case (Some x)
    then show ?thesis by (simp add: relay_loop.simps)
  next
    case None
    obtain w1 c p err where o: "run_once d cfg w = (w1, c, p, err)" by (cases "run_once d cfg w")
    have b: "budget w1 < budget w" using run_once_budget [OF less.prems None, of cfg] o by simp
    have i1: "vw_inv v w1" using run_once_safe [OF less.prems o] by (rule safe_inv)
    have s: "\<exists>y. relay_loop d cfg j (rl_sleep d bo w1) = Some y" for j bo
      by (rule less.hyps) (use b sleep_budget [of bo w1] sleep_law [OF i1, of bo] in \<open>auto simp: sane_def\<close>)
    have n: "\<exists>y. relay_loop d cfg j w1 = Some y" for j
      by (rule less.hyps [OF b i1])
    show ?thesis
      by (subst relay_loop.simps) (use None o s n in \<open>auto simp: wait_after_failure_def split: option.splits\<close>)
  qed
qed

end

subsection \<open>The relay on the repository\<close>

text \<open>What surrounds one call: the operations of others before it, its instant and locks, the fault
  the database reports (\<open>sl_applied\<close>: the statement took effect all the same), the token a
  generator would draw, the broker's answer, and whether the context is cancelled meanwhile.\<close>

record relay_slot =
  sl_others :: "(instant \<times> outbox_op) list"
  sl_now :: instant
  sl_locked :: "string \<Rightarrow> bool"
  sl_order :: "outbox_row list \<Rightarrow> outbox_row list"
  sl_fault :: "gerr option"
  sl_applied :: bool
  sl_token :: "gerr + string"
  sl_broker :: "gerr option"
  sl_cancel :: bool

record relay_world =
  rw_env :: outbox_env
  rw_rows :: "outbox_row list"
  rw_now :: instant
  rw_cancelled :: bool
  rw_drawn :: "string list"
  rw_accepted :: "outbox_event list"
  rw_marked :: "string list"
  rw_sched :: "relay_slot list"

text \<open>Past the end of the schedule nothing else happens; the context has ended.\<close>

definition idle_slot :: "instant \<Rightarrow> relay_slot" where
  "idle_slot now = \<lparr>sl_others = [], sl_now = now, sl_locked = (\<lambda>_. False), sl_order = (\<lambda>xs. xs), sl_fault = None,
     sl_applied = False, sl_token = Inl (Opaque ''no entropy''), sl_broker = Some canceled_err, sl_cancel = True\<rparr>"

definition world_ctx_err :: "relay_world \<Rightarrow> gerr option" where
  "world_ctx_err w = (if rw_cancelled w \<or> rw_sched w = [] then Some canceled_err else None)"

text \<open>The ids that the operations of others mark.\<close>

fun marked_ids :: "outbox_env \<Rightarrow> (instant \<times> outbox_op) list \<Rightarrow> string list" where
  "marked_ids e [] = []"
| "marked_ids e ((now, op) # ops) =
     (case op of MarkPublished _ ids \<Rightarrow> (case parse_uuids (ox_scan e) ids of Inl _ \<Rightarrow> [] | Inr us \<Rightarrow> us) | _ \<Rightarrow> [])
     @ marked_ids e ops"

definition next_slot :: "relay_world \<Rightarrow> relay_slot \<times> relay_world" where
  "next_slot w = (case rw_sched w of
       [] \<Rightarrow> (idle_slot (rw_now w), w\<lparr>rw_cancelled := True\<rparr>)
     | s # ss \<Rightarrow> (s, w\<lparr>rw_sched := ss, rw_now := sl_now s, rw_cancelled := rw_cancelled w \<or> sl_cancel s,
         rw_rows := exec_outbox_all (rw_env w) (sl_others s) (rw_rows w),
         rw_marked := marked_ids (rw_env w) (sl_others s) @ rw_marked w\<rparr>))"

text \<open>A statement under a context: one that has ended refuses the caller's calls.\<close>

definition store_call ::
  "ctx \<Rightarrow> (outbox_env \<Rightarrow> relay_slot \<Rightarrow> outbox_row list \<Rightarrow> 'a ob_result) \<Rightarrow> relay_world \<Rightarrow> relay_world \<times> (gerr + 'a)" where
  "store_call c f w =
     (case next_slot w of (s, w1) \<Rightarrow>
        if c = CallerCtx \<and> world_ctx_err w \<noteq> None then (w1, Inl (Wrap canceled_err))
        else case f (rw_env w1) s (rw_rows w1) of
          Inl x \<Rightarrow> (w1, Inl x)
        | Inr (rows', a) \<Rightarrow>
            (case sl_fault s of
               None \<Rightarrow> (w1\<lparr>rw_rows := rows'\<rparr>, Inr a)
             | Some x \<Rightarrow> (if sl_applied s then w1\<lparr>rw_rows := rows'\<rparr> else w1, Inl x)))"

definition world_token :: "relay_world \<Rightarrow> relay_world \<times> (gerr + string)" where
  "world_token w =
     (case next_slot w of (s, w1) \<Rightarrow>
        (case sl_token s of Inl x \<Rightarrow> (w1, Inl x) | Inr t \<Rightarrow> (w1\<lparr>rw_drawn := t # rw_drawn w1\<rparr>, Inr t)))"

definition world_publish :: "outbox_event \<Rightarrow> relay_world \<Rightarrow> relay_world \<times> gerr option" where
  "world_publish ev w =
     (case next_slot w of (s, w1) \<Rightarrow>
        (case sl_broker s of None \<Rightarrow> (w1\<lparr>rw_accepted := ev # rw_accepted w1\<rparr>, None) | Some x \<Rightarrow> (w1, Some x)))"

text \<open>\<open>Relay\<close> with \<open>OutboxRepository\<close> as its store.\<close>

definition outbox_deps :: "relay_world relay_deps" where
  "outbox_deps = \<lparr>
     rl_new_token = world_token,
     rl_ctx_err = world_ctx_err,
     rl_claim = (\<lambda>t n lease. store_call CallerCtx (\<lambda>e s. claim_batch e (sl_now s) (sl_locked s) (sl_order s) t n lease)),
     rl_mark = (\<lambda>c t ids. store_call c (\<lambda>e s. mark_published e (sl_now s) t ids)),
     rl_fail = (\<lambda>t i txt m b. store_call CallerCtx (\<lambda>e s. record_failure e (sl_now s) t i txt m b)),
     rl_release = (\<lambda>c t ids. store_call c (\<lambda>e s. release_claims e (sl_now s) t ids)),
     rl_publish = world_publish,
     rl_error_text = (\<lambda>_. ''publish failed''),
     rl_sleep = (\<lambda>_ w. snd (next_slot w))\<rparr>"

definition op_token :: "outbox_op \<Rightarrow> string option" where
  "op_token op = (case op of ClaimBatch _ _ t _ _ \<Rightarrow> Some t | MarkPublished t _ \<Rightarrow> Some t
     | RecordFailure t _ _ _ _ \<Rightarrow> Some t | ReleaseClaims t _ \<Rightarrow> Some t | _ \<Rightarrow> None)"

text \<open>An operation that carries another token than \<open>t\<close>.\<close>

definition avoids :: "outbox_env \<Rightarrow> string \<Rightarrow> outbox_op \<Rightarrow> bool" where
  "avoids e t op \<longleftrightarrow> (case op_token op of None \<Rightarrow> True
     | Some k \<Rightarrow> \<not> is_ok (parse_claim_token e k) \<or> parse_claim_token e k \<noteq> parse_claim_token e t)"

definition own_tokens :: "relay_world \<Rightarrow> string set" where
  "own_tokens w = set (rw_drawn w) \<union> {t. Inr t \<in> sl_token ` set (rw_sched w)}"

definition canonical_id :: "outbox_env \<Rightarrow> string \<Rightarrow> bool" where
  "canonical_id e i \<longleftrightarrow> parse_uuid (ox_scan e) i = Inr i"

definition orders_rows :: "relay_slot \<Rightarrow> bool" where
  "orders_rows s \<longleftrightarrow> (\<forall>xs. mset (sl_order s xs) = mset xs)"

definition others_avoid :: "outbox_env \<Rightarrow> string set \<Rightarrow> relay_slot list \<Rightarrow> bool" where
  "others_avoid e T sched \<longleftrightarrow> (\<forall>s \<in> set sched. \<forall>o1 \<in> set (sl_others s). \<forall>t \<in> T. avoids e t (snd o1))"

lemma others_avoid_Cons [simp]:
  "others_avoid e T (s # ss) \<longleftrightarrow> (\<forall>o1 \<in> set (sl_others s). \<forall>t \<in> T. avoids e t (snd o1)) \<and> others_avoid e T ss"
  by (auto simp: others_avoid_def)

lemma others_avoid_mono: "others_avoid e T ss \<Longrightarrow> U \<subseteq> T \<Longrightarrow> others_avoid e U ss"
  unfolding others_avoid_def by blast

definition world_inv :: "relay_world \<Rightarrow> bool" where
  "world_inv w \<longleftrightarrow> outbox_inv (rw_rows w) \<and> canonical_scan (ox_scan (rw_env w)) \<and>
     (\<forall>r \<in> set (rw_rows w). canonical_id (rw_env w) (or_id r)) \<and>
     (\<forall>s \<in> set (rw_sched w). orders_rows s) \<and>
     others_avoid (rw_env w) (own_tokens w) (rw_sched w)"

definition held_ids :: "relay_world \<Rightarrow> string \<Rightarrow> string set" where
  "held_ids w t = {i. \<exists>r \<in> set (rw_rows w). or_id r = i \<and> or_claim_token r \<noteq> None \<and>
     parse_claim_token (rw_env w) t = Inr (the (or_claim_token r))}"

definition processed_ids :: "relay_world \<Rightarrow> string set" where
  "processed_ids w = {i. \<exists>r \<in> set (rw_rows w). or_id r = i \<and> or_status r = EventProcessed}"

definition outbox_view :: "relay_world relay_view" where
  "outbox_view = \<lparr>
     vw_inv = world_inv,
     vw_drawn = (\<lambda>w t. t \<in> set (rw_drawn w)),
     vw_mine = (\<lambda>w t. t \<in> own_tokens w),
     vw_held = held_ids,
     vw_processed = processed_ids,
     vw_accepted = (\<lambda>w. oe_id ` set (rw_accepted w)),
     vw_marked = (\<lambda>w. set (rw_marked w)),
     vw_known = (\<lambda>w. or_id ` set (rw_rows w))\<rparr>"

lemmas outbox_view_simps [simp] =
  outbox_view_def [THEN arg_cong [where f = vw_inv], simplified]
  outbox_view_def [THEN arg_cong [where f = vw_drawn], simplified]
  outbox_view_def [THEN arg_cong [where f = vw_mine], simplified]
  outbox_view_def [THEN arg_cong [where f = vw_held], simplified]
  outbox_view_def [THEN arg_cong [where f = vw_processed], simplified]
  outbox_view_def [THEN arg_cong [where f = vw_accepted], simplified]
  outbox_view_def [THEN arg_cong [where f = vw_marked], simplified]
  outbox_view_def [THEN arg_cong [where f = vw_known], simplified]

subsection \<open>The table under the operations of others\<close>

definition held_rows :: "outbox_env \<Rightarrow> outbox_row list \<Rightarrow> string \<Rightarrow> string set" where
  "held_rows e rows t = {i. \<exists>r \<in> set rows. or_id r = i \<and> or_claim_token r \<noteq> None \<and>
     parse_claim_token e t = Inr (the (or_claim_token r))}"

definition processed_rows :: "outbox_row list \<Rightarrow> string set" where
  "processed_rows rows = {i. \<exists>r \<in> set rows. or_id r = i \<and> or_status r = EventProcessed}"

definition good_rows :: "outbox_env \<Rightarrow> outbox_row list \<Rightarrow> bool" where
  "good_rows e rows \<longleftrightarrow> outbox_inv rows \<and> canonical_scan (ox_scan e) \<and> (\<forall>r \<in> set rows. canonical_id e (or_id r))"

lemma held_ids_rows: "held_ids w t = held_rows (rw_env w) (rw_rows w) t"
  by (simp add: held_ids_def held_rows_def)

lemma processed_ids_rows: "processed_ids w = processed_rows (rw_rows w)"
  by (simp add: processed_ids_def processed_rows_def)

lemma canonical_parse: "canonical_scan (ox_scan e) \<Longrightarrow> parse_uuid (ox_scan e) s = Inr u \<Longrightarrow> canonical_id e u"
proof -
  assume c: "canonical_scan (ox_scan e)" and p: "parse_uuid (ox_scan e) s = Inr u"
  from p have "ox_scan e (trim_space s) = Some u" by (auto simp: parse_uuid_def Let_def split: if_splits option.splits)
  with c have "trim_space u = u" "u \<noteq> []" "ox_scan e u = Some u" by (auto simp: canonical_scan_def)
  then show ?thesis by (simp add: canonical_id_def parse_uuid_def)
qed

lemma canonical_parses: "\<forall>i \<in> set ids. canonical_id e i \<Longrightarrow> parse_uuids (ox_scan e) ids = Inr us \<Longrightarrow> us = ids"
  by (induction ids arbitrary: us) (auto simp: bindr_Inr_iff canonical_id_def)

lemma ids_update_set: "(\<And>x. or_id (f x) = or_id x) \<Longrightarrow> or_id ` set (update_events sel f rows) = or_id ` set rows"
  by (metis ids_update image_set)

lemma step_known: "outbox_step e now op rows rows' \<Longrightarrow> or_id ` set rows \<subseteq> or_id ` set rows'"
proof (induction rule: outbox_step.cases)
  case (step_insert rs rows rows' op)
  then show ?case using insert_events_Inr [of e rs rows rows'] by auto
qed (simp_all add: ids_update_set)

lemma step_good: "outbox_step e now op rows rows' \<Longrightarrow> good_rows e rows \<Longrightarrow> good_rows e rows'"
proof -
  assume step: "outbox_step e now op rows rows'" and good: "good_rows e rows"
  have "\<forall>r \<in> set rows'. canonical_id e (or_id r)" using step
  proof (cases rule: outbox_step.cases)
    case (step_insert rs)
    then have "rows' = rows @ rs" "\<forall>r \<in> set rs. canonical_id e (or_id r)"
      using insert_events_Inr [of e rs rows rows'] good canonical_parse by (auto simp: good_rows_def new_row_def)
    then show ?thesis using good by (auto simp: good_rows_def)
  qed (use good in \<open>auto simp: good_rows_def update_events_def\<close>)
  then show ?thesis using good outbox_step_inv [OF step] by (simp add: good_rows_def)
qed

lemma step_processed:
  "outbox_step e now op rows rows' \<Longrightarrow> processed_rows rows' \<subseteq> processed_rows rows \<union> set (marked_ids e [(now, op)])"
proof (induction rule: outbox_step.cases)
  case (step_insert rs rows rows' op)
  then show ?case using insert_events_Inr [of e rs rows rows'] by (auto simp: processed_rows_def new_row_def fresh_row_def)
next
  case (step_claim token t cs locked n rows ord d)
  then show ?case by (auto simp: processed_rows_def update_events_def claim_event_def split: if_splits)
next
  case (step_mark token t ids us rows)
  then show ?case by (auto simp: processed_rows_def update_events_def owned_def)
next
  case (step_fail token t i c m d rows us)
  then show ?case by (auto simp: processed_rows_def update_events_def fail_event_def split: if_splits)
next
  case (step_release token t ids rows us)
  then show ?case by (auto simp: processed_rows_def update_events_def release_event_def split: if_splits)
qed auto

text \<open>What an operation lets a token gain: nothing, unless it is a claim with that token.\<close>

lemma step_held:
  assumes "outbox_step e now op rows rows'"
    "\<And>locked ord k n d. op = ClaimBatch locked ord k n d \<Longrightarrow> is_ok (parse_claim_token e k) \<Longrightarrow> parse_claim_token e k \<noteq> parse_claim_token e t"
  shows "held_rows e rows' t \<subseteq> held_rows e rows t"
  using assms(1)
proof (cases rule: outbox_step.cases)
  case (step_insert rs)
  then show ?thesis using insert_events_Inr [of e rs rows rows'] by (auto simp: held_rows_def new_row_def fresh_row_def)
next
  case (step_claim token k cs locked n ord d)
  with assms(2) have "parse_claim_token e t \<noteq> Inr k" by auto
  with step_claim show ?thesis by (auto simp: held_rows_def update_events_def claim_event_def split: if_splits)
qed (auto simp: held_rows_def update_events_def mark_event_def fail_event_def release_event_def split: if_splits)

lemma others_run:
  "good_rows e rows \<Longrightarrow> good_rows e (exec_outbox_all e ops rows) \<and>
     or_id ` set rows \<subseteq> or_id ` set (exec_outbox_all e ops rows) \<and>
     processed_rows (exec_outbox_all e ops rows) \<subseteq> processed_rows rows \<union> set (marked_ids e ops) \<and>
     ((\<forall>o1 \<in> set ops. avoids e t (snd o1)) \<longrightarrow> held_rows e (exec_outbox_all e ops rows) t \<subseteq> held_rows e rows t)"
proof (induction ops arbitrary: rows)
  case (Cons no ops)
  obtain now op where no: "no = (now, op)" by (cases no)
  let ?r = "exec_outbox e now op rows"
  note step = exec_outbox_step [of e now op rows]
  note good = step_good [OF step Cons.prems]
  note IH = Cons.IH [OF good]
  have held: "held_rows e ?r t \<subseteq> held_rows e rows t" if "avoids e t op"
    by (rule step_held [OF step]) (use that in \<open>simp add: avoids_def op_token_def\<close>)
  have m: "set (marked_ids e ((now, op) # ops)) = set (marked_ids e [(now, op)]) \<union> set (marked_ids e ops)" by simp
  have proc: "processed_rows (exec_outbox_all e ops ?r) \<subseteq> processed_rows ?r \<union> set (marked_ids e ops)"
    and known: "or_id ` set ?r \<subseteq> or_id ` set (exec_outbox_all e ops ?r)"
    by (rule conjunct1 [OF conjunct2 [OF conjunct2 [OF IH]]], rule conjunct1 [OF conjunct2 [OF IH]])
  show ?case unfolding no exec_outbox_all.simps m
  proof (intro conjI impI)
    show "good_rows e (exec_outbox_all e ops ?r)" using IH by blast
    show "or_id ` set rows \<subseteq> or_id ` set (exec_outbox_all e ops ?r)" by (rule order_trans [OF step_known [OF step] known])
    show "processed_rows (exec_outbox_all e ops ?r) \<subseteq> processed_rows rows \<union> (set (marked_ids e [(now, op)]) \<union> set (marked_ids e ops))"
      by (rule order_trans [OF proc]) (use step_processed [OF step] in \<open>auto simp del: marked_ids.simps\<close>)
    assume "\<forall>o1 \<in> set ((now, op) # ops). avoids e t (snd o1)"
    then have "avoids e t op" "\<forall>o1 \<in> set ops. avoids e t (snd o1)" by auto
    then show "held_rows e (exec_outbox_all e ops ?r) t \<subseteq> held_rows e rows t" using IH held by blast
  qed
qed auto

text \<open>One slot of the schedule.\<close>

lemma world_inv_good: "world_inv w \<Longrightarrow> good_rows (rw_env w) (rw_rows w)"
  by (simp add: world_inv_def good_rows_def)

lemma slot_law:
  assumes "world_inv w" "next_slot w = (s, w1)"
  shows "sane outbox_view {} w w1" "steady outbox_view w w1" "orders_rows s" "rw_env w1 = rw_env w"
    "rw_drawn w1 = rw_drawn w" "\<And>t. sl_token s = Inr t \<Longrightarrow> t \<in> own_tokens w"
proof -
  have "sane outbox_view {} w w1 \<and> steady outbox_view w w1 \<and> orders_rows s \<and> rw_env w1 = rw_env w \<and>
    rw_drawn w1 = rw_drawn w \<and> (\<forall>t. sl_token s = Inr t \<longrightarrow> t \<in> own_tokens w)"
  proof (cases "rw_sched w")
    case Nil
    with assms show ?thesis
      by (auto simp: next_slot_def sane_def steady_def world_inv_def own_tokens_def held_ids_def processed_ids_def
          orders_rows_def idle_slot_def)
  next
    case (Cons s' ss)
    with assms(2) have s: "s' = s" and w1: "w1 = w\<lparr>rw_sched := ss, rw_now := sl_now s, rw_cancelled := rw_cancelled w \<or> sl_cancel s,
         rw_rows := exec_outbox_all (rw_env w) (sl_others s) (rw_rows w),
         rw_marked := marked_ids (rw_env w) (sl_others s) @ rw_marked w\<rparr>" by (auto simp: next_slot_def)
    note run = others_run [OF world_inv_good [OF assms(1)], of "sl_others s"]
    have own: "own_tokens w1 \<subseteq> own_tokens w" using Cons by (auto simp: w1 own_tokens_def)
    have av: "others_avoid (rw_env w) (own_tokens w) (s # ss)"
      and ord: "\<forall>s \<in> set (rw_sched w). orders_rows s" using assms(1) Cons s by (simp_all add: world_inv_def)
    have inv: "world_inv w1" unfolding world_inv_def
    proof (intro conjI)
      show "outbox_inv (rw_rows w1)" "canonical_scan (ox_scan (rw_env w1))"
        "\<forall>r \<in> set (rw_rows w1). canonical_id (rw_env w1) (or_id r)"
        using run by (simp_all add: w1 good_rows_def)
      show "\<forall>s \<in> set (rw_sched w1). orders_rows s" using ord Cons by (simp add: w1)
      show "others_avoid (rw_env w1) (own_tokens w1) (rw_sched w1)"
        using others_avoid_mono [OF _ own] av by (simp add: w1)
    qed
    have held: "held_ids w1 t \<subseteq> held_ids w t" if "t \<in> own_tokens w1" for t
    proof -
      have "t \<in> own_tokens w" using own that by blast
      then have "\<forall>o1 \<in> set (sl_others s). avoids (rw_env w) t (snd o1)" using av by simp
      then show ?thesis using others_run [OF world_inv_good [OF assms(1)], of "sl_others s" t]
        by (simp add: held_ids_rows w1)
    qed
    have "sane outbox_view {} w w1"
      unfolding sane_def using inv own run by (auto simp: w1 processed_ids_rows)
    moreover have "steady outbox_view w w1" using held by (simp add: steady_def)
    ultimately show ?thesis using ord Cons s by (force simp: w1 own_tokens_def)
  qed
  then show "sane outbox_view {} w w1" "steady outbox_view w w1" "orders_rows s" "rw_env w1 = rw_env w"
    "rw_drawn w1 = rw_drawn w" "\<And>t. sl_token s = Inr t \<Longrightarrow> t \<in> own_tokens w" by auto
qed

text \<open>A statement of the relay on a world.\<close>

lemma world_rows_law:
  assumes "world_inv w" "outbox_step (rw_env w) now op (rw_rows w) rows'" "set (marked_ids (rw_env w) [(now, op)]) \<subseteq> S"
  shows "sane outbox_view S w (w\<lparr>rw_rows := rows'\<rparr>)"
proof -
  note good = step_good [OF assms(2) world_inv_good [OF assms(1)]]
  have own: "own_tokens (w\<lparr>rw_rows := rows'\<rparr>) = own_tokens w" by (simp add: own_tokens_def)
  have "world_inv (w\<lparr>rw_rows := rows'\<rparr>)"
    using good assms(1) unfolding world_inv_def own by (simp add: good_rows_def)
  then show ?thesis using step_known [OF assms(2)] step_processed [OF assms(2)] assms(3) own
    unfolding sane_def by (auto simp: processed_ids_rows simp del: marked_ids.simps)
qed

text \<open>What holds of every store call: it is a slot, then possibly one statement, an own operation.\<close>

lemma store_call_cases:
  assumes "store_call c f w = (w', r)"
  obtains (refused) s x where "next_slot w = (s, w')" "r = Inl x"
  | (applied) s w1 rows' a where "next_slot w = (s, w1)" "f (rw_env w1) s (rw_rows w1) = Inr (rows', a)"
      "w' = w1\<lparr>rw_rows := rows'\<rparr>" "r = Inr a \<or> (\<exists>x. r = Inl x)"
proof -
  obtain s w1 where s: "next_slot w = (s, w1)" by (cases "next_slot w")
  show thesis
  proof (cases "c = CallerCtx \<and> world_ctx_err w \<noteq> None")
    case True
    then show thesis using assms s by (intro refused [of s "Wrap canceled_err"]) (auto simp: store_call_def)
  next
    case ctx: False
    show thesis
    proof (cases "f (rw_env w1) s (rw_rows w1)")
      case (Inl x)
      then have "(w', r) = (w1, Inl x)" using assms s by (simp only: store_call_def ctx split_conv if_False sum.case)
      then show thesis using s by (intro refused) auto
    next
      case (Inr p)
      obtain rows' a where p: "p = (rows', a)" by (cases p)
      then have e: "(w', r) = (case sl_fault s of None \<Rightarrow> (w1\<lparr>rw_rows := rows'\<rparr>, Inr a)
          | Some x \<Rightarrow> (if sl_applied s then w1\<lparr>rw_rows := rows'\<rparr> else w1, Inl x))"
        using assms s Inr by (simp only: store_call_def ctx split_conv if_False sum.case)
      show thesis
      proof (cases "sl_fault s = None \<or> sl_applied s")
        case True
        with e show thesis by (intro applied [OF s Inr [unfolded p]]) (auto split: option.splits)
      next
        case False
        with e show thesis using s by (auto intro: refused)
      qed
    qed
  qed
qed

lemma store_call_sane:
  assumes "world_inv w" "store_call c f w = (w', r)"
    and step: "\<And>s w1 rows' a. next_slot w = (s, w1) \<Longrightarrow> f (rw_env w1) s (rw_rows w1) = Inr (rows', a) \<Longrightarrow>
      \<exists>op. outbox_step (rw_env w1) (sl_now s) op (rw_rows w1) rows' \<and> set (marked_ids (rw_env w1) [(sl_now s, op)]) \<subseteq> S"
  shows "sane outbox_view S w w'"
  using assms(2)
proof (cases rule: store_call_cases)
  case (refused s x)
  with slot_law(1) [OF assms(1)] show ?thesis by (blast intro: sane_mono)
next
  case (applied s w1 rows' a)
  obtain op where op: "outbox_step (rw_env w1) (sl_now s) op (rw_rows w1) rows'" "set (marked_ids (rw_env w1) [(sl_now s, op)]) \<subseteq> S"
    using step [OF applied(1,2)] by blast
  note s1 = slot_law(1) [OF assms(1) applied(1)]
  have "world_inv w1" using sane_inv [OF s1] by simp
  from sane_trans [OF s1 world_rows_law [OF this op] _ subset_refl] show ?thesis by (simp add: applied(3))
qed

lemma store_call_steady:
  assumes "world_inv w" "store_call c f w = (w', r)"
    and step: "\<And>s w1 rows' a. next_slot w = (s, w1) \<Longrightarrow> f (rw_env w1) s (rw_rows w1) = Inr (rows', a) \<Longrightarrow>
      \<exists>op. outbox_step (rw_env w1) (sl_now s) op (rw_rows w1) rows' \<and>
        (\<forall>locked ord k n d. op \<noteq> ClaimBatch locked ord k n d)"
  shows "steady outbox_view w w'"
  using assms(2)
proof (cases rule: store_call_cases)
  case (refused s x)
  with slot_law(2) [OF assms(1)] show ?thesis by blast
next
  case (applied s w1 rows' a)
  obtain op where op: "outbox_step (rw_env w1) (sl_now s) op (rw_rows w1) rows'" "\<forall>locked ord k n d. op \<noteq> ClaimBatch locked ord k n d"
    using step [OF applied(1,2)] by blast
  have held: "held_rows (rw_env w1) rows' t \<subseteq> held_rows (rw_env w1) (rw_rows w1) t" for t
    by (rule step_held [OF op(1)]) (use op(2) in blast)
  have own: "own_tokens w' = own_tokens w1" by (simp add: applied(3) own_tokens_def)
  have "held_ids w' t \<subseteq> held_ids w1 t" for t using held [of t] by (simp add: held_ids_rows applied(3))
  then show ?thesis using slot_law(2) [OF assms(1) applied(1)] own unfolding steady_def by (auto simp: subset_iff)
qed

lemma store_call_ok:
  assumes "store_call c f w = (w', Inr a)"
  obtains s w1 rows' where "next_slot w = (s, w1)" "f (rw_env w1) s (rw_rows w1) = Inr (rows', a)" "w' = w1\<lparr>rw_rows := rows'\<rparr>"
proof -
  obtain s w1 where s: "next_slot w = (s, w1)" by (cases "next_slot w")
  with assms have "\<not> (c = CallerCtx \<and> world_ctx_err w \<noteq> None)" by (auto simp: store_call_def split: if_splits)
  with assms s obtain rows' b where f: "f (rw_env w1) s (rw_rows w1) = Inr (rows', b)"
    by (cases "f (rw_env w1) s (rw_rows w1)") (auto simp: store_call_def split: if_splits)
  show thesis by (rule that [OF s]) (use assms s f in \<open>auto simp: store_call_def split: if_splits option.splits\<close>)
qed

text \<open>The four statements as steps.\<close>

lemma claim_batch_step:
  "claim_batch e now locked ord t n d rows = Inr (rows', evs) \<Longrightarrow> outbox_step e now (ClaimBatch locked ord t n d) rows rows'"
  using exec_outbox_step [of e now "ClaimBatch locked ord t n d" rows] by simp

lemma mark_published_step:
  "mark_published e now t ids rows = Inr (rows', n) \<Longrightarrow> outbox_step e now (MarkPublished t ids) rows rows'"
  using exec_outbox_step [of e now "MarkPublished t ids" rows] by simp

lemma record_failure_step:
  "record_failure e now t i c m d rows = Inr (rows', u) \<Longrightarrow> outbox_step e now (RecordFailure t i c m d) rows rows'"
  using exec_outbox_step [of e now "RecordFailure t i c m d" rows] by simp

lemma release_claims_step:
  "release_claims e now t ids rows = Inr (rows', u) \<Longrightarrow> outbox_step e now (ReleaseClaims t ids) rows rows'"
  using exec_outbox_step [of e now "ReleaseClaims t ids" rows] by simp

lemma known_canonical:
  "world_inv w \<Longrightarrow> set ids \<subseteq> or_id ` set (rw_rows w) \<Longrightarrow> \<forall>i \<in> set ids. canonical_id (rw_env w) i"
  by (auto simp: world_inv_def)

text \<open>After a mark or a release the token owns none of the rows it named.\<close>

lemma held_update_owned:
  assumes "parse_claim_token e token = Inr t" "\<And>x. or_claim_token (f x) = None"
  shows "held_rows e (update_events (owned t ids) f rows) token \<inter> set ids = {}"
  using assms by (auto simp: held_rows_def update_events_def owned_def)

lemma mark_released:
  assumes "\<forall>i \<in> set ids. canonical_id e i" "ids \<noteq> []" "mark_published e now token ids rows = Inr (rows', n)"
  shows "held_rows e rows' token \<inter> set ids = {}"
proof -
  from mark_published_Inr [OF assms(3)] assms(2) obtain t us where m: "parse_claim_token e token = Inr t"
    "parse_uuids (ox_scan e) ids = Inr us" "rows' = update_events (owned t us) (mark_event now) rows" by auto
  with canonical_parses [OF assms(1)] have "us = ids" by simp
  then show ?thesis using m held_update_owned [OF m(1), of "mark_event now" ids rows] by (simp add: mark_event_def)
qed

lemma release_released:
  assumes "\<forall>i \<in> set ids. canonical_id e i" "release_claims e now token ids rows = Inr (rows', u)"
  shows "held_rows e rows' token \<inter> set ids = {}"
proof -
  have "ids = [] \<or> (\<exists>t us. parse_claim_token e token = Inr t \<and> parse_uuids (ox_scan e) ids = Inr us \<and>
       rows' = update_events (owned t us) (release_event now) rows)"
    using release_claims_Inr [OF assms(2)] by auto
  then show ?thesis
  proof
    assume "\<exists>t us. parse_claim_token e token = Inr t \<and> parse_uuids (ox_scan e) ids = Inr us \<and>
       rows' = update_events (owned t us) (release_event now) rows"
    then obtain t us where m: "parse_claim_token e token = Inr t" "parse_uuids (ox_scan e) ids = Inr us"
      "rows' = update_events (owned t us) (release_event now) rows" by blast
    with canonical_parses [OF assms(1)] have "us = ids" by simp
    then show ?thesis using m held_update_owned [OF m(1), of "release_event now" ids rows] by (simp add: release_event_def)
  qed simp
qed

lemma failure_released:
  assumes "canonical_id e i" "record_failure e now token i c m d rows = Inr (rows', u)"
  shows "i \<notin> held_rows e rows' token"
proof -
  from record_failure_Inr [OF assms(2)] assms(1) obtain t where m: "parse_claim_token e token = Inr t"
    "rows' = update_events (owned t [i]) (fail_event now (optional_text c) d m) rows" by (auto simp: canonical_id_def)
  then show ?thesis using held_update_owned [OF m(1), of "fail_event now (optional_text c) d m" "[i]" rows]
    by (simp add: fail_event_def)
qed

subsection \<open>The repository keeps the laws\<close>

lemma next_slot_budget: "next_slot w = (s, w1) \<Longrightarrow> length (rw_sched w1) \<le> length (rw_sched w)"
  by (auto simp: next_slot_def split: list.splits)

lemma store_call_budget: "length (rw_sched (fst (store_call c f w))) \<le> length (rw_sched w)"
proof -
  obtain w' r where c: "store_call c f w = (w', r)" by (cases "store_call c f w")
  then show ?thesis by (cases rule: store_call_cases) (auto dest: next_slot_budget simp: c)
qed

lemma outbox_deps_simps [simp]:
  "rl_new_token outbox_deps = world_token"
  "rl_ctx_err outbox_deps = world_ctx_err"
  "rl_claim outbox_deps t n lease = store_call CallerCtx (\<lambda>e s. claim_batch e (sl_now s) (sl_locked s) (sl_order s) t n lease)"
  "rl_mark outbox_deps c t ids = store_call c (\<lambda>e s. mark_published e (sl_now s) t ids)"
  "rl_fail outbox_deps t i tx m b = store_call CallerCtx (\<lambda>e s. record_failure e (sl_now s) t i tx m b)"
  "rl_release outbox_deps c t ids = store_call c (\<lambda>e s. release_claims e (sl_now s) t ids)"
  "rl_publish outbox_deps = world_publish"
  "rl_sleep outbox_deps b = (\<lambda>w. snd (next_slot w))"
  by (simp_all add: outbox_deps_def)

lemma world_token_law:
  assumes "world_inv w" "world_token w = (w', r)"
  shows "sane outbox_view {} w w' \<and> steady outbox_view w w' \<and> (\<forall>t. r = Inr t \<longrightarrow> t \<in> set (rw_drawn w'))"
proof -
  obtain s w1 where s: "next_slot w = (s, w1)" by (cases "next_slot w")
  note law = slot_law [OF assms(1) s]
  show ?thesis
  proof (cases "sl_token s")
    case (Inl x)
    with assms(2) s have "w' = w1" "r = Inl x" by (auto simp: world_token_def)
    with law show ?thesis by simp
  next
    case (Inr t)
    with assms(2) s have w': "w' = w1\<lparr>rw_drawn := t # rw_drawn w1\<rparr>" "r = Inr t" by (auto simp: world_token_def)
    have t: "t \<in> own_tokens w" by (rule law(6) [OF Inr])
    have "own_tokens w1 \<subseteq> own_tokens w" using law(1) by (auto simp: sane_def)
    then have own: "own_tokens w' \<subseteq> own_tokens w" using t by (auto simp: w' own_tokens_def)
    have inv1: "world_inv w1" using sane_inv [OF law(1)] by simp
    have sched: "rw_sched w = [] \<and> rw_sched w1 = [] \<or> rw_sched w = s # rw_sched w1"
      using s by (auto simp: next_slot_def split: list.splits)
    have av: "others_avoid (rw_env w) (own_tokens w) (rw_sched w)" using assms(1) by (simp add: world_inv_def)
    then have "others_avoid (rw_env w) (own_tokens w) (rw_sched w1)" using sched by auto
    then have "others_avoid (rw_env w') (own_tokens w') (rw_sched w')"
      using others_avoid_mono [OF _ own] law(4) by (simp add: w')
    then have inv: "world_inv w'" using inv1 unfolding world_inv_def by (simp add: w')
    have sane: "sane outbox_view {} w w'"
      using law(1,5) inv own unfolding sane_def by (auto simp: w' processed_ids_def)
    have h: "held_ids w' k = held_ids w1 k" for k by (simp add: held_ids_def w')
    have "held_ids w' k \<subseteq> held_ids w k" if "k \<in> own_tokens w'" for k
    proof (cases "k \<in> own_tokens w1")
      case True
      then show ?thesis using law(2) h by (auto simp: steady_def)
    next
      case False
      with that have k: "k = t" by (auto simp: w' own_tokens_def)
      have "rw_sched w \<noteq> []" using Inr s by (auto simp: next_slot_def idle_slot_def)
      then have "others_avoid (rw_env w) (own_tokens w) (s # rw_sched w1)" using av sched by simp
      then have "\<forall>o1 \<in> set (sl_others s). avoids (rw_env w) t (snd o1)" using t by simp
      then have "held_rows (rw_env w) (exec_outbox_all (rw_env w) (sl_others s) (rw_rows w)) t \<subseteq> held_rows (rw_env w) (rw_rows w) t"
        using others_run [OF world_inv_good [OF assms(1)], of "sl_others s" t] by blast
      moreover have "rw_rows w1 = exec_outbox_all (rw_env w) (sl_others s) (rw_rows w)"
        using s by (auto simp: next_slot_def idle_slot_def split: list.splits)
      ultimately show ?thesis using h law(4) by (simp add: held_ids_rows k)
    qed
    then show ?thesis using sane w' by (simp add: steady_def)
  qed
qed

lemma world_publish_law:
  assumes "world_inv w" "world_publish ev w = (w', p)"
  shows "sane outbox_view {} w w' \<and> steady outbox_view w w' \<and> (p = None \<longrightarrow> oe_id ev \<in> oe_id ` set (rw_accepted w'))"
proof -
  obtain s w1 where s: "next_slot w = (s, w1)" by (cases "next_slot w")
  note law = slot_law [OF assms(1) s]
  show ?thesis
  proof (cases "sl_broker s")
    case None
    with assms(2) s have w': "w' = w1\<lparr>rw_accepted := ev # rw_accepted w1\<rparr>" "p = None" by (auto simp: world_publish_def)
    have own: "own_tokens w' = own_tokens w1" "held_ids w' = held_ids w1" "processed_ids w' = processed_ids w1"
      by (auto simp: w' own_tokens_def held_ids_def processed_ids_def fun_eq_iff)
    have "world_inv w1" using sane_inv [OF law(1)] by simp
    then have "world_inv w'" using own(1) unfolding world_inv_def by (simp add: w')
    with law(1,2) own show ?thesis by (auto simp: sane_def steady_def w')
  next
    case (Some x)
    with assms(2) s have "w' = w1" "p = Some x" by (auto simp: world_publish_def)
    with law show ?thesis by simp
  qed
qed

lemma world_claim_law:
  assumes "world_inv w" "store_call CallerCtx (\<lambda>e s. claim_batch e (sl_now s) (sl_locked s) (sl_order s) t n lease) w = (w', r)"
  shows "sane outbox_view {} w w' \<and>
    (\<forall>evs. r = Inr evs \<longrightarrow> int (length evs) \<le> n \<and> set (event_ids evs) \<subseteq> or_id ` set (rw_rows w') \<and>
       (\<forall>k. k \<in> own_tokens w' \<longrightarrow> held_ids w' k \<subseteq> held_ids w k \<union> set (event_ids evs)))"
proof (intro conjI allI impI)
  show sane: "sane outbox_view {} w w'"
    by (rule store_call_sane [OF assms], intro exI conjI, erule claim_batch_step, simp)
  fix evs assume r: "r = Inr evs"
  obtain s w1 rows' where s: "next_slot w = (s, w1)"
    and f: "claim_batch (rw_env w1) (sl_now s) (sl_locked s) (sl_order s) t n lease (rw_rows w1) = Inr (rows', evs)"
    and w': "w' = w1\<lparr>rw_rows := rows'\<rparr>" by (rule store_call_ok [OF assms(2) [unfolded r]])
  note law = slot_law [OF assms(1) s]
  let ?cs = "batch_candidates (sl_now s) (sl_locked s) n (rw_rows w1)"
  from f obtain u where u: "parse_claim_token (rw_env w1) t = Inr u" "0 < n"
    "rows' = update_events (\<lambda>r. or_id r \<in> or_id ` set ?cs) (claim_event (sl_now s) u lease) (rw_rows w1)"
    "evs = map returned_event (sl_order s (map (claim_event (sl_now s) u lease) ?cs))"
    by (auto simp: claim_batch_Inr)
  have m: "mset (sl_order s xs) = mset xs" for xs using law(3) by (simp add: orders_rows_def)
  then have so: "set (sl_order s xs) = set xs" and lo: "length (sl_order s xs) = length xs" for xs
    by (metis set_mset_mset, metis size_mset)
  have ids: "set (event_ids evs) = or_id ` set ?cs"
    by (simp add: u(4) event_ids_def so image_image returned_event_def)
  have "length ?cs \<le> nat n" by (simp add: batch_candidates_def)
  then show "int (length evs) \<le> n" using u(2,4) lo by simp
  have "rw_rows w' = rows'" by (simp add: w')
  moreover have "or_id ` set rows' = or_id ` set (rw_rows w1)" unfolding u(3) by (simp add: ids_update_set)
  moreover have "set ?cs \<subseteq> set (rw_rows w1)" using set_batch_candidates by blast
  ultimately show "set (event_ids evs) \<subseteq> or_id ` set (rw_rows w')" unfolding ids by auto
  fix k assume k: "k \<in> own_tokens w'"
  then have "k \<in> own_tokens w1" by (simp add: w' own_tokens_def)
  then have "held_ids w1 k \<subseteq> held_ids w k" using law(2) by (simp add: steady_def)
  moreover have "held_ids w' k \<subseteq> held_ids w1 k \<union> set (event_ids evs)"
    unfolding ids by (auto simp: held_ids_def w' u(3) update_events_def split: if_splits)
  ultimately show "held_ids w' k \<subseteq> held_ids w k \<union> set (event_ids evs)" by blast
qed

lemma slot_known:
  "world_inv w \<Longrightarrow> next_slot w = (s, w1) \<Longrightarrow> set ids \<subseteq> or_id ` set (rw_rows w) \<Longrightarrow>
    \<forall>i \<in> set ids. canonical_id (rw_env w1) i"
  using slot_law(1) [of w s w1] by (intro known_canonical) (auto simp: sane_def)

lemma world_mark_law:
  assumes "world_inv w" "set ids \<subseteq> or_id ` set (rw_rows w)" "store_call c (\<lambda>e s. mark_published e (sl_now s) t ids) w = (w', r)"
  shows "sane outbox_view (set ids) w w' \<and> steady outbox_view w w' \<and> (is_ok r \<longrightarrow> held_ids w' t \<inter> set ids = {})"
proof (intro conjI impI)
  show "sane outbox_view (set ids) w w'"
  proof (rule store_call_sane [OF assms(1,3)])
    fix s w1 rows' a assume s: "next_slot w = (s, w1)" and f: "mark_published (rw_env w1) (sl_now s) t ids (rw_rows w1) = Inr (rows', a)"
    have "us = ids" if "parse_uuids (ox_scan (rw_env w1)) ids = Inr us" for us
      using canonical_parses [OF slot_known [OF assms(1) s assms(2)] that] .
    then have "set (marked_ids (rw_env w1) [(sl_now s, MarkPublished t ids)]) \<subseteq> set ids"
      by (cases "parse_uuids (ox_scan (rw_env w1)) ids") simp_all
    then show "\<exists>op. outbox_step (rw_env w1) (sl_now s) op (rw_rows w1) rows' \<and> set (marked_ids (rw_env w1) [(sl_now s, op)]) \<subseteq> set ids"
      using mark_published_step [OF f] by blast
  qed
  show "steady outbox_view w w'"
    by (rule store_call_steady [OF assms(1,3)], intro exI conjI, erule mark_published_step, simp)
  assume "is_ok r"
  then obtain n where r: "r = Inr n" by (cases r) auto
  obtain s w1 rows' where s: "next_slot w = (s, w1)" "mark_published (rw_env w1) (sl_now s) t ids (rw_rows w1) = Inr (rows', n)"
    "w' = w1\<lparr>rw_rows := rows'\<rparr>" by (rule store_call_ok [OF assms(3) [unfolded r]])
  show "held_ids w' t \<inter> set ids = {}"
    using mark_released [OF slot_known [OF assms(1) s(1) assms(2)] _ s(2)] by (cases "ids = []") (simp_all add: held_ids_rows s(3))
qed

lemma world_release_law:
  assumes "world_inv w" "set ids \<subseteq> or_id ` set (rw_rows w)" "store_call c (\<lambda>e s. release_claims e (sl_now s) t ids) w = (w', r)"
  shows "sane outbox_view {} w w' \<and> steady outbox_view w w' \<and> (is_ok r \<longrightarrow> held_ids w' t \<inter> set ids = {})"
proof (intro conjI impI)
  show "sane outbox_view {} w w'"
    by (rule store_call_sane [OF assms(1,3)], intro exI conjI, erule release_claims_step, simp)
  show "steady outbox_view w w'"
    by (rule store_call_steady [OF assms(1,3)], intro exI conjI, erule release_claims_step, simp)
  assume "is_ok r"
  then obtain n where r: "r = Inr n" by (cases r) auto
  obtain s w1 rows' where s: "next_slot w = (s, w1)" "release_claims (rw_env w1) (sl_now s) t ids (rw_rows w1) = Inr (rows', n)"
    "w' = w1\<lparr>rw_rows := rows'\<rparr>" by (rule store_call_ok [OF assms(3) [unfolded r]])
  show "held_ids w' t \<inter> set ids = {}"
    using release_released [OF slot_known [OF assms(1) s(1) assms(2)] s(2)] by (simp add: held_ids_rows s(3))
qed

lemma world_fail_law:
  assumes "world_inv w" "i \<in> or_id ` set (rw_rows w)" "store_call c (\<lambda>e s. record_failure e (sl_now s) t i tx m b) w = (w', r)"
  shows "sane outbox_view {} w w' \<and> steady outbox_view w w' \<and> (is_ok r \<longrightarrow> i \<notin> held_ids w' t)"
proof (intro conjI impI)
  show "sane outbox_view {} w w'"
    by (rule store_call_sane [OF assms(1,3)], intro exI conjI, erule record_failure_step, simp)
  show "steady outbox_view w w'"
    by (rule store_call_steady [OF assms(1,3)], intro exI conjI, erule record_failure_step, simp)
  assume "is_ok r"
  then obtain n where r: "r = Inr n" by (cases r) auto
  obtain s w1 rows' where s: "next_slot w = (s, w1)" "record_failure (rw_env w1) (sl_now s) t i tx m b (rw_rows w1) = Inr (rows', n)"
    "w' = w1\<lparr>rw_rows := rows'\<rparr>" by (rule store_call_ok [OF assms(3) [unfolded r]])
  have "canonical_id (rw_env w1) i" using slot_known [OF assms(1) s(1), of "[i]"] assms(2) by simp
  then show "i \<notin> held_ids w' t"
    using failure_released [OF _ s(2)] by (simp add: held_ids_rows s(3))
qed

interpretation outbox_relay: relay_shutdown outbox_deps outbox_view "\<lambda>w. length (rw_sched w)"
proof (unfold_locales, goal_cases)
  case (1 w w' r) then show ?case using world_token_law by simp
next
  case (2 w t) then show ?case by (simp add: own_tokens_def)
next
  case (3 w t n lease w' r) then show ?case using world_claim_law by simp
next
  case (4 w t ids c w' r) then show ?case using world_mark_law by simp
next
  case (5 w t i tx m b w' r) then show ?case using world_fail_law by simp
next
  case (6 w t ids c w' r) then show ?case using world_release_law by simp
next
  case (7 w ev w' p) then show ?case using world_publish_law by simp
next
  case (8 w b) then show ?case using slot_law(1,2) [of w "fst (next_slot w)" "snd (next_slot w)"] by simp
next
  case (9 w) then show ?case
    by (auto simp: world_ctx_err_def world_token_def next_slot_def split: list.splits if_splits sum.splits)
next
  case (15 b w) then show ?case by (simp add: next_slot_budget [of w "fst (next_slot w)"])
qed (auto simp: store_call_budget world_publish_def split: prod.splits option.splits dest: next_slot_budget)

subsection \<open>What the relay on the repository promises\<close>

text \<open>Claim C9. At-least-once, never before acceptance: whatever other relays and writers do between its
  calls, whatever fails, and wherever it is cancelled, an event that became PROCESSED during a
  \<open>RunOnce\<close> was accepted by the broker or marked by another relay; the table stays consistent.\<close>

theorem relay_marks_only_accepted:
  assumes "world_inv w" "run_once outbox_deps cfg w = (w', res)"
  shows "world_inv w' \<and> processed_ids w' \<subseteq> processed_ids w \<union> oe_id ` set (rw_accepted w') \<union> set (rw_marked w')"
  using outbox_relay.run_once_safe [of w cfg w' res] assms by (simp add: safe_def sane_def)


text \<open>Claim C30. \<open>Run\<close> ends when its context does: for every finite course of events, \<open>Run\<close> returns, with
  the context cancelled; it never returns a mere cancellation as an error, and over its whole life
  only accepted events were marked.\<close>

theorem relay_run_returns:
  assumes "world_inv w"
  shows "\<exists>w' err. run_relay outbox_deps cfg w = Some (w', err) \<and> world_ctx_err w' \<noteq> None \<and>
    (\<forall>x. err = Some x \<longrightarrow> \<not> only_canceled x) \<and> world_inv w' \<and>
    processed_ids w' \<subseteq> processed_ids w \<union> oe_id ` set (rw_accepted w') \<union> set (rw_marked w')"
proof -
  obtain y where y: "relay_loop outbox_deps cfg 0 w = Some y"
    using outbox_relay.relay_loop_returns [of w cfg 0] assms by auto
  with outbox_relay.relay_loop_safe [OF y] assms show ?thesis
    by (cases y) (auto simp: run_relay_def safe_def sane_def)
qed

text \<open>A configuration that \<open>Validate\<close> accepts gives claims the repository accepts and, for any
  number of earlier attempts, a retry delay that is positive and at most the configured maximum.\<close>

theorem relay_config_bounds:
  assumes "validate_config cfg = Inr ()"
  shows "1 \<le> rc_batch_size cfg \<and> rc_batch_size cfg \<le> max_batch_size \<and> to_int32 (rc_batch_size cfg) = Inr (rc_batch_size cfg) \<and>
    0 < sint (rc_lease cfg) \<and> 1 \<le> rc_max_attempts cfg \<and>
    0 < sint (exponential attempt (rc_base_backoff cfg) (rc_max_backoff cfg)) \<and>
    sint (exponential attempt (rc_base_backoff cfg) (rc_max_backoff cfg)) \<le> sint (rc_max_backoff cfg)"
proof -
  from assms have "0 <s rc_base_backoff cfg" "0 <s rc_max_backoff cfg"
    by (auto simp: validate_config_def Let_def signed_simps)
  with exponential_bounds assms show ?thesis
    by (auto simp: validate_config_def Let_def signed_simps to_int32_def max_batch_size_def)
qed

subsection \<open>Witnesses\<close>

definition canonical_demo :: scanner where
  "canonical_demo s = (if s \<noteq> [] \<and> trim_space s = s then Some s else None)"

lemma canonical_demo: "canonical_scan canonical_demo"
  by (simp add: canonical_scan_def canonical_demo_def)

definition demo_relay_env :: outbox_env where
  "demo_relay_env = demo_outbox_env\<lparr>ox_scan := canonical_demo\<rparr>"

definition demo_relay_rows :: "outbox_row list" where
  "demo_relay_rows = exec_outbox_all demo_relay_env
     [(10, CreateProductChanged [demo_change ''e1'', demo_change ''e2''])] []"

definition demo_slot :: "instant \<Rightarrow> relay_slot" where
  "demo_slot now = \<lparr>sl_others = [], sl_now = now, sl_locked = (\<lambda>_. False), sl_order = rev, sl_fault = None,
     sl_applied = True, sl_token = Inr ''t1'', sl_broker = None, sl_cancel = False\<rparr>"

text \<open>Another relay claims nothing it can reach; the broker refuses the second event once.\<close>

definition demo_world :: "relay_slot list \<Rightarrow> relay_world" where
  "demo_world sched = \<lparr>rw_env = demo_relay_env, rw_rows = demo_relay_rows, rw_now = 10, rw_cancelled = False,
     rw_drawn = [], rw_accepted = [], rw_marked = [], rw_sched = sched\<rparr>"

definition demo_sched :: "relay_slot list" where
  "demo_sched = [demo_slot 20, demo_slot 30, demo_slot 40,
     (demo_slot 50)\<lparr>sl_others := [(45, ClaimBatch (\<lambda>_. False) rev ''t2'' 5 9000)], sl_broker := Some (Opaque ''bad'')\<rparr>,
     demo_slot 60, demo_slot 70]"

definition demo_cfg :: relay_config where
  "demo_cfg = \<lparr>rc_batch_size = 10, rc_poll_interval = 1000, rc_lease = 60000, rc_base_backoff = 1000,
     rc_max_backoff = 8000, rc_max_attempts = 3\<rparr>"

lemma demo_rows_good: "outbox_inv demo_relay_rows" "\<forall>r \<in> set demo_relay_rows. canonical_id demo_relay_env (or_id r)"
  unfolding demo_relay_rows_def by (rule exec_outbox_all_inv, simp) code_simp

lemma demo_world_inv:
  "\<forall>s \<in> set sched. orders_rows s \<Longrightarrow> others_avoid demo_relay_env {t. Inr t \<in> sl_token ` set sched} sched \<Longrightarrow> world_inv (demo_world sched)"
  using demo_rows_good canonical_demo
  by (simp add: world_inv_def demo_world_def own_tokens_def demo_relay_env_def)

lemma demo_orders: "orders_rows (demo_slot now)"
  by (simp add: orders_rows_def demo_slot_def)

lemma demo_sched_inv: "world_inv (demo_world demo_sched)"
proof (rule demo_world_inv)
  show "\<forall>s \<in> set demo_sched. orders_rows s"
    by (simp add: demo_sched_def orders_rows_def demo_slot_def)
  have "parse_claim_token demo_relay_env ''t2'' \<noteq> parse_claim_token demo_relay_env ''t1''" by code_simp
  then show "others_avoid demo_relay_env {t. Inr t \<in> sl_token ` set demo_sched} demo_sched"
    by (simp add: demo_sched_def demo_slot_def others_avoid_def avoids_def op_token_def)
qed

definition demo_once :: "relay_world \<times> once_result" where
  "demo_once = run_once outbox_deps demo_cfg (demo_world demo_sched)"

lemma demo_once_result: "snd demo_once = (2, 1, None)"
  by code_simp

theorem relay_marks_only_accepted_witness:
  "world_inv (fst demo_once) \<and> processed_ids (fst demo_once) \<subseteq>
     processed_ids (demo_world demo_sched) \<union> oe_id ` set (rw_accepted (fst demo_once)) \<union> set (rw_marked (fst demo_once))"
  by (rule relay_marks_only_accepted [OF demo_sched_inv, of demo_cfg _ "snd demo_once"]) (simp add: demo_once_def)

lemma demo_relay_token: "world_token (demo_world demo_sched) = (fst (world_token (demo_world demo_sched)), Inr ''t1'')"
  by (simp add: world_token_def next_slot_def demo_world_def demo_sched_def demo_slot_def)


theorem relay_run_returns_witness:
  "\<exists>w' err. run_relay outbox_deps demo_cfg (demo_world demo_sched) = Some (w', err) \<and> world_ctx_err w' \<noteq> None \<and>
    (\<forall>x. err = Some x \<longrightarrow> \<not> only_canceled x) \<and> world_inv w' \<and>
    processed_ids w' \<subseteq> processed_ids (demo_world demo_sched) \<union> oe_id ` set (rw_accepted w') \<union> set (rw_marked w')"
  by (rule relay_run_returns [OF demo_sched_inv])

theorem relay_config_bounds_witness:
  "1 \<le> rc_batch_size demo_cfg \<and> rc_batch_size demo_cfg \<le> max_batch_size \<and> to_int32 (rc_batch_size demo_cfg) = Inr (rc_batch_size demo_cfg) \<and>
    0 < sint (rc_lease demo_cfg) \<and> 1 \<le> rc_max_attempts demo_cfg \<and>
    0 < sint (exponential 2 (rc_base_backoff demo_cfg) (rc_max_backoff demo_cfg)) \<and>
    sint (exponential 2 (rc_base_backoff demo_cfg) (rc_max_backoff demo_cfg)) \<le> sint (rc_max_backoff demo_cfg)"
  by (rule relay_config_bounds) code_simp

subsection \<open>A cancellation after the last publish\<close>

definition late_cancel_sched :: "relay_slot list" where
  "late_cancel_sched = [demo_slot 20, demo_slot 30, demo_slot 40, (demo_slot 50)\<lparr>sl_cancel := True\<rparr>, demo_slot 60]"

definition late_cancel :: "relay_world \<times> once_result" where
  "late_cancel = run_once outbox_deps demo_cfg (demo_world late_cancel_sched)"

lemma late_cancel_eval:
  "map oe_id (rw_accepted (fst late_cancel)) = [''e1'', ''e2'']"
  "map or_status (rw_rows (fst late_cancel)) = [EventPending, EventPending]"
  "map or_claim_token (rw_rows (fst late_cancel)) = [Some ''t1'', Some ''t1'']"
  "snd (snd (snd late_cancel)) = Some (Join [Wrap (Wrap canceled_err)])"
  "world_ctx_err (fst late_cancel) = Some canceled_err"
  by code_simp+


end
