(* ===== verification/Ingestion.thy ===== *)
theory Ingestion
  imports RunProcessing
begin

text \<open>
  The ingestion domain: the run entity (\<open>internal/domain/ingestion/run.go\<close>), the checkpoint
  formats (\<open>checkpoint.go\<close>), the error budget (\<open>error_budget.go\<close>) and the raw record
  (\<open>raw_record.go\<close>). UUID generation, SHA-256 and JSON syntax are arguments. The quotient of two
  \<open>float64\<close> is the argument \<open>fdiv\<close> of the error budget. The timestamp checkpoints are calls of
  package \<open>time\<close> and are not modelled.
\<close>

subsection \<open>Runs\<close>

datatype run_status =
    StatusPending | StatusRunning | StatusCompleted | StatusPartial | StatusFailed | StatusCancelled

definition processable :: "run_status \<Rightarrow> bool" where
  "processable s \<longleftrightarrow> s = StatusCompleted \<or> s = StatusPartial"

record ingestion_run =
  ir_id :: string
  ir_source_id :: string
  ir_status :: run_status
  ir_checkpoint :: string
  ir_metrics :: metrics
  ir_error_summary :: string
  ir_started_at :: "instant option"
  ir_completed_at :: "instant option"
  ir_created_at :: instant
  ir_updated_at :: instant

text \<open>The nil receiver and a status outside the enumeration do not exist here.\<close>

definition validate_run :: "ingestion_run \<Rightarrow> gerr + unit" where
  "validate_run r =
     failif (is_blank (ir_id r)) (Leaf (Ingestion ErrInvalidRunID))
    (failif (is_blank (ir_source_id r)) (Leaf (Source ErrInvalidSourceID)) (Inr ()))"

definition generated_id :: "gerr + string \<Rightarrow> string \<Rightarrow> gerr + string" where
  "generated_id uuid i = (let t = trim_space i in if t = [] then mapl Wrap uuid else Inr t)"

definition new_run :: "gerr + string \<Rightarrow> instant \<Rightarrow> string \<Rightarrow> string \<Rightarrow> string \<Rightarrow> gerr + ingestion_run" where
  "new_run uuid now i source_id checkpoint =
     bindr (generated_id uuid i) (\<lambda>rid.
     let r = \<lparr>ir_id = rid, ir_source_id = source_id, ir_status = StatusPending,
       ir_checkpoint = trim_space checkpoint, ir_metrics = zero_metrics, ir_error_summary = [],
       ir_started_at = None, ir_completed_at = None, ir_created_at = now, ir_updated_at = now\<rparr> in
     bindr (validate_run r) (\<lambda>_. Inr r))"

definition start_run :: "instant \<Rightarrow> ingestion_run \<Rightarrow> gerr + ingestion_run" where
  "start_run now r =
     failif (ir_status r \<noteq> StatusPending) (Leaf (Ingestion ErrInvalidRunTransition))
     (Inr (r\<lparr>ir_status := StatusRunning, ir_started_at := Some now, ir_updated_at := now\<rparr>))"

definition next_checkpoint :: "string \<Rightarrow> ingestion_run \<Rightarrow> string" where
  "next_checkpoint cp r = (let t = trim_space cp in if t \<noteq> [] then t else ir_checkpoint r)"

definition record_batch :: "metrics \<Rightarrow> string \<Rightarrow> instant \<Rightarrow> ingestion_run \<Rightarrow> gerr + ingestion_run" where
  "record_batch m cp now r =
     failif (ir_status r \<noteq> StatusRunning) (Leaf (Ingestion ErrInvalidRunState))
     (bindr (validate_metrics m) (\<lambda>_.
      Inr (r\<lparr>ir_metrics := add_metrics (ir_metrics r) m, ir_checkpoint := next_checkpoint cp r,
             ir_updated_at := now\<rparr>)))"

definition is_terminal :: "run_status \<Rightarrow> bool" where
  "is_terminal s = (case s of StatusCompleted \<Rightarrow> True | StatusPartial \<Rightarrow> True | StatusFailed \<Rightarrow> True
     | StatusCancelled \<Rightarrow> True | _ \<Rightarrow> False)"

definition complete_run :: "string \<Rightarrow> instant \<Rightarrow> ingestion_run \<Rightarrow> gerr + ingestion_run" where
  "complete_run cp now r =
     failif (ir_status r \<noteq> StatusRunning) (Leaf (Ingestion ErrInvalidRunTransition))
     (Inr (r\<lparr>ir_status := (if m_failed (ir_metrics r) > 0 then StatusPartial else StatusCompleted),
             ir_checkpoint := next_checkpoint cp r, ir_completed_at := Some now, ir_updated_at := now\<rparr>))"

definition end_run :: "run_status \<Rightarrow> string \<Rightarrow> instant \<Rightarrow> ingestion_run \<Rightarrow> gerr + ingestion_run" where
  "end_run s summary now r =
     failif (is_terminal (ir_status r)) (Leaf (Ingestion ErrInvalidRunTransition))
     (Inr (r\<lparr>ir_status := s, ir_error_summary := trim_space summary, ir_completed_at := Some now,
             ir_updated_at := now\<rparr>))"

definition fail_run :: "string \<Rightarrow> instant \<Rightarrow> ingestion_run \<Rightarrow> gerr + ingestion_run" where
  "fail_run = end_run StatusFailed"

definition cancel_run :: "string \<Rightarrow> instant \<Rightarrow> ingestion_run \<Rightarrow> gerr + ingestion_run" where
  "cancel_run = end_run StatusCancelled"

lemmas run_ops = start_run_def record_batch_def complete_run_def fail_run_def cancel_run_def end_run_def

subsection \<open>The life of a run\<close>

inductive run_step :: "ingestion_run \<Rightarrow> ingestion_run \<Rightarrow> bool" where
  "start_run now r = Inr r' \<Longrightarrow> run_step r r'"
| "record_batch m cp now r = Inr r' \<Longrightarrow> run_step r r'"
| "complete_run cp now r = Inr r' \<Longrightarrow> run_step r r'"
| "fail_run summary now r = Inr r' \<Longrightarrow> run_step r r'"
| "cancel_run reason now r = Inr r' \<Longrightarrow> run_step r r'"

inductive run_reachable :: "ingestion_run \<Rightarrow> bool" where
  run_new: "new_run uuid now i src cp = Inr r \<Longrightarrow> run_reachable r"
| run_next: "run_reachable r \<Longrightarrow> run_step r r' \<Longrightarrow> run_reachable r'"

inductive_cases run_step_cases: "run_step r r'"

definition counters_ok :: "metrics \<Rightarrow> bool" where
  "counters_ok m \<longleftrightarrow> 0 \<le> m_seen m \<and> 0 \<le> m_new m \<and> 0 \<le> m_changed m \<and> 0 \<le> m_unchanged m \<and> 0 \<le> m_failed m"

definition run_ok :: "ingestion_run \<Rightarrow> bool" where
  "run_ok r \<longleftrightarrow> \<not> is_blank (ir_source_id r) \<and> counters_ok (ir_metrics r) \<and>
     (ir_completed_at r \<noteq> None \<longleftrightarrow> is_terminal (ir_status r)) \<and>
     (ir_status r = StatusPending \<longrightarrow> ir_started_at r = None) \<and>
     (ir_status r \<in> {StatusRunning, StatusCompleted, StatusPartial} \<longrightarrow> ir_started_at r \<noteq> None) \<and>
     (ir_started_at r = None \<longrightarrow> ir_metrics r = zero_metrics) \<and>
     (ir_status r = StatusCompleted \<longrightarrow> m_failed (ir_metrics r) = 0) \<and>
     (ir_status r = StatusPartial \<longrightarrow> m_failed (ir_metrics r) > 0)"

lemma validate_metrics_Inr: "validate_metrics m = Inr u \<longleftrightarrow> counters_ok m"
  by (auto simp: validate_metrics_def counters_ok_def)

lemma zero_metrics_ok [simp]: "counters_ok zero_metrics"
  by (simp add: counters_ok_def zero_metrics_def)

lemma add_metrics_ok: "counters_ok a \<Longrightarrow> counters_ok b \<Longrightarrow> counters_ok (add_metrics a b)"
  by (simp add: counters_ok_def add_metrics_def)

lemma is_terminal_simps [simp]:
  "\<not> is_terminal StatusPending" "\<not> is_terminal StatusRunning" "is_terminal StatusCompleted"
  "is_terminal StatusPartial" "is_terminal StatusFailed" "is_terminal StatusCancelled"
  by (simp_all add: is_terminal_def)

lemma new_run_ok: "new_run uuid now i src cp = Inr r \<Longrightarrow> run_ok r"
  by (auto simp: new_run_def bindr_Inr_iff Let_def validate_run_def run_ok_def)

lemma start_run_ok: "start_run now r = Inr r' \<Longrightarrow> run_ok r \<Longrightarrow> run_ok r'"
  by (auto simp: start_run_def run_ok_def)

lemma record_batch_ok: "record_batch m cp now r = Inr r' \<Longrightarrow> run_ok r \<Longrightarrow> run_ok r'"
proof -
  assume r: "record_batch m cp now r = Inr r'" "run_ok r"
  then have m: "counters_ok m" "ir_status r = StatusRunning"
    and r': "r' = r\<lparr>ir_metrics := add_metrics (ir_metrics r) m, ir_checkpoint := next_checkpoint cp r, ir_updated_at := now\<rparr>"
    by (auto simp: record_batch_def bindr_Inr_iff validate_metrics_Inr)
  have "counters_ok (add_metrics (ir_metrics r) m)" using r(2) m(1) by (simp add: run_ok_def add_metrics_ok)
  with r(2) m(2) show ?thesis by (auto simp: run_ok_def r')
qed

lemma complete_run_ok: "complete_run cp now r = Inr r' \<Longrightarrow> run_ok r \<Longrightarrow> run_ok r'"
  by (cases "m_failed (ir_metrics r) > 0") (auto simp: complete_run_def run_ok_def counters_ok_def)

lemma end_run_ok: "end_run s m now r = Inr r' \<Longrightarrow> s \<in> {StatusFailed, StatusCancelled} \<Longrightarrow> run_ok r \<Longrightarrow> run_ok r'"
proof -
  assume e: "end_run s m now r = Inr r'" and s: "s \<in> {StatusFailed, StatusCancelled}" and r: "run_ok r"
  from e have r': "r' = r\<lparr>ir_status := s, ir_error_summary := trim_space m, ir_completed_at := Some now, ir_updated_at := now\<rparr>"
    by (simp add: end_run_def)
  from s have "is_terminal s" "s \<noteq> StatusPending" "s \<notin> {StatusRunning, StatusCompleted, StatusPartial}"
    "s \<noteq> StatusCompleted" "s \<noteq> StatusPartial" by auto
  with r show ?thesis unfolding run_ok_def r' by simp
qed

lemma run_step_ok: "run_step r r' \<Longrightarrow> run_ok r \<Longrightarrow> run_ok r'"
  by (erule run_step_cases)
     (auto simp: fail_run_def cancel_run_def intro: start_run_ok record_batch_ok complete_run_ok end_run_ok)

lemma terminal_no_step: "is_terminal (ir_status r) \<Longrightarrow> \<not> run_step r r'"
  by (auto simp: run_ops elim!: run_step_cases)


subsection \<open>Decimal integers\<close>

definition digit_char :: "nat \<Rightarrow> char" where
  "digit_char d = char_of (48 + d)"

fun show_nat :: "nat \<Rightarrow> string" where
  "show_nat n = (if n < 10 then [digit_char n] else show_nat (n div 10) @ [digit_char (n mod 10)])"

declare show_nat.simps [simp del]

definition digit_val :: "char \<Rightarrow> nat option" where
  "digit_val c = (if 48 \<le> code_of c \<and> code_of c \<le> 57 then Some (code_of c - 48) else None)"

fun read_digits :: "nat \<Rightarrow> string \<Rightarrow> nat option" where
  "read_digits acc [] = Some acc"
| "read_digits acc (c # cs) = (case digit_val c of None \<Rightarrow> None | Some d \<Rightarrow> read_digits (10 * acc + d) cs)"

text \<open>\<open>strconv.ParseInt(s, 10, 64)\<close>: an optional sign, then digits; out of range is an error.\<close>

definition parse_int64 :: "string \<Rightarrow> int option" where
  "parse_int64 s =
     (let (neg, ds) = (case s of [] \<Rightarrow> (False, []) | c # cs \<Rightarrow>
            if c = CHR ''-'' then (True, cs) else if c = CHR ''+'' then (False, cs) else (False, c # cs)) in
      if ds = [] then None
      else case read_digits 0 ds of None \<Rightarrow> None
        | Some n \<Rightarrow> (let k = (if neg then - int n else int n) in
            if - (2 ^ 63) \<le> k \<and> k < 2 ^ 63 then Some k else None))"

lemma code_digit_char: "d < 10 \<Longrightarrow> code_of (digit_char d) = 48 + d"
  by (simp add: digit_char_def)

lemma digit_val_char [simp]: "d < 10 \<Longrightarrow> digit_val (digit_char d) = Some d"
  by (simp add: digit_val_def code_digit_char)

lemma read_digits_append:
  "read_digits acc (xs @ ys) = (case read_digits acc xs of None \<Rightarrow> None | Some k \<Rightarrow> read_digits k ys)"
  by (induction xs arbitrary: acc) (auto split: option.splits)

lemma read_show_nat: "read_digits 0 (show_nat n) = Some n"
proof (induction n rule: show_nat.induct)
  case (1 n)
  show ?case
  proof (cases "n < 10")
    case True
    then show ?thesis by (simp add: show_nat.simps [of n])
  next
    case False
    with 1 have "read_digits 0 (show_nat (n div 10)) = Some (n div 10)" by simp
    with False show ?thesis by (simp add: show_nat.simps [of n] read_digits_append)
  qed
qed

lemma show_nat_nonempty [simp]: "show_nat n \<noteq> []"
  by (cases "n < 10") (simp_all add: show_nat.simps [of n])

lemma set_show_nat: "set (show_nat n) \<subseteq> digit_char ` {0..<10}"
proof (induction n rule: show_nat.induct)
  case (1 n)
  then show ?case by (cases "n < 10") (auto simp: show_nat.simps [of n])
qed

lemma parse_show_nat: "int n < 2 ^ 63 \<Longrightarrow> parse_int64 (show_nat n) = Some (int n)"
proof -
  assume n: "int n < 2 ^ 63"
  obtain c cs where s: "show_nat n = c # cs" by (cases "show_nat n") auto
  then have "c \<in> digit_char ` {0..<10}" using set_show_nat [of n] by auto
  then have "c \<noteq> CHR ''-''" "c \<noteq> CHR ''+''"
    using code_digit_char by fastforce+
  with s n read_show_nat [of n] show ?thesis by (simp add: parse_int64_def)
qed

subsection \<open>Checkpoints\<close>

definition byte_offset_prefix :: string where "byte_offset_prefix = ''offset:''"
definition cursor_prefix :: string where "cursor_prefix = ''cursor:''"

text \<open>\<open>strings.HasPrefix(strings.ToLower(s), p)\<close> for the two prefixes: no other rune than an ASCII
  letter lowers to one of theirs.\<close>

definition has_prefix_fold :: "string \<Rightarrow> string \<Rightarrow> bool" where
  "has_prefix_fold s p \<longleftrightarrow> has_prefix (map lower_char s) p"

definition format_byte_offset :: "int \<Rightarrow> string" where
  "format_byte_offset n = (if n < 0 then [] else byte_offset_prefix @ show_nat (nat n))"

definition invalid_checkpoint :: gerr where
  "invalid_checkpoint = Wrap (Leaf (Ingestion ErrInvalidCheckpoint))"

definition parse_byte_offset :: "string \<Rightarrow> gerr + int" where
  "parse_byte_offset cp =
     (let t = trim_space cp in
      if t = [] then Inr 0
      else let v = (if has_prefix_fold t byte_offset_prefix then drop (length byte_offset_prefix) t else t) in
        case parse_int64 v of None \<Rightarrow> Inl invalid_checkpoint
        | Some n \<Rightarrow> if n < 0 then Inl invalid_checkpoint else Inr n)"

definition format_cursor :: "string \<Rightarrow> string" where
  "format_cursor c =
     (let t = trim_space c in
      if t = [] then [] else if has_prefix t cursor_prefix then t else cursor_prefix @ t)"

definition parse_cursor :: "string \<Rightarrow> gerr + string" where
  "parse_cursor cp =
     (let t = trim_space cp in
      if t = [] then Inr []
      else if has_prefix_fold t byte_offset_prefix then Inl invalid_checkpoint
      else if has_prefix_fold t cursor_prefix
        then (let v = trim_space (drop (length cursor_prefix) t) in if v = [] then Inl invalid_checkpoint else Inr v)
      else Inr t)"

text \<open>A colon before a trimmed text keeps it trimmed at the back.\<close>

lemma space_len_back_colon:
  "space_len_back u = 0 \<Longrightarrow> u \<noteq> [] \<Longrightarrow> space_len_back (u @ CHR '':'' # q) = 0"
proof (induction u rule: space_len_back.induct)
  case (2 a)
  then show ?case by (cases q) (auto simp: space2_def space3_def split: if_splits)
next
  case (3 a b)
  then show ?case by (auto simp: space2_def space3_def split: if_splits)
qed (auto split: if_splits)

lemma trim_prefixed:
  "trim_space t = t \<Longrightarrow> t \<noteq> [] \<Longrightarrow> space_len (p @ CHR '':'' # t) = 0 \<Longrightarrow>
     trim_space (p @ CHR '':'' # t) = p @ CHR '':'' # t"
proof (rule trim_space_id)
  assume t: "trim_space t = t" "t \<noteq> []"
  then have "rev t = trim_back (rev (trim_left t))" unfolding trim_space_def by (metis rev_rev_ident)
  then have "space_len_back (rev t) = 0" using space_len_trim_back by metis
  then show "space_len_back (rev (p @ CHR '':'' # t)) = 0" using t(2) space_len_back_colon [of "rev t" "rev p"] by simp
qed

lemma trim_show_nat: "trim_space (show_nat n) = show_nat n"
proof (rule trim_space_id)
  have d: "c \<in> set (show_nat n) \<Longrightarrow> 48 \<le> code_of c \<and> code_of c \<le> 57" for c
    using set_show_nat [of n] code_digit_char by fastforce
  have no_space: "(\<forall>c \<in> set s. 48 \<le> code_of c \<and> code_of c \<le> 57) \<Longrightarrow> space_len s = 0 \<and> space_len_back s = 0" for s
    by (cases s rule: space_len.cases) (auto simp: ascii_space_def space2_def space3_def)
  show "space_len (show_nat n) = 0" "space_len_back (rev (show_nat n)) = 0"
    using no_space [of "show_nat n"] no_space [of "rev (show_nat n)"] d by auto
qed

lemma byte_offset_text:
  "trim_space (byte_offset_prefix @ show_nat n) = byte_offset_prefix @ show_nat n"
  "has_prefix_fold (byte_offset_prefix @ s) byte_offset_prefix"
  "drop (length byte_offset_prefix) (byte_offset_prefix @ s) = s"
proof -
  have "space_len (''offset'' @ CHR '':'' # show_nat n) = 0" by (simp add: ascii_space_def space2_def space3_def)
  with trim_prefixed [OF trim_show_nat show_nat_nonempty, of "''offset''" n]
  show "trim_space (byte_offset_prefix @ show_nat n) = byte_offset_prefix @ show_nat n" by (simp add: byte_offset_prefix_def)
  have "map lower_char byte_offset_prefix = byte_offset_prefix" by code_simp
  then show "has_prefix_fold (byte_offset_prefix @ s) byte_offset_prefix" by (simp add: has_prefix_fold_def)
qed simp

lemma parse_format_byte_offset:
  assumes "0 \<le> n" "n < 2 ^ 63"
  shows "parse_byte_offset (format_byte_offset n) = Inr n"
proof -
  have "parse_int64 (show_nat (nat n)) = Some n" using parse_show_nat [of "nat n"] assms by simp
  with assms(1) show ?thesis by (simp add: format_byte_offset_def parse_byte_offset_def byte_offset_text Let_def)
qed

lemma trim_format_byte_offset [simp]: "trim_space (format_byte_offset n) = format_byte_offset n"
  by (simp add: format_byte_offset_def byte_offset_text)



lemma cursor_text:
  assumes "trim_space t = t" "t \<noteq> []"
  shows "trim_space (cursor_prefix @ t) = cursor_prefix @ t"
    "has_prefix_fold (cursor_prefix @ t) cursor_prefix" "\<not> has_prefix_fold (cursor_prefix @ t) byte_offset_prefix"
proof -
  have "space_len (''cursor'' @ CHR '':'' # t) = 0" by (simp add: ascii_space_def space2_def space3_def)
  from trim_prefixed [OF assms this] show "trim_space (cursor_prefix @ t) = cursor_prefix @ t" by (simp add: cursor_prefix_def)
  have "map lower_char cursor_prefix = cursor_prefix" by code_simp
  then show "has_prefix_fold (cursor_prefix @ t) cursor_prefix" "\<not> has_prefix_fold (cursor_prefix @ t) byte_offset_prefix"
    by (simp_all add: has_prefix_fold_def has_prefix_def cursor_prefix_def byte_offset_prefix_def)
qed

text \<open>A cursor token survives the round trip through its checkpoint text, up to surrounding
  white space, unless the token itself begins with the prefix; and a cursor is never read as a byte
  offset.\<close>

theorem cursor_roundtrip:
  assumes "\<not> is_blank c" "\<not> has_prefix (trim_space c) cursor_prefix"
  shows "parse_cursor (format_cursor c) = Inr (trim_space c) \<and> parse_byte_offset (format_cursor c) = Inl invalid_checkpoint"
proof -
  let ?t = "trim_space c"
  have t: "trim_space ?t = ?t" "?t \<noteq> []" using assms(1) by (simp_all add: is_blank_def)
  have f: "format_cursor c = cursor_prefix @ ?t" using assms by (simp add: format_cursor_def is_blank_def)
  have "parse_int64 (cursor_prefix @ ?t) = None"
    by (simp add: parse_int64_def cursor_prefix_def digit_val_def)
  moreover have "cursor_prefix @ ?t \<noteq> []" by (simp add: cursor_prefix_def)
  moreover have "drop (length cursor_prefix) (cursor_prefix @ ?t) = ?t" by simp
  ultimately show ?thesis using t cursor_text [OF t]
    by (simp add: f parse_byte_offset_def parse_cursor_def Let_def)
qed

theorem cursor_roundtrip_witness:
  "parse_cursor (format_cursor '' eyJpZCI6MX0= '') = Inr (trim_space '' eyJpZCI6MX0= '') \<and>
     parse_byte_offset (format_cursor '' eyJpZCI6MX0= '') = Inl invalid_checkpoint"
  by (rule cursor_roundtrip) code_simp+

text \<open>A token that begins with the prefix loses it: the next page is asked for with another token.\<close>

lemma prefixed_token_is_lost: "parse_cursor (format_cursor ''cursor:42'') = Inr ''42''"
  by code_simp

subsection \<open>The error budget\<close>

text \<open>\<open>fdiv\<close> is the division of two counts as \<open>float64\<close>; rates are compared in the order of
  \<open>float64\<close>. \<open>zero\<close> and \<open>one\<close> are 0 and 1.\<close>

record 'f error_budget =
  eb_max_error_rate :: 'f
  eb_min_sample_rows :: int

definition validate_budget :: "'f::linorder \<Rightarrow> 'f \<Rightarrow> 'f error_budget \<Rightarrow> gerr + unit" where
  "validate_budget zero one b =
     failif (eb_max_error_rate b \<le> zero \<or> one \<le> eb_max_error_rate b \<or> eb_min_sample_rows b \<le> 0)
       (Leaf (Ingestion ErrInvalidErrorBudget)) (Inr ())"

definition check_budget :: "(int \<Rightarrow> int \<Rightarrow> 'f::linorder) \<Rightarrow> 'f error_budget \<Rightarrow> int \<Rightarrow> int \<Rightarrow> gerr + unit" where
  "check_budget fdiv b seen failed =
     (if seen < eb_min_sample_rows b then Inr ()
      else failif (eb_max_error_rate b < fdiv failed seen) (Wrap (Leaf (Ingestion ErrErrorBudgetExceeded))) (Inr ()))"

subsection \<open>Raw records\<close>

record raw_record =
  rr_id :: string
  rr_source_id :: string
  rr_external_product_id :: string
  rr_payload :: string
  rr_payload_raw :: string
  rr_payload_sha256 :: string
  rr_source_version :: string
  rr_etag :: string
  rr_source_updated_at :: "instant option"
  rr_run_id :: string
  rr_received_at :: instant

text \<open>\<open>RawRecordParams\<close> has the fields of the record. SHA-256 (as hex) and \<open>json.Valid\<close>.\<close>

record raw_env =
  rx_sha256_hex :: "string \<Rightarrow> string"
  rx_json_valid :: "string \<Rightarrow> bool"

definition validate_record :: "raw_env \<Rightarrow> raw_record \<Rightarrow> gerr + unit" where
  "validate_record e r =
     failif (is_blank (rr_id r)) (Leaf (Ingestion ErrInvalidRecordID))
    (failif (is_blank (rr_source_id r)) (Leaf (Source ErrInvalidSourceID))
    (failif (is_blank (rr_external_product_id r)) (Leaf (Ingestion ErrInvalidExternalProductID))
    (failif (rr_payload r = []) (Leaf (Ingestion ErrEmptyPayload))
    (failif (\<not> rx_json_valid e (rr_payload r)) (Leaf (Ingestion ErrInvalidPayloadJSON)) (Inr ())))))"

definition new_raw_record :: "raw_env \<Rightarrow> gerr + string \<Rightarrow> instant \<Rightarrow> raw_record \<Rightarrow> gerr + raw_record" where
  "new_raw_record e uuid now p =
     bindr (generated_id uuid (rr_id p)) (\<lambda>i.
     let received = (if is_zero (rr_received_at p) then now else rr_received_at p);
         updated = (case rr_source_updated_at p of None \<Rightarrow> None | Some t \<Rightarrow> if is_zero t then None else Some t);
         raw = (if rr_payload_raw p = [] \<and> rr_payload p \<noteq> [] then rr_payload p else rr_payload_raw p);
         trimmed = trim_space (rr_payload_sha256 p);
         sha = (if trimmed = [] \<and> raw \<noteq> [] then rx_sha256_hex e raw else trimmed);
         r = \<lparr>rr_id = i, rr_source_id = trim_space (rr_source_id p),
           rr_external_product_id = trim_space (rr_external_product_id p), rr_payload = rr_payload p,
           rr_payload_raw = raw, rr_payload_sha256 = sha, rr_source_version = trim_space (rr_source_version p),
           rr_etag = trim_space (rr_etag p), rr_source_updated_at = updated,
           rr_run_id = trim_space (rr_run_id p), rr_received_at = received\<rparr>
     in bindr (validate_record e r) (\<lambda>_. Inr r))"

text \<open>A run started on a source, with a batch of two rows one of which failed.\<close>

definition demo_run :: ingestion_run where
  "demo_run = projr (bindr (new_run (Inr ''r1'') 5 [] ''s1'' []) (\<lambda>r. bindr (start_run 6 r) (\<lambda>r.
     record_batch \<lparr>m_seen = 2, m_new = 0, m_changed = 0, m_unchanged = 0, m_failed = 1\<rparr> ''offset:9'' 7 r)))"

definition demo_new_run :: ingestion_run where
  "demo_new_run = projr (new_run (Inr ''r1'') 5 [] ''s1'' [])"

definition demo_started_run :: ingestion_run where
  "demo_started_run = projr (start_run 6 demo_new_run)"

lemma demo_run_steps:
  "new_run (Inr ''r1'') 5 [] ''s1'' [] = Inr demo_new_run"
  "start_run 6 demo_new_run = Inr demo_started_run"
  "record_batch \<lparr>m_seen = 2, m_new = 0, m_changed = 0, m_unchanged = 0, m_failed = 1\<rparr> ''offset:9'' 7 demo_started_run = Inr demo_run"
  by code_simp+


end
