(* ===== verification/IngestionStore.thy ===== *)
theory IngestionStore
  imports Ingestion
begin

text \<open>
  The tables of the ingestion side and their repositories:
  \<open>internal/infrastructure/postgres/ingestion_repository.go\<close> with the SQL of
  \<open>generated/ingestion_runs.sql.go\<close>, and the writing side of \<open>raw_record_repository.go\<close>. The
  rows of \<open>ingestion_runs\<close>, of \<open>raw_records\<close> and of the processing queue are one state, because a
  run that finishes is queued by the statement that finishes it. Foreign keys, widths and JSON of
  the columns are the argument \<open>check\<close> of the environment; \<open>round\<close> is the microsecond rounding of a
  stored time.
\<close>

record ingest_db =
  id_runs :: "ingestion_run list"
  id_raw :: "raw_record list"
  id_queue :: "run_processing list"

record ingest_env =
  ie_scan :: scanner
  ie_check_run :: "ingestion_run \<Rightarrow> gerr option"
  ie_check_raw :: "raw_record \<Rightarrow> gerr option"
  ie_round :: "instant \<Rightarrow> instant"

subsection \<open>Runs\<close>

definition find_run :: "string \<Rightarrow> ingestion_run list \<Rightarrow> ingestion_run option" where
  "find_run i rows = find (\<lambda>r. ir_id r = i) rows"

text \<open>\<open>uq_ingestion_runs_active_source\<close> covers the rows that are PENDING or RUNNING.\<close>

definition active_status :: "run_status \<Rightarrow> bool" where
  "active_status s \<longleftrightarrow> s = StatusPending \<or> s = StatusRunning"

definition active_clash :: "ingestion_run \<Rightarrow> ingestion_run list \<Rightarrow> bool" where
  "active_clash r rows \<longleftrightarrow> active_status (ir_status r) \<and>
     list_ex (\<lambda>q. ir_id q \<noteq> ir_id r \<and> ir_source_id q = ir_source_id r \<and> active_status (ir_status q)) rows"

definition round_time :: "ingest_env \<Rightarrow> instant option \<Rightarrow> instant option" where
  "round_time e t = map_option (ie_round e) (to_timestamptz t)"

definition run_row :: "ingest_env \<Rightarrow> string \<Rightarrow> ingestion_run \<Rightarrow> ingestion_run" where
  "run_row e i r = r\<lparr>ir_id := i, ir_started_at := round_time e (ir_started_at r),
     ir_completed_at := round_time e (ir_completed_at r),
     ir_created_at := ie_round e (ir_created_at r), ir_updated_at := ie_round e (ir_updated_at r)\<rparr>"

text \<open>The entity keeps its own start and completion times; id and audit times come from the row.\<close>

definition create_run :: "ingest_env \<Rightarrow> ingestion_run \<Rightarrow> ingest_db \<Rightarrow> gerr + (ingest_db \<times> ingestion_run)" where
  "create_run e r db =
     bindr (mapl (wrap2 (Ingestion ErrInvalidRunID)) (parse_uuid (ie_scan e) (ir_id r))) (\<lambda>i.
     bindr (mapl (wrap2 (Ingestion ErrInvalidRunState)) (to_run_counters (ir_metrics r))) (\<lambda>_.
     bindr (mapl (wrap2 (Ingestion ErrInvalidRunState)) (required_audit_timestamps (ir_created_at r) (ir_updated_at r))) (\<lambda>_.
     let row = run_row e i r in
     case ie_check_run e row of Some x \<Rightarrow> Inl (Wrap x)
     | None \<Rightarrow>
         if find_run i (id_runs db) \<noteq> None \<or> active_clash row (id_runs db)
         then Inl (wrap2 (Ingestion ErrRunAlreadyActive) (Opaque ''23505''))
         else Inr (db\<lparr>id_runs := id_runs db @ [row]\<rparr>,
                   r\<lparr>ir_id := i, ir_created_at := ir_created_at row, ir_updated_at := ir_updated_at row\<rparr>))))"

definition find_run_by_id :: "ingest_env \<Rightarrow> string \<Rightarrow> ingest_db \<Rightarrow> gerr + ingestion_run" where
  "find_run_by_id e i db =
     (case parse_uuid (ie_scan e) i of Inl _ \<Rightarrow> Inl (Leaf (Ingestion ErrRunNotFound))
      | Inr u \<Rightarrow> (case find_run u (id_runs db) of None \<Rightarrow> Inl (Leaf (Ingestion ErrRunNotFound)) | Some r \<Rightarrow> Inr r))"

text \<open>\<open>UPDATE ingestion_runs SET f WHERE id = i AND status = st\<close>, or the error of the guard.\<close>

definition update_run ::
  "ingest_env \<Rightarrow> string \<Rightarrow> run_status \<Rightarrow> ingestion_err \<Rightarrow> (ingestion_run \<Rightarrow> ingestion_run) \<Rightarrow> ingest_db
     \<Rightarrow> gerr + (ingest_db \<times> ingestion_run)" where
  "update_run e i st refused f db =
     (case find_run i (id_runs db) of
        None \<Rightarrow> Inl (Leaf (Ingestion ErrRunNotFound))
      | Some r \<Rightarrow>
          if ir_status r \<noteq> st then Inl (Leaf (Ingestion refused))
          else if \<not> is_ok (to_run_counters (ir_metrics (f r))) then Inl (Wrap (Opaque ''22003''))
          else if active_clash (f r) (id_runs db) then Inl (Wrap (Opaque ''23505''))
          else case ie_check_run e (f r) of Some x \<Rightarrow> Inl (Wrap x)
          | None \<Rightarrow> Inr (db\<lparr>id_runs := map (\<lambda>q. if ir_id q = i then f q else q) (id_runs db)\<rparr>, f r))"

definition set_checkpoint :: "string \<Rightarrow> ingestion_run \<Rightarrow> ingestion_run" where
  "set_checkpoint cp r = r\<lparr>ir_checkpoint := (if cp \<noteq> [] then cp else ir_checkpoint r)\<rparr>"

definition progress_row :: "ingest_env \<Rightarrow> metrics \<Rightarrow> string \<Rightarrow> instant \<Rightarrow> ingestion_run \<Rightarrow> ingestion_run" where
  "progress_row e m cp now r =
     (set_checkpoint cp r)\<lparr>ir_metrics := add_metrics (ir_metrics r) m, ir_updated_at := ie_round e now\<rparr>"

definition update_run_progress ::
  "ingest_env \<Rightarrow> string \<Rightarrow> metrics \<Rightarrow> string \<Rightarrow> instant \<Rightarrow> ingest_db \<Rightarrow> gerr + (ingest_db \<times> unit)" where
  "update_run_progress e i m cp now db =
     (case parse_uuid (ie_scan e) i of Inl _ \<Rightarrow> Inl (Leaf (Ingestion ErrRunNotFound))
      | Inr u \<Rightarrow>
          bindr (mapl (wrap2 (Ingestion ErrInvalidRunState)) (required_timestamptz now)) (\<lambda>_.
          bindr (mapl Wrap (to_run_counters m)) (\<lambda>_.
          bindr (update_run e u StatusRunning ErrInvalidRunState (progress_row e m cp now) db) (\<lambda>(db', _). Inr (db', ())))))"

definition status_row :: "ingest_env \<Rightarrow> ingestion_run \<Rightarrow> ingestion_run \<Rightarrow> ingestion_run" where
  "status_row e run r =
     (set_checkpoint (ir_checkpoint run) r)\<lparr>ir_status := ir_status run, ir_error_summary := ir_error_summary run,
        ir_completed_at := round_time e (ir_completed_at run), ir_updated_at := ie_round e (ir_updated_at run)\<rparr>"

text \<open>\<open>INSERT INTO ingestion_run_processing \<dots> ON CONFLICT (run_id) DO NOTHING\<close>.\<close>

definition queue_run :: "instant \<Rightarrow> string \<Rightarrow> run_processing list \<Rightarrow> run_processing list" where
  "queue_run now i q = (if find_row i q = None then q @ [new_processing_row now i] else q)"

definition update_run_status ::
  "ingest_env \<Rightarrow> instant \<Rightarrow> ingestion_run \<Rightarrow> run_status \<Rightarrow> ingest_db \<Rightarrow> gerr + (ingest_db \<times> unit)" where
  "update_run_status e now run from_status db =
     (case parse_uuid (ie_scan e) (ir_id run) of Inl _ \<Rightarrow> Inl (Leaf (Ingestion ErrRunNotFound))
      | Inr u \<Rightarrow>
          bindr (mapl (wrap2 (Ingestion ErrInvalidRunState)) (required_timestamptz (ir_updated_at run))) (\<lambda>_.
          bindr (update_run e u from_status ErrInvalidRunTransition (status_row e run) db) (\<lambda>(db', _).
            Inr (if processable (ir_status run) then db'\<lparr>id_queue := queue_run now u (id_queue db')\<rparr> else db', ()))))"

text \<open>\<open>ORDER BY created_at DESC, id DESC\<close>.\<close>

definition runs_of_source :: "string \<Rightarrow> ingest_db \<Rightarrow> ingestion_run list" where
  "runs_of_source s db =
     rev (sort_key (\<lambda>r. (ir_created_at r, ir_id r)) (filter (\<lambda>r. ir_source_id r = s) (id_runs db)))"

definition list_runs_by_source :: "string \<Rightarrow> int \<Rightarrow> ingest_db \<Rightarrow> gerr + ingestion_run list" where
  "list_runs_by_source s limit db =
     failif (is_blank s) (Leaf (Source ErrInvalidSourceID))
       (Inr (take (nat (list_limit limit 20)) (runs_of_source s db)))"

definition find_latest_run :: "string \<Rightarrow> ingest_db \<Rightarrow> gerr + ingestion_run" where
  "find_latest_run s db =
     failif (is_blank s) (Leaf (Source ErrInvalidSourceID))
       (case runs_of_source s db of [] \<Rightarrow> Inl (Leaf (Ingestion ErrRunNotFound)) | r # _ \<Rightarrow> Inr r)"

subsection \<open>Raw records\<close>

definition raw_row :: "ingest_env \<Rightarrow> raw_record \<Rightarrow> gerr + raw_record" where
  "raw_row e r =
     bindr (mapl (wrap2 (Ingestion ErrInvalidRecordID)) (parse_uuid (ie_scan e) (rr_id r))) (\<lambda>i.
     bindr (if is_blank (rr_run_id r) then Inr []
            else mapl (wrap2 (Ingestion ErrInvalidRunID)) (parse_uuid (ie_scan e) (trim_space (rr_run_id r)))) (\<lambda>run.
     bindr (mapl (wrap2 (Ingestion ErrInvalidRecordState)) (required_timestamptz (rr_received_at r))) (\<lambda>t.
     Inr (r\<lparr>rr_id := i, rr_run_id := run,
            rr_payload_raw := (if rr_payload_raw r = [] then rr_payload r else rr_payload_raw r),
            rr_source_updated_at := round_time e (rr_source_updated_at r), rr_received_at := ie_round e t\<rparr>))))"

fun raw_rows :: "ingest_env \<Rightarrow> raw_record list \<Rightarrow> gerr + raw_record list" where
  "raw_rows e [] = Inr []"
| "raw_rows e (r # rs) = bindr (mapl Wrap (raw_row e r)) (\<lambda>x. bindr (raw_rows e rs) (\<lambda>xs. Inr (x # xs)))"

text \<open>One row of \<open>raw_records\<close>: the foreign key to the runs and the primary key are checked here.\<close>

fun insert_raw :: "ingest_env \<Rightarrow> ingestion_run list \<Rightarrow> raw_record list \<Rightarrow> raw_record list \<Rightarrow> gerr + raw_record list" where
  "insert_raw e runs [] rows = Inr rows"
| "insert_raw e runs (r # rs) rows =
     (case ie_check_raw e r of Some x \<Rightarrow> Inl x
      | None \<Rightarrow>
          if rr_run_id r \<noteq> [] \<and> find_run (rr_run_id r) runs = None then Inl (Opaque ''23503'')
          else if list_ex (\<lambda>q. rr_id q = rr_id r) rows then Inl (Opaque ''23505'')
          else insert_raw e runs rs (rows @ [r]))"

text \<open>\<open>SaveBatch\<close>: the copy is all or nothing. A pool and a transaction both have \<open>CopyFrom\<close>, so the
  fallback of single inserts does not run.\<close>

definition save_batch :: "ingest_env \<Rightarrow> raw_record list \<Rightarrow> ingest_db \<Rightarrow> gerr + (ingest_db \<times> unit)" where
  "save_batch e recs db =
     (if recs = [] then Inr (db, ())
      else bindr (raw_rows e recs) (\<lambda>rs.
        bindr (mapl Wrap (insert_raw e (id_runs db) rs (id_raw db))) (\<lambda>rows. Inr (db\<lparr>id_raw := rows\<rparr>, ()))))"

definition save_record :: "ingest_env \<Rightarrow> raw_record \<Rightarrow> ingest_db \<Rightarrow> gerr + (ingest_db \<times> raw_record)" where
  "save_record e r db =
     bindr (mapl Wrap (raw_row e r)) (\<lambda>x.
     bindr (mapl Wrap (insert_raw e (id_runs db) [x] (id_raw db))) (\<lambda>rows.
       Inr (db\<lparr>id_raw := rows\<rparr>, r\<lparr>rr_id := rr_id x\<rparr>)))"

definition find_raw_by_id :: "ingest_env \<Rightarrow> string \<Rightarrow> ingest_db \<Rightarrow> gerr + raw_record" where
  "find_raw_by_id e i db =
     bindr (mapl (wrap2 (Ingestion ErrInvalidRecordID)) (parse_uuid (ie_scan e) i)) (\<lambda>u.
     case find (\<lambda>r. rr_id r = u) (id_raw db) of
       None \<Rightarrow> Inl (Leaf (Ingestion ErrRecordNotFound)) | Some r \<Rightarrow> Inr r)"

text \<open>\<open>ORDER BY received_at DESC, id DESC\<close>.\<close>

definition newest_raw :: "raw_record list \<Rightarrow> raw_record list" where
  "newest_raw rs = rev (sort_key (\<lambda>r. (rr_received_at r, rr_id r)) rs)"

definition raw_of_product :: "string \<Rightarrow> string \<Rightarrow> ingest_db \<Rightarrow> raw_record list" where
  "raw_of_product s x db =
     newest_raw (filter (\<lambda>r. rr_source_id r = s \<and> rr_external_product_id r = trim_space x) (id_raw db))"

definition product_key_guard :: "string \<Rightarrow> string \<Rightarrow> gerr + 'a \<Rightarrow> gerr + 'a" where
  "product_key_guard s x k =
     failif (is_blank s) (Leaf (Source ErrInvalidSourceID))
    (failif (is_blank x) (Leaf (Ingestion ErrInvalidExternalProductID)) k)"

definition find_latest_raw :: "string \<Rightarrow> string \<Rightarrow> ingest_db \<Rightarrow> gerr + raw_record" where
  "find_latest_raw s x db =
     product_key_guard s x
       (case raw_of_product s x db of [] \<Rightarrow> Inl (Leaf (Ingestion ErrRecordNotFound)) | r # _ \<Rightarrow> Inr r)"

definition list_raw_by_product :: "string \<Rightarrow> string \<Rightarrow> int \<Rightarrow> ingest_db \<Rightarrow> gerr + raw_record list" where
  "list_raw_by_product s x limit db =
     product_key_guard s x (Inr (take (nat (list_limit limit 50)) (raw_of_product s x db)))"

definition parse_run_key :: "ingest_env \<Rightarrow> string \<Rightarrow> gerr + string" where
  "parse_run_key e i = mapl (wrap2 (Ingestion ErrInvalidRunID)) (parse_uuid (ie_scan e) i)"

definition list_raw_by_run :: "ingest_env \<Rightarrow> string \<Rightarrow> int \<Rightarrow> ingest_db \<Rightarrow> gerr + raw_record list" where
  "list_raw_by_run e i limit db =
     bindr (parse_run_key e i) (\<lambda>u.
     Inr (take (nat (list_limit limit 50)) (newest_raw (filter (\<lambda>r. rr_run_id r = u) (id_raw db)))))"

text \<open>\<open>WHERE ingestion_run_id = $1 [AND id > cursor] ORDER BY id ASC LIMIT n\<close>. UUIDs compare as their
  canonical texts.\<close>

definition keyset_rows :: "string \<Rightarrow> string option \<Rightarrow> raw_record list \<Rightarrow> raw_record list" where
  "keyset_rows u cursor rows =
     sort_key rr_id (filter (\<lambda>r. rr_run_id r = u \<and> (case cursor of None \<Rightarrow> True | Some c \<Rightarrow> c < rr_id r)) rows)"

definition list_keyset_by_run ::
  "ingest_env \<Rightarrow> string \<Rightarrow> string option \<Rightarrow> int \<Rightarrow> ingest_db \<Rightarrow> gerr + raw_record list" where
  "list_keyset_by_run e i cursor limit db =
     bindr (parse_run_key e i) (\<lambda>u.
     bindr (mapl Wrap (parse_optional_uuid (ie_scan e) cursor)) (\<lambda>c.
     Inr (take (nat (list_limit limit 50)) (keyset_rows u c (id_raw db)))))"

subsection \<open>The invariant of the tables\<close>

text \<open>
  Primary keys are unique; at most one run of a source is PENDING or RUNNING; a run that finished
  processable is queued; the raw records of a run refer to a run that exists; the queue is sane.
\<close>

definition one_active :: "ingestion_run list \<Rightarrow> bool" where
  "one_active rows \<longleftrightarrow> (\<forall>r \<in> set rows. \<forall>q \<in> set rows. active_status (ir_status r) \<longrightarrow> active_status (ir_status q) \<longrightarrow>
     ir_source_id r = ir_source_id q \<longrightarrow> ir_id r = ir_id q)"

definition queued :: "run_processing list \<Rightarrow> ingestion_run \<Rightarrow> bool" where
  "queued q r \<longleftrightarrow> (processable (ir_status r) \<longrightarrow> find_row (ir_id r) q \<noteq> None)"

definition raw_has_run :: "ingestion_run list \<Rightarrow> raw_record \<Rightarrow> bool" where
  "raw_has_run runs x \<longleftrightarrow> rr_run_id x = [] \<or> find_run (rr_run_id x) runs \<noteq> None"

definition store_inv :: "ingest_db \<Rightarrow> bool" where
  "store_inv db \<longleftrightarrow> distinct (map ir_id (id_runs db)) \<and> one_active (id_runs db) \<and>
     list_all (queued (id_queue db)) (id_runs db) \<and> distinct (map rr_id (id_raw db)) \<and>
     list_all (raw_has_run (id_runs db)) (id_raw db) \<and> rp_inv (id_queue db)"

lemma find_run_Some: "find_run i rows = Some r \<Longrightarrow> r \<in> set rows \<and> ir_id r = i"
  by (auto simp: find_run_def find_Some_iff)

lemma find_run_None: "find_run i rows = None \<longleftrightarrow> i \<notin> ir_id ` set rows"
  by (auto simp: find_run_def find_None_iff)

lemma find_run_append:
  "find_run i (rows @ xs) = (case find_run i rows of None \<Rightarrow> find_run i xs | Some r \<Rightarrow> Some r)"
  by (induction rows) (auto simp: find_run_def)

lemma find_run_update:
  assumes "\<And>x. ir_id (f x) = ir_id x"
  shows "find_run j (map (\<lambda>x. if ir_id x = i then f x else x) rows) =
    (if j = i then map_option f (find_run j rows) else find_run j rows)"
  using assms by (induction rows) (auto simp: find_run_def)

lemma raw_has_run_mono:
  "list_all (raw_has_run runs) xs \<Longrightarrow> (\<And>i. find_run i runs \<noteq> None \<Longrightarrow> find_run i runs' \<noteq> None) \<Longrightarrow>
   list_all (raw_has_run runs') xs"
  unfolding raw_has_run_def list_all_iff by blast

text \<open>The rows of one source that hold an active status, before and after a write of row \<open>r\<close>.\<close>

lemma not_active_clash:
  "\<not> active_clash r rows \<Longrightarrow> active_status (ir_status r) \<Longrightarrow> q \<in> set rows \<Longrightarrow> active_status (ir_status q) \<Longrightarrow>
   ir_source_id q = ir_source_id r \<Longrightarrow> ir_id q = ir_id r"
  by (auto simp: active_clash_def list_ex_iff)

lemma one_active_append:
  assumes "one_active rows" "\<not> active_clash x rows"
  shows "one_active (rows @ [x])"
proof -
  have x: "ir_id q = ir_id x"
    if "q \<in> set rows" "active_status (ir_status q)" "active_status (ir_status x)" "ir_source_id q = ir_source_id x" for q
    using not_active_clash [OF assms(2) that(3,1,2,4)] .
  show ?thesis
    unfolding one_active_def
  proof (intro ballI impI)
    fix a b assume ab: "a \<in> set (rows @ [x])" "b \<in> set (rows @ [x])"
      "active_status (ir_status a)" "active_status (ir_status b)" "ir_source_id a = ir_source_id b"
    then consider "a \<in> set rows" "b \<in> set rows" | "a \<in> set rows" "b = x" | "a = x" "b \<in> set rows" | "a = x" "b = x"
      by auto
    then show "ir_id a = ir_id b"
    proof cases
      case 1
      with assms(1) ab(3-5) show ?thesis unfolding one_active_def by blast
    next
      case 2
      with x [of a] ab show ?thesis by simp
    next
      case 3
      with x [of b] ab show ?thesis by simp
    qed simp
  qed
qed

lemma one_active_update:
  assumes "one_active rows" "\<not> active_clash (f r) rows" "\<And>x. ir_id (f x) = ir_id x"
    "\<And>y. y \<in> set rows \<Longrightarrow> ir_id y = i \<Longrightarrow> y = r"
  shows "one_active (map (\<lambda>q. if ir_id q = i then f q else q) rows)"
proof -
  let ?h = "\<lambda>q. if ir_id q = i then f q else q"
  have x: "ir_id q = ir_id (f r)"
    if "q \<in> set rows" "active_status (ir_status q)" "active_status (ir_status (f r))" "ir_source_id q = ir_source_id (f r)" for q
    using not_active_clash [OF assms(2) that(3,1,2,4)] .
  show ?thesis
    unfolding one_active_def
  proof (intro ballI impI)
    fix a b assume ab: "a \<in> set (map ?h rows)" "b \<in> set (map ?h rows)"
      "active_status (ir_status a)" "active_status (ir_status b)" "ir_source_id a = ir_source_id b"
    have old: "a \<in> set rows \<or> a = f r" "b \<in> set rows \<or> b = f r"
      using ab(1,2) assms(4) by (auto split: if_splits)
    then consider "a \<in> set rows" "b \<in> set rows" | "a \<in> set rows" "b = f r" | "a = f r" "b \<in> set rows" | "a = f r" "b = f r"
      by blast
    then show "ir_id a = ir_id b"
    proof cases
      case 1
      with assms(1) ab(3-5) show ?thesis unfolding one_active_def by blast
    next
      case 2
      with x [of a] ab show ?thesis by simp
    next
      case 3
      with x [of b] ab show ?thesis by simp
    qed simp
  qed
qed

lemma create_run_Inr:
  assumes "create_run e r db = Inr (db', r')"
  obtains i where "parse_uuid (ie_scan e) (ir_id r) = Inr i" "db' = db\<lparr>id_runs := id_runs db @ [run_row e i r]\<rparr>"
    "find_run i (id_runs db) = None" "\<not> active_clash (run_row e i r) (id_runs db)" "is_ok (to_run_counters (ir_metrics r))"
    "ie_check_run e (run_row e i r) = None"
    "r' = r\<lparr>ir_id := i, ir_created_at := ie_round e (ir_created_at r), ir_updated_at := ie_round e (ir_updated_at r)\<rparr>"
  using assms by (auto simp: create_run_def bindr_Inr_iff Let_def run_row_def split: option.splits if_splits)

lemma run_row_simps [simp]:
  "ir_id (run_row e i r) = i" "ir_source_id (run_row e i r) = ir_source_id r" "ir_status (run_row e i r) = ir_status r"
  "ir_metrics (run_row e i r) = ir_metrics r" "ir_checkpoint (run_row e i r) = ir_checkpoint r"
  by (simp_all add: run_row_def)

lemma create_run_inv:
  assumes "create_run e r db = Inr (db', r')" "active_status (ir_status r)" "store_inv db"
  shows "store_inv db'"
proof -
  obtain i where i: "db' = db\<lparr>id_runs := id_runs db @ [run_row e i r]\<rparr>" "find_run i (id_runs db) = None"
    "\<not> active_clash (run_row e i r) (id_runs db)"
    using create_run_Inr [OF assms(1)] by blast
  have one: "one_active (id_runs db @ [run_row e i r])"
    by (rule one_active_append [OF _ i(3)]) (use assms(3) in \<open>simp add: store_inv_def\<close>)
  have "list_all (raw_has_run (id_runs db @ [run_row e i r])) (id_raw db)"
    by (rule raw_has_run_mono [of "id_runs db"]) (use assms(3) in \<open>auto simp: store_inv_def find_run_append split: option.splits\<close>)
  moreover have "queued q (run_row e i r)" for q
    using assms(2) by (auto simp: queued_def processable_def active_status_def)
  ultimately show ?thesis
    using assms(3) one i(2) by (auto simp: store_inv_def i(1) find_run_None)
qed

lemma update_run_Inr:
  assumes "update_run e i st x f db = Inr (db', r')"
  obtains r where "find_run i (id_runs db) = Some r" "ir_status r = st" "r' = f r"
    "is_ok (to_run_counters (ir_metrics (f r)))" "\<not> active_clash (f r) (id_runs db)" "ie_check_run e (f r) = None"
    "db' = db\<lparr>id_runs := map (\<lambda>q. if ir_id q = i then f q else q) (id_runs db)\<rparr>"
  using assms by (auto simp: update_run_def split: option.splits if_splits)

text \<open>Any update of one row that keeps its key; the new status is queued when it is processable.\<close>

lemma update_run_inv:
  assumes "update_run e i st x f db = Inr (db', r')" "store_inv db"
    "\<And>r. ir_id (f r) = ir_id r" "\<And>r. ir_source_id (f r) = ir_source_id r"
    "\<And>j. find_row j (id_queue db) \<noteq> None \<Longrightarrow> find_row j q \<noteq> None" "rp_inv q"
    "processable (ir_status r') \<Longrightarrow> find_row i q \<noteq> None"
  shows "store_inv (db'\<lparr>id_queue := q\<rparr>)"
proof -
  obtain r where r: "find_run i (id_runs db) = Some r" "r' = f r" "\<not> active_clash (f r) (id_runs db)"
    and db': "db' = db\<lparr>id_runs := map (\<lambda>q. if ir_id q = i then f q else q) (id_runs db)\<rparr>"
    using update_run_Inr [OF assms(1)] by blast
  let ?h = "\<lambda>q. if ir_id q = i then f q else q"
  note inv = assms(2) [unfolded store_inv_def]
  have only: "y = r" if "y \<in> set (id_runs db)" "ir_id y = i" for y
    using inv that find_run_Some [OF r(1)] map_of_distinct_in by metis
  have ids: "map ir_id (map ?h (id_runs db)) = map ir_id (id_runs db)"
    using assms(3) by (induction "id_runs db") auto
  have one: "one_active (map ?h (id_runs db))"
    by (rule one_active_update [where r = r]) (use inv assms(3) only r(3) in auto)
  have que: "list_all (queued q) (map ?h (id_runs db))"
    using inv only assms(3,5,7) r(2) by (auto simp: list_all_iff queued_def)
  have raw: "list_all (raw_has_run (map ?h (id_runs db))) (id_raw db)"
    by (rule raw_has_run_mono [of "id_runs db"]) (use inv assms(3) in \<open>auto simp: find_run_update\<close>)
  show ?thesis using inv one que raw assms(6) ids unfolding store_inv_def db' by (simp del: map_map)
qed

lemma progress_row_simps [simp]:
  "ir_id (progress_row e m cp now r) = ir_id r" "ir_source_id (progress_row e m cp now r) = ir_source_id r"
  "ir_status (progress_row e m cp now r) = ir_status r"
  "ir_metrics (progress_row e m cp now r) = add_metrics (ir_metrics r) m"
  "ir_checkpoint (progress_row e m cp now r) = (if cp \<noteq> [] then cp else ir_checkpoint r)"
  by (simp_all add: progress_row_def set_checkpoint_def)

lemma status_row_simps [simp]:
  "ir_id (status_row e run r) = ir_id r" "ir_source_id (status_row e run r) = ir_source_id r"
  "ir_status (status_row e run r) = ir_status run" "ir_metrics (status_row e run r) = ir_metrics r"
  "ir_checkpoint (status_row e run r) = (if ir_checkpoint run \<noteq> [] then ir_checkpoint run else ir_checkpoint r)"
  by (simp_all add: status_row_def set_checkpoint_def)

lemma update_run_progress_inv:
  assumes "update_run_progress e i m cp now db = Inr (db', u)" "store_inv db"
  shows "store_inv db'"
proof -
  obtain j r' where j: "update_run e j StatusRunning ErrInvalidRunState (progress_row e m cp now) db = Inr (db', r')"
    using assms(1) by (auto simp: update_run_progress_def bindr_Inr_iff split: sum.splits)
  have "ir_status r' = StatusRunning" using update_run_Inr [OF j] by (metis progress_row_simps(3))
  then have "store_inv (db'\<lparr>id_queue := id_queue db\<rparr>)"
    by (intro update_run_inv [OF j assms(2)])
       (use assms(2) in \<open>auto simp: store_inv_def processable_def\<close>)
  moreover have "db'\<lparr>id_queue := id_queue db\<rparr> = db'" by (rule update_run_Inr [OF j]) simp
  ultimately show ?thesis by simp
qed

lemma find_row_queue_run: "find_row j q \<noteq> None \<Longrightarrow> find_row j (queue_run now i q) \<noteq> None"
  by (auto simp: queue_run_def find_row_append split: option.splits)

lemma queue_run_queued: "find_row i (queue_run now i q) \<noteq> None"
  by (simp add: queue_run_def find_row_None)

lemma find_row_queue_runs: "find_row j q = Some p \<Longrightarrow> \<exists>p'. find_row j (queue_run now i q) = Some p'"
  using find_row_queue_run [of j q] by auto

lemma queue_run_inv: "rp_inv q \<Longrightarrow> rp_inv (queue_run now i q)"
  by (auto simp: queue_run_def rp_inv_def find_row_None row_ok_setters)

lemma update_run_status_Inr:
  assumes "update_run_status e now run from db = Inr (db', u)"
  obtains i d r where "parse_uuid (ie_scan e) (ir_id run) = Inr i"
    "update_run e i from ErrInvalidRunTransition (status_row e run) db = Inr (d, r)"
    "db' = (if processable (ir_status run) then d\<lparr>id_queue := queue_run now i (id_queue d)\<rparr> else d)"
  using assms by (auto simp: update_run_status_def bindr_Inr_iff split: sum.splits)

lemma update_run_status_inv:
  assumes "update_run_status e now run from db = Inr (db', u)" "store_inv db"
  shows "store_inv db'"
proof -
  obtain i d r where d: "update_run e i from ErrInvalidRunTransition (status_row e run) db = Inr (d, r)"
    and db': "db' = (if processable (ir_status run) then d\<lparr>id_queue := queue_run now i (id_queue d)\<rparr> else d)"
    using update_run_status_Inr [OF assms(1)] by blast
  have q: "id_queue d = id_queue db" "ir_status r = ir_status run" using update_run_Inr [OF d] by fastforce+
  let ?q = "if processable (ir_status run) then queue_run now i (id_queue db) else id_queue db"
  have "db' = d\<lparr>id_queue := ?q\<rparr>" using db' q by (cases d) auto
  moreover have "store_inv (d\<lparr>id_queue := ?q\<rparr>)"
    by (rule update_run_inv [OF d assms(2)])
       (use assms(2) q(2) in \<open>auto simp: store_inv_def find_row_queue_runs queue_run_queued queue_run_inv\<close>)
  ultimately show ?thesis by simp
qed

lemma insert_raw_Inr:
  "insert_raw e runs rs rows = Inr rows' \<Longrightarrow> rows' = rows @ rs \<and> (distinct (map rr_id rows) \<longrightarrow> distinct (map rr_id rows')) \<and>
     list_all (raw_has_run runs) rs \<and> list_all (\<lambda>r. ie_check_raw e r = None) rs"
proof (induction rs arbitrary: rows)
  case Nil
  then show ?case by simp
next
  case (Cons r rs)
  then have r: "ie_check_raw e r = None" "raw_has_run runs r" "rr_id r \<notin> rr_id ` set rows"
    and "insert_raw e runs rs (rows @ [r]) = Inr rows'"
    by (auto simp: list_ex_iff raw_has_run_def split: option.splits if_splits)
  note IH = Cons.IH [OF this(4)]
  then have "rows' = rows @ r # rs" "list_all (raw_has_run runs) (r # rs)" "list_all (\<lambda>r. ie_check_raw e r = None) (r # rs)"
    using r by simp_all
  moreover have "distinct (map rr_id rows')" if "distinct (map rr_id rows)"
  proof -
    have "distinct (map rr_id (rows @ [r]))" using that r(3) by simp
    with IH show ?thesis by blast
  qed
  ultimately show ?case by blast
qed

lemma save_batch_Inr:
  assumes "save_batch e recs db = Inr (db', u)"
  obtains rs where "raw_rows e recs = Inr rs" "db' = db\<lparr>id_raw := id_raw db @ rs\<rparr>"
    "distinct (map rr_id (id_raw db)) \<Longrightarrow> distinct (map rr_id (id_raw db @ rs))" "list_all (raw_has_run (id_runs db)) rs"
proof (cases "recs = []")
  case True
  with assms that [of "[]"] show ?thesis by (simp add: save_batch_def)
next
  case False
  with assms obtain rs where "raw_rows e recs = Inr rs" "is_ok (insert_raw e (id_runs db) rs (id_raw db))"
    "db' = db\<lparr>id_raw := projr (insert_raw e (id_runs db) rs (id_raw db))\<rparr>"
    by (auto simp: save_batch_def bindr_Inr_iff)
  then show ?thesis using insert_raw_Inr [of e "id_runs db" rs "id_raw db"] that [of rs] by (metis is_ok_projr)
qed

lemma append_raw_inv:
  "store_inv db \<Longrightarrow> distinct (map rr_id (id_raw db @ rs)) \<Longrightarrow> list_all (raw_has_run (id_runs db)) rs \<Longrightarrow>
   store_inv (db\<lparr>id_raw := id_raw db @ rs\<rparr>)"
  by (simp add: store_inv_def)

lemma save_batch_inv:
  assumes "save_batch e recs db = Inr (db', u)" "store_inv db"
  shows "store_inv db'"
proof -
  from save_batch_Inr [OF assms(1)] obtain rs where "db' = db\<lparr>id_raw := id_raw db @ rs\<rparr>"
    "distinct (map rr_id (id_raw db @ rs))" "list_all (raw_has_run (id_runs db)) rs"
    using assms(2) by (metis store_inv_def)
  then show ?thesis using append_raw_inv [OF assms(2)] by blast
qed

lemma save_record_inv:
  assumes "save_record e r db = Inr (db', r')" "store_inv db"
  shows "store_inv db'"
proof -
  obtain x where "raw_row e r = Inr x" "is_ok (insert_raw e (id_runs db) [x] (id_raw db))"
    and db': "db' = db\<lparr>id_raw := projr (insert_raw e (id_runs db) [x] (id_raw db))\<rparr>"
    using assms(1) by (auto simp: save_record_def bindr_Inr_iff)
  with insert_raw_Inr [of e "id_runs db" "[x]" "id_raw db" "projr (insert_raw e (id_runs db) [x] (id_raw db))"]
  have "projr (insert_raw e (id_runs db) [x] (id_raw db)) = id_raw db @ [x]" "list_all (raw_has_run (id_runs db)) [x]"
    "distinct (map rr_id (id_raw db @ [x]))"
    using assms(2) is_ok_projr unfolding store_inv_def by metis+
  with append_raw_inv [OF assms(2)] db' show ?thesis by simp
qed

text \<open>What the workers of the processing queue do.\<close>

definition queue_env :: "ingest_env \<Rightarrow> ingest_db \<Rightarrow> rp_env" where
  "queue_env e db = \<lparr>pe_scan = ie_scan e, pe_run_exists = (\<lambda>i. find_run i (id_runs db) \<noteq> None)\<rparr>"

definition queue_op :: "ingest_env \<Rightarrow> instant \<Rightarrow> rp_op \<Rightarrow> ingest_db \<Rightarrow> ingest_db" where
  "queue_op e now op db = db\<lparr>id_queue := exec_op (queue_env e db) now op (id_queue db)\<rparr>"

lemma find_row_exec_op: "find_row j q \<noteq> None \<Longrightarrow> find_row j (exec_op e now op q) \<noteq> None"
proof (rule exec_cases [of e now op q])
  fix i g f assume "find_row j q \<noteq> None" "exec_op e now op q = fst (update_where i g f q)"
    "\<And>x. rp_run_id (f x) = rp_run_id x"
  then show ?thesis using find_row_update_where [of f j i g q] by (auto split: option.splits)
qed (auto simp: find_row_append split: option.splits)

lemma queue_op_inv: "store_inv db \<Longrightarrow> store_inv (queue_op e now op db)"
  using find_row_exec_op exec_op_inv unfolding store_inv_def queue_op_def list_all_iff queued_def by fastforce

end
