(* ===== verification/IngestionService.thy ===== *)
theory IngestionService
  imports IngestionStore
begin

text \<open>
  The ingestion run service, \<open>internal/application/ingestion/service.go\<close>, and the raw record service,
  \<open>raw_record_service.go\<close>. The services are clients of repositories, the clock and the UUID
  generator; \<open>run_deps\<close> is what they call, as functions on a state, and the operations are their
  code over it. A context is the caller's or the detached one of \<open>cleanup.Context\<close>.
\<close>

subsection \<open>The run service\<close>

record 's run_deps =
  rd_now :: "'s \<Rightarrow> 's \<times> instant"
  rd_uuid :: "'s \<Rightarrow> 's \<times> (gerr + string)"
  rd_source :: "string \<Rightarrow> 's \<Rightarrow> 's \<times> (gerr + bool)"
  rd_find :: "ctx \<Rightarrow> string \<Rightarrow> 's \<Rightarrow> 's \<times> (gerr + ingestion_run)"
  rd_latest :: "string \<Rightarrow> 's \<Rightarrow> 's \<times> (gerr + ingestion_run)"
  rd_list :: "string \<Rightarrow> int \<Rightarrow> 's \<Rightarrow> 's \<times> (gerr + ingestion_run list)"
  rd_create :: "ingestion_run \<Rightarrow> 's \<Rightarrow> 's \<times> (gerr + ingestion_run)"
  rd_progress :: "string \<Rightarrow> metrics \<Rightarrow> string \<Rightarrow> instant \<Rightarrow> 's \<Rightarrow> 's \<times> (gerr + unit)"
  rd_status :: "ctx \<Rightarrow> ingestion_run \<Rightarrow> run_status \<Rightarrow> 's \<Rightarrow> 's \<times> (gerr + unit)"

text \<open>Sequencing: \<open>x, err := f(); if err != nil { return g(err) }\<close> on a state.\<close>

definition bindw :: "'s \<times> (gerr + 'a) \<Rightarrow> (gerr \<Rightarrow> gerr) \<Rightarrow> ('a \<Rightarrow> 's \<Rightarrow> 's \<times> (gerr + 'b)) \<Rightarrow> 's \<times> (gerr + 'b)" where
  "bindw p g k = (case p of (w, Inl x) \<Rightarrow> (w, Inl (g x)) | (w, Inr a) \<Rightarrow> k a w)"

definition failw :: "bool \<Rightarrow> gerr \<Rightarrow> 's \<Rightarrow> ('s \<Rightarrow> 's \<times> (gerr + 'a)) \<Rightarrow> 's \<times> (gerr + 'a)" where
  "failw c x w k = (if c then (w, Inl x) else k w)"

definition verify_source :: "'s run_deps \<Rightarrow> string \<Rightarrow> 's \<Rightarrow> 's \<times> (gerr + unit)" where
  "verify_source d src w =
     bindw (rd_source d src w) Wrap (\<lambda>enabled w.
     failw (\<not> enabled) (Leaf (Ingestion ErrInactiveSource)) w (\<lambda>w. (w, Inr ())))"

definition check_active :: "'s run_deps \<Rightarrow> string \<Rightarrow> 's \<Rightarrow> 's \<times> (gerr + unit)" where
  "check_active d src w =
     (case rd_latest d src w of
        (w, Inl x) \<Rightarrow> (w, if err_is x (Ingestion ErrRunNotFound) then Inr () else Inl (Wrap x))
      | (w, Inr r) \<Rightarrow> (w, if active_status (ir_status r) then Inl (Leaf (Ingestion ErrRunAlreadyActive)) else Inr ()))"

definition start_ingestion :: "'s run_deps \<Rightarrow> string \<Rightarrow> string \<Rightarrow> 's \<Rightarrow> 's \<times> (gerr + ingestion_run)" where
  "start_ingestion d src cp w =
     failw (is_blank src) (Leaf (Source ErrInvalidSourceID)) w (\<lambda>w.
     bindw (verify_source d src w) (\<lambda>x. x) (\<lambda>_ w.
     bindw (check_active d src w) (\<lambda>x. x) (\<lambda>_ w.
     case rd_now d w of (w, now) \<Rightarrow>
     case rd_uuid d w of (w, uuid) \<Rightarrow>
     case rd_now d w of (w, created) \<Rightarrow>
     bindw (w, new_run uuid created [] src cp) Wrap (\<lambda>r w.
     bindw (w, start_run now r) Wrap (\<lambda>r w.
     bindw (rd_create d r w) Wrap (\<lambda>r w. (w, Inr r)))))))"

definition record_ingestion_batch :: "'s run_deps \<Rightarrow> string \<Rightarrow> metrics \<Rightarrow> string \<Rightarrow> 's \<Rightarrow> 's \<times> (gerr + unit)" where
  "record_ingestion_batch d i m cp w =
     failw (is_blank i) (Leaf (Ingestion ErrInvalidRunID)) w (\<lambda>w.
     failw (m_seen m < 0 \<or> m_new m < 0 \<or> m_changed m < 0 \<or> m_unchanged m < 0 \<or> m_failed m < 0)
       (Leaf (Product ErrNegativeMetric)) w (\<lambda>w.
     case rd_now d w of (w, now) \<Rightarrow>
     bindw (rd_progress d i m (trim_space cp) now w) Wrap (\<lambda>_ w. (w, Inr ()))))"

definition transition_run ::
  "'s run_deps \<Rightarrow> ctx \<Rightarrow> string \<Rightarrow> (instant \<Rightarrow> ingestion_run \<Rightarrow> gerr + ingestion_run) \<Rightarrow> 's \<Rightarrow> 's \<times> (gerr + unit)" where
  "transition_run d c i f w =
     bindw (rd_find d c i w) Wrap (\<lambda>r w.
     case rd_now d w of (w, now) \<Rightarrow>
     bindw (w, f now r) (\<lambda>x. x) (\<lambda>r' w.
     bindw (rd_status d c r' (ir_status r) w) Wrap (\<lambda>_ w. (w, Inr ()))))"

definition complete_ingestion :: "'s run_deps \<Rightarrow> ctx \<Rightarrow> string \<Rightarrow> string \<Rightarrow> 's \<Rightarrow> 's \<times> (gerr + unit)" where
  "complete_ingestion d c i cp = transition_run d c i (complete_run cp)"

definition fail_ingestion :: "'s run_deps \<Rightarrow> ctx \<Rightarrow> string \<Rightarrow> string \<Rightarrow> 's \<Rightarrow> 's \<times> (gerr + unit)" where
  "fail_ingestion d c i msg = transition_run d c i (fail_run msg)"

definition cancel_ingestion :: "'s run_deps \<Rightarrow> ctx \<Rightarrow> string \<Rightarrow> string \<Rightarrow> 's \<Rightarrow> 's \<times> (gerr + unit)" where
  "cancel_ingestion d c i reason = transition_run d c i (cancel_run reason)"

definition resume_ingestion :: "'s run_deps \<Rightarrow> string \<Rightarrow> 's \<Rightarrow> 's \<times> (gerr + ingestion_run)" where
  "resume_ingestion d i w =
     bindw (rd_find d CallerCtx i w) Wrap (\<lambda>r w.
     failw (ir_status r \<noteq> StatusPartial \<and> ir_status r \<noteq> StatusFailed) (Wrap (Leaf (Ingestion ErrInvalidRunTransition))) w (\<lambda>w.
     start_ingestion d (ir_source_id r) (ir_checkpoint r) w))"

definition get_ingestion :: "'s run_deps \<Rightarrow> string \<Rightarrow> 's \<Rightarrow> 's \<times> (gerr + ingestion_run)" where
  "get_ingestion d i w =
     failw (is_blank i) (Leaf (Ingestion ErrInvalidRunID)) w (\<lambda>w.
     bindw (rd_find d CallerCtx i w) Wrap (\<lambda>r w. (w, Inr r)))"

definition latest_ingestion :: "'s run_deps \<Rightarrow> string \<Rightarrow> 's \<Rightarrow> 's \<times> (gerr + ingestion_run)" where
  "latest_ingestion d src w =
     failw (is_blank src) (Leaf (Source ErrInvalidSourceID)) w (\<lambda>w.
     bindw (rd_latest d src w) Wrap (\<lambda>r w. (w, Inr r)))"

definition list_ingestions :: "'s run_deps \<Rightarrow> string \<Rightarrow> int \<Rightarrow> 's \<Rightarrow> 's \<times> (gerr + ingestion_run list)" where
  "list_ingestions d src limit w =
     failw (is_blank src) (Leaf (Source ErrInvalidSourceID)) w (\<lambda>w.
     bindw (rd_list d src limit w) Wrap (\<lambda>r w. (w, Inr r)))"

subsection \<open>The raw record service\<close>

record 's raw_deps =
  rw_runs :: "'s run_deps"
  rw_save :: "raw_record \<Rightarrow> 's \<Rightarrow> 's \<times> (gerr + raw_record)"
  rw_save_batch :: "raw_record list \<Rightarrow> 's \<Rightarrow> 's \<times> (gerr + unit)"
  rw_by_id :: "string \<Rightarrow> 's \<Rightarrow> 's \<times> (gerr + raw_record)"
  rw_latest :: "string \<Rightarrow> string \<Rightarrow> 's \<Rightarrow> 's \<times> (gerr + raw_record)"
  rw_by_product :: "string \<Rightarrow> string \<Rightarrow> int \<Rightarrow> 's \<Rightarrow> 's \<times> (gerr + raw_record list)"
  rw_by_run :: "string \<Rightarrow> int \<Rightarrow> 's \<Rightarrow> 's \<times> (gerr + raw_record list)"

definition verify_run :: "'s run_deps \<Rightarrow> string \<Rightarrow> 's \<Rightarrow> 's \<times> (gerr + unit)" where
  "verify_run d i w =
     (if i = [] then (w, Inr ()) else bindw (rd_find d CallerCtx i w) Wrap (\<lambda>_ w. (w, Inr ())))"

text \<open>\<open>StoreRawRecordParams\<close> has no raw payload and no hash: those fields of \<open>p\<close> are not read.\<close>

definition store_raw_record :: "raw_env \<Rightarrow> 's raw_deps \<Rightarrow> raw_record \<Rightarrow> 's \<Rightarrow> 's \<times> (gerr + raw_record)" where
  "store_raw_record e d p w =
     failw (is_blank (rr_source_id p)) (Leaf (Source ErrInvalidSourceID)) w (\<lambda>w.
     bindw (verify_source (rw_runs d) (rr_source_id p) w) (\<lambda>x. x) (\<lambda>_ w.
     bindw (verify_run (rw_runs d) (trim_space (rr_run_id p)) w) (\<lambda>x. x) (\<lambda>_ w.
     case (if is_blank (rr_id p) then rd_uuid (rw_runs d) w else (w, Inr [])) of (w, uuid) \<Rightarrow>
     case (if is_zero (rr_received_at p) then rd_now (rw_runs d) w else (w, 0)) of (w, now) \<Rightarrow>
     bindw (w, new_raw_record e uuid now (p\<lparr>rr_payload_raw := [], rr_payload_sha256 := [], rr_run_id := trim_space (rr_run_id p)\<rparr>))
       Wrap (\<lambda>r w.
     bindw (rw_save d r w) Wrap (\<lambda>r w. (w, Inr r))))))"

fun validate_all :: "raw_env \<Rightarrow> raw_record list \<Rightarrow> gerr + unit" where
  "validate_all e [] = Inr ()"
| "validate_all e (r # rs) = bindr (mapl Wrap (validate_record e r)) (\<lambda>_. validate_all e rs)"

definition store_raw_batch ::
  "raw_env \<Rightarrow> 's raw_deps \<Rightarrow> string \<Rightarrow> string \<Rightarrow> raw_record list \<Rightarrow> 's \<Rightarrow> 's \<times> (gerr + raw_record list)" where
  "store_raw_batch e d src i recs w =
     failw (is_blank src) (Leaf (Source ErrInvalidSourceID)) w (\<lambda>w.
     if recs = [] then (w, Inr []) else
     bindw (verify_source (rw_runs d) src w) (\<lambda>x. x) (\<lambda>_ w.
     bindw (verify_run (rw_runs d) (trim_space i) w) (\<lambda>x. x) (\<lambda>_ w.
     let recs' = map (\<lambda>r. r\<lparr>rr_source_id := src, rr_run_id := trim_space i\<rparr>) recs in
     bindw (w, validate_all e recs') (\<lambda>x. x) (\<lambda>_ w.
     bindw (rw_save_batch d recs' w) Wrap (\<lambda>_ w. (w, Inr recs'))))))"

definition get_raw_record :: "'s raw_deps \<Rightarrow> string \<Rightarrow> 's \<Rightarrow> 's \<times> (gerr + raw_record)" where
  "get_raw_record d i w =
     failw (is_blank i) (Leaf (Ingestion ErrInvalidRecordID)) w (\<lambda>w.
     bindw (rw_by_id d (trim_space i) w) Wrap (\<lambda>r w. (w, Inr r)))"

definition latest_raw_record :: "'s raw_deps \<Rightarrow> string \<Rightarrow> string \<Rightarrow> 's \<Rightarrow> 's \<times> (gerr + raw_record)" where
  "latest_raw_record d src x w =
     failw (is_blank src) (Leaf (Source ErrInvalidSourceID)) w (\<lambda>w.
     failw (is_blank x) (Leaf (Ingestion ErrInvalidExternalProductID)) w (\<lambda>w.
     bindw (rw_latest d src (trim_space x) w) Wrap (\<lambda>r w. (w, Inr r))))"

definition list_raw_records :: "'s raw_deps \<Rightarrow> string \<Rightarrow> string \<Rightarrow> int \<Rightarrow> 's \<Rightarrow> 's \<times> (gerr + raw_record list)" where
  "list_raw_records d src x limit w =
     failw (is_blank src) (Leaf (Source ErrInvalidSourceID)) w (\<lambda>w.
     failw (is_blank x) (Leaf (Ingestion ErrInvalidExternalProductID)) w (\<lambda>w.
     bindw (rw_by_product d src (trim_space x) limit w) Wrap (\<lambda>r w. (w, Inr r))))"

definition list_run_records :: "'s raw_deps \<Rightarrow> string \<Rightarrow> int \<Rightarrow> 's \<Rightarrow> 's \<times> (gerr + raw_record list)" where
  "list_run_records d i limit w =
     failw (is_blank i) (Leaf (Ingestion ErrInvalidRunID)) w (\<lambda>w.
     bindw (rw_by_run d (trim_space i) limit w) Wrap (\<lambda>r w. (w, Inr r)))"

text \<open>How a step of an operation ends.\<close>

lemma bindw_simps [simp]:
  "bindw (w, Inl x) g k = (w, Inl (g x))"
  "bindw (w, Inr a) g k = k a w"
  by (simp_all add: bindw_def)

lemma failw_simps [simp]:
  "failw True x w k = (w, Inl x)"
  "failw False x w k = k w"
  by (simp_all add: failw_def)

lemma bindw_Inr_iff: "bindw p g k = (w', Inr b) \<longleftrightarrow> (\<exists>w a. p = (w, Inr a) \<and> k a w = (w', Inr b))"
  by (cases p; cases "snd p") auto

lemma failw_Inr_iff: "failw c x w k = (w', Inr b) \<longleftrightarrow> \<not> c \<and> k w = (w', Inr b)"
  by (simp add: failw_def)

end
