(* ===== verification/Sync.thy ===== *)
theory Sync
  imports IngestionService
begin

text \<open>
  The sync coordinator, \<open>internal/application/ingestion/sync.go\<close>: fetch a page, save its records
  together with the progress of the run in one transaction, until the adapter has no more; then
  complete the run. It is a client of the run service, of an adapter and of the transaction runner.

  The locale \<open>sync_store\<close> states what the coordinator relies on. It is interpreted on the tables of
  theory IngestionStore with a schedule that says, for every call, what others did before it, the
  instant, the faults of the database, what the adapter answers and when the context is cancelled.
\<close>

subsection \<open>The coordinator\<close>

record fetch_result =
  fr_records :: "raw_record list"
  fr_failed :: int
  fr_next :: string
  fr_has_more :: bool

text \<open>\<open>'t\<close> is the state that a transaction works on.\<close>

record ('s, 't, 'f) sync_deps =
  sy_runs :: "'s run_deps"
  sy_ctx_err :: "'s \<Rightarrow> gerr option"
  sy_cause :: "'s \<Rightarrow> gerr option"
  sy_fetch :: "string \<Rightarrow> int \<Rightarrow> 's \<Rightarrow> 's \<times> (gerr + fetch_result)"
  sy_within_tx :: "('t \<Rightarrow> gerr + ('t \<times> unit)) \<Rightarrow> 's \<Rightarrow> 's \<times> (gerr + unit)"
  sy_save :: "'t \<Rightarrow> raw_record list \<Rightarrow> gerr + ('t \<times> unit)"
  sy_progress :: "'t \<Rightarrow> string \<Rightarrow> metrics \<Rightarrow> string \<Rightarrow> instant \<Rightarrow> gerr + ('t \<times> unit)"
  sy_error_text :: "gerr \<Rightarrow> string"
  sy_fdiv :: "int \<Rightarrow> int \<Rightarrow> 'f"

record 'f sync_params =
  sp_source_id :: string
  sp_checkpoint :: string
  sp_batch_size :: int
  sp_budget :: "'f error_budget"

text \<open>The result of \<open>SyncSource\<close>: the run, if any, and the error, if any.\<close>

type_synonym sync_result = "ingestion_run option \<times> gerr option"

definition stamp_record :: "string \<Rightarrow> instant \<Rightarrow> raw_record \<Rightarrow> raw_record" where
  "stamp_record rid now r = r\<lparr>rr_run_id := rid,
     rr_received_at := (if is_zero (rr_received_at r) then now else rr_received_at r)\<rparr>"

definition page_metrics :: "fetch_result \<Rightarrow> metrics" where
  "page_metrics res = zero_metrics\<lparr>m_seen := int (length (fr_records res)) + fr_failed res, m_failed := fr_failed res\<rparr>"

definition persist_body ::
  "('s, 't, 'f::linorder) sync_deps \<Rightarrow> string \<Rightarrow> instant \<Rightarrow> fetch_result \<Rightarrow> 't \<Rightarrow> gerr + ('t \<times> unit)" where
  "persist_body d rid now res t =
     bindr (mapl Wrap (sy_save d t (map (stamp_record rid now) (fr_records res)))) (\<lambda>(t1, _).
     bindr (mapl Wrap (sy_progress d t1 rid (page_metrics res) (fr_next res) now)) (\<lambda>(t2, _). Inr (t2, ())))"

definition persist_batch ::
  "('s, 't, 'f::linorder) sync_deps \<Rightarrow> string \<Rightarrow> fetch_result \<Rightarrow> 's \<Rightarrow> 's \<times> (gerr + unit)" where
  "persist_batch d rid res w =
     (case rd_now (sy_runs d) w of (w, now) \<Rightarrow> sy_within_tx d (persist_body d rid now res) w)"

definition cancel_sync :: "('s, 't, 'f::linorder) sync_deps \<Rightarrow> ingestion_run \<Rightarrow> string \<Rightarrow> 's \<Rightarrow> 's \<times> sync_result" where
  "cancel_sync d run reason w =
     (let cause = (case sy_cause d w of None \<Rightarrow> canceled_err | Some x \<Rightarrow> x) in
      case cancel_ingestion (sy_runs d) DetachedCtx (ir_id run) reason w of
        (w, Inl x) \<Rightarrow> (w, Some run, Some (Join [cause, Wrap x]))
      | (w, Inr _) \<Rightarrow> (w, Some run, Some cause))"

definition fail_sync :: "('s, 't, 'f::linorder) sync_deps \<Rightarrow> ingestion_run \<Rightarrow> gerr \<Rightarrow> 's \<Rightarrow> 's \<times> sync_result" where
  "fail_sync d run runErr w =
     (case fail_ingestion (sy_runs d) DetachedCtx (ir_id run) (sy_error_text d runErr) w of
        (w, Inl x) \<Rightarrow> (w, Some run, Some (Join [runErr, Wrap x]))
      | (w, Inr _) \<Rightarrow> (w, Some run, Some runErr))"

text \<open>\<open>if ctx.Err() != nil { return run, c.cancelRun(\<dots>) }; return run, c.failRun(\<dots>)\<close>.\<close>

definition abort_sync :: "('s, 't, 'f::linorder) sync_deps \<Rightarrow> ingestion_run \<Rightarrow> string \<Rightarrow> gerr \<Rightarrow> 's \<Rightarrow> 's \<times> sync_result" where
  "abort_sync d run reason runErr w =
     (if sy_ctx_err d w \<noteq> None then cancel_sync d run reason w else fail_sync d run runErr w)"

definition finish_sync :: "('s, 't, 'f::linorder) sync_deps \<Rightarrow> ingestion_run \<Rightarrow> string \<Rightarrow> 's \<Rightarrow> 's \<times> sync_result" where
  "finish_sync d run cp w =
     (case complete_ingestion (sy_runs d) CallerCtx (ir_id run) cp w of
        (w, Inl x) \<Rightarrow> abort_sync d run ''context cancelled during run completion'' (Wrap x) w
      | (w, Inr _) \<Rightarrow>
          (case get_ingestion (sy_runs d) (ir_id run) w of
             (w, Inl x) \<Rightarrow> (w, None, Some x) | (w, Inr r) \<Rightarrow> (w, Some r, None)))"

definition advance_checkpoint :: "string \<Rightarrow> fetch_result \<Rightarrow> string" where
  "advance_checkpoint cp res = (if fr_next res \<noteq> [] then fr_next res else cp)"

definition last_page :: "fetch_result \<Rightarrow> bool" where
  "last_page res \<longleftrightarrow> \<not> fr_has_more res \<or> fr_next res = []"

text \<open>One iteration of the loop, in three parts: after the page was persisted, after it was fetched, and
  from the start. It returns (\<open>Inl\<close>), or goes on with its variables (\<open>Inr\<close>).\<close>

type_synonym 's sync_iteration = "('s \<times> sync_result) + (string \<times> int \<times> int \<times> 's)"

definition sync_advance ::
  "('s, 't, 'f::linorder) sync_deps \<Rightarrow> 'f sync_params \<Rightarrow> ingestion_run \<Rightarrow> string \<Rightarrow> int \<Rightarrow> int \<Rightarrow> fetch_result \<Rightarrow> 's
     \<Rightarrow> 's sync_iteration" where
  "sync_advance d p run cp seen failed res w =
     (let seen' = seen + (int (length (fr_records res)) + fr_failed res); failed' = failed + fr_failed res in
      case check_budget (sy_fdiv d) (sp_budget p) seen' failed' of
        Inl x \<Rightarrow> Inl (fail_sync d run x w)
      | Inr _ \<Rightarrow>
          let cp' = advance_checkpoint cp res in
          if last_page res then Inl (finish_sync d run cp' w) else Inr (cp', seen', failed', w))"

definition sync_save ::
  "('s, 't, 'f::linorder) sync_deps \<Rightarrow> 'f sync_params \<Rightarrow> ingestion_run \<Rightarrow> string \<Rightarrow> int \<Rightarrow> int \<Rightarrow> fetch_result \<Rightarrow> 's
     \<Rightarrow> 's sync_iteration" where
  "sync_save d p run cp seen failed res w =
     (if fr_has_more res \<and> fr_next res = cp
      then Inl (fail_sync d run (Wrap (Leaf (Ingestion ErrSourceContractViolation))) w)
      else case persist_batch d (ir_id run) res w of
        (w1, Inl x) \<Rightarrow> Inl (abort_sync d run ''context cancelled during batch persistence'' (Wrap x) w1)
      | (w1, Inr _) \<Rightarrow> sync_advance d p run cp seen failed res w1)"

definition sync_page ::
  "('s, 't, 'f::linorder) sync_deps \<Rightarrow> 'f sync_params \<Rightarrow> ingestion_run \<Rightarrow> string \<Rightarrow> int \<Rightarrow> int \<Rightarrow> 's
     \<Rightarrow> 's sync_iteration" where
  "sync_page d p run cp seen failed w =
     (if sy_ctx_err d w \<noteq> None then Inl (cancel_sync d run ''context cancelled during ingestion'' w)
      else case sy_fetch d cp (sp_batch_size p) w of
        (w1, Inl x) \<Rightarrow> Inl (abort_sync d run ''context cancelled during adapter fetch'' (Wrap x) w1)
      | (w1, Inr res) \<Rightarrow> sync_save d p run cp seen failed res w1)"

text \<open>The loop; a source that always has more gives it no value.\<close>

partial_function (option) sync_loop ::
  "('s, 't, 'f::linorder) sync_deps \<Rightarrow> 'f sync_params \<Rightarrow> ingestion_run \<Rightarrow> string \<Rightarrow> int \<Rightarrow> int \<Rightarrow> 's \<Rightarrow> ('s \<times> sync_result) option" where
  "sync_loop d p run cp seen failed w =
     (case sync_page d p run cp seen failed w of
        Inl y \<Rightarrow> Some y | Inr (cp', seen', failed', w') \<Rightarrow> sync_loop d p run cp' seen' failed' w')"

declare sync_loop.simps [code]

definition sync_source ::
  "'f \<Rightarrow> 'f \<Rightarrow> ('s, 't, 'f::linorder) sync_deps \<Rightarrow> 'f sync_params \<Rightarrow> 's \<Rightarrow> ('s \<times> sync_result) option" where
  "sync_source zero one d p w =
     (case validate_budget zero one (sp_budget p) of
        Inl x \<Rightarrow> Some (w, None, Some (Wrap x))
      | Inr _ \<Rightarrow>
          (case start_ingestion (sy_runs d) (sp_source_id p) (sp_checkpoint p) w of
             (w, Inl x) \<Rightarrow> Some (w, None, Some (Wrap x))
           | (w, Inr run) \<Rightarrow> sync_loop d p run (ir_checkpoint run) 0 0 w))"

subsection \<open>What the coordinator relies on and what it promises\<close>

text \<open>
  How a state is looked at: its invariant, the ids it drew, the runs it created, the raw records stored
  for a run in the order they were stored, the row of a run, the pages the adapter has handed out, and which pages it can hand out for a
  checkpoint.
\<close>

record 's sync_view =
  sv_inv :: "'s \<Rightarrow> bool"
  sv_drawn :: "'s \<Rightarrow> string \<Rightarrow> bool"
  sv_mine :: "'s \<Rightarrow> string \<Rightarrow> bool"
  sv_saved :: "'s \<Rightarrow> string \<Rightarrow> raw_record list"
  sv_run :: "'s \<Rightarrow> string \<Rightarrow> ingestion_run option"
  sv_pages :: "'s \<Rightarrow> fetch_result list"
  sv_answer :: "string \<Rightarrow> fetch_result \<Rightarrow> bool"

text \<open>What a record says, without its identity, its run and the times the table rounds.\<close>

definition content :: "raw_record \<Rightarrow> raw_record" where
  "content r = r\<lparr>rr_id := [], rr_run_id := [], rr_received_at := 0, rr_source_updated_at := None,
     rr_payload_raw := (if rr_payload_raw r = [] then rr_payload r else rr_payload_raw r)\<rparr>"

lemma content_stamp [simp]: "content (stamp_record rid now r) = content r"
  by (simp add: content_def stamp_record_def)

definition quiet :: "'s sync_view \<Rightarrow> 's \<Rightarrow> 's \<Rightarrow> bool" where
  "quiet v w w' \<longleftrightarrow> sv_inv v w' \<and> (\<forall>i. sv_drawn v w i \<longrightarrow> sv_drawn v w' i) \<and>
     (\<forall>i. sv_mine v w i \<longrightarrow> sv_mine v w' i \<and> sv_saved v w' i = sv_saved v w i \<and> sv_run v w' i = sv_run v w i)"

text \<open>The status of the run was written, under the guard on its old status.\<close>

definition settled :: "'s sync_view \<Rightarrow> ingestion_run \<Rightarrow> run_status \<Rightarrow> 's \<Rightarrow> 's \<Rightarrow> bool" where
  "settled v r st w w' \<longleftrightarrow> sv_inv v w' \<and> sv_mine v w' (ir_id r) \<and> sv_saved v w' (ir_id r) = sv_saved v w (ir_id r) \<and>
     (\<exists>old new. sv_run v w (ir_id r) = Some old \<and> ir_status old = st \<and> sv_run v w' (ir_id r) = Some new \<and>
        ir_status new = ir_status r \<and> ir_metrics new = ir_metrics old \<and>
        ir_checkpoint new = (if ir_checkpoint r \<noteq> [] then ir_checkpoint r else ir_checkpoint old))"

text \<open>The page was saved and the run advanced, both.\<close>

definition persisted :: "'s sync_view \<Rightarrow> string \<Rightarrow> fetch_result \<Rightarrow> 's \<Rightarrow> 's \<Rightarrow> bool" where
  "persisted v rid res w w' \<longleftrightarrow> sv_inv v w' \<and> sv_mine v w' rid \<and>
     map content (sv_saved v w' rid) = map content (sv_saved v w rid) @ map content (fr_records res) \<and>
     (\<exists>old new. sv_run v w rid = Some old \<and> sv_run v w' rid = Some new \<and> ir_status new = ir_status old \<and>
        ir_metrics new = add_metrics (ir_metrics old) (page_metrics res) \<and>
        ir_checkpoint new = advance_checkpoint (ir_checkpoint old) res)"

text \<open>The abstract state of a run after pages \<open>ps\<close>.\<close>

definition total_metrics :: "fetch_result list \<Rightarrow> metrics" where
  "total_metrics ps = foldl (\<lambda>m res. add_metrics m (page_metrics res)) zero_metrics ps"

definition page_contents :: "fetch_result list \<Rightarrow> raw_record list" where
  "page_contents ps = concat (map (\<lambda>res. map content (fr_records res)) ps)"

text \<open>Each page answers the checkpoint that the pages before it lead to, and only the last may be a
  last page.\<close>

fun page_chain :: "(string \<Rightarrow> fetch_result \<Rightarrow> bool) \<Rightarrow> string \<Rightarrow> fetch_result list \<Rightarrow> bool" where
  "page_chain A cp [] \<longleftrightarrow> True"
| "page_chain A cp (res # ps) \<longleftrightarrow> A cp res \<and> (ps \<noteq> [] \<longrightarrow> \<not> last_page res) \<and> page_chain A (advance_checkpoint cp res) ps"

lemma page_chain_snoc:
  "page_chain A cp ps \<Longrightarrow> (ps \<noteq> [] \<Longrightarrow> \<not> last_page (last ps)) \<Longrightarrow> A (foldl advance_checkpoint cp ps) res \<Longrightarrow>
   page_chain A cp (ps @ [res])"
  by (induction ps arbitrary: cp) (auto split: if_splits)

definition covers :: "'s sync_view \<Rightarrow> string \<Rightarrow> string \<Rightarrow> fetch_result list \<Rightarrow> 's \<Rightarrow> ingestion_run \<Rightarrow> bool" where
  "covers v rid cp0 ps w row \<longleftrightarrow> sv_inv v w \<and> sv_mine v w rid \<and> sv_run v w rid = Some row \<and>
     map content (sv_saved v w rid) = page_contents ps \<and> ir_metrics row = total_metrics ps \<and>
     ir_checkpoint row = foldl advance_checkpoint cp0 ps \<and> page_chain (sv_answer v) cp0 ps"

definition sync_outcome :: "'s sync_view \<Rightarrow> 's \<Rightarrow> string \<Rightarrow> string \<Rightarrow> 's \<Rightarrow> sync_result \<Rightarrow> bool" where
  "sync_outcome v w0 rid cp0 w' r \<longleftrightarrow>
     (\<exists>ps rest row. sv_pages v w' = sv_pages v w0 @ ps @ rest \<and> length rest \<le> 1 \<and> covers v rid cp0 ps w' row \<and>
        (case snd r of
           None \<Rightarrow> rest = [] \<and> fst r = Some row \<and> ps \<noteq> [] \<and> last_page (last ps) \<and>
             ir_status row = (if m_failed (total_metrics ps) > 0 then StatusPartial else StatusCompleted)
         | Some x \<Rightarrow> is_terminal (ir_status row) \<or> (\<exists>c y. x = Join [c, Wrap y])))"

locale sync_store =
  fixes d :: "('s, 't, 'f::linorder) sync_deps" and v :: "'s sync_view"
  assumes run_key: "sv_inv v w \<Longrightarrow> sv_run v w i = Some r \<Longrightarrow> ir_id r = i"
    and now_law: "sv_inv v w \<Longrightarrow> rd_now (sy_runs d) w = (w', t) \<Longrightarrow> quiet v w w' \<and> sv_pages v w' = sv_pages v w"
    and uuid_law: "sv_inv v w \<Longrightarrow> rd_uuid (sy_runs d) w = (w', u) \<Longrightarrow>
      quiet v w w' \<and> sv_pages v w' = sv_pages v w \<and> (\<forall>t. u = Inr t \<longrightarrow> sv_drawn v w' t)"
    and source_law: "sv_inv v w \<Longrightarrow> rd_source (sy_runs d) src w = (w', b) \<Longrightarrow> quiet v w w' \<and> sv_pages v w' = sv_pages v w"
    and find_law: "sv_inv v w \<Longrightarrow> rd_find (sy_runs d) c i w = (w', r0) \<Longrightarrow>
      quiet v w w' \<and> sv_pages v w' = sv_pages v w \<and> (\<forall>x. sv_mine v w i \<longrightarrow> r0 = Inr x \<longrightarrow> sv_run v w i = Some x)"
    and latest_law: "sv_inv v w \<Longrightarrow> rd_latest (sy_runs d) src w = (w', r0) \<Longrightarrow> quiet v w w' \<and> sv_pages v w' = sv_pages v w"
    and create_law: "sv_inv v w \<Longrightarrow> ir_status r = StatusRunning \<Longrightarrow> sv_drawn v w (ir_id r) \<Longrightarrow> rd_create (sy_runs d) r w = (w', r1) \<Longrightarrow>
      quiet v w w' \<and> sv_pages v w' = sv_pages v w \<and>
      (\<forall>x. r1 = Inr x \<longrightarrow> ir_checkpoint x = ir_checkpoint r \<and> sv_mine v w' (ir_id x) \<and> sv_saved v w' (ir_id x) = [] \<and>
         (\<exists>row. sv_run v w' (ir_id x) = Some row \<and> ir_status row = StatusRunning \<and> ir_metrics row = ir_metrics r \<and>
            ir_checkpoint row = ir_checkpoint r))"
    and status_law: "sv_inv v w \<Longrightarrow> sv_mine v w (ir_id r) \<Longrightarrow> rd_status (sy_runs d) c r st w = (w', r2) \<Longrightarrow>
      sv_pages v w' = sv_pages v w \<and> (quiet v w w' \<and> \<not> is_ok r2 \<or> settled v r st w w')"
    and fetch_law: "sv_inv v w \<Longrightarrow> sy_fetch d cp n w = (w', r3) \<Longrightarrow>
      quiet v w w' \<and> (case r3 of Inl _ \<Rightarrow> sv_pages v w' = sv_pages v w
        | Inr res \<Rightarrow> sv_pages v w' = sv_pages v w @ [res] \<and> trim_space (fr_next res) = fr_next res \<and> sv_answer v cp res)"
    and tx_law: "sv_inv v w \<Longrightarrow> sv_mine v w rid \<Longrightarrow> sy_within_tx d (persist_body d rid now res) w = (w', r4) \<Longrightarrow>
      sv_pages v w' = sv_pages v w \<and> (quiet v w w' \<and> \<not> is_ok r4 \<or> persisted v rid res w w')"
begin

lemma quiet_covers: "quiet v w w' \<Longrightarrow> covers v rid cp0 ps w row \<Longrightarrow> covers v rid cp0 ps w' row"
  by (simp add: quiet_def covers_def)

lemma quiet_trans: "quiet v w w1 \<Longrightarrow> quiet v w1 w2 \<Longrightarrow> quiet v w w2"
  by (simp add: quiet_def)

lemma quiet_inv: "quiet v w w' \<Longrightarrow> sv_inv v w'"
  by (simp add: quiet_def)

lemma persisted_covers:
  assumes "persisted v rid res w w'" "covers v rid cp0 ps w row" "sv_answer v (foldl advance_checkpoint cp0 ps) res"
    "ps \<noteq> [] \<Longrightarrow> \<not> last_page (last ps)"
  obtains row' where "covers v rid cp0 (ps @ [res]) w' row'" "ir_status row' = ir_status row"
proof -
  have "page_chain (sv_answer v) cp0 (ps @ [res])"
    by (rule page_chain_snoc [OF _ assms(4)]) (use assms(2,3) in \<open>auto simp: covers_def\<close>)
  with assms(1,2) that show ?thesis by (fastforce simp: persisted_def covers_def page_contents_def total_metrics_def)
qed

text \<open>A transition of the own run keeps what the run covers.\<close>

lemma transition_covers:
  assumes tr: "transition_run (sy_runs d) c rid f w = (w', r)" and cov: "covers v rid cp0 ps w row"
    and f: "\<And>now x. f now row = Inr x \<Longrightarrow> ir_id x = rid \<and> ir_status x = s \<and> ir_checkpoint x \<in> {[], ir_checkpoint row}"
  obtains row' where "covers v rid cp0 ps w' row'" "sv_pages v w' = sv_pages v w" "r = Inr () \<Longrightarrow> ir_status row' = s"
proof -
  obtain w1 r0 where find: "rd_find (sy_runs d) c rid w = (w1, r0)" by (cases "rd_find (sy_runs d) c rid w")
  have inv: "sv_inv v w" and mine: "sv_mine v w rid" and run: "sv_run v w rid = Some row" using cov by (simp_all add: covers_def)
  note l1 = find_law [OF inv find]
  show ?thesis
  proof (cases r0)
    case (Inl x)
    with tr find have "w' = w1" "\<not> is_ok r" by (auto simp: transition_run_def)
    with l1 quiet_covers [OF _ cov] that [of row] show ?thesis by (cases r) auto
  next
    case (Inr q)
    with l1 mine run have q: "q = row" by simp
    obtain w2 now where now: "rd_now (sy_runs d) w1 = (w2, now)" by (cases "rd_now (sy_runs d) w1")
    note l2 = now_law [OF quiet_inv now]
    have qt: "quiet v w w2" "sv_pages v w2 = sv_pages v w" using l1 l2 quiet_trans by auto
    note cov2 = quiet_covers [OF qt(1) cov]
    show ?thesis
    proof (cases "f now row")
      case (Inl x)
      with tr find Inr q now have "w' = w2" "\<not> is_ok r" by (auto simp: transition_run_def)
      with qt cov2 that [of row] show ?thesis by (cases r) auto
    next
      case f': (Inr x)
      obtain w3 r2 where st: "rd_status (sy_runs d) c x (ir_status row) w2 = (w3, r2)"
        by (cases "rd_status (sy_runs d) c x (ir_status row) w2")
      have w': "w' = w3" "is_ok r \<longleftrightarrow> is_ok r2"
        using tr find Inr q now f' st by (auto simp: transition_run_def bindw_def split: sum.splits)
      have x: "ir_id x = rid" "ir_status x = s" "ir_checkpoint x \<in> {[], ir_checkpoint row}" using f [OF f'] by auto
      have inv2: "sv_inv v w2" "sv_mine v w2 (ir_id x)" using cov2 x by (simp_all add: covers_def)
      note l3 = status_law [OF inv2 st]
      show ?thesis
      proof (cases "settled v x (ir_status row) w2 w3")
        case True
        then obtain new where new: "sv_run v w3 rid = Some new" "ir_status new = s" "ir_metrics new = ir_metrics row"
          "ir_checkpoint new = ir_checkpoint row"
          using x cov2 by (fastforce simp: settled_def covers_def)
        then have "covers v rid cp0 ps w3 new"
          using True x(1) cov2 by (simp add: settled_def covers_def)
        with new l3 qt w' that [of new] show ?thesis by auto
      next
        case False
        with l3 have "quiet v w2 w3" "\<not> is_ok r2" "sv_pages v w3 = sv_pages v w2" by auto
        with quiet_covers [OF _ cov2] qt w' that [of row] show ?thesis by (cases r) auto
      qed
    qed
  qed
qed

text \<open>The ways out of the loop after pages \<open>ps\<close>.\<close>

definition aborted :: "string \<Rightarrow> string \<Rightarrow> fetch_result list \<Rightarrow> 's \<Rightarrow> 's \<Rightarrow> sync_result \<Rightarrow> bool" where
  "aborted rid cp0 ps w w' r \<longleftrightarrow> sv_pages v w' = sv_pages v w \<and>
     (\<exists>row. covers v rid cp0 ps w' row \<and> (\<exists>x. snd r = Some x \<and> (is_terminal (ir_status row) \<or> (\<exists>c y. x = Join [c, Wrap y]))))"

lemma cancel_sync_aborted:
  assumes "covers v (ir_id run) cp0 ps w row" "cancel_sync d run reason w = (w', r)"
  shows "aborted (ir_id run) cp0 ps w w' r"
proof -
  obtain w1 r1 where c: "cancel_ingestion (sy_runs d) DetachedCtx (ir_id run) reason w = (w1, r1)"
    by (cases "cancel_ingestion (sy_runs d) DetachedCtx (ir_id run) reason w")
  have key: "ir_id row = ir_id run" using assms(1) run_key by (auto simp: covers_def)
  obtain row' where row': "covers v (ir_id run) cp0 ps w1 row'" "sv_pages v w1 = sv_pages v w"
    "r1 = Inr () \<Longrightarrow> ir_status row' = StatusCancelled"
    by (rule transition_covers [OF c [unfolded cancel_ingestion_def] assms(1), of StatusCancelled])
       (auto simp: cancel_run_def end_run_def key)
  show ?thesis
  proof (cases r1)
    case (Inl x)
    with c assms(2) row' show ?thesis by (auto simp: aborted_def cancel_sync_def Let_def)
  next
    case (Inr u)
    with row' have "is_terminal (ir_status row')" by simp
    with Inr c assms(2) row' show ?thesis by (auto simp: aborted_def cancel_sync_def Let_def)
  qed
qed

lemma fail_sync_aborted:
  assumes "covers v (ir_id run) cp0 ps w row" "fail_sync d run x w = (w', r)"
  shows "aborted (ir_id run) cp0 ps w w' r"
proof -
  obtain w1 r1 where c: "fail_ingestion (sy_runs d) DetachedCtx (ir_id run) (sy_error_text d x) w = (w1, r1)"
    by (cases "fail_ingestion (sy_runs d) DetachedCtx (ir_id run) (sy_error_text d x) w")
  have key: "ir_id row = ir_id run" using assms(1) run_key by (auto simp: covers_def)
  obtain row' where row': "covers v (ir_id run) cp0 ps w1 row'" "sv_pages v w1 = sv_pages v w"
    "r1 = Inr () \<Longrightarrow> ir_status row' = StatusFailed"
    by (rule transition_covers [OF c [unfolded fail_ingestion_def] assms(1), of StatusFailed])
       (auto simp: fail_run_def end_run_def key)
  show ?thesis
  proof (cases r1)
    case (Inl y)
    with c assms(2) row' show ?thesis by (auto simp: aborted_def fail_sync_def)
  next
    case (Inr u)
    with row' have "is_terminal (ir_status row')" by simp
    with Inr c assms(2) row' show ?thesis by (auto simp: aborted_def fail_sync_def)
  qed
qed

lemma abort_sync_aborted:
  "covers v (ir_id run) cp0 ps w row \<Longrightarrow> abort_sync d run reason x w = (w', r) \<Longrightarrow> aborted (ir_id run) cp0 ps w w' r"
  unfolding abort_sync_def by (auto split: if_splits intro: cancel_sync_aborted fail_sync_aborted)

lemma aborted_outcome:
  assumes "aborted rid cp0 ps w w' r" "sv_pages v w = sv_pages v w0 @ ps @ rest" "length rest \<le> 1"
  shows "sync_outcome v w0 rid cp0 w' r"
  using assms unfolding aborted_def sync_outcome_def by fastforce

lemma finish_sync_outcome:
  assumes cov: "covers v (ir_id run) cp0 ps w row" and fin: "finish_sync d run cp w = (w', r)"
    and cp: "cp = foldl advance_checkpoint cp0 ps" "trim_space cp = cp"
    and ps: "ps \<noteq> []" "last_page (last ps)" "sv_pages v w = sv_pages v w0 @ ps"
  shows "sync_outcome v w0 (ir_id run) cp0 w' r"
proof -
  let ?s = "if m_failed (total_metrics ps) > 0 then StatusPartial else StatusCompleted"
  obtain w1 r1 where c: "complete_ingestion (sy_runs d) CallerCtx (ir_id run) cp w = (w1, r1)"
    by (cases "complete_ingestion (sy_runs d) CallerCtx (ir_id run) cp w")
  have key: "ir_id row = ir_id run" using cov run_key by (auto simp: covers_def)
  have m: "ir_metrics row = total_metrics ps" "ir_checkpoint row = cp" using cov cp by (simp_all add: covers_def)
  obtain row' where row': "covers v (ir_id run) cp0 ps w1 row'" "sv_pages v w1 = sv_pages v w" "r1 = Inr () \<Longrightarrow> ir_status row' = ?s"
    by (rule transition_covers [OF c [unfolded complete_ingestion_def] cov, of ?s])
       (auto simp: complete_run_def key m next_checkpoint_def cp(2))
  show ?thesis
  proof (cases r1)
    case (Inl x)
    with c fin have "abort_sync d run ''context cancelled during run completion'' (Wrap x) w1 = (w', r)"
      by (simp add: finish_sync_def)
    from aborted_outcome [OF abort_sync_aborted [OF row'(1) this], of w0 "[]"] show ?thesis using row'(2) ps(3) by simp
  next
    case (Inr u)
    with row' have st: "ir_status row' = ?s" by simp
    obtain w2 r2 where g: "get_ingestion (sy_runs d) (ir_id run) w1 = (w2, r2)" by (cases "get_ingestion (sy_runs d) (ir_id run) w1")
    have w': "w' = w2" "r = (case r2 of Inl x \<Rightarrow> (None, Some x) | Inr q \<Rightarrow> (Some q, None))"
      using c Inr fin g by (auto simp: finish_sync_def split: sum.splits)
    have q: "covers v (ir_id run) cp0 ps w2 row'" "sv_pages v w2 = sv_pages v w1" "\<And>q. r2 = Inr q \<Longrightarrow> q = row'"
      using g row'(1) find_law [of w1 CallerCtx "ir_id run"] quiet_covers [OF _ row'(1)]
      by (auto simp: get_ingestion_def failw_def bindw_def covers_def split: prod.splits sum.splits if_splits)
    have "is_terminal ?s" by simp
    with q st w' ps row'(2) show ?thesis
      unfolding sync_outcome_def by (intro exI [of _ ps] exI [of _ "[]"] exI [of _ row']) (auto split: sum.splits)
  qed
qed

text \<open>One iteration: the run still covers its pages, or the sync ends with the promised outcome.\<close>

definition on_page :: "'s \<Rightarrow> string \<Rightarrow> string \<Rightarrow> fetch_result list \<Rightarrow> string \<Rightarrow> 's \<Rightarrow> bool" where
  "on_page w0 rid cp0 ps cp w \<longleftrightarrow> (\<exists>row. covers v rid cp0 ps w row) \<and> cp = foldl advance_checkpoint cp0 ps \<and>
     trim_space cp = cp \<and> sv_pages v w = sv_pages v w0 @ ps \<and> (ps \<noteq> [] \<longrightarrow> \<not> last_page (last ps))"

lemma persist_batch_law:
  assumes "covers v rid cp0 ps w row" "persist_batch d rid res w = (w', r)"
    and ans: "sv_answer v (foldl advance_checkpoint cp0 ps) res" "ps \<noteq> [] \<Longrightarrow> \<not> last_page (last ps)"
  shows "sv_pages v w' = sv_pages v w"
    "(\<exists>row'. covers v rid cp0 ps w' row') \<and> \<not> is_ok r \<or> (\<exists>row'. covers v rid cp0 (ps @ [res]) w' row')"
proof -
  obtain w1 now where now: "rd_now (sy_runs d) w = (w1, now)" by (cases "rd_now (sy_runs d) w")
  have inv: "sv_inv v w" using assms(1) by (simp add: covers_def)
  note l1 = now_law [OF inv now]
  have cov: "covers v rid cp0 ps w1 row" using quiet_covers [OF _ assms(1)] l1 by blast
  then have mine: "sv_mine v w1 rid" by (simp add: covers_def)
  have tx: "sy_within_tx d (persist_body d rid now res) w1 = (w', r)" using assms(2) now by (simp add: persist_batch_def)
  note l2 = tx_law [OF quiet_inv mine tx]
  show "sv_pages v w' = sv_pages v w" using l1 l2 by auto
  show "(\<exists>row'. covers v rid cp0 ps w' row') \<and> \<not> is_ok r \<or> (\<exists>row'. covers v rid cp0 (ps @ [res]) w' row')"
    using l1 l2 quiet_covers [OF _ cov] persisted_covers [OF _ cov ans, of w'] by blast
qed

definition promised :: "'s \<Rightarrow> string \<Rightarrow> string \<Rightarrow> fetch_result list \<Rightarrow> 's sync_iteration \<Rightarrow> bool" where
  "promised w0 rid cp0 ps q \<longleftrightarrow> (case q of Inl (w', r) \<Rightarrow> sync_outcome v w0 rid cp0 w' r
     | Inr (cp', _, _, w') \<Rightarrow> \<exists>res. on_page w0 rid cp0 (ps @ [res]) cp' w')"

lemma promised_aborted:
  "aborted rid cp0 ps' w' (fst y) (snd y) \<Longrightarrow> sv_pages v w' = sv_pages v w0 @ ps' @ rest \<Longrightarrow> length rest \<le> 1 \<Longrightarrow>
   promised w0 rid cp0 ps (Inl y)"
  using aborted_outcome by (fastforce simp: promised_def split_beta)

lemmas aborts = cancel_sync_aborted [OF _ prod.collapse [symmetric]] fail_sync_aborted [OF _ prod.collapse [symmetric]]
  abort_sync_aborted [OF _ prod.collapse [symmetric]]

lemma sync_advance_outcome:
  assumes cov: "covers v (ir_id run) cp0 (ps @ [res]) w row" and pg: "sv_pages v w = sv_pages v w0 @ ps @ [res]"
    and cp: "cp = foldl advance_checkpoint cp0 ps" "trim_space cp = cp" "trim_space (fr_next res) = fr_next res"
  shows "promised w0 (ir_id run) cp0 ps (sync_advance d p run cp seen failed res w)"
proof -
  let ?b = "check_budget (sy_fdiv d) (sp_budget p) (seen + (int (length (fr_records res)) + fr_failed res)) (failed + fr_failed res)"
  let ?cp = "advance_checkpoint cp res"
  have cp': "?cp = foldl advance_checkpoint cp0 (ps @ [res])" "trim_space ?cp = ?cp"
    using cp by (simp_all add: advance_checkpoint_def)
  show ?thesis
  proof (cases ?b)
    case (Inl x)
    with promised_aborted [OF aborts(2) [OF cov], of w0 "[]"] pg show ?thesis by (simp add: sync_advance_def Let_def)
  next
    case ok: (Inr z)
    show ?thesis
    proof (cases "last_page res")
      case True
      with ok have "sync_advance d p run cp seen failed res w = Inl (finish_sync d run ?cp w)"
        by (simp add: sync_advance_def Let_def)
      then show ?thesis
        using finish_sync_outcome [OF cov prod.collapse [symmetric] cp', of w0] True pg
        by (simp add: promised_def split_beta)
    next
      case False
      with ok have "sync_advance d p run cp seen failed res w =
          Inr (?cp, seen + (int (length (fr_records res)) + fr_failed res), failed + fr_failed res, w)"
        by (simp add: sync_advance_def Let_def)
      moreover have "on_page w0 (ir_id run) cp0 (ps @ [res]) ?cp w"
        unfolding on_page_def using cov cp' pg False by auto
      ultimately show ?thesis by (auto simp: promised_def)
    qed
  qed
qed

lemma sync_save_outcome:
  assumes cov: "covers v (ir_id run) cp0 ps w row" and pg: "sv_pages v w = sv_pages v w0 @ ps @ [res]"
    and cp: "cp = foldl advance_checkpoint cp0 ps" "trim_space cp = cp" "trim_space (fr_next res) = fr_next res"
    and ans: "sv_answer v cp res" "ps \<noteq> [] \<Longrightarrow> \<not> last_page (last ps)"
  shows "promised w0 (ir_id run) cp0 ps (sync_save d p run cp seen failed res w)"
proof (cases "fr_has_more res \<and> fr_next res = cp")
  case True
  with promised_aborted [OF aborts(2) [OF cov], of w0 "[res]"] pg show ?thesis by (simp add: sync_save_def)
next
  case False
  obtain w1 r where t: "persist_batch d (ir_id run) res w = (w1, r)" by (cases "persist_batch d (ir_id run) res w")
  note l = persist_batch_law [OF cov t ans [unfolded cp(1)]]
  show ?thesis
  proof (cases r)
    case (Inl x)
    with False t have q: "sync_save d p run cp seen failed res w
        = Inl (abort_sync d run ''context cancelled during batch persistence'' (Wrap x) w1)"
      by (auto simp: sync_save_def)
    from l(2) consider row' where "covers v (ir_id run) cp0 ps w1 row'" | row' where "covers v (ir_id run) cp0 (ps @ [res]) w1 row'"
      by blast
    then show ?thesis
    proof cases
      case 1
      then show ?thesis unfolding q using promised_aborted [OF aborts(3) [OF 1], of w0 "[res]"] pg l(1) by simp
    next
      case 2
      then show ?thesis unfolding q using promised_aborted [OF aborts(3) [OF 2], of w0 "[]"] pg l(1) by simp
    qed
  next
    case (Inr u)
    then obtain row' where "covers v (ir_id run) cp0 (ps @ [res]) w1 row'" using l(2) by auto
    with sync_advance_outcome [OF this, of w0] pg l(1) cp False t Inr show ?thesis by (auto simp: sync_save_def)
  qed
qed

lemma sync_page_outcome:
  assumes on: "on_page w0 (ir_id run) cp0 ps cp w"
  shows "promised w0 (ir_id run) cp0 ps (sync_page d p run cp seen failed w)"
proof -
  obtain row where cov: "covers v (ir_id run) cp0 ps w row" using on by (auto simp: on_page_def)
  have cp: "cp = foldl advance_checkpoint cp0 ps" "trim_space cp = cp" and pg: "sv_pages v w = sv_pages v w0 @ ps"
    and more: "ps \<noteq> [] \<Longrightarrow> \<not> last_page (last ps)"
    using on unfolding on_page_def by blast+
  show ?thesis
  proof (cases "sy_ctx_err d w")
    case (Some e)
    with promised_aborted [OF aborts(1) [OF cov], of w0 "[]"] pg show ?thesis by (simp add: sync_page_def)
  next
    case None
    obtain w1 r where f: "sy_fetch d cp (sp_batch_size p) w = (w1, r)" by (cases "sy_fetch d cp (sp_batch_size p) w")
    have inv: "sv_inv v w" using cov by (simp add: covers_def)
    note l = fetch_law [OF inv f]
    have cov1: "covers v (ir_id run) cp0 ps w1 row" using quiet_covers [OF _ cov] l by blast
    show ?thesis
    proof (cases r)
      case (Inl x)
      with promised_aborted [OF aborts(3) [OF cov1], of w0 "[]"] pg l None f show ?thesis by (simp add: sync_page_def)
    next
      case (Inr res)
      with sync_save_outcome [OF cov1 _ cp _ _ more, of w0 res] pg l None f show ?thesis by (simp add: sync_page_def)
    qed
  qed
qed

lemma sync_loop_outcome:
  assumes "sync_loop d p run cp seen failed w = Some y" "on_page w0 (ir_id run) cp0 ps cp w"
  shows "sync_outcome v w0 (ir_id run) cp0 (fst y) (snd y)"
proof -
  let ?P = "\<lambda>dd p rn cp seen failed w y. dd = d \<longrightarrow> rn = run \<longrightarrow> (\<forall>ps. on_page w0 (ir_id run) cp0 ps cp w \<longrightarrow>
      sync_outcome v w0 (ir_id run) cp0 (fst y) (snd y))"
  have "?P d p run cp seen failed w y"
  proof (rule sync_loop.raw_induct [where P = ?P, OF _ assms(1)], intro impI allI, goal_cases)
    case (1 loop dd p rn cp seen failed w y ps)
    note it = sync_page_outcome [OF 1(5), of p seen failed, unfolded promised_def]
    show ?case
    proof (cases "sync_page d p run cp seen failed w")
      case (Inl z)
      with 1(2-4) it show ?thesis by (simp add: split_beta)
    next
      case (Inr z)
      obtain cp' s' f' w' where z: "z = (cp', s', f', w')" by (cases z)
      with Inr 1(2-4) have l: "loop d p run cp' s' f' w' = Some y" by simp
      from it Inr z obtain res where "on_page w0 (ir_id run) cp0 (ps @ [res]) cp' w'" by auto
      with 1(1) [OF l] show ?thesis by blast
    qed
  qed
  with assms(2) show ?thesis by blast
qed

lemma start_ingestion_law:
  assumes inv: "sv_inv v w" and st: "start_ingestion (sy_runs d) src cp w = (w', r)"
  shows "quiet v w w' \<and> sv_pages v w' = sv_pages v w \<and>
    (\<forall>run. r = Inr run \<longrightarrow> on_page w (ir_id run) (trim_space cp) [] (ir_checkpoint run) w')"
proof -
  define calm where "calm u \<longleftrightarrow> quiet v w u \<and> sv_pages v u = sv_pages v w" for u
  have calm_inv: "calm u \<Longrightarrow> sv_inv v u" for u by (simp add: calm_def quiet_def)
  have step: "calm u \<Longrightarrow> quiet v u u' \<and> sv_pages v u' = sv_pages v u \<Longrightarrow> calm u'" for u u'
    using quiet_trans by (auto simp: calm_def)
  have c0: "calm w" using inv by (simp add: calm_def quiet_def)
  obtain w1 b where vs: "verify_source (sy_runs d) src w = (w1, b)" by (cases "verify_source (sy_runs d) src w")
  have c1: "calm w1"
    using vs source_law [OF inv, of src] step [OF c0]
    by (auto simp: verify_source_def bindw_def failw_def split: prod.splits sum.splits if_splits)
  obtain w2 b2 where ca: "check_active (sy_runs d) src w1 = (w2, b2)" by (cases "check_active (sy_runs d) src w1")
  have c2: "calm w2"
    using ca latest_law [OF calm_inv [OF c1], of src] step [OF c1]
    by (auto simp: check_active_def split: prod.splits sum.splits)
  obtain w3 now where n3: "rd_now (sy_runs d) w2 = (w3, now)" by (cases "rd_now (sy_runs d) w2")
  have c3: "calm w3" using n3 now_law [OF calm_inv [OF c2] n3] step [OF c2] by blast
  obtain w4 uuid where n4: "rd_uuid (sy_runs d) w3 = (w4, uuid)" by (cases "rd_uuid (sy_runs d) w3")
  have c4: "calm w4" using n4 uuid_law [OF calm_inv [OF c3] n4] step [OF c3] by blast
  obtain w5 created where n5: "rd_now (sy_runs d) w4 = (w5, created)" by (cases "rd_now (sy_runs d) w4")
  have dr: "sv_drawn v w5 t" if "uuid = Inr t" for t
    using that uuid_law [OF calm_inv [OF c3] n4] now_law [OF calm_inv [OF c4] n5] by (auto simp: quiet_def)
  have c5: "calm w5" using n5 now_law [OF calm_inv [OF c4] n5] step [OF c4] by blast
  show ?thesis
  proof (cases "is_blank src \<or> \<not> is_ok b \<or> \<not> is_ok b2 \<or> \<not> is_ok (bindr (new_run uuid created [] src cp) (start_run now))")
    case True
    then have "(w' = w \<or> w' = w1 \<or> w' = w2 \<or> w' = w5) \<and> \<not> is_ok r"
      using st vs ca n3 n4 n5
      by (auto simp: start_ingestion_def failw_def bindw_def is_ok_def bindr_def split: if_splits sum.splits)
    with c0 c1 c2 c5 show ?thesis by (auto simp: calm_def)
  next
    case False
    then obtain r0 r1 where r: "new_run uuid created [] src cp = Inr r0" "start_run now r0 = Inr r1"
      by (auto simp: is_ok_def bindr_def split: sum.splits)
    obtain w6 r2 where cr: "rd_create (sy_runs d) r1 w5 = (w6, r2)" by (cases "rd_create (sy_runs d) r1 w5")
    have r1: "ir_status r1 = StatusRunning" "ir_checkpoint r1 = trim_space cp" "ir_metrics r1 = zero_metrics"
      "uuid = Inr (ir_id r1)"
      using r by (auto simp: new_run_def generated_id_def start_run_def bindr_Inr_iff Let_def)
    note l = create_law [OF calm_inv [OF c5] r1(1) dr [OF r1(4)] cr]
    have c6: "calm w6" using l step [OF c5] by blast
    have "w' = w6 \<and> r = mapl Wrap r2"
      using st vs ca n3 n4 n5 False r cr
      by (auto simp: start_ingestion_def failw_def bindw_def is_ok_def split: sum.splits)
    moreover have "on_page w (ir_id x) (trim_space cp) [] (ir_checkpoint x) w6" if "r2 = Inr x" for x
      using l that r1 c6 calm_inv [OF c6]
      by (auto simp: on_page_def covers_def calm_def page_contents_def total_metrics_def)
    ultimately show ?thesis using c6 by (auto simp: calm_def)
  qed
qed

lemma sync_source_outcome:
  assumes inv: "sv_inv v w" and sy: "sync_source zero one d p w = Some (w', r)"
  shows "quiet v w w' \<and> sv_pages v w' = sv_pages v w \<and> fst r = None \<and> snd r \<noteq> None \<or>
    (\<exists>rid. sync_outcome v w rid (trim_space (sp_checkpoint p)) w' r)"
proof (cases "validate_budget zero one (sp_budget p)")
  case (Inl x)
  with sy inv show ?thesis by (auto simp: sync_source_def quiet_def)
next
  case (Inr u)
  obtain w1 q where st: "start_ingestion (sy_runs d) (sp_source_id p) (sp_checkpoint p) w = (w1, q)"
    by (cases "start_ingestion (sy_runs d) (sp_source_id p) (sp_checkpoint p) w")
  note l = start_ingestion_law [OF inv st]
  show ?thesis
  proof (cases q)
    case (Inl x)
    with sy Inr st l show ?thesis by (auto simp: sync_source_def)
  next
    case run: (Inr run)
    with sy Inr st have "sync_loop d p run (ir_checkpoint run) 0 0 w1 = Some (w', r)" by (simp add: sync_source_def)
    from sync_loop_outcome [OF this, of w] l run show ?thesis by auto
  qed
qed

end

text \<open>When the pages that can still be fetched are bounded, the sync returns.\<close>

locale sync_bounded = sync_store d v for d :: "('s, 't, 'f::linorder) sync_deps" and v :: "'s sync_view" +
  fixes budget :: "'s \<Rightarrow> nat"
  assumes fetch_budget: "sv_inv v w \<Longrightarrow> sy_ctx_err d w = None \<Longrightarrow> budget (fst (sy_fetch d cp n w)) < budget w"
    and now_budget: "budget (fst (rd_now (sy_runs d) w)) \<le> budget w"
    and tx_budget: "budget (fst (sy_within_tx d f w)) \<le> budget w"
begin

lemma sync_page_budget:
  assumes "on_page w0 (ir_id run) cp0 ps cp w" "sync_page d p run cp seen failed w = Inr (cp', s', f', w')"
  shows "budget w' < budget w"
proof -
  have inv: "sv_inv v w" using assms(1) by (auto simp: on_page_def covers_def)
  have ctx: "sy_ctx_err d w = None" using assms(2) by (auto simp: sync_page_def split: if_splits)
  obtain w1 r where f: "sy_fetch d cp (sp_batch_size p) w = (w1, r)" by (cases "sy_fetch d cp (sp_batch_size p) w")
  obtain res where res: "r = Inr res" "sync_save d p run cp seen failed res w1 = Inr (cp', s', f', w')"
    using assms(2) f ctx by (auto simp: sync_page_def split: sum.splits)
  obtain w2 u where t: "persist_batch d (ir_id run) res w1 = (w2, Inr u)" "w' = w2"
    using res(2) by (auto simp: sync_save_def sync_advance_def Let_def split: if_splits prod.splits sum.splits)
  obtain w3 now where n: "rd_now (sy_runs d) w1 = (w3, now)" by (cases "rd_now (sy_runs d) w1")
  have "budget w2 \<le> budget w3" using t n tx_budget [of "persist_body d (ir_id run) now res" w3] by (simp add: persist_batch_def)
  also have "\<dots> \<le> budget w1" using now_budget [of w1] n by simp
  also have "\<dots> < budget w" using fetch_budget [OF inv ctx, of cp "sp_batch_size p"] f by simp
  finally show ?thesis using t(2) by simp
qed

lemma sync_loop_returns: "on_page w0 (ir_id run) cp0 ps cp w \<Longrightarrow> \<exists>y. sync_loop d p run cp seen failed w = Some y"
proof (induction "budget w" arbitrary: ps cp seen failed w rule: less_induct)
  case less
  show ?case
  proof (cases "sync_page d p run cp seen failed w")
    case (Inl y)
    then show ?thesis by (cases y) (simp add: sync_loop.simps)
  next
    case (Inr z)
    obtain cp' s' f' w' where z: "z = (cp', s', f', w')" by (cases z)
    from sync_page_outcome [OF less.prems, of p seen failed] Inr z
    obtain res where "on_page w0 (ir_id run) cp0 (ps @ [res]) cp' w'" by (auto simp: promised_def)
    from less.hyps [OF sync_page_budget [OF less.prems Inr [unfolded z]] this] Inr z
    show ?thesis by (simp add: sync_loop.simps [of d p run cp])
  qed
qed

lemma sync_source_returns: "sv_inv v w \<Longrightarrow> \<exists>y. sync_source zero one d p w = Some y"
  using start_ingestion_law sync_loop_returns by (auto simp: sync_source_def split: sum.splits prod.splits) blast

end

end
