(* ===== verification/SyncStore.thy ===== *)
theory SyncStore
  imports Sync
begin

text \<open>
  The sync coordinator on the tables of theory IngestionStore: the interpretation of the locales of
  theory Sync, and the properties of the ingestion pipeline. A world is the tables with a schedule
  of slots, one for every call.
\<close>

subsection \<open>What others do\<close>

datatype ingest_act =
    ActCreate ingestion_run
  | ActProgress string metrics string
  | ActStatus ingestion_run run_status
  | ActSaveBatch "raw_record list"
  | ActSave raw_record
  | ActQueue rp_op

definition after_db :: "ingest_db \<Rightarrow> gerr + (ingest_db \<times> 'a) \<Rightarrow> ingest_db" where
  "after_db db r = (case r of Inl _ \<Rightarrow> db | Inr (db', _) \<Rightarrow> db')"

fun exec_act :: "ingest_env \<Rightarrow> instant \<Rightarrow> ingest_act \<Rightarrow> ingest_db \<Rightarrow> ingest_db" where
  "exec_act e now (ActCreate r) db = after_db db (create_run e r db)"
| "exec_act e now (ActProgress i m cp) db = after_db db (update_run_progress e i m cp now db)"
| "exec_act e now (ActStatus r st) db = after_db db (update_run_status e now r st db)"
| "exec_act e now (ActSaveBatch rs) db = after_db db (save_batch e rs db)"
| "exec_act e now (ActSave r) db = after_db db (save_record e r db)"
| "exec_act e now (ActQueue op) db = queue_op e now op db"

fun exec_acts :: "ingest_env \<Rightarrow> (instant \<times> ingest_act) list \<Rightarrow> ingest_db \<Rightarrow> ingest_db" where
  "exec_acts e [] db = db"
| "exec_acts e ((now, act) # acts) db = exec_acts e acts (exec_act e now act db)"

text \<open>Runs are created active; this is what the entity does.\<close>

definition act_legal :: "ingest_act \<Rightarrow> bool" where
  "act_legal act \<longleftrightarrow> (case act of ActCreate r \<Rightarrow> active_status (ir_status r) | _ \<Rightarrow> True)"

text \<open>An action that does not write the row or the records of run \<open>i\<close>.\<close>

definition spares :: "ingest_env \<Rightarrow> string \<Rightarrow> ingest_act \<Rightarrow> bool" where
  "spares e i act \<longleftrightarrow> (case act of
       ActProgress j _ _ \<Rightarrow> parse_uuid (ie_scan e) j \<noteq> Inr i
     | ActStatus r _ \<Rightarrow> parse_uuid (ie_scan e) (ir_id r) \<noteq> Inr i
     | ActSaveBatch rs \<Rightarrow> list_all (\<lambda>r. parse_uuid (ie_scan e) (trim_space (rr_run_id r)) \<noteq> Inr i) rs
     | ActSave r \<Rightarrow> parse_uuid (ie_scan e) (trim_space (rr_run_id r)) \<noteq> Inr i
     | _ \<Rightarrow> True)"

definition raw_of_run :: "string \<Rightarrow> ingest_db \<Rightarrow> raw_record list" where
  "raw_of_run i db = filter (\<lambda>x. rr_run_id x = i) (id_raw db)"

lemma exec_act_inv: "act_legal act \<Longrightarrow> store_inv db \<Longrightarrow> store_inv (exec_act e now act db)"
  by (cases act)
     (auto simp: after_db_def act_legal_def queue_op_inv split: sum.splits
       intro: create_run_inv update_run_progress_inv update_run_status_inv save_batch_inv save_record_inv)

lemma raw_rows_Inr: "raw_rows e rs = Inr xs \<longleftrightarrow> map (\<lambda>r. mapl Wrap (raw_row e r)) rs = map Inr xs"
  by (induction rs arbitrary: xs) (auto simp: bindr_Inr_iff map_eq_Cons_conv)

lemma raw_row_run:
  "raw_row e r = Inr x \<Longrightarrow> rr_run_id x = i \<Longrightarrow> i \<noteq> [] \<Longrightarrow> parse_uuid (ie_scan e) (trim_space (rr_run_id r)) = Inr i"
  by (auto simp: raw_row_def bindr_Inr_iff split: if_splits)

lemma raw_rows_spared:
  "raw_rows e rs = Inr xs \<Longrightarrow> list_all (\<lambda>r. parse_uuid (ie_scan e) (trim_space (rr_run_id r)) \<noteq> Inr i) rs \<Longrightarrow>
   i \<noteq> [] \<Longrightarrow> filter (\<lambda>x. rr_run_id x = i) xs = []"
proof (induction rs arbitrary: xs)
  case (Cons r rs)
  then obtain y ys where y: "raw_row e r = Inr y" "raw_rows e rs = Inr ys" "xs = y # ys" by (auto simp: bindr_Inr_iff)
  with Cons show ?case using raw_row_run [OF y(1)] by auto
qed simp

lemma find_run_update_run:
  assumes "update_run e j st x f db = Inr (db', r')" "\<And>q. ir_id (f q) = ir_id q"
  shows "find_run i (id_runs db') = (if i = j then map_option f (find_run i (id_runs db)) else find_run i (id_runs db))"
    "id_raw db' = id_raw db" "id_queue db' = id_queue db"
  by (rule update_run_Inr [OF assms(1)], simp add: find_run_update assms(2))+

lemma progress_find_run:
  assumes "update_run_progress e j m cp now db = Inr (db', u)"
  obtains i where "parse_uuid (ie_scan e) j = Inr i" "id_raw db' = id_raw db" "id_queue db' = id_queue db"
    "\<exists>r. find_run i (id_runs db) = Some r \<and> ir_status r = StatusRunning"
    "\<And>k. find_run k (id_runs db') = (if k = i then map_option (progress_row e m cp now) (find_run k (id_runs db)) else find_run k (id_runs db))"
proof -
  obtain i r' where i: "parse_uuid (ie_scan e) j = Inr i"
    "update_run e i StatusRunning ErrInvalidRunState (progress_row e m cp now) db = Inr (db', r')"
    using assms by (auto simp: update_run_progress_def bindr_Inr_iff split: sum.splits)
  have "\<exists>r. find_run i (id_runs db) = Some r \<and> ir_status r = StatusRunning"
    by (rule update_run_Inr [OF i(2)]) blast
  with find_run_update_run [OF i(2)] show ?thesis by (intro that [OF i(1)]) auto
qed

lemma status_find_run:
  assumes "update_run_status e now run st db = Inr (db', u)"
  obtains i where "parse_uuid (ie_scan e) (ir_id run) = Inr i" "id_raw db' = id_raw db"
    "\<exists>r. find_run i (id_runs db) = Some r \<and> ir_status r = st"
    "\<And>k. find_run k (id_runs db') = (if k = i then map_option (status_row e run) (find_run k (id_runs db)) else find_run k (id_runs db))"
proof -
  obtain i d r where i: "parse_uuid (ie_scan e) (ir_id run) = Inr i"
    "update_run e i st ErrInvalidRunTransition (status_row e run) db = Inr (d, r)"
    "db' = (if processable (ir_status run) then d\<lparr>id_queue := queue_run now i (id_queue d)\<rparr> else d)"
    using update_run_status_Inr [OF assms] by blast
  have "\<exists>r. find_run i (id_runs db) = Some r \<and> ir_status r = st"
    by (rule update_run_Inr [OF i(2)]) blast
  with i(3) find_run_update_run [OF i(2)] show ?thesis by (intro that [OF i(1)]) auto
qed

lemma spared_act:
  assumes "spares e i act" "i \<noteq> []" "find_run i (id_runs db) = Some r"
  shows "find_run i (id_runs (exec_act e now act db)) = Some r" "raw_of_run i (exec_act e now act db) = raw_of_run i db"
proof -
  have "find_run i (id_runs (exec_act e now act db)) = Some r \<and> raw_of_run i (exec_act e now act db) = raw_of_run i db"
  proof (cases act)
    case (ActCreate q)
    show ?thesis
    proof (cases "create_run e q db")
      case (Inr p)
      obtain db' q' where p: "p = (db', q')" by (cases p)
      from create_run_Inr [OF Inr [unfolded p]] obtain j where "db' = db\<lparr>id_runs := id_runs db @ [run_row e j q]\<rparr>" by blast
      with Inr p ActCreate assms show ?thesis by (simp add: after_db_def find_run_append raw_of_run_def)
    qed (use ActCreate assms in \<open>simp add: after_db_def\<close>)
  next
    case (ActProgress j m cp)
    show ?thesis
    proof (cases "update_run_progress e j m cp now db")
      case (Inr p)
      obtain db' q' where p: "p = (db', q')" by (cases p)
      obtain k where "parse_uuid (ie_scan e) j = Inr k" "id_raw db' = id_raw db"
        "find_run i (id_runs db') = (if i = k then map_option (progress_row e m cp now) (find_run i (id_runs db)) else find_run i (id_runs db))"
        by (rule progress_find_run [OF Inr [unfolded p]]) blast
      with ActProgress assms Inr p show ?thesis by (simp add: spares_def after_db_def raw_of_run_def)
    qed (use ActProgress assms in \<open>simp add: after_db_def\<close>)
  next
    case (ActStatus q st)
    show ?thesis
    proof (cases "update_run_status e now q st db")
      case (Inr p)
      obtain db' q' where p: "p = (db', q')" by (cases p)
      obtain k where "parse_uuid (ie_scan e) (ir_id q) = Inr k" "id_raw db' = id_raw db"
        "find_run i (id_runs db') = (if i = k then map_option (status_row e q) (find_run i (id_runs db)) else find_run i (id_runs db))"
        by (rule status_find_run [OF Inr [unfolded p]]) blast
      with ActStatus assms Inr p show ?thesis by (simp add: spares_def after_db_def raw_of_run_def)
    qed (use ActStatus assms in \<open>simp add: after_db_def\<close>)
  next
    case (ActSaveBatch rs)
    show ?thesis
    proof (cases "save_batch e rs db")
      case (Inr p)
      obtain db' q' where p: "p = (db', q')" by (cases p)
      from save_batch_Inr [OF Inr [unfolded p]] obtain xs where xs: "raw_rows e rs = Inr xs" "db' = db\<lparr>id_raw := id_raw db @ xs\<rparr>"
        by metis
      with raw_rows_spared [OF xs(1), of i] ActSaveBatch assms Inr p show ?thesis
        by (simp add: spares_def after_db_def raw_of_run_def)
    qed (use ActSaveBatch assms in \<open>simp add: after_db_def\<close>)
  next
    case (ActSave q)
    show ?thesis
    proof (cases "save_record e q db")
      case (Inr p)
      then obtain x rows where x: "raw_row e q = Inr x" "insert_raw e (id_runs db) [x] (id_raw db) = Inr rows"
        "fst p = db\<lparr>id_raw := rows\<rparr>"
        by (auto simp: save_record_def bindr_Inr_iff)
      then have "rows = id_raw db @ [x]" using insert_raw_Inr [OF x(2)] by simp
      with x raw_row_run [OF x(1), of i] ActSave assms Inr show ?thesis
        by (cases p) (auto simp: spares_def after_db_def raw_of_run_def)
    qed (use ActSave assms in \<open>simp add: after_db_def\<close>)
  next
    case (ActQueue op)
    with assms show ?thesis by (simp add: queue_op_def raw_of_run_def)
  qed
  then show "find_run i (id_runs (exec_act e now act db)) = Some r" "raw_of_run i (exec_act e now act db) = raw_of_run i db"
    by simp_all
qed

lemma spared_acts:
  assumes "\<forall>a \<in> set acts. act_legal (snd a)" "store_inv db"
  shows "store_inv (exec_acts e acts db)"
    "\<forall>a \<in> set acts. spares e i (snd a) \<Longrightarrow> i \<noteq> [] \<Longrightarrow> find_run i (id_runs db) = Some r \<Longrightarrow>
      find_run i (id_runs (exec_acts e acts db)) = Some r \<and> raw_of_run i (exec_acts e acts db) = raw_of_run i db"
  using assms by (induction e acts db rule: exec_acts.induct) (simp_all add: exec_act_inv spared_act)

subsection \<open>The world of a sync\<close>

text \<open>What surrounds one call: the operations of others before it, its instant, the fault the database
  reports (\<open>ss_applied\<close>: the statement took effect all the same), the id a generator would draw,
  whether the source is enabled, and whether the context is cancelled meanwhile.\<close>

record sync_slot =
  ss_others :: "(instant \<times> ingest_act) list"
  ss_now :: instant
  ss_fault :: "gerr option"
  ss_applied :: bool
  ss_uuid :: "gerr + string"
  ss_enabled :: "gerr + bool"
  ss_cancel :: bool

record sync_world =
  sw_db :: ingest_db
  sw_now :: instant
  sw_cancelled :: bool
  sw_drawn :: "string list"
  sw_created :: "string list"
  sw_pages :: "fetch_result list"
  sw_sched :: "sync_slot list"

text \<open>An adapter answers from the checkpoint, the size and the slot.\<close>

type_synonym adapter = "string \<Rightarrow> int \<Rightarrow> sync_slot \<Rightarrow> gerr + fetch_result"

definition idle_sync_slot :: "instant \<Rightarrow> sync_slot" where
  "idle_sync_slot now = \<lparr>ss_others = [], ss_now = now, ss_fault = None, ss_applied = False,
     ss_uuid = Inl (Opaque ''no entropy''), ss_enabled = Inr True, ss_cancel = True\<rparr>"

definition sync_ctx_err :: "sync_world \<Rightarrow> gerr option" where
  "sync_ctx_err w = (if sw_cancelled w \<or> sw_sched w = [] then Some canceled_err else None)"

definition sync_slot_step :: "ingest_env \<Rightarrow> sync_world \<Rightarrow> sync_slot \<times> sync_world" where
  "sync_slot_step e w = (case sw_sched w of
       [] \<Rightarrow> (idle_sync_slot (sw_now w), w\<lparr>sw_cancelled := True\<rparr>)
     | s # ss \<Rightarrow> (s, w\<lparr>sw_sched := ss, sw_now := ss_now s, sw_cancelled := sw_cancelled w \<or> ss_cancel s,
         sw_db := exec_acts e (ss_others s) (sw_db w)\<rparr>))"

text \<open>A statement, or a transaction, under a context: one that has ended refuses the caller's calls.\<close>

definition db_call ::
  "ingest_env \<Rightarrow> ctx \<Rightarrow> (sync_slot \<Rightarrow> ingest_db \<Rightarrow> gerr + (ingest_db \<times> 'a)) \<Rightarrow> sync_world \<Rightarrow> sync_world \<times> (gerr + 'a)" where
  "db_call e c f w =
     (case sync_slot_step e w of (s, w1) \<Rightarrow>
        if c = CallerCtx \<and> sync_ctx_err w \<noteq> None then (w1, Inl (Wrap canceled_err))
        else case f s (sw_db w1) of
          Inl x \<Rightarrow> (w1, Inl x)
        | Inr (db', a) \<Rightarrow>
            (case ss_fault s of
               None \<Rightarrow> (w1\<lparr>sw_db := db'\<rparr>, Inr a)
             | Some x \<Rightarrow> (if ss_applied s then w1\<lparr>sw_db := db'\<rparr> else w1, Inl x)))"

definition db_read :: "(ingest_db \<Rightarrow> gerr + 'a) \<Rightarrow> sync_slot \<Rightarrow> ingest_db \<Rightarrow> gerr + (ingest_db \<times> 'a)" where
  "db_read f s db = bindr (f db) (\<lambda>a. Inr (db, a))"

definition world_now :: "ingest_env \<Rightarrow> sync_world \<Rightarrow> sync_world \<times> instant" where
  "world_now e w = (case sync_slot_step e w of (s, w1) \<Rightarrow> (w1, ss_now s))"

definition world_uuid :: "ingest_env \<Rightarrow> sync_world \<Rightarrow> sync_world \<times> (gerr + string)" where
  "world_uuid e w = (case sync_slot_step e w of (s, w1) \<Rightarrow>
     (case ss_uuid s of Inl x \<Rightarrow> (w1, Inl x) | Inr t \<Rightarrow> (w1\<lparr>sw_drawn := t # sw_drawn w1\<rparr>, Inr t)))"

definition world_create :: "ingest_env \<Rightarrow> ingestion_run \<Rightarrow> sync_world \<Rightarrow> sync_world \<times> (gerr + ingestion_run)" where
  "world_create e r w = (case db_call e CallerCtx (\<lambda>_. create_run e r) w of
     (w1, Inl x) \<Rightarrow> (w1, Inl x) | (w1, Inr q) \<Rightarrow> (w1\<lparr>sw_created := ir_id q # sw_created w1\<rparr>, Inr q))"

definition world_fetch :: "ingest_env \<Rightarrow> adapter \<Rightarrow> string \<Rightarrow> int \<Rightarrow> sync_world \<Rightarrow> sync_world \<times> (gerr + fetch_result)" where
  "world_fetch e ad cp n w = (case sync_slot_step e w of (s, w1) \<Rightarrow>
     (case ad cp n s of Inl x \<Rightarrow> (w1, Inl x) | Inr res \<Rightarrow> (w1\<lparr>sw_pages := sw_pages w1 @ [res]\<rparr>, Inr res)))"

text \<open>\<open>Service\<close> and \<open>SyncCoordinator\<close> on the repositories of theory IngestionStore.\<close>

definition store_run_deps :: "ingest_env \<Rightarrow> sync_world run_deps" where
  "store_run_deps e = \<lparr>
     rd_now = world_now e,
     rd_uuid = world_uuid e,
     rd_source = (\<lambda>src. db_call e CallerCtx (\<lambda>s db. bindr (ss_enabled s) (\<lambda>b. Inr (db, b)))),
     rd_find = (\<lambda>c i. db_call e c (db_read (find_run_by_id e i))),
     rd_latest = (\<lambda>src. db_call e CallerCtx (db_read (find_latest_run src))),
     rd_list = (\<lambda>src n. db_call e CallerCtx (db_read (list_runs_by_source src n))),
     rd_create = world_create e,
     rd_progress = (\<lambda>i m cp now. db_call e CallerCtx (\<lambda>_. update_run_progress e i m cp now)),
     rd_status = (\<lambda>c r st. db_call e c (\<lambda>s. update_run_status e (ss_now s) r st))\<rparr>"

definition store_sync_deps ::
  "ingest_env \<Rightarrow> adapter \<Rightarrow> (gerr \<Rightarrow> string) \<Rightarrow> (int \<Rightarrow> int \<Rightarrow> 'f::linorder) \<Rightarrow> (sync_world, ingest_db, 'f) sync_deps" where
  "store_sync_deps e ad txt fdiv = \<lparr>
     sy_runs = store_run_deps e,
     sy_ctx_err = sync_ctx_err,
     sy_cause = sync_ctx_err,
     sy_fetch = world_fetch e ad,
     sy_within_tx = (\<lambda>f. db_call e CallerCtx (\<lambda>_. f)),
     sy_save = (\<lambda>db recs. save_batch e recs db),
     sy_progress = (\<lambda>db i m cp now. update_run_progress e i m cp now db),
     sy_error_text = txt,
     sy_fdiv = fdiv\<rparr>"

lemma store_run_deps_simps [simp]:
  "rd_now (store_run_deps e) = world_now e" "rd_uuid (store_run_deps e) = world_uuid e"
  "rd_source (store_run_deps e) src = db_call e CallerCtx (\<lambda>s db. bindr (ss_enabled s) (\<lambda>b. Inr (db, b)))"
  "rd_find (store_run_deps e) c i = db_call e c (db_read (find_run_by_id e i))"
  "rd_latest (store_run_deps e) src = db_call e CallerCtx (db_read (find_latest_run src))"
  "rd_create (store_run_deps e) = world_create e"
  "rd_status (store_run_deps e) c r st = db_call e c (\<lambda>s. update_run_status e (ss_now s) r st)"
  by (simp_all add: store_run_deps_def)

lemma store_sync_deps_simps [simp]:
  "sy_runs (store_sync_deps e ad txt fdiv) = store_run_deps e"
  "sy_ctx_err (store_sync_deps e ad txt fdiv) = sync_ctx_err"
  "sy_fetch (store_sync_deps e ad txt fdiv) = world_fetch e ad"
  "sy_within_tx (store_sync_deps e ad txt fdiv) f = db_call e CallerCtx (\<lambda>_. f)"
  "sy_save (store_sync_deps e ad txt fdiv) db recs = save_batch e recs db"
  "sy_progress (store_sync_deps e ad txt fdiv) db i m cp now = update_run_progress e i m cp now db"
  by (simp_all add: store_sync_deps_def)

text \<open>A call without a fault of the commit that took effect is a transaction of theory Db.\<close>

lemma db_call_within_tx:
  assumes "sync_slot_step e w = (s, w1)" "sync_ctx_err w = None" "\<not> ss_applied s"
  shows "fst (db_call e CallerCtx (\<lambda>_. f) w) =
      w1\<lparr>sw_db := fst (within_tx \<lparr>tx_begin = None, tx_commit = ss_fault s\<rparr> f (sw_db w1))\<rparr>"
    "is_ok (snd (db_call e CallerCtx (\<lambda>_. f) w)) =
      is_ok (snd (within_tx \<lparr>tx_begin = None, tx_commit = ss_fault s\<rparr> f (sw_db w1)))"
  using assms by (auto simp: db_call_def within_tx_def split: sum.splits option.splits prod.splits)

subsection \<open>The laws of the coordinator hold for the tables\<close>

definition sync_ids :: "sync_world \<Rightarrow> string set" where
  "sync_ids w = set (sw_drawn w) \<union> {t. Inr t \<in> ss_uuid ` set (sw_sched w)}"

definition slot_legal :: "ingest_env \<Rightarrow> string set \<Rightarrow> sync_slot \<Rightarrow> bool" where
  "slot_legal e I s \<longleftrightarrow> (\<forall>a \<in> set (ss_others s). act_legal (snd a) \<and> (\<forall>i \<in> I. spares e i (snd a)))"

definition sync_inv :: "ingest_env \<Rightarrow> adapter \<Rightarrow> sync_world \<Rightarrow> bool" where
  "sync_inv e ad w \<longleftrightarrow> store_inv (sw_db w) \<and> canonical_scan (ie_scan e) \<and>
     (\<forall>i \<in> sync_ids w. parse_uuid (ie_scan e) i = Inr i) \<and>
     (\<forall>i \<in> set (sw_created w). i \<in> set (sw_drawn w) \<and> find_run i (id_runs (sw_db w)) \<noteq> None) \<and>
     (\<forall>s \<in> set (sw_sched w). slot_legal e (sync_ids w) s) \<and>
     (\<forall>cp n s res. ad cp n s = Inr res \<longrightarrow> trim_space (fr_next res) = fr_next res)"

definition store_view :: "ingest_env \<Rightarrow> adapter \<Rightarrow> sync_world sync_view" where
  "store_view e ad = \<lparr>
     sv_inv = sync_inv e ad,
     sv_drawn = (\<lambda>w i. i \<in> set (sw_drawn w)),
     sv_mine = (\<lambda>w i. i \<in> set (sw_created w)),
     sv_saved = (\<lambda>w i. raw_of_run i (sw_db w)),
     sv_run = (\<lambda>w i. find_run i (id_runs (sw_db w))),
     sv_pages = sw_pages,
     sv_answer = (\<lambda>cp res. \<exists>n s. ad cp n s = Inr res)\<rparr>"

lemma store_view_simps [simp]:
  "sv_inv (store_view e ad) = sync_inv e ad" "sv_drawn (store_view e ad) w i = (i \<in> set (sw_drawn w))"
  "sv_mine (store_view e ad) w i = (i \<in> set (sw_created w))" "sv_saved (store_view e ad) w i = raw_of_run i (sw_db w)"
  "sv_run (store_view e ad) w i = find_run i (id_runs (sw_db w))" "sv_pages (store_view e ad) = sw_pages"
  "sv_answer (store_view e ad) cp res = (\<exists>n s. ad cp n s = Inr res)"
  by (simp_all add: store_view_def)

text \<open>A change of the tables that keeps the invariant, the ids and the pages, and the rows of \<open>I\<close>.\<close>

definition same_rows :: "string set \<Rightarrow> ingest_db \<Rightarrow> ingest_db \<Rightarrow> bool" where
  "same_rows I db db' \<longleftrightarrow> (\<forall>i \<in> I. find_run i (id_runs db') = find_run i (id_runs db) \<and> raw_of_run i db' = raw_of_run i db)"

lemma parsed_nonempty: "parse_uuid scan i = Inr i \<Longrightarrow> i \<noteq> []"
  by (auto simp: parse_uuid_def)

lemma sync_slot_law:
  assumes "sync_inv e ad w" "sync_slot_step e w = (s, w1)"
  shows "sync_inv e ad w1" "same_rows (set (sw_created w)) (sw_db w) (sw_db w1)" "sw_created w1 = sw_created w"
    "sw_drawn w1 = sw_drawn w" "sw_pages w1 = sw_pages w" "\<And>t. ss_uuid s = Inr t \<Longrightarrow> t \<in> sync_ids w"
    "length (sw_sched w1) \<le> length (sw_sched w)"
proof -
  have "sync_inv e ad w1 \<and> same_rows (set (sw_created w)) (sw_db w) (sw_db w1) \<and> sw_created w1 = sw_created w \<and>
    sw_drawn w1 = sw_drawn w \<and> sw_pages w1 = sw_pages w \<and> (\<forall>t. ss_uuid s = Inr t \<longrightarrow> t \<in> sync_ids w) \<and>
    length (sw_sched w1) \<le> length (sw_sched w)"
  proof (cases "sw_sched w")
    case Nil
    with assms show ?thesis
      by (auto simp: sync_slot_step_def sync_inv_def sync_ids_def same_rows_def idle_sync_slot_def)
  next
    case (Cons x xs)
    then have s: "s = x" and w1: "w1 = w\<lparr>sw_sched := xs, sw_now := ss_now x, sw_cancelled := sw_cancelled w \<or> ss_cancel x,
        sw_db := exec_acts e (ss_others x) (sw_db w)\<rparr>"
      using assms(2) by (auto simp: sync_slot_step_def)
    have ids: "sync_ids w1 \<subseteq> sync_ids w" using Cons by (auto simp: sync_ids_def w1)
    have x: "slot_legal e (sync_ids w) x" using assms(1) Cons by (simp add: sync_inv_def)
    have legal: "\<forall>a \<in> set (ss_others x). act_legal (snd a)" using x by (simp add: slot_legal_def)
    have inv: "store_inv (sw_db w)" using assms(1) by (simp add: sync_inv_def)
    note acts = spared_acts [OF legal inv]
    have keep: "find_run i (id_runs (sw_db w1)) = find_run i (id_runs (sw_db w)) \<and> raw_of_run i (sw_db w1) = raw_of_run i (sw_db w) \<and>
        find_run i (id_runs (sw_db w)) \<noteq> None" if "i \<in> set (sw_created w)" for i
    proof -
      have i: "i \<in> sync_ids w" "find_run i (id_runs (sw_db w)) \<noteq> None"
        using that assms(1) by (auto simp: sync_inv_def sync_ids_def)
      then have "i \<noteq> []" using assms(1) parsed_nonempty unfolding sync_inv_def by blast
      moreover have "\<forall>a \<in> set (ss_others x). spares e i (snd a)" using x i(1) by (simp add: slot_legal_def)
      ultimately show ?thesis using acts(2) i(2) by (auto simp: w1)
    qed
    have "sync_inv e ad w1"
      unfolding sync_inv_def
    proof (intro conjI)
      show "store_inv (sw_db w1)" using acts(1) by (simp add: w1)
      show "canonical_scan (ie_scan e)" using assms(1) by (simp add: sync_inv_def)
      show "\<forall>i \<in> sync_ids w1. parse_uuid (ie_scan e) i = Inr i" using assms(1) ids by (auto simp: sync_inv_def)
      show "\<forall>i \<in> set (sw_created w1). i \<in> set (sw_drawn w1) \<and> find_run i (id_runs (sw_db w1)) \<noteq> None"
        using assms(1) keep by (simp add: sync_inv_def w1)
      show "\<forall>s \<in> set (sw_sched w1). slot_legal e (sync_ids w1) s"
      proof -
        have "\<forall>s \<in> set xs. slot_legal e (sync_ids w) s" using assms(1) Cons by (simp add: sync_inv_def)
        then have "\<forall>s \<in> set xs. slot_legal e (sync_ids w1) s" using ids unfolding slot_legal_def by blast
        then show ?thesis by (simp add: w1)
      qed
      show "\<forall>cp n s res. ad cp n s = Inr res \<longrightarrow> trim_space (fr_next res) = fr_next res"
        using assms(1) unfolding sync_inv_def by blast
    qed
    moreover have "\<forall>t. ss_uuid s = Inr t \<longrightarrow> t \<in> sync_ids w" using Cons s by (auto simp: sync_ids_def intro: image_eqI)
    ultimately show ?thesis using keep Cons by (simp add: same_rows_def w1)
  qed
  then show "sync_inv e ad w1" "same_rows (set (sw_created w)) (sw_db w) (sw_db w1)" "sw_created w1 = sw_created w"
    "sw_drawn w1 = sw_drawn w" "sw_pages w1 = sw_pages w" "\<And>t. ss_uuid s = Inr t \<Longrightarrow> t \<in> sync_ids w"
    "length (sw_sched w1) \<le> length (sw_sched w)" by blast+
qed

lemma db_call_cases:
  assumes "db_call e c f w = (w', r)"
  obtains (refused) s w1 where "sync_slot_step e w = (s, w1)" "w' = w1" "\<not> is_ok r"
  | (applied) s w1 db' a where "sync_slot_step e w = (s, w1)" "f s (sw_db w1) = Inr (db', a)" "w' = w1\<lparr>sw_db := db'\<rparr>"
      "\<And>b. r = Inr b \<Longrightarrow> b = a"
proof -
  obtain s w1 where st: "sync_slot_step e w = (s, w1)" by (cases "sync_slot_step e w")
  show thesis
  proof (cases "c = CallerCtx \<and> sync_ctx_err w \<noteq> None")
    case True
    with assms st have "w' = w1" "\<not> is_ok r" by (auto simp: db_call_def)
    with refused [OF st] show ?thesis by blast
  next
    case no: False
    show ?thesis
    proof (cases "f s (sw_db w1)")
      case (Inl x)
      with assms st no have "w' = w1" "\<not> is_ok r" by (auto simp: db_call_def)
      with refused [OF st] show ?thesis by blast
    next
      case (Inr p)
      obtain db' a where p: "p = (db', a)" by (cases p)
      have "(w' = w1 \<and> \<not> is_ok r) \<or> (w' = w1\<lparr>sw_db := db'\<rparr> \<and> (\<forall>b. r = Inr b \<longrightarrow> b = a))"
        using assms st no Inr p by (auto simp: db_call_def split: option.splits if_splits)
      with refused [OF st] applied [OF st Inr [unfolded p]] show ?thesis by blast
    qed
  qed
qed

lemma sync_inv_db:
  "sync_inv e ad w \<Longrightarrow> store_inv db \<Longrightarrow> (\<And>i. find_run i (id_runs (sw_db w)) \<noteq> None \<Longrightarrow> find_run i (id_runs db) \<noteq> None) \<Longrightarrow>
   sync_inv e ad (w\<lparr>sw_db := db\<rparr>)"
  by (auto simp: sync_inv_def sync_ids_def)

lemma quiet_slot:
  assumes "sync_inv e ad w" "sync_slot_step e w = (s, w1)"
  shows "quiet (store_view e ad) w w1" "sw_pages w1 = sw_pages w"
  using sync_slot_law [OF assms] by (simp_all add: quiet_def same_rows_def)

lemma quiet_read:
  assumes "sync_inv e ad w" "db_call e c (db_read f) w = (w', r)"
  shows "quiet (store_view e ad) w w' \<and> sw_pages w' = sw_pages w \<and> (\<forall>a. r = Inr a \<longrightarrow> f (sw_db w') = Inr a)"
  by (rule db_call_cases [OF assms(2)])
     (use quiet_slot [OF assms(1)] in \<open>auto simp: db_read_def bindr_Inr_iff\<close>)

lemma quiet_source:
  assumes "sync_inv e ad w" "db_call e c (\<lambda>s db. bindr (g s) (\<lambda>b. Inr (db, b))) w = (w', r)"
  shows "quiet (store_view e ad) w w' \<and> sw_pages w' = sw_pages w"
  by (rule db_call_cases [OF assms(2)])
     (use quiet_slot [OF assms(1)] in \<open>auto simp: bindr_Inr_iff\<close>)

lemma world_now_law:
  "sync_inv e ad w \<Longrightarrow> world_now e w = (w', t) \<Longrightarrow> quiet (store_view e ad) w w' \<and> sw_pages w' = sw_pages w"
  using quiet_slot by (auto simp: world_now_def split: prod.splits)

lemma sync_inv_extra:
  "sync_inv e ad w \<Longrightarrow> sync_inv e ad (w\<lparr>sw_pages := ps\<rparr>)"
  "sync_inv e ad w \<Longrightarrow> t \<in> sync_ids w0 \<Longrightarrow> sync_inv e ad w0 \<Longrightarrow>
     set (sw_sched w) \<subseteq> set (sw_sched w0) \<Longrightarrow> sw_drawn w = sw_drawn w0 \<Longrightarrow> sync_inv e ad (w\<lparr>sw_drawn := t # sw_drawn w\<rparr>)"
  "sync_inv e ad w \<Longrightarrow> t \<in> set (sw_drawn w) \<Longrightarrow> find_run t (id_runs (sw_db w)) \<noteq> None \<Longrightarrow>
     sync_inv e ad (w\<lparr>sw_created := t # sw_created w\<rparr>)"
proof -
  show "sync_inv e ad w \<Longrightarrow> sync_inv e ad (w\<lparr>sw_pages := ps\<rparr>)" by (simp add: sync_inv_def sync_ids_def)
  show "sync_inv e ad w \<Longrightarrow> t \<in> set (sw_drawn w) \<Longrightarrow> find_run t (id_runs (sw_db w)) \<noteq> None \<Longrightarrow>
     sync_inv e ad (w\<lparr>sw_created := t # sw_created w\<rparr>)" by (simp add: sync_inv_def sync_ids_def)
  assume w: "sync_inv e ad w" and t: "t \<in> sync_ids w0" and w0: "sync_inv e ad w0"
    and sub: "set (sw_sched w) \<subseteq> set (sw_sched w0)" "sw_drawn w = sw_drawn w0"
  let ?w = "w\<lparr>sw_drawn := t # sw_drawn w\<rparr>"
  have ids: "sync_ids ?w = insert t (sync_ids w)" by (auto simp: sync_ids_def)
  have "insert t (sync_ids w) \<subseteq> sync_ids w0" using t sub by (auto simp: sync_ids_def)
  then have leg: "\<forall>s \<in> set (sw_sched w). slot_legal e (insert t (sync_ids w)) s"
    using w0 sub(1) unfolding sync_inv_def slot_legal_def by blast
  have "parse_uuid (ie_scan e) t = Inr t" using t w0 by (simp add: sync_inv_def)
  with w leg show "sync_inv e ad ?w" by (simp add: sync_inv_def ids)
qed

lemma sync_slot_sub: "sync_slot_step e w = (s, w1) \<Longrightarrow> set (sw_sched w1) \<subseteq> set (sw_sched w)"
  by (auto simp: sync_slot_step_def split: list.splits)

lemma world_uuid_law:
  assumes "sync_inv e ad w" "world_uuid e w = (w', u)"
  shows "quiet (store_view e ad) w w' \<and> sw_pages w' = sw_pages w \<and> (\<forall>t. u = Inr t \<longrightarrow> t \<in> set (sw_drawn w'))"
proof -
  obtain s w1 where st: "sync_slot_step e w = (s, w1)" by (cases "sync_slot_step e w")
  note l = sync_slot_law [OF assms(1) st]
  show ?thesis
  proof (cases "ss_uuid s")
    case (Inl x)
    with assms(2) st quiet_slot [OF assms(1) st] show ?thesis by (auto simp: world_uuid_def)
  next
    case (Inr t)
    then have w': "w' = w1\<lparr>sw_drawn := t # sw_drawn w1\<rparr>" "u = Inr t" using assms(2) st by (auto simp: world_uuid_def)
    have "sync_inv e ad w'" unfolding w'(1)
      by (rule sync_inv_extra(2) [OF l(1) l(6) [OF Inr] assms(1) sync_slot_sub [OF st] l(4)])
    with l w' show ?thesis by (auto simp: quiet_def same_rows_def)
  qed
qed

lemma world_fetch_law:
  assumes "sync_inv e ad w" "world_fetch e ad cp n w = (w', r)"
  shows "quiet (store_view e ad) w w' \<and> (case r of Inl _ \<Rightarrow> sw_pages w' = sw_pages w
    | Inr res \<Rightarrow> sw_pages w' = sw_pages w @ [res] \<and> trim_space (fr_next res) = fr_next res \<and> (\<exists>n s. ad cp n s = Inr res))"
proof -
  obtain s w1 where st: "sync_slot_step e w = (s, w1)" by (cases "sync_slot_step e w")
  note l = sync_slot_law [OF assms(1) st]
  show ?thesis
  proof (cases "ad cp n s")
    case (Inl x)
    with assms(2) st have "w' = w1" "r = Inl x" by (auto simp: world_fetch_def)
    with quiet_slot [OF assms(1) st] show ?thesis by simp
  next
    case (Inr res)
    then have w': "w' = w1\<lparr>sw_pages := sw_pages w1 @ [res]\<rparr>" "r = Inr res" using assms(2) st by (auto simp: world_fetch_def)
    moreover have "trim_space (fr_next res) = fr_next res" using assms(1) Inr unfolding sync_inv_def by blast
    moreover have "sync_inv e ad w'" unfolding w'(1) by (rule sync_inv_extra(1) [OF l(1)])
    moreover have "\<exists>n s. ad cp n s = Inr res" using Inr by blast
    ultimately show ?thesis using l by (auto simp: quiet_def same_rows_def)
  qed
qed

lemma find_run_id: "find_run i rows = Some r \<Longrightarrow> ir_id r = i"
  using find_run_Some by blast

lemma find_run_by_id_Inr:
  "find_run_by_id e i db = Inr r \<Longrightarrow> parse_uuid (ie_scan e) i = Inr i \<Longrightarrow> find_run i (id_runs db) = Some r"
  by (auto simp: find_run_by_id_def split: option.splits)

lemma world_find_law:
  assumes "sync_inv e ad w" "db_call e c (db_read (find_run_by_id e i)) w = (w', r)"
  shows "quiet (store_view e ad) w w' \<and> sw_pages w' = sw_pages w \<and>
    (\<forall>x. i \<in> set (sw_created w) \<longrightarrow> r = Inr x \<longrightarrow> find_run i (id_runs (sw_db w)) = Some x)"
proof -
  note l = quiet_read [OF assms]
  have "find_run i (id_runs (sw_db w)) = Some x" if "i \<in> set (sw_created w)" "r = Inr x" for x
  proof -
    have "parse_uuid (ie_scan e) i = Inr i" using that(1) assms(1) by (auto simp: sync_inv_def sync_ids_def)
    then have "find_run i (id_runs (sw_db w')) = Some x" using l that(2) find_run_by_id_Inr by blast
    with l that(1) show ?thesis by (simp add: quiet_def)
  qed
  with l show ?thesis by blast
qed

lemma no_records_of_new_run:
  assumes "store_inv db" "find_run i (id_runs db) = None" "i \<noteq> []"
  shows "raw_of_run i db = []"
  using assms unfolding raw_of_run_def filter_empty_conv store_inv_def list_all_iff raw_has_run_def by metis

lemma world_create_law:
  assumes inv: "sync_inv e ad w" and r: "ir_status r = StatusRunning" "ir_id r \<in> set (sw_drawn w)"
    and call: "world_create e r w = (w', q)"
  shows "quiet (store_view e ad) w w' \<and> sw_pages w' = sw_pages w \<and>
    (\<forall>x. q = Inr x \<longrightarrow> ir_checkpoint x = ir_checkpoint r \<and> ir_id x \<in> set (sw_created w') \<and> raw_of_run (ir_id x) (sw_db w') = [] \<and>
       (\<exists>row. find_run (ir_id x) (id_runs (sw_db w')) = Some row \<and> ir_status row = StatusRunning \<and>
          ir_metrics row = ir_metrics r \<and> ir_checkpoint row = ir_checkpoint r))"
proof -
  obtain w0 q0 where c: "db_call e CallerCtx (\<lambda>_. create_run e r) w = (w0, q0)"
    by (cases "db_call e CallerCtx (\<lambda>_. create_run e r) w")
  have key: "parse_uuid (ie_scan e) (ir_id r) = Inr (ir_id r)" using inv r(2) by (auto simp: sync_inv_def sync_ids_def)
  from c show ?thesis
  proof (cases rule: db_call_cases)
    case (refused s w1)
    with c call quiet_slot [OF inv refused(1)] show ?thesis by (cases q0) (auto simp: world_create_def)
  next
    case (applied s w1 db' a)
    note l = sync_slot_law [OF inv applied(1)]
    obtain i where i: "parse_uuid (ie_scan e) (ir_id r) = Inr i" "db' = (sw_db w1)\<lparr>id_runs := id_runs (sw_db w1) @ [run_row e i r]\<rparr>"
      "find_run i (id_runs (sw_db w1)) = None"
      "a = r\<lparr>ir_id := i, ir_created_at := ie_round e (ir_created_at r), ir_updated_at := ie_round e (ir_updated_at r)\<rparr>"
      using create_run_Inr [OF applied(2)] by blast
    have si: "store_inv (sw_db w1)" using l(1) by (simp add: sync_inv_def)
    have "store_inv db'" by (rule create_run_inv [OF applied(2) _ si]) (simp add: r(1) active_status_def)
    then have inv0: "sync_inv e ad w0" unfolding applied(3)
      by (rule sync_inv_db [OF l(1)]) (auto simp: i(2) find_run_append)
    have ri: "i = ir_id r" using i(1) key by simp
    have mono: "find_run j (id_runs db') = find_run j (id_runs (sw_db w1)) \<and> raw_of_run j db' = raw_of_run j (sw_db w1)"
      if "j \<in> set (sw_created w)" for j
      using that l(1,3) by (auto simp: i(2) find_run_append raw_of_run_def sync_inv_def)
    have qt: "quiet (store_view e ad) w w0" using inv0 l mono by (simp add: quiet_def same_rows_def applied(3))
    have new: "find_run i (id_runs db') = Some (run_row e i r)" using i(3) by (simp add: i(2) find_run_append) (simp add: find_run_def)
    show ?thesis
    proof (cases q0)
      case (Inl x)
      with c call qt l show ?thesis by (auto simp: world_create_def applied(3))
    next
      case (Inr b)
      with applied(4) have b: "b = a" by simp
      have w': "w' = w0\<lparr>sw_created := i # sw_created w0\<rparr>" "q = Inr a"
        using c call Inr b i(4) by (auto simp: world_create_def)
      have "sync_inv e ad w'" unfolding w'(1)
        by (rule sync_inv_extra(3) [OF inv0]) (use r(2) ri l(4) new in \<open>simp_all add: applied(3)\<close>)
      moreover have "raw_of_run i db' = []"
        using no_records_of_new_run [OF si i(3)] parsed_nonempty [OF key] ri by (simp add: i(2) raw_of_run_def)
      ultimately show ?thesis using qt new w' l by (auto simp: quiet_def applied(3) i(4) r(1))
    qed
  qed
qed

lemma world_status_law:
  assumes inv: "sync_inv e ad w" and mine: "ir_id r \<in> set (sw_created w)"
    and call: "db_call e c (\<lambda>s. update_run_status e (ss_now s) r st) w = (w', q)"
  shows "sw_pages w' = sw_pages w \<and> (quiet (store_view e ad) w w' \<and> \<not> is_ok q \<or> settled (store_view e ad) r st w w')"
proof -
  have key: "parse_uuid (ie_scan e) (ir_id r) = Inr (ir_id r)" using inv mine by (auto simp: sync_inv_def sync_ids_def)
  from call show ?thesis
  proof (cases rule: db_call_cases)
    case (refused s w1)
    with quiet_slot [OF inv refused(1)] show ?thesis by simp
  next
    case (applied s w1 db' a)
    note l = sync_slot_law [OF inv applied(1)]
    obtain k where "parse_uuid (ie_scan e) (ir_id r) = Inr k" "id_raw db' = id_raw (sw_db w1)"
      and old: "\<exists>q. find_run k (id_runs (sw_db w1)) = Some q \<and> ir_status q = st"
      and fr: "\<And>j. find_run j (id_runs db') = (if j = k then map_option (status_row e r) (find_run j (id_runs (sw_db w1)))
         else find_run j (id_runs (sw_db w1)))"
      by (rule status_find_run [OF applied(2)]) blast
    then have k: "k = ir_id r" and raw: "raw_of_run (ir_id r) db' = raw_of_run (ir_id r) (sw_db w1)"
      using key by (simp_all add: raw_of_run_def)
    obtain q0 where q0: "find_run (ir_id r) (id_runs (sw_db w1)) = Some q0" "ir_status q0 = st" using old k by blast
    have si: "store_inv (sw_db w1)" using l(1) by (simp add: sync_inv_def)
    have "sync_inv e ad w'" unfolding applied(3)
      by (rule sync_inv_db [OF l(1) update_run_status_inv [OF applied(2) si]]) (auto simp: fr)
    then have "settled (store_view e ad) r st w w'"
      using l(2,3) mine raw q0 fr k by (simp add: settled_def applied(3) same_rows_def)
    with l(5) show ?thesis by (simp add: applied(3))
  qed
qed

lemma raw_row_content:
  "raw_row e r = Inr x \<Longrightarrow> content x = content r \<and>
    (parse_uuid (ie_scan e) (rr_run_id r) = Inr i \<longrightarrow> trim_space (rr_run_id r) = rr_run_id r \<longrightarrow> rr_run_id x = i)"
  by (auto simp: raw_row_def bindr_Inr_iff content_def is_blank_def parse_uuid_def Let_def split: if_splits)

lemma raw_rows_content:
  "raw_rows e rs = Inr xs \<Longrightarrow> list_all (\<lambda>r. rr_run_id r = i) rs \<Longrightarrow> parse_uuid (ie_scan e) i = Inr i \<Longrightarrow> trim_space i = i \<Longrightarrow>
   map content xs = map content rs \<and> list_all (\<lambda>x. rr_run_id x = i) xs"
proof (induction rs arbitrary: xs)
  case (Cons r rs)
  then obtain y ys where y: "raw_row e r = Inr y" "raw_rows e rs = Inr ys" "xs = y # ys" by (auto simp: bindr_Inr_iff)
  with Cons.IH [OF y(2)] Cons.prems raw_row_content [OF y(1), of i] show ?case by auto
qed simp

lemma persist_body_store:
  assumes "persist_body (store_sync_deps e ad txt fdiv) rid now res db = Inr (db', u)" "store_inv db"
    "parse_uuid (ie_scan e) rid = Inr rid" "trim_space rid = rid"
  obtains old where "find_run rid (id_runs db) = Some old" "store_inv db'"
    "map content (raw_of_run rid db') = map content (raw_of_run rid db) @ map content (fr_records res)"
    "\<And>k. find_run k (id_runs db') =
      (if k = rid then map_option (progress_row e (page_metrics res) (fr_next res) now) (find_run k (id_runs db)) else find_run k (id_runs db))"
proof -
  obtain d1 u1 u2 where s: "save_batch e (map (stamp_record rid now) (fr_records res)) db = Inr (d1, u1)"
    and p: "update_run_progress e rid (page_metrics res) (fr_next res) now d1 = Inr (db', u2)"
    using assms(1) by (auto simp: persist_body_def bindr_Inr_iff)
  obtain xs where xs: "raw_rows e (map (stamp_record rid now) (fr_records res)) = Inr xs" "d1 = db\<lparr>id_raw := id_raw db @ xs\<rparr>"
    using save_batch_Inr [OF s] by metis
  have st: "list_all (\<lambda>r. rr_run_id r = rid) (map (stamp_record rid now) (fr_records res))"
    by (simp add: list_all_iff stamp_record_def)
  note xc = raw_rows_content [OF xs(1) st assms(3,4)]
  then have sel: "filter (\<lambda>x. rr_run_id x = rid) xs = xs" by (simp add: list_all_iff)
  obtain i where i: "parse_uuid (ie_scan e) rid = Inr i" "id_raw db' = id_raw d1"
    "\<exists>r. find_run i (id_runs d1) = Some r \<and> ir_status r = StatusRunning"
    "\<And>k. find_run k (id_runs db') = (if k = i then map_option (progress_row e (page_metrics res) (fr_next res) now) (find_run k (id_runs d1)) else find_run k (id_runs d1))"
    by (rule progress_find_run [OF p]) blast
  obtain old where old: "find_run rid (id_runs db) = Some old" using i(1,3) assms(3) xs(2) by auto
  show thesis
  proof (rule that [OF old])
    show "store_inv db'" by (rule update_run_progress_inv [OF p save_batch_inv [OF s assms(2)]])
    show "map content (raw_of_run rid db') = map content (raw_of_run rid db) @ map content (fr_records res)"
      using i(2) xs(2) xc sel by (simp add: raw_of_run_def o_def)
    show "find_run k (id_runs db') =
      (if k = rid then map_option (progress_row e (page_metrics res) (fr_next res) now) (find_run k (id_runs db)) else find_run k (id_runs db))" for k
      using i(1,4) assms(3) xs(2) by simp
  qed
qed

lemma canonical_trim: "canonical_scan scan \<Longrightarrow> parse_uuid scan i = Inr i \<Longrightarrow> trim_space i = i"
  by (auto simp: canonical_scan_def parse_uuid_def Let_def split: if_splits option.splits)

lemma world_tx_law:
  assumes inv: "sync_inv e ad w" and mine: "rid \<in> set (sw_created w)"
    and call: "db_call e CallerCtx (\<lambda>_. persist_body (store_sync_deps e ad txt fdiv) rid now res) w = (w', q)"
  shows "sw_pages w' = sw_pages w \<and> (quiet (store_view e ad) w w' \<and> \<not> is_ok q \<or> persisted (store_view e ad) rid res w w')"
proof -
  have key: "parse_uuid (ie_scan e) rid = Inr rid" using inv mine by (auto simp: sync_inv_def sync_ids_def)
  have canon: "trim_space rid = rid" using canonical_trim [OF _ key] inv by (simp add: sync_inv_def)
  from call show ?thesis
  proof (cases rule: db_call_cases)
    case (refused s w1)
    with quiet_slot [OF inv refused(1)] show ?thesis by simp
  next
    case (applied s w1 db' a)
    note l = sync_slot_law [OF inv applied(1)]
    have si: "store_inv (sw_db w1)" using l(1) by (simp add: sync_inv_def)
    obtain old where old: "find_run rid (id_runs (sw_db w1)) = Some old" and sd: "store_inv db'"
      and raw: "map content (raw_of_run rid db') = map content (raw_of_run rid (sw_db w1)) @ map content (fr_records res)"
      and fr: "\<And>k. find_run k (id_runs db') = (if k = rid then map_option (progress_row e (page_metrics res) (fr_next res) now)
         (find_run k (id_runs (sw_db w1))) else find_run k (id_runs (sw_db w1)))"
      by (rule persist_body_store [OF applied(2) si key canon]) blast
    have "sync_inv e ad w'" unfolding applied(3) by (rule sync_inv_db [OF l(1) sd]) (auto simp: fr)
    then have "persisted (store_view e ad) rid res w w'"
      using l(2,3) mine raw old fr by (simp add: persisted_def applied(3) same_rows_def advance_checkpoint_def)
    with l(5) show ?thesis by (simp add: applied(3))
  qed
qed

lemma db_call_budget: "length (sw_sched (fst (db_call e c f w))) \<le> length (sw_sched w)"
  by (auto simp: db_call_def sync_slot_step_def split: list.splits sum.splits option.splits prod.splits)

lemma world_now_budget: "length (sw_sched (fst (world_now e w))) \<le> length (sw_sched w)"
  by (auto simp: world_now_def sync_slot_step_def split: list.splits)

lemma world_fetch_budget: "sync_ctx_err w = None \<Longrightarrow> length (sw_sched (fst (world_fetch e ad cp n w))) < length (sw_sched w)"
  by (auto simp: world_fetch_def sync_slot_step_def sync_ctx_err_def split: list.splits sum.splits if_splits)

interpretation store_sync: sync_bounded "store_sync_deps e ad msg fdiv" "store_view e ad" "\<lambda>w. length (sw_sched w)"
  for e :: ingest_env and ad :: adapter and msg :: "gerr \<Rightarrow> string" and fdiv :: "int \<Rightarrow> int \<Rightarrow> 'f::linorder"
proof (unfold_locales, goal_cases)
  case (1 w i r)
  then show ?case by (simp add: find_run_id)
next
  case (2 w w' t)
  then show ?case using world_now_law by simp
next
  case (3 w w' u)
  then show ?case using world_uuid_law by simp
next
  case (4 w src w' b)
  then show ?case using quiet_source by simp
next
  case (5 w c i w' r)
  then show ?case using world_find_law by simp
next
  case (6 w src w' r)
  then show ?case using quiet_read [of e ad w CallerCtx "find_latest_run src"] by simp
next
  case (7 w r w' r1)
  then show ?case using world_create_law by simp
next
  case (8 w r c st w' r2)
  then show ?case using world_status_law by simp
next
  case (9 w cp n w' r3)
  then show ?case using world_fetch_law [of e ad w cp n w' r3] by (cases r3) auto
next
  case (10 w rid now res w' r4)
  then show ?case using world_tx_law by simp
next
  case (11 w cp n)
  then show ?case using world_fetch_budget by simp
next
  case (12 w)
  then show ?case using world_now_budget by simp
next
  case (13 f w)
  then show ?case using db_call_budget by simp
qed

subsection \<open>Properties of the tables\<close>

definition empty_db :: ingest_db where
  "empty_db = \<lparr>id_runs = [], id_raw = [], id_queue = []\<rparr>"

lemma empty_db_inv: "store_inv empty_db"
  by (simp add: empty_db_def store_inv_def one_active_def rp_inv_def)

text \<open>Claim C12. Whatever the services, the workers and the repositories do to empty tables, in any order
  and with any failures, at most one run of a source is PENDING or RUNNING, every run that finished
  COMPLETED or PARTIAL is queued for processing, and every raw record that names a run names one
  that exists.\<close>

theorem ingest_tables_inv:
  assumes "\<forall>a \<in> set acts. act_legal (snd a)" "db = exec_acts e acts empty_db"
  shows "(\<forall>r \<in> set (id_runs db). \<forall>q \<in> set (id_runs db). active_status (ir_status r) \<longrightarrow> active_status (ir_status q) \<longrightarrow>
      ir_source_id r = ir_source_id q \<longrightarrow> r = q) \<and>
    (\<forall>r \<in> set (id_runs db). processable (ir_status r) \<longrightarrow> ir_id r \<in> rp_run_id ` set (id_queue db)) \<and>
    (\<forall>x \<in> set (id_raw db). rr_run_id x = [] \<or> rr_run_id x \<in> ir_id ` set (id_runs db))"
proof -
  have inv: "store_inv db" using spared_acts(1) [OF assms(1) empty_db_inv] assms(2) by simp
  then have "r = q" if "r \<in> set (id_runs db)" "q \<in> set (id_runs db)" "active_status (ir_status r)" "active_status (ir_status q)"
    "ir_source_id r = ir_source_id q" for r q
    using that map_of_distinct_in [of ir_id "id_runs db" r q] unfolding store_inv_def one_active_def by blast
  moreover have "ir_id r \<in> rp_run_id ` set (id_queue db)" if "r \<in> set (id_runs db)" "processable (ir_status r)" for r
    using that inv find_row_None unfolding store_inv_def list_all_iff queued_def by metis
  moreover have "rr_run_id x = [] \<or> rr_run_id x \<in> ir_id ` set (id_runs db)" if "x \<in> set (id_raw db)" for x
    using that inv find_run_None unfolding store_inv_def list_all_iff raw_has_run_def by metis
  ultimately show ?thesis by blast
qed

text \<open>An update of a status that the entity made, from a row read at some earlier time.\<close>

definition entity_act :: "ingest_act \<Rightarrow> bool" where
  "entity_act act \<longleftrightarrow> (case act of ActStatus r st \<Rightarrow> \<exists>r0. ir_status r0 = st \<and> run_step r0 r | _ \<Rightarrow> True)"

lemma terminal_act:
  assumes "entity_act act" "find_run i (id_runs db) = Some r" "is_terminal (ir_status r)"
  shows "find_run i (id_runs (exec_act e now act db)) = Some r"
proof (cases act)
  case (ActCreate q)
  show ?thesis
  proof (cases "create_run e q db")
    case (Inr p)
    obtain db' q' where p: "p = (db', q')" by (cases p)
    from create_run_Inr [OF Inr [unfolded p]] obtain j where "db' = db\<lparr>id_runs := id_runs db @ [run_row e j q]\<rparr>" by blast
    with Inr p ActCreate assms show ?thesis by (simp add: after_db_def find_run_append)
  qed (use ActCreate assms in \<open>simp add: after_db_def\<close>)
next
  case (ActProgress j m cp)
  show ?thesis
  proof (cases "update_run_progress e j m cp now db")
    case (Inr p)
    obtain db' q' where p: "p = (db', q')" by (cases p)
    obtain k where "\<exists>r. find_run k (id_runs db) = Some r \<and> ir_status r = StatusRunning"
      "find_run i (id_runs db') = (if i = k then map_option (progress_row e m cp now) (find_run i (id_runs db)) else find_run i (id_runs db))"
      by (rule progress_find_run [OF Inr [unfolded p]]) blast
    with ActProgress assms Inr p show ?thesis by (auto simp: after_db_def)
  qed (use ActProgress assms in \<open>simp add: after_db_def\<close>)
next
  case (ActStatus q st)
  show ?thesis
  proof (cases "update_run_status e now q st db")
    case (Inr p)
    obtain db' q' where p: "p = (db', q')" by (cases p)
    obtain k where "\<exists>r. find_run k (id_runs db) = Some r \<and> ir_status r = st"
      "find_run i (id_runs db') = (if i = k then map_option (status_row e q) (find_run i (id_runs db)) else find_run i (id_runs db))"
      by (rule status_find_run [OF Inr [unfolded p]]) blast
    moreover have "\<not> is_terminal st" using assms(1) ActStatus terminal_no_step by (auto simp: entity_act_def)
    ultimately show ?thesis using ActStatus assms Inr p by (auto simp: after_db_def)
  qed (use ActStatus assms in \<open>simp add: after_db_def\<close>)
next
  case (ActSaveBatch rs)
  then show ?thesis using assms save_batch_Inr [of e rs db]
    by (cases "save_batch e rs db") (fastforce simp: after_db_def)+
next
  case (ActSave q)
  then show ?thesis using assms by (auto simp: after_db_def save_record_def bindr_def split: sum.splits)
next
  case (ActQueue op)
  with assms show ?thesis by (simp add: queue_op_def)
qed

text \<open>Claim C25. A run that is COMPLETED, PARTIAL, FAILED or CANCELLED never changes again in any column,
  whatever the services, the workers and the repositories do, even when a transition was decided on a
  row read before the run ended.\<close>

theorem terminal_run_is_final:
  assumes "\<forall>a \<in> set acts. entity_act (snd a)" "find_run i (id_runs db) = Some r" "is_terminal (ir_status r)"
  shows "find_run i (id_runs (exec_acts e acts db)) = Some r"
  using assms by (induction e acts db rule: exec_acts.induct) (simp_all add: terminal_act)

subsection \<open>Properties of the sync\<close>


text \<open>Claim C13. A sync that returns no error covered every page it fetched, the last of which had no more
  to give, and returns the stored run: COMPLETED if no row failed, PARTIAL otherwise, and queued for
  product processing.\<close>

theorem sync_success_is_queued:
  assumes "sync_inv e ad w" "sync_source zero one (store_sync_deps e ad msg fdiv) p w = Some (w', run, None)"
  shows "\<exists>row ps. run = Some row \<and> find_run (ir_id row) (id_runs (sw_db w')) = Some row \<and>
    sw_pages w' = sw_pages w @ ps \<and> ps \<noteq> [] \<and> last_page (last ps) \<and>
    map content (raw_of_run (ir_id row) (sw_db w')) = page_contents ps \<and>
    ir_status row = (if m_failed (ir_metrics row) > 0 then StatusPartial else StatusCompleted) \<and>
    find_row (ir_id row) (id_queue (sw_db w')) \<noteq> None"
proof -
  have inv: "sv_inv (store_view e ad) w" using assms(1) by simp
  from store_sync.sync_source_outcome [OF inv assms(2)]
  obtain rid where "sync_outcome (store_view e ad) w rid (trim_space (sp_checkpoint p)) w' (run, None)" by auto
  then obtain ps row where pg: "sw_pages w' = sw_pages w @ ps" "ps \<noteq> []" "last_page (last ps)" "run = Some row"
    and cov: "covers (store_view e ad) rid (trim_space (sp_checkpoint p)) ps w' row"
    and st: "ir_status row = (if m_failed (total_metrics ps) > 0 then StatusPartial else StatusCompleted)"
    by (auto simp: sync_outcome_def)
  have row: "find_run rid (id_runs (sw_db w')) = Some row" "ir_metrics row = total_metrics ps" "store_inv (sw_db w')"
    "map content (raw_of_run rid (sw_db w')) = page_contents ps"
    using cov by (simp_all add: covers_def sync_inv_def)
  have "processable (ir_status row)" using st by (simp add: processable_def)
  then have "find_row (ir_id row) (id_queue (sw_db w')) \<noteq> None"
    using row(1,3) find_run_Some unfolding store_inv_def list_all_iff queued_def by blast
  moreover have "ir_id row = rid" by (rule find_run_id [OF row(1)])
  ultimately show ?thesis using pg row st by auto
qed



subsection \<open>A sync of two pages\<close>

definition demo_ids :: scanner where
  "demo_ids s = (if s \<noteq> [] \<and> trim_space s = s then Some s else None)"

lemma demo_ids_canonical: "canonical_scan demo_ids"
  by (simp add: canonical_scan_def demo_ids_def)

definition demo_env :: ingest_env where
  "demo_env = \<lparr>ie_scan = demo_ids, ie_check_run = (\<lambda>_. None), ie_check_raw = (\<lambda>_. None), ie_round = (\<lambda>t. t)\<rparr>"

definition demo_record :: "string \<Rightarrow> raw_record" where
  "demo_record i = \<lparr>rr_id = i, rr_source_id = ''s1'', rr_external_product_id = i, rr_payload = ''{}'', rr_payload_raw = ''{}'',
     rr_payload_sha256 = [], rr_source_version = [], rr_etag = [], rr_source_updated_at = None, rr_run_id = [], rr_received_at = 0\<rparr>"

definition demo_adapter :: adapter where
  "demo_adapter cp n s =
     (if cp = [] then Inr \<lparr>fr_records = [demo_record ''p1'', demo_record ''p2''], fr_failed = 0, fr_next = ''offset:9'', fr_has_more = True\<rparr>
      else if cp = ''offset:9'' then Inr \<lparr>fr_records = [demo_record ''p3''], fr_failed = 1, fr_next = [], fr_has_more = False\<rparr>
      else Inl (Opaque ''no such offset''))"

text \<open>Others create, run and complete a sync of another source meanwhile.\<close>

definition demo_other :: ingest_act where
  "demo_other = ActCreate demo_started_run"

definition demo_sync_slot :: "instant \<Rightarrow> sync_slot" where
  "demo_sync_slot t = \<lparr>ss_others = (if t = 3 then [(3, demo_other)] else []), ss_now = t, ss_fault = None, ss_applied = False,
     ss_uuid = Inr ''run'', ss_enabled = Inr True, ss_cancel = False\<rparr>"

definition demo_sync_world :: sync_world where
  "demo_sync_world = \<lparr>sw_db = empty_db, sw_now = 0, sw_cancelled = False, sw_drawn = [], sw_created = [], sw_pages = [],
     sw_sched = map (\<lambda>n. demo_sync_slot (int n)) [1..<20]\<rparr>"

definition demo_params :: "int sync_params" where
  "demo_params = \<lparr>sp_source_id = ''s2'', sp_checkpoint = [], sp_batch_size = 2,
     sp_budget = \<lparr>eb_max_error_rate = 50, eb_min_sample_rows = 2\<rparr>\<rparr>"

definition demo_sync :: "sync_world \<times> sync_result" where
  "demo_sync = the (sync_source 0 100 (store_sync_deps demo_env demo_adapter (\<lambda>_. ''failed'') (\<lambda>f n. 100 * f div n)) demo_params demo_sync_world)"

lemma demo_sync_eval:
  "map_option (\<lambda>(w, run, err). (map_option ir_status run, map_option ir_metrics run, map_option ir_checkpoint run, err,
      map rr_id (raw_of_run ''run'' (sw_db w)), length (sw_pages w)))
    (sync_source 0 100 (store_sync_deps demo_env demo_adapter (\<lambda>_. ''failed'') (\<lambda>f n. 100 * f div n)) demo_params demo_sync_world) = Some
    (Some StatusPartial, Some \<lparr>m_seen = 4, m_new = 0, m_changed = 0, m_unchanged = 0, m_failed = 1\<rparr>, Some ''offset:9'', None,
      [''p1'', ''p2'', ''p3''], 2)"
  by code_simp

lemma demo_sync_inv: "sync_inv demo_env demo_adapter demo_sync_world"
  unfolding sync_inv_def
proof (intro conjI)
  have ids: "sync_ids demo_sync_world \<subseteq> {''run''}"
    by (auto simp: sync_ids_def demo_sync_world_def demo_sync_slot_def)
  show "store_inv (sw_db demo_sync_world)" by (simp add: demo_sync_world_def empty_db_inv)
  show "canonical_scan (ie_scan demo_env)" by (simp add: demo_env_def demo_ids_canonical)
  have "parse_uuid (ie_scan demo_env) ''run'' = Inr ''run''" by code_simp
  with ids show "\<forall>i \<in> sync_ids demo_sync_world. parse_uuid (ie_scan demo_env) i = Inr i" by blast
  show "\<forall>i \<in> set (sw_created demo_sync_world). i \<in> set (sw_drawn demo_sync_world) \<and>
      find_run i (id_runs (sw_db demo_sync_world)) \<noteq> None" by (simp add: demo_sync_world_def)
  have "ir_status demo_started_run = StatusRunning" by code_simp
  then have "slot_legal demo_env (sync_ids demo_sync_world) (demo_sync_slot t)" for t
    by (simp add: slot_legal_def demo_sync_slot_def demo_other_def act_legal_def spares_def active_status_def)
  then show "\<forall>s \<in> set (sw_sched demo_sync_world). slot_legal demo_env (sync_ids demo_sync_world) s"
    by (simp add: demo_sync_world_def)
  have "trim_space ''offset:9'' = ''offset:9''" by code_simp
  then show "\<forall>cp n s res. demo_adapter cp n s = Inr res \<longrightarrow> trim_space (fr_next res) = fr_next res"
    by (auto simp: demo_adapter_def split: if_splits)
qed

lemma demo_sync_eq:
  "sync_source 0 100 (store_sync_deps demo_env demo_adapter (\<lambda>_. ''failed'') (\<lambda>f n. 100 * f div n)) demo_params demo_sync_world
     = Some (fst demo_sync, fst (snd demo_sync), snd (snd demo_sync))"
proof -
  have "sv_inv (store_view demo_env demo_adapter) demo_sync_world" using demo_sync_inv by simp
  from store_sync.sync_source_returns [OF this] show ?thesis unfolding demo_sync_def by (metis option.sel prod.collapse)
qed

lemma demo_sync_ok: "snd (snd demo_sync) = None" "fst (snd demo_sync) \<noteq> None" "sw_pages (fst demo_sync) \<noteq> []"
  unfolding demo_sync_def by code_simp+

theorem ingest_tables_inv_witness:
  "list_all (\<lambda>r. processable (ir_status r) = False \<or> ir_id r \<in> rp_run_id ` set (id_queue (exec_acts demo_env [(3, demo_other)] empty_db)))
     (id_runs (exec_acts demo_env [(3, demo_other)] empty_db))"
proof -
  have "\<forall>a \<in> set [(3::instant, demo_other)]. act_legal (snd a)" by code_simp
  from ingest_tables_inv [OF this refl, of demo_env] show ?thesis by (auto simp: list_all_iff)
qed

definition demo_final_db :: ingest_db where
  "demo_final_db = sw_db (fst demo_sync)"

lemma demo_final_run: "\<exists>r. find_run ''run'' (id_runs demo_final_db) = Some r \<and> is_terminal (ir_status r)"
proof -
  have "(case find_run ''run'' (id_runs demo_final_db) of None \<Rightarrow> False | Some r \<Rightarrow> is_terminal (ir_status r))"
    unfolding demo_final_db_def demo_sync_def by code_simp
  then show ?thesis by (auto split: option.splits)
qed

theorem terminal_run_is_final_witness:
  "find_run ''run'' (id_runs (exec_acts demo_env [(30, ActProgress ''run'' zero_metrics ''offset:50''), (31, demo_other)] demo_final_db))
     = find_run ''run'' (id_runs demo_final_db)"
proof -
  obtain r where r: "find_run ''run'' (id_runs demo_final_db) = Some r" "is_terminal (ir_status r)" using demo_final_run by blast
  have "\<forall>a \<in> set [(30::instant, ActProgress ''run'' zero_metrics ''offset:50''), (31, demo_other)]. entity_act (snd a)"
    by (simp add: entity_act_def demo_other_def)
  from terminal_run_is_final [OF this r] r show ?thesis by simp
qed


theorem sync_success_is_queued_witness:
  "\<exists>row. fst (snd demo_sync) = Some row \<and> find_row (ir_id row) (id_queue (sw_db (fst demo_sync))) \<noteq> None"
  using sync_success_is_queued [OF demo_sync_inv demo_sync_eq [unfolded demo_sync_ok(1)]] by blast

text \<open>The same sync, cancelled after its first page.\<close>

definition demo_cancelled_world :: sync_world where
  "demo_cancelled_world = demo_sync_world\<lparr>sw_sched := take 9 (sw_sched demo_sync_world)\<rparr>"

definition demo_cancelled :: "sync_world \<times> sync_result" where
  "demo_cancelled = the (sync_source 0 100 (store_sync_deps demo_env demo_adapter (\<lambda>_. ''failed'') (\<lambda>f n. 100 * f div n)) demo_params demo_cancelled_world)"

lemma demo_cancelled_inv: "sync_inv demo_env demo_adapter demo_cancelled_world"
proof -
  have sub: "sync_ids demo_cancelled_world \<subseteq> sync_ids demo_sync_world"
    by (auto simp: sync_ids_def demo_cancelled_world_def dest: in_set_takeD)
  have "\<forall>s \<in> set (sw_sched demo_cancelled_world). slot_legal demo_env (sync_ids demo_cancelled_world) s"
  proof
    fix s assume "s \<in> set (sw_sched demo_cancelled_world)"
    then have "s \<in> set (sw_sched demo_sync_world)" by (auto simp: demo_cancelled_world_def dest: in_set_takeD)
    then have "slot_legal demo_env (sync_ids demo_sync_world) s" using demo_sync_inv by (simp add: sync_inv_def)
    then show "slot_legal demo_env (sync_ids demo_cancelled_world) s" using sub unfolding slot_legal_def by blast
  qed
  with demo_sync_inv sub show ?thesis by (auto simp: sync_inv_def demo_cancelled_world_def)
qed

lemma demo_cancelled_eq:
  "sync_source 0 100 (store_sync_deps demo_env demo_adapter (\<lambda>_. ''failed'') (\<lambda>f n. 100 * f div n)) demo_params demo_cancelled_world
     = Some (fst demo_cancelled, fst (snd demo_cancelled), snd (snd demo_cancelled))"
proof -
  have "sv_inv (store_view demo_env demo_adapter) demo_cancelled_world" using demo_cancelled_inv by simp
  from store_sync.sync_source_returns [OF this] show ?thesis unfolding demo_cancelled_def by (metis option.sel prod.collapse)
qed

lemma demo_cancelled_run: "snd (snd demo_cancelled) = Some canceled_err" "fst (snd demo_cancelled) \<noteq> None"
  unfolding demo_cancelled_def by code_simp+



end
