(* ===== verification/Json.thy ===== *)
theory Json
  imports Ingestion
begin

text \<open>
  Decoded JSON values, the paths of \<open>internal/platform/jsonpath\<close>, \<open>LookupString\<close> of
  \<open>adapters/sources/extraction/path_lookup.go\<close> and the identity strategies of
  \<open>adapters/sources/identity/strategy.go\<close>. The decoder itself (package \<open>encoding/json\<close>) is an argument.
\<close>

subsection \<open>Values and paths\<close>

text \<open>What \<open>Decode\<close> with \<open>UseNumber\<close> stores in an \<open>any\<close>: a number is its text.\<close>

datatype json =
    JNull
  | JBool bool
  | JNum string
  | JStr string
  | JArr "json list"
  | JObj "(string \<times> json) list"

fun split_on :: "char \<Rightarrow> string \<Rightarrow> string list" where
  "split_on c [] = [[]]"
| "split_on c (x # s) = (if x = c then [] # split_on c s else case split_on c s of t # ts \<Rightarrow> (x # t) # ts | [] \<Rightarrow> [[x]])"

text \<open>The bytes of a path with its brackets as dots.\<close>

fun dotted :: "string \<Rightarrow> string" where
  "dotted [] = []"
| "dotted (c # s) = (if c = CHR ''['' then CHR ''.'' # dotted s else if c = CHR '']'' then dotted s else c # dotted s)"

definition tokenize_path :: "string \<Rightarrow> string list" where
  "tokenize_path path =
     (let t = trim_space path in
      if t = [] \<or> t = ''.'' then [] else filter (\<lambda>x. x \<noteq> []) (map trim_space (split_on (CHR ''.'') (dotted t))))"

fun lookup_tokens :: "json \<Rightarrow> string list \<Rightarrow> json option" where
  "lookup_tokens v [] = Some v"
| "lookup_tokens (JObj m) (t # ts) = (case map_of m t of None \<Rightarrow> None | Some v \<Rightarrow> lookup_tokens v ts)"
| "lookup_tokens (JArr xs) (t # ts) = (case parse_int64 t of None \<Rightarrow> None
     | Some i \<Rightarrow> if i < 0 \<or> int (length xs) \<le> i then None else lookup_tokens (xs ! nat i) ts)"
| "lookup_tokens v (t # ts) = None"

definition lookup_path :: "json \<Rightarrow> string \<Rightarrow> json option" where
  "lookup_path v path = lookup_tokens v (tokenize_path path)"

definition bool_text :: "bool \<Rightarrow> string" where
  "bool_text b = (if b then ''true'' else ''false'')"

definition lookup_string :: "json \<Rightarrow> string \<Rightarrow> string option" where
  "lookup_string v path = (case lookup_path v path of
     Some (JStr s) \<Rightarrow> if is_blank s then None else Some (trim_space s)
   | Some (JNum s) \<Rightarrow> if is_blank s then None else Some (trim_space s)
   | Some (JBool b) \<Rightarrow> Some (bool_text b)
   | _ \<Rightarrow> None)"

subsection \<open>The syntax of a path\<close>

definition invalid_path :: gerr where
  "invalid_path = Wrap (Leaf (Platform ErrInvalidPathSyntax))"

fun double_dot :: "string \<Rightarrow> bool" where
  "double_dot (a # b # s) \<longleftrightarrow> a = CHR ''.'' \<and> b = CHR ''.'' \<or> double_dot (b # s)"
| "double_dot s \<longleftrightarrow> False"

definition path_space :: "char \<Rightarrow> bool" where
  "path_space c \<longleftrightarrow> c \<in> {CHR '' '', CHR 0x09, CHR 0x0A, CHR 0x0D}"

fun after_bracket :: "string \<Rightarrow> bool" where
  "after_bracket [] \<longleftrightarrow> True"
| "after_bracket (c # s) \<longleftrightarrow> c = CHR ''.'' \<or> c = CHR ''[''"

fun scan_path :: "bool \<Rightarrow> nat \<Rightarrow> string \<Rightarrow> bool" where
  "scan_path in_bracket digits [] \<longleftrightarrow> \<not> in_bracket"
| "scan_path in_bracket digits (c # s) \<longleftrightarrow>
     (if c = CHR ''['' then \<not> in_bracket \<and> scan_path True 0 s
      else if c = CHR '']'' then in_bracket \<and> digits \<noteq> 0 \<and> after_bracket s \<and> scan_path False digits s
      else if in_bracket then is_digit_ascii c \<and> scan_path True (digits + 1) s
      else \<not> path_space c \<and> scan_path False digits s)"

definition validate_path :: "string \<Rightarrow> gerr + unit" where
  "validate_path path =
     (let t = trim_space path in
      failif (t = [] \<or> t = ''.'') invalid_path
     (failif (hd t = CHR ''.'' \<or> last t = CHR ''.'') invalid_path
     (failif (double_dot t) invalid_path
     (if scan_path False 0 t then Inr () else Inl invalid_path))))"

subsection \<open>Identity strategies\<close>

datatype identity_strategy =
    PathIdentity string
  | CompositeIdentity "string list" string
  | CustomIdentity "(string \<Rightarrow> gerr + string) option"

definition new_path_identity :: "string \<Rightarrow> identity_strategy" where
  "new_path_identity path = PathIdentity (if is_blank path then ''id'' else trim_space path)"

definition new_composite_identity :: "string list \<Rightarrow> string \<Rightarrow> gerr + identity_strategy" where
  "new_composite_identity fs sep =
     (let cleaned = filter (\<lambda>t. t \<noteq> []) (map trim_space fs) in
      failif (fs = []) (Opaque ''composite identity requires at least one field'')
     (failif (cleaned = []) (Opaque ''composite identity requires non-empty field names'')
        (Inr (CompositeIdentity cleaned (if sep = [] then '':'' else sep)))))"

definition identity_not_found :: gerr where
  "identity_not_found = Wrap (Leaf (Ingestion ErrIdentityNotFound))"

text \<open>The fields of a composite identity, up to the first that is missing.\<close>

fun identity_parts :: "json \<Rightarrow> string list \<Rightarrow> gerr + string list" where
  "identity_parts root [] = Inr []"
| "identity_parts root (f # fs) = (case lookup_string root f of
     None \<Rightarrow> Inl identity_not_found
   | Some v \<Rightarrow> if is_blank v then Inl identity_not_found
       else bindr (identity_parts root fs) (\<lambda>vs. Inr (trim_space v # vs)))"

definition decode_root :: "(string \<Rightarrow> gerr + json) \<Rightarrow> string \<Rightarrow> gerr + json" where
  "decode_root decode record = mapl (\<lambda>_. Wrap (Leaf (Product ErrMalformedRecord))) (decode record)"

definition resolve_path_identity :: "(string \<Rightarrow> gerr + json) \<Rightarrow> string \<Rightarrow> string \<Rightarrow> gerr + string" where
  "resolve_path_identity decode path record =
     bindr (decode_root decode record) (\<lambda>root. case lookup_string root path of
       None \<Rightarrow> Inl identity_not_found
     | Some v \<Rightarrow> if is_blank v then Inl identity_not_found else Inr (trim_space v))"

definition resolve_composite_identity :: "(string \<Rightarrow> gerr + json) \<Rightarrow> string list \<Rightarrow> string \<Rightarrow> string \<Rightarrow> gerr + string" where
  "resolve_composite_identity decode fs sep record =
     bindr (decode_root decode record) (\<lambda>root. bindr (identity_parts root fs) (\<lambda>parts. Inr (join_with sep parts)))"

definition resolve_custom_identity :: "(string \<Rightarrow> gerr + string) option \<Rightarrow> string \<Rightarrow> gerr + string" where
  "resolve_custom_identity resolver record = (case resolver of None \<Rightarrow> Inl identity_not_found | Some f \<Rightarrow> f record)"

definition resolve_identity :: "(string \<Rightarrow> gerr + json) \<Rightarrow> identity_strategy \<Rightarrow> string \<Rightarrow> gerr + string" where
  "resolve_identity decode s record = (case s of
     PathIdentity path \<Rightarrow> resolve_path_identity decode path record
   | CompositeIdentity fs sep \<Rightarrow> resolve_composite_identity decode fs sep record
   | CustomIdentity resolver \<Rightarrow> resolve_custom_identity resolver record)"

text \<open>Distinct composite keys can resolve to one identity: the separator is not escaped.\<close>

lemma composite_identity_collides:
  "resolve_identity (\<lambda>r. Inr (if r = ''a'' then JObj [(''x'', JStr ''1:2''), (''y'', JStr ''3'')]
       else JObj [(''x'', JStr ''1''), (''y'', JStr ''2:3'')])) (CompositeIdentity [''x'', ''y''] '':'') r = Inr ''1:2:3''"
proof -
  have "tokenize_path ''x'' = [''x'']" "tokenize_path ''y'' = [''y'']" by code_simp+
  moreover have "trim_space ''1:2'' = ''1:2''" "trim_space ''3'' = ''3''" "trim_space ''1'' = ''1''" "trim_space ''2:3'' = ''2:3''"
    by code_simp+
  ultimately show ?thesis
    by (simp add: resolve_identity_def resolve_composite_identity_def decode_root_def lookup_string_def lookup_path_def is_blank_def bindr_def mapl_def)
qed

end
