(* ===== verification/FeedFile.thy ===== *)
theory FeedFile
  imports Json Sync
begin

text \<open>
  The feed file adapter, \<open>internal/adapters/sources/feed_file_adapter.go\<close>, for NDJSON feeds, with the
  row error policy of \<open>policy/policy.go\<close>. A file is its bytes and what a read reports at their end.
  The JSON decoder, SHA-256, RFC 3339 and the UUID generator are arguments.
  CSV feeds (package \<open>encoding/csv\<close>) and \<open>Probe\<close> are not modelled.
\<close>

subsection \<open>Lines\<close>

text \<open>What ends a read: nothing, the end of the file, a read error, or a line that is too long.\<close>

datatype read_end = NoErr | AtEof | ReadErr gerr | LineTooLong

text \<open>\<open>bufio.Reader.ReadSlice\<close> with a buffer of \<open>cap\<close> bytes: a line with its newline, or a full buffer,
  or what is left.\<close>

datatype slice_end = SliceLine | SliceFull | SliceEnd

definition newline :: char where
  "newline = CHR 0x0A"

fun read_slice :: "nat \<Rightarrow> string \<Rightarrow> string \<times> slice_end" where
  "read_slice 0 s = ([], SliceFull)"
| "read_slice (Suc k) [] = ([], SliceEnd)"
| "read_slice (Suc k) (c # s) =
     (if c = newline then ([c], SliceLine) else case read_slice k s of (l, e) \<Rightarrow> (c # l, e))"

lemma read_slice_prefix: "read_slice k s = (l, e) \<Longrightarrow> l @ drop (length l) s = s \<and> length l \<le> k"
  by (induction k s arbitrary: l rule: read_slice.induct) (auto split: if_splits prod.splits)

lemma read_slice_full: "read_slice k s = (l, SliceFull) \<Longrightarrow> length l = k"
  by (induction k s arbitrary: l rule: read_slice.induct) (auto split: if_splits prod.splits)

lemma read_slice_full_shrinks: "(l, SliceFull) = read_slice (Suc k) s \<Longrightarrow> length s - length l < length s"
  using read_slice_full [of "Suc k" s l] read_slice_prefix [of "Suc k" s l SliceFull]
  by (cases l; cases s) auto

text \<open>\<open>readBoundedLine\<close>: the line, the bytes consumed and how it ended. The end of the bytes is \<open>fin\<close>.\<close>

definition finish_line :: "bool \<Rightarrow> string \<Rightarrow> nat \<Rightarrow> read_end \<Rightarrow> string \<times> nat \<times> read_end" where
  "finish_line oversized buf n e = (if oversized then ([], n, LineTooLong) else (buf, n, e))"

function read_chunks :: "nat \<Rightarrow> int \<Rightarrow> read_end \<Rightarrow> string \<Rightarrow> string \<Rightarrow> nat \<Rightarrow> bool \<Rightarrow> string \<times> nat \<times> read_end" where
  "read_chunks cap maxb fin s buf n oversized =
     (case read_slice (Suc cap) s of (chunk, e) \<Rightarrow>
        let n' = n + length chunk;
            over = (oversized \<or> int (length buf + length chunk) > maxb);
            buf' = (if over then buf else buf @ chunk) in
        (case e of
          SliceFull \<Rightarrow> read_chunks cap maxb fin (drop (length chunk) s) buf' n' over
        | SliceLine \<Rightarrow> finish_line over buf' n' NoErr
        | SliceEnd \<Rightarrow> finish_line over buf' n' fin))"
  by pat_completeness auto
termination
  by (relation "measure (\<lambda>(cap, maxb, fin, s, buf, n, oversized). length s)") (auto dest: read_slice_full_shrinks)

declare read_chunks.simps [simp del]

definition read_bounded_line :: "nat \<Rightarrow> int \<Rightarrow> read_end \<Rightarrow> string \<Rightarrow> string \<times> nat \<times> read_end" where
  "read_bounded_line cap maxb fin s = read_chunks cap maxb fin s [] 0 False"

text \<open>The reference: the bytes up to and with the first newline.\<close>

fun next_line :: "string \<Rightarrow> string \<times> bool" where
  "next_line [] = ([], False)"
| "next_line (c # s) = (if c = newline then ([c], True) else case next_line s of (l, b) \<Rightarrow> (c # l, b))"

definition line_spec :: "int \<Rightarrow> read_end \<Rightarrow> string \<Rightarrow> string \<times> nat \<times> read_end" where
  "line_spec maxb fin s = (case next_line s of (l, nl) \<Rightarrow>
     if int (length l) > maxb then ([], length l, LineTooLong) else (l, length l, if nl then NoErr else fin))"

lemma read_slice_next_line:
  "read_slice k s = (l, SliceLine) \<Longrightarrow> next_line s = (l, True)"
  "read_slice k s = (l, SliceEnd) \<Longrightarrow> next_line s = (l, False)"
  by (induction k s arbitrary: l rule: read_slice.induct) (auto split: if_splits prod.splits)

lemma read_slice_full_next_line:
  "read_slice k s = (l, SliceFull) \<Longrightarrow> next_line s = (l @ fst (next_line (drop k s)), snd (next_line (drop k s)))"
  by (induction k s arbitrary: l rule: read_slice.induct) (auto split: if_splits prod.splits)

lemma read_chunks_spec:
  "(oversized \<longrightarrow> int n > maxb) \<Longrightarrow> (\<not> oversized \<longrightarrow> length buf = n) \<Longrightarrow>
   read_chunks cap maxb fin s buf n oversized = (case next_line s of (l, nl) \<Rightarrow>
     finish_line (int (n + length l) > maxb) (buf @ l) (n + length l) (if nl then NoErr else fin))"
proof (induction cap maxb fin s buf n oversized rule: read_chunks.induct)
  case (1 cap maxb fin s buf n oversized)
  obtain chunk e where sl: "read_slice (Suc cap) s = (chunk, e)" by (cases "read_slice (Suc cap) s")
  let ?over = "oversized \<or> int (length buf + length chunk) > maxb"
  have over: "?over \<longleftrightarrow> int (n + length chunk) > maxb" using "1.prems" by auto
  show ?case
  proof (cases e)
    case SliceLine
    with sl have "next_line s = (chunk, True)" using read_slice_next_line(1) by simp
    with sl SliceLine over show ?thesis by (auto simp: read_chunks.simps [of cap maxb fin s] finish_line_def Let_def)
  next
    case SliceEnd
    with sl have "next_line s = (chunk, False)" using read_slice_next_line(2) by simp
    with sl SliceEnd over show ?thesis by (auto simp: read_chunks.simps [of cap maxb fin s] finish_line_def Let_def)
  next
    case SliceFull
    have len: "length chunk = Suc cap" using sl SliceFull read_slice_full by simp
    have nx: "next_line s = (chunk @ fst (next_line (drop (length chunk) s)), snd (next_line (drop (length chunk) s)))"
      using read_slice_full_next_line [of "Suc cap" s chunk] sl SliceFull len by simp
    let ?buf = "if ?over then buf else buf @ chunk"
    have "read_chunks cap maxb fin s buf n oversized =
        read_chunks cap maxb fin (drop (length chunk) s) ?buf (n + length chunk) ?over"
      using sl SliceFull by (simp add: read_chunks.simps [of cap maxb fin s] Let_def)
    also have "\<dots> = (case next_line (drop (length chunk) s) of (l, nl) \<Rightarrow>
        finish_line (int (n + length chunk + length l) > maxb) (?buf @ l) (n + length chunk + length l) (if nl then NoErr else fin))"
      by (rule "1.IH" [OF sl [symmetric] refl refl refl SliceFull]) (use over "1.prems" in auto)
    finally show ?thesis using nx over by (auto simp: finish_line_def split: prod.splits)
  qed
qed

lemma read_bounded_line_spec: "read_bounded_line cap maxb fin s = line_spec maxb fin s"
  by (auto simp: read_bounded_line_def read_chunks_spec line_spec_def finish_line_def split: prod.splits)

subsection \<open>The adapter\<close>

record feed_env =
  fe_raw :: raw_env
  fe_decode :: "string \<Rightarrow> gerr + json"
  fe_rfc3339 :: "string \<Rightarrow> instant option"

text \<open>\<open>policy.ErrorPolicy\<close>: anything but \<open>SKIP_MALFORMED\<close> is fail-fast; the callback is not modelled.\<close>

datatype row_policy = FailFast | SkipMalformed

definition handle_row_error :: "row_policy \<Rightarrow> gerr \<Rightarrow> gerr option" where
  "handle_row_error p x = (case p of SkipMalformed \<Rightarrow> None | FailFast \<Rightarrow> Some x)"

datatype feed_format = FeedCSV | FeedNDJSON | FeedOther string

record feed_config =
  fc_source_id :: string
  fc_format :: feed_format
  fc_file_path :: string
  fc_has_provider :: bool
  fc_batch_size :: int
  fc_id_field :: string
  fc_composite_ids :: "string list"
  fc_composite_sep :: string
  fc_identity :: "identity_strategy option"
  fc_policy :: row_policy
  fc_source_version :: string

record feed_adapter =
  fa_source_id :: string
  fa_format :: feed_format
  fa_batch_size :: int
  fa_identity :: identity_strategy
  fa_policy :: row_policy
  fa_source_version :: string

text \<open>The lower case of the id field of a CSV feed is the argument \<open>lower\<close>.\<close>

definition new_feed_adapter :: "(string \<Rightarrow> string) \<Rightarrow> feed_config \<Rightarrow> gerr + feed_adapter" where
  "new_feed_adapter lower c =
     failif (is_blank (fc_source_id c)) (Leaf (Source ErrInvalidSourceID))
    (failif (fc_format c \<notin> {FeedCSV, FeedNDJSON}) (Opaque ''unsupported feed format'')
    (failif (is_blank (fc_file_path c) \<and> \<not> fc_has_provider c) (Opaque ''either file path or reader provider is required'')
    (let trimmed = trim_space (fc_id_field c);
         field = (if fc_format c = FeedCSV then lower trimmed else trimmed);
         id_field = (if field = [] then ''id'' else field) in
     bindr (case fc_identity c of Some s \<Rightarrow> Inr s
       | None \<Rightarrow> if fc_composite_ids c \<noteq> []
           then new_composite_identity (fc_composite_ids c) (if fc_composite_sep c = [] then '':'' else fc_composite_sep c)
           else Inr (new_path_identity id_field)) (\<lambda>ident.
     Inr \<lparr>fa_source_id = fc_source_id c, fa_format = fc_format c,
       fa_batch_size = (if fc_batch_size c \<le> 0 then 500 else fc_batch_size c), fa_identity = ident,
       fa_policy = fc_policy c, fa_source_version = trim_space (fc_source_version c)\<rparr>))))"

subsection \<open>Rows\<close>

text \<open>The row as \<open>map[string]any\<close>: JSON null leaves the map nil.\<close>

definition decode_row :: "feed_env \<Rightarrow> string \<Rightarrow> gerr + (string \<times> json) list" where
  "decode_row e line = bindr (fe_decode e line) (\<lambda>v. case v of
     JObj m \<Rightarrow> Inr m | JNull \<Rightarrow> Inr [] | _ \<Rightarrow> Inl (Opaque ''cannot unmarshal into map''))"

text \<open>The first of the fields that is a string and not blank.\<close>

fun first_version :: "(string \<times> json) list \<Rightarrow> string list \<Rightarrow> string" where
  "first_version m [] = []"
| "first_version m (f # fs) = (case map_of m f of
     Some (JStr s) \<Rightarrow> if is_blank s then first_version m fs else trim_space s
   | _ \<Rightarrow> first_version m fs)"

fun first_time :: "(string \<Rightarrow> instant option) \<Rightarrow> (string \<times> json) list \<Rightarrow> string list \<Rightarrow> instant option" where
  "first_time rfc m [] = None"
| "first_time rfc m (f # fs) = (case map_of m f of
     Some (JStr s) \<Rightarrow> (case rfc (trim_space s) of None \<Rightarrow> first_time rfc m fs | Some t \<Rightarrow> Some t)
   | _ \<Rightarrow> first_time rfc m fs)"

definition extract_metadata :: "(string \<Rightarrow> instant option) \<Rightarrow> (string \<times> json) list \<Rightarrow> string \<times> instant option" where
  "extract_metadata rfc m =
     (first_version m [''version'', ''v'', ''etag'', ''revision''],
      first_time rfc m [''updated_at'', ''source_updated_at'', ''modified_at''])"

definition row_params :: "feed_adapter \<Rightarrow> feed_env \<Rightarrow> instant \<Rightarrow> string \<Rightarrow> (string \<times> json) list \<Rightarrow> string \<Rightarrow> raw_record" where
  "row_params a e now line m ext =
     (let (ver, up) = extract_metadata (fe_rfc3339 e) m in
      \<lparr>rr_id = [], rr_source_id = fa_source_id a, rr_external_product_id = ext, rr_payload = line, rr_payload_raw = line,
       rr_payload_sha256 = [], rr_source_version = (if ver = [] then fa_source_version a else ver), rr_etag = [],
       rr_source_updated_at = up, rr_run_id = [], rr_received_at = now\<rparr>)"

text \<open>The record of one trimmed line, or why it is refused.\<close>

definition ndjson_record :: "feed_adapter \<Rightarrow> feed_env \<Rightarrow> gerr + string \<Rightarrow> instant \<Rightarrow> string \<Rightarrow> gerr + raw_record" where
  "ndjson_record a e uuid now line =
     bindr (mapl (wrap2 (Product ErrMalformedRecord)) (decode_row e line)) (\<lambda>m.
     bindr (resolve_identity (fe_decode e) (fa_identity a) line) (\<lambda>ext.
     new_raw_record (fe_raw e) uuid now (row_params a e now line m ext)))"

subsection \<open>A batch\<close>

text \<open>What surrounds one fetch: what opening and seeking report, the read error that ends
  the bytes (none is the end of the file), the instant, the UUID for row \<open>k\<close> and the state of the context before it.\<close>

record feed_io =
  fi_open :: "gerr option"
  fi_seek :: "gerr option"
  fi_fail :: "gerr option"
  fi_now :: instant
  fi_uuid :: "nat \<Rightarrow> gerr + string"
  fi_ctx :: "nat \<Rightarrow> gerr option"

record feed_batch =
  fb_records :: "raw_record list"
  fb_failed :: int
  fb_next :: string

definition max_line_bytes :: int where
  "max_line_bytes = 1024 * 1024"

text \<open>The buffer of \<open>bufio.NewReader\<close>, less one.\<close>

definition reader_buffer :: nat where
  "reader_buffer = 4095"

definition too_long :: gerr where
  "too_long = Wrap (Leaf (Product ErrMalformedRecord))"

definition file_end :: "feed_io \<Rightarrow> read_end" where
  "file_end io = (case fi_fail io of None \<Rightarrow> AtEof | Some x \<Rightarrow> ReadErr x)"

text \<open>The next line of the feed. It is evaluated by its specification: the buffer does not matter.\<close>

definition read_line :: "feed_io \<Rightarrow> string \<Rightarrow> string \<times> nat \<times> read_end" where
  "read_line io s = read_bounded_line reader_buffer max_line_bytes (file_end io) s"

lemma read_line_spec [code]: "read_line io s = line_spec max_line_bytes (file_end io) s"
  by (simp add: read_line_def read_bounded_line_spec)

text \<open>The loop: the bytes \<open>s\<close> from offset \<open>off\<close> are left, \<open>row\<close> lines were read into the batch so far.\<close>

function ndjson_rows ::
  "feed_adapter \<Rightarrow> feed_env \<Rightarrow> feed_io \<Rightarrow> int \<Rightarrow> string \<Rightarrow> int \<Rightarrow> nat \<Rightarrow> raw_record list \<Rightarrow> int \<Rightarrow> gerr + feed_batch" where
  "ndjson_rows a e io limit s off row recs failed =
     (if \<not> int (length recs) < limit
      then Inr \<lparr>fb_records = recs, fb_failed = failed, fb_next = format_byte_offset off\<rparr>
      else case fi_ctx io row of Some x \<Rightarrow> Inl x
      | None \<Rightarrow>
        (case read_line io s of (line, n, err) \<Rightarrow>
           if n = 0
           then (if err = AtEof then Inr \<lparr>fb_records = recs, fb_failed = failed, fb_next = []\<rparr>
                 else Inl (Wrap (case err of ReadErr x \<Rightarrow> x | _ \<Rightarrow> Opaque ''no progress'')))
           else let rest = drop n s; off' = off + int n; row' = row + 1 in
             (case err of
               LineTooLong \<Rightarrow> (case handle_row_error (fa_policy a) too_long of Some x \<Rightarrow> Inl x
                  | None \<Rightarrow> ndjson_rows a e io limit rest off' row' recs (failed + 1))
             | ReadErr x \<Rightarrow> Inl (Wrap x)
             | _ \<Rightarrow>
                (if trim_space line = []
                 then (if err = AtEof then Inr \<lparr>fb_records = recs, fb_failed = failed, fb_next = []\<rparr>
                       else ndjson_rows a e io limit rest off' row' recs failed)
                 else (case ndjson_record a e (fi_uuid io row') (fi_now io) (trim_space line) of
                   Inl y \<Rightarrow> (case handle_row_error (fa_policy a) y of Some x \<Rightarrow> Inl x
                     | None \<Rightarrow> (if err = AtEof then Inr \<lparr>fb_records = recs, fb_failed = failed + 1, fb_next = []\<rparr>
                         else ndjson_rows a e io limit rest off' row' recs (failed + 1)))
                 | Inr r \<Rightarrow> (if err = AtEof then Inr \<lparr>fb_records = recs @ [r], fb_failed = failed, fb_next = []\<rparr>
                         else ndjson_rows a e io limit rest off' row' (recs @ [r]) failed))))))"
  by pat_completeness auto

lemma next_line_shrinks: "next_line s = (l, b) \<Longrightarrow> l @ drop (length l) s = s \<and> (l = [] \<longleftrightarrow> s = [])"
  by (induction s arbitrary: l b) (auto split: if_splits prod.splits)

lemma line_length:
  "(line, n, err) = read_line io s \<Longrightarrow> 0 < n \<Longrightarrow> length s - n < length s"
  using next_line_shrinks [of s] by (cases s) (auto simp: read_line_spec line_spec_def split: prod.splits if_splits)

termination ndjson_rows
  by (relation "measure (\<lambda>(a, e, io, limit, s, off, row, recs, failed). length s)") (auto dest: line_length)

declare ndjson_rows.simps [simp del]

definition stream_ndjson :: "feed_adapter \<Rightarrow> feed_env \<Rightarrow> feed_io \<Rightarrow> string \<Rightarrow> int \<Rightarrow> int \<Rightarrow> gerr + feed_batch" where
  "stream_ndjson a e io file start limit =
     (case fi_seek io of Some x \<Rightarrow> Inl (Wrap x)
      | None \<Rightarrow> ndjson_rows a e io limit (drop (nat start) file) start 0 [] 0)"

text \<open>\<open>Fetch\<close> of a feed whose format is NDJSON.\<close>

definition fetch_ndjson :: "feed_adapter \<Rightarrow> feed_env \<Rightarrow> string \<Rightarrow> feed_io \<Rightarrow> string \<Rightarrow> int \<Rightarrow> gerr + fetch_result" where
  "fetch_ndjson a e file io cp batch_size =
     (case fi_ctx io 0 of Some x \<Rightarrow> Inl x
      | None \<Rightarrow>
        let limit = (if batch_size > 0 then batch_size else fa_batch_size a) in
        bindr (mapl Wrap (parse_byte_offset cp)) (\<lambda>start.
        case fi_open io of Some x \<Rightarrow> Inl (wrap2 (Ingestion ErrAdapterUnavailable) x)
        | None \<Rightarrow> bindr (stream_ndjson a e io file start limit) (\<lambda>b.
            Inr \<lparr>fr_records = fb_records b, fr_failed = fb_failed b, fr_next = fb_next b, fr_has_more = (fb_next b \<noteq> [])\<rparr>)))"

subsection \<open>One pass over the file\<close>

function feed_lines :: "string \<Rightarrow> string list" where
  "feed_lines s = (if s = [] then [] else fst (next_line s) # feed_lines (drop (length (fst (next_line s))) s))"
  by pat_completeness auto
termination
  by (relation "measure length") (use next_line_shrinks in \<open>auto split: prod.splits\<close>, metis diff_less length_greater_0_conv next_line_shrinks prod.collapse)

declare feed_lines.simps [simp del]

datatype row_verdict = RowBlank | RowBad | RowGood raw_record

definition verdict :: "feed_adapter \<Rightarrow> feed_env \<Rightarrow> string \<Rightarrow> row_verdict" where
  "verdict a e l =
     (if int (length l) > max_line_bytes then RowBad
      else if trim_space l = [] then RowBlank
      else case ndjson_record a e (Inr ''id'') 0 (trim_space l) of Inl _ \<Rightarrow> RowBad | Inr r \<Rightarrow> RowGood (content r))"

fun good_rows :: "row_verdict list \<Rightarrow> raw_record list" where
  "good_rows [] = []"
| "good_rows (RowGood r # vs) = r # good_rows vs"
| "good_rows (v # vs) = good_rows vs"

definition bad_rows :: "row_verdict list \<Rightarrow> nat" where
  "bad_rows vs = length (filter (\<lambda>v. v = RowBad) vs)"

text \<open>What a batch says of the bytes \<open>s\<close> at offset \<open>off\<close>: it read \<open>k\<close> lines, to the end or to its checkpoint.\<close>

definition batch_reads :: "feed_adapter \<Rightarrow> feed_env \<Rightarrow> string \<Rightarrow> int \<Rightarrow> raw_record list \<Rightarrow> int \<Rightarrow> feed_batch \<Rightarrow> nat \<Rightarrow> bool" where
  "batch_reads a e s off recs failed b k \<longleftrightarrow>
     map content (fb_records b) = map content recs @ good_rows (map (verdict a e) (take k (feed_lines s))) \<and>
     fb_failed b = failed + int (bad_rows (map (verdict a e) (take k (feed_lines s)))) \<and>
     (fb_next b = [] \<and> k = length (feed_lines s) \<or>
      fb_next b = format_byte_offset (off + int (length (concat (take k (feed_lines s))))) \<and> k \<le> length (feed_lines s))"

lemma good_rows_append [simp]: "good_rows (us @ vs) = good_rows us @ good_rows vs"
  by (induction us rule: good_rows.induct) simp_all

lemma bad_rows_simps [simp]:
  "bad_rows [] = 0" "bad_rows (v # vs) = (if v = RowBad then 1 else 0) + bad_rows vs" "bad_rows (us @ vs) = bad_rows us + bad_rows vs"
  by (simp_all add: bad_rows_def)

lemma feed_lines_Nil [simp]: "feed_lines [] = []"
  by (simp add: feed_lines.simps [of "[]"])

lemma bindr_assoc: "bindr (bindr r f) g = bindr r (\<lambda>x. bindr (f x) g)"
  by (cases r) simp_all

lemma new_raw_record_content:
  assumes "rr_id p = []" "rr_id q = []" "\<not> is_blank u" "\<not> is_blank u'" "rr_source_id p = rr_source_id q"
    "rr_external_product_id p = rr_external_product_id q" "rr_payload p = rr_payload q" "rr_payload_raw p = rr_payload_raw q"
    "rr_payload_sha256 p = rr_payload_sha256 q" "rr_source_version p = rr_source_version q" "rr_etag p = rr_etag q"
  shows "bindr (new_raw_record e (Inr u) now p) (\<lambda>r. Inr (content r)) = bindr (new_raw_record e (Inr u') now' q) (\<lambda>r. Inr (content r))"
  using assms
  by (simp add: new_raw_record_def generated_id_def validate_record_def failif_def Let_def content_def bindr_def)

lemma ndjson_record_content:
  assumes "\<not> is_blank u" "\<not> is_blank u'"
  shows "bindr (ndjson_record a e (Inr u) now l) (\<lambda>r. Inr (content r)) = bindr (ndjson_record a e (Inr u') now' l) (\<lambda>r. Inr (content r))"
proof -
  have "bindr (new_raw_record (fe_raw e) (Inr u) now (row_params a e now l m ext)) (\<lambda>r. Inr (content r)) =
      bindr (new_raw_record (fe_raw e) (Inr u') now' (row_params a e now' l m ext)) (\<lambda>r. Inr (content r))" for m ext
    by (rule new_raw_record_content) (use assms in \<open>simp_all add: row_params_def Let_def split: prod.splits\<close>)
  then show ?thesis unfolding ndjson_record_def by (simp add: bindr_assoc)
qed

lemma ndjson_record_verdict:
  assumes "\<not> is_blank u" "int (length l) \<le> max_line_bytes" "trim_space l \<noteq> []"
  shows "verdict a e l = (case ndjson_record a e (Inr u) now (trim_space l) of Inl _ \<Rightarrow> RowBad | Inr r \<Rightarrow> RowGood (content r))"
proof -
  have "\<not> is_blank ''id''" by code_simp
  from ndjson_record_content [OF assms(1) this, of a e now "trim_space l" 0] assms(2,3) show ?thesis
    by (auto simp: verdict_def bindr_def split: sum.splits)
qed

text \<open>A step of the loop reads one line.\<close>

lemma next_line_rest: "next_line s = (l, False) \<Longrightarrow> drop (length l) s = []"
  by (induction s arbitrary: l) (auto split: if_splits prod.splits)

lemma feed_lines_next:
  assumes "line_spec maxb fin s = (line, n, err)" "0 < n" "fin \<noteq> LineTooLong"
  obtains l where "feed_lines s = l # feed_lines (drop n s)" "n = length l"
    "err = LineTooLong \<longleftrightarrow> int (length l) > maxb" "err \<noteq> LineTooLong \<Longrightarrow> line = l" "err \<noteq> LineTooLong \<Longrightarrow> err \<noteq> NoErr \<Longrightarrow> drop n s = []"
proof -
  obtain l nl where nx: "next_line s = (l, nl)" by (cases "next_line s")
  have n: "n = length l" using assms(1) nx by (auto simp: line_spec_def split: if_splits)
  have "s \<noteq> []"
  proof
    assume "s = []"
    with nx n assms(2) show False by simp
  qed
  then have fl: "feed_lines s = l # feed_lines (drop n s)" using nx n by (simp add: feed_lines.simps [of s])
  show ?thesis
  proof (cases "int (length l) > maxb")
    case True
    then have "err = LineTooLong" using assms(1) nx by (simp add: line_spec_def)
    with True that [of l] fl n show ?thesis by simp
  next
    case False
    then have e: "line = l" "err = (if nl then NoErr else fin)" using assms(1) nx by (simp_all add: line_spec_def)
    have "drop n s = []" if "err \<noteq> NoErr" using next_line_rest nx n e that by (cases nl) simp_all
    with False e that [of l] fl n assms(3) show ?thesis by simp
  qed
qed

lemma batch_reads_step:
  assumes "feed_lines s = l # feed_lines (drop (length l) s)"
    "batch_reads a e (drop (length l) s) (off + int (length l)) recs' failed' b k"
    "case verdict a e l of RowBlank \<Rightarrow> recs' = recs \<and> failed' = failed
       | RowBad \<Rightarrow> recs' = recs \<and> failed' = failed + 1
       | RowGood c \<Rightarrow> failed' = failed \<and> (\<exists>r. recs' = recs @ [r] \<and> content r = c)"
  shows "batch_reads a e s off recs failed b (Suc k)"
  using assms unfolding batch_reads_def by (auto simp: algebra_simps split: row_verdict.splits)

lemma batch_reads_now: "batch_reads a e s off recs failed \<lparr>fb_records = recs, fb_failed = failed, fb_next = format_byte_offset off\<rparr> 0"
  by (simp add: batch_reads_def)

lemma batch_reads_end: "batch_reads a e [] off recs failed \<lparr>fb_records = recs, fb_failed = failed, fb_next = []\<rparr> 0"
  by (simp add: batch_reads_def)

lemma file_end_cases [simp]: "file_end io \<noteq> LineTooLong" "file_end io \<noteq> NoErr"
  by (simp_all add: file_end_def split: option.splits)

text \<open>One line of the loop: the batch it leads to, and whether the loop goes on.\<close>

lemma ndjson_rows_line:
  assumes "ndjson_rows a e io limit s off row recs failed = Inr b" "int (length recs) < limit" "fi_ctx io row = None"
    "read_line io s = (line, n, err)" "n \<noteq> 0"
    "feed_lines s = l # feed_lines (drop n s)" "err = LineTooLong \<longleftrightarrow> int (length l) > max_line_bytes"
    "err \<noteq> LineTooLong \<Longrightarrow> line = l" "err \<noteq> LineTooLong \<Longrightarrow> err \<noteq> NoErr \<Longrightarrow> drop n s = []"
    "fi_uuid io (row + 1) = Inr u" "\<not> is_blank u"
  obtains recs' failed' where "case verdict a e l of RowBlank \<Rightarrow> recs' = recs \<and> failed' = failed
        | RowBad \<Rightarrow> recs' = recs \<and> failed' = failed + 1
        | RowGood c \<Rightarrow> failed' = failed \<and> (\<exists>r. recs' = recs @ [r] \<and> content r = c)"
    "ndjson_rows a e io limit (drop n s) (off + int n) (row + 1) recs' failed' = Inr b \<or>
       drop n s = [] \<and> b = \<lparr>fb_records = recs', fb_failed = failed', fb_next = []\<rparr>"
proof -
  note unf = assms(1) [unfolded ndjson_rows.simps [of a e io limit s]]
  show ?thesis
  proof (cases "err = LineTooLong")
    case True
    then have "verdict a e l = RowBad" using assms(7) by (simp add: verdict_def)
    moreover have "ndjson_rows a e io limit (drop n s) (off + int n) (row + 1) recs (failed + 1) = Inr b"
      using unf assms(2-5) True by (simp split: option.splits)
    ultimately show ?thesis using that [of recs "failed + 1"] by simp
  next
    case False
    with assms(7-9) have l: "int (length l) \<le> max_line_bytes" "line = l" "err \<noteq> NoErr \<Longrightarrow> drop n s = []" by auto
    have err: "err = NoErr \<or> err = AtEof" using unf assms(2-5) False by (cases err) auto
    show ?thesis
    proof (cases "trim_space l = []")
      case True
      with l have "verdict a e l = RowBlank" by (simp add: verdict_def)
      moreover have "if err = AtEof then b = \<lparr>fb_records = recs, fb_failed = failed, fb_next = []\<rparr>
          else ndjson_rows a e io limit (drop n s) (off + int n) (row + 1) recs failed = Inr b"
        using unf assms(2-5) l True err by auto
      ultimately show ?thesis using that [of recs failed] l err by (auto split: if_splits)
    next
      case nb: False
      note v = ndjson_record_verdict [OF assms(11) l(1) nb, of a e "fi_now io"]
      show ?thesis
      proof (cases "ndjson_record a e (Inr u) (fi_now io) (trim_space l)")
        case (Inl x)
        with v have "verdict a e l = RowBad" by simp
        moreover have "if err = AtEof then b = \<lparr>fb_records = recs, fb_failed = failed + 1, fb_next = []\<rparr>
            else ndjson_rows a e io limit (drop n s) (off + int n) (row + 1) recs (failed + 1) = Inr b"
          using unf assms(2-5,10) l nb err Inl by (auto split: option.splits)
        ultimately show ?thesis using that [of recs "failed + 1"] l err by (auto split: if_splits)
      next
        case (Inr r)
        with v have "verdict a e l = RowGood (content r)" by simp
        moreover have "if err = AtEof then b = \<lparr>fb_records = recs @ [r], fb_failed = failed, fb_next = []\<rparr>
            else ndjson_rows a e io limit (drop n s) (off + int n) (row + 1) (recs @ [r]) failed = Inr b"
          using unf assms(2-5,10) l nb err Inr by auto
        ultimately show ?thesis using that [of "recs @ [r]" failed] l err by (auto split: if_splits)
      qed
    qed
  qed
qed

lemma ndjson_rows_read:
  assumes uuids: "\<And>k. \<exists>u. fi_uuid io k = Inr u \<and> \<not> is_blank u"
  shows "ndjson_rows a e io limit s off row recs failed = Inr b \<Longrightarrow>
    \<exists>k. batch_reads a e s off recs failed b k \<and> (int (length recs) < limit \<longrightarrow> fb_next b \<noteq> [] \<longrightarrow> 0 < k)"
proof (induction s arbitrary: off row recs failed rule: measure_induct_rule [of length])
  case (less s)
  note unf = less.prems [unfolded ndjson_rows.simps [of a e io limit s]]
  show ?case
  proof (cases "int (length recs) < limit \<and> fi_ctx io row = None")
    case False
    with unf have "b = \<lparr>fb_records = recs, fb_failed = failed, fb_next = format_byte_offset off\<rparr>" "\<not> int (length recs) < limit"
      by (auto split: if_splits option.splits)
    then show ?thesis using batch_reads_now by blast
  next
    case True
    obtain line n err where ln: "read_line io s = (line, n, err)"
      by (cases "read_line io s")
    show ?thesis
    proof (cases "n = 0")
      case n: True
      obtain l nl where "next_line s = (l, nl)" by (cases "next_line s")
      with ln n have "s = []" using next_line_shrinks [of s l nl]
        by (auto simp: read_line_spec line_spec_def split: if_splits)
      moreover from unf True ln n have "b = \<lparr>fb_records = recs, fb_failed = failed, fb_next = []\<rparr>" by (simp split: if_splits)
      ultimately show ?thesis using batch_reads_end by fastforce
    next
      case False
      obtain l where l: "feed_lines s = l # feed_lines (drop n s)" "n = length l" "err = LineTooLong \<longleftrightarrow> int (length l) > max_line_bytes"
          "err \<noteq> LineTooLong \<Longrightarrow> line = l" "err \<noteq> LineTooLong \<Longrightarrow> err \<noteq> NoErr \<Longrightarrow> drop n s = []"
        using feed_lines_next [OF ln [unfolded read_line_spec]] False by (metis bot_nat_0.not_eq_extremum file_end_cases(1))
      obtain u where u: "fi_uuid io (row + 1) = Inr u" "\<not> is_blank u" using uuids by blast
      obtain recs' failed' where st: "case verdict a e l of RowBlank \<Rightarrow> recs' = recs \<and> failed' = failed
            | RowBad \<Rightarrow> recs' = recs \<and> failed' = failed + 1
            | RowGood c \<Rightarrow> failed' = failed \<and> (\<exists>r. recs' = recs @ [r] \<and> content r = c)"
          "ndjson_rows a e io limit (drop n s) (off + int n) (row + 1) recs' failed' = Inr b \<or>
           drop n s = [] \<and> b = \<lparr>fb_records = recs', fb_failed = failed', fb_next = []\<rparr>"
        by (rule ndjson_rows_line [OF less.prems _ _ ln False l(1,3-5) u]) (use True in auto)
      then have "\<exists>k. batch_reads a e (drop n s) (off + int n) recs' failed' b k"
        using less.IH [of "drop n s"] False l(1,2) batch_reads_end by (cases s) fastforce+
      with l(1,2) st(1) show ?thesis using batch_reads_step [of s l a e off] by blast
    qed
  qed
qed

end
