(* ===== verification/FeedSync.thy ===== *)
theory FeedSync
  imports SyncStore FeedFile
begin

text \<open>
  The sync of an NDJSON feed: the coordinator of theory Sync over the adapter of theory FeedFile and the
  tables of theory IngestionStore. The batches that a sync fetches along its checkpoints are together one
  pass over the file.
\<close>

definition feed_source :: "feed_adapter \<Rightarrow> feed_env \<Rightarrow> string \<Rightarrow> (sync_slot \<Rightarrow> feed_io) \<Rightarrow> adapter" where
  "feed_source a fe file io cp n s = fetch_ndjson a fe file (io s) cp n"

definition line_offset :: "string \<Rightarrow> nat \<Rightarrow> nat" where
  "line_offset file j = length (concat (take j (feed_lines file)))"

lemma feed_lines_concat: "concat (feed_lines s) = s"
proof (induction s rule: feed_lines.induct)
  case (1 s)
  obtain l nl where "next_line s = (l, nl)" by (cases "next_line s")
  with 1 next_line_shrinks [of s l nl] show ?case by (cases "s = []") (simp_all add: feed_lines.simps [of s])
qed

lemma feed_lines_drop: "feed_lines (drop (line_offset s j) s) = drop j (feed_lines s)"
  unfolding line_offset_def
proof (induction j arbitrary: s)
  case (Suc j)
  show ?case
  proof (cases "s = []")
    case False
    have "drop (a + b) s = drop b (drop a s)" for a b :: nat by (simp add: add.commute)
    with False show ?thesis using Suc by (simp add: feed_lines.simps [of s] del: drop_drop)
  qed simp
qed simp

lemma line_offset_le: "line_offset s j \<le> length s"
proof -
  have "length (concat (feed_lines s)) = line_offset s j + length (concat (drop j (feed_lines s)))"
    unfolding line_offset_def by (metis append_take_drop_id concat_append length_append)
  then show ?thesis by (simp add: feed_lines_concat)
qed

lemma line_offset_add: "line_offset s j + line_offset (drop (line_offset s j) s) k = line_offset s (j + k)"
  by (simp add: line_offset_def [of _ k] line_offset_def [of s "j + k"] feed_lines_drop take_add) (simp add: line_offset_def)

text \<open>One batch, from a line boundary to the next.\<close>

lemma feed_fetch:
  assumes fetch: "feed_source a fe file io cp n s = Inr res" and cp: "parse_byte_offset cp = Inr (int (line_offset file j))"
    and uuids: "\<And>s k. \<exists>u. fi_uuid (io s) k = Inr u \<and> \<not> is_blank u"
  obtains k where "map content (fr_records res) = good_rows (map (verdict a fe) (take k (drop j (feed_lines file))))"
    "fr_failed res = int (bad_rows (map (verdict a fe) (take k (drop j (feed_lines file)))))"
    "fr_next res = [] \<and> k = length (drop j (feed_lines file)) \<or>
     fr_next res = format_byte_offset (int (line_offset file (j + k))) \<and> fr_has_more res"
proof -
  obtain limit b where b: "ndjson_rows a fe (io s) limit (drop (line_offset file j) file) (int (line_offset file j)) 0 [] 0 = Inr b"
    "res = \<lparr>fr_records = fb_records b, fr_failed = fb_failed b, fr_next = fb_next b, fr_has_more = (fb_next b \<noteq> [])\<rparr>"
    using fetch cp by (auto simp: feed_source_def fetch_ndjson_def stream_ndjson_def bindr_Inr_iff Let_def split: option.splits)
  obtain k where k: "batch_reads a fe (drop (line_offset file j) file) (int (line_offset file j)) [] 0 b k"
    using ndjson_rows_read [OF uuids b(1)] by blast
  have "int (line_offset file j) + int (length (concat (take k (drop j (feed_lines file))))) = int (line_offset file (j + k))"
    by (simp add: line_offset_def take_add)
  with k b(2) that [of k] show ?thesis by (auto simp: batch_reads_def feed_lines_drop format_byte_offset_def byte_offset_prefix_def)
qed

lemma feed_chain:
  assumes uuids: "\<And>s k. \<exists>u. fi_uuid (io s) k = Inr u \<and> \<not> is_blank u" and len: "int (length file) < 2 ^ 63"
  shows "page_chain (\<lambda>cp res. \<exists>n s. feed_source a fe file io cp n s = Inr res) cp ps \<Longrightarrow>
    parse_byte_offset cp = Inr (int (line_offset file j)) \<Longrightarrow> ps \<noteq> [] \<Longrightarrow> last_page (last ps) \<Longrightarrow>
    page_contents ps = good_rows (map (verdict a fe) (drop j (feed_lines file))) \<and>
    (\<Sum>res\<leftarrow>ps. fr_failed res) = int (bad_rows (map (verdict a fe) (drop j (feed_lines file))))"
proof (induction ps arbitrary: cp j)
  case (Cons res ps)
  then obtain n s where f: "feed_source a fe file io cp n s = Inr res" by auto
  obtain k where k: "map content (fr_records res) = good_rows (map (verdict a fe) (take k (drop j (feed_lines file))))"
    "fr_failed res = int (bad_rows (map (verdict a fe) (take k (drop j (feed_lines file)))))"
    "fr_next res = [] \<and> k = length (drop j (feed_lines file)) \<or>
     fr_next res = format_byte_offset (int (line_offset file (j + k))) \<and> fr_has_more res"
    by (rule feed_fetch [OF f Cons.prems(2) uuids]) blast
  show ?case
  proof (cases "fr_next res = []")
    case True
    with k(3) have "k = length (drop j (feed_lines file))" by (auto simp: format_byte_offset_def byte_offset_prefix_def)
    moreover from True Cons.prems(1) have "ps = []" by (simp add: last_page_def)
    ultimately show ?thesis using k(1,2) by (simp add: page_contents_def)
  next
    case False
    with k(3) have nx: "fr_next res = format_byte_offset (int (line_offset file (j + k)))" "\<not> last_page res"
      by (auto simp: last_page_def)
    have "int (line_offset file (j + k)) < 2 ^ 63" using line_offset_le [of "file" "j + k"] len by simp
    then have "parse_byte_offset (fr_next res) = Inr (int (line_offset file (j + k)))"
      using parse_format_byte_offset nx(1) by simp
    moreover have "ps \<noteq> []" using Cons.prems(4) nx(2) by auto
    ultimately have IH: "page_contents ps = good_rows (map (verdict a fe) (drop (j + k) (feed_lines file)))"
      "(\<Sum>res\<leftarrow>ps. fr_failed res) = int (bad_rows (map (verdict a fe) (drop (j + k) (feed_lines file))))"
      using Cons.IH [of "fr_next res" "j + k"] Cons.prems(1,4) False by (auto simp: advance_checkpoint_def)
    have "drop j (feed_lines file) = take k (drop j (feed_lines file)) @ drop (j + k) (feed_lines file)"
      by (metis append_take_drop_id drop_drop add.commute)
    then have "map (verdict a fe) (drop j (feed_lines file)) =
        map (verdict a fe) (take k (drop j (feed_lines file))) @ map (verdict a fe) (drop (j + k) (feed_lines file))"
      by (metis map_append)
    with IH k(1,2) show ?thesis by (simp add: page_contents_def)
  qed
qed simp

lemma total_failed: "m_failed (total_metrics ps) = (\<Sum>res\<leftarrow>ps. fr_failed res)"
proof -
  have "m_failed (foldl (\<lambda>m res. add_metrics m (page_metrics res)) m ps) = m_failed m + (\<Sum>res\<leftarrow>ps. fr_failed res)" for m
    by (induction ps arbitrary: m) (simp_all add: add_metrics_def page_metrics_def)
  then show ?thesis by (simp add: total_metrics_def zero_metrics_def)
qed

text \<open>Claim C4. A sync of an NDJSON feed that returns no error has saved the good lines of the file that
  follow its checkpoint, each once and in order, and counts exactly its bad lines as failed, whatever
  the batch size, the schedule and the other clients. With a blank checkpoint it is the whole file; a
  sync from the checkpoint of an interrupted run saves what that run had left.\<close>

theorem feed_sync_saves_file:
  assumes "sync_inv e (feed_source a fe file io) w"
    "sync_source zero one (store_sync_deps e (feed_source a fe file io) msg fdiv) p w = Some (w', run, None)"
    "parse_byte_offset (sp_checkpoint p) = Inr (int (line_offset file j))"
    "\<forall>s k. \<exists>u. fi_uuid (io s) k = Inr u \<and> \<not> is_blank u" "int (length file) < 2 ^ 63"
  shows "\<exists>row. run = Some row \<and>
    map content (raw_of_run (ir_id row) (sw_db w')) = good_rows (map (verdict a fe) (drop j (feed_lines file))) \<and>
    m_failed (ir_metrics row) = int (bad_rows (map (verdict a fe) (drop j (feed_lines file))))"
proof -
  let ?ad = "feed_source a fe file io"
  have inv: "sv_inv (store_view e ?ad) w" using assms(1) by simp
  from store_sync.sync_source_outcome [OF inv assms(2)]
  obtain rid where "sync_outcome (store_view e ?ad) w rid (trim_space (sp_checkpoint p)) w' (run, None)" by auto
  then obtain ps row where pg: "ps \<noteq> []" "last_page (last ps)" "run = Some row"
    and cov: "covers (store_view e ?ad) rid (trim_space (sp_checkpoint p)) ps w' row"
    by (auto simp: sync_outcome_def)
  have "parse_byte_offset (trim_space (sp_checkpoint p)) = Inr (int (line_offset file j))"
    using assms(3) by (simp add: parse_byte_offset_def)
  moreover have "page_chain (\<lambda>cp res. \<exists>n s. ?ad cp n s = Inr res) (trim_space (sp_checkpoint p)) ps"
    using cov by (simp add: covers_def store_view_def)
  ultimately have "page_contents ps = good_rows (map (verdict a fe) (drop j (feed_lines file))) \<and>
      m_failed (total_metrics ps) = int (bad_rows (map (verdict a fe) (drop j (feed_lines file))))"
    using feed_chain [of io "file"] assms(4,5) pg by (simp add: total_failed)
  moreover have "ir_metrics row = total_metrics ps" "map content (raw_of_run rid (sw_db w')) = page_contents ps"
    "find_run rid (id_runs (sw_db w')) = Some row" using cov by (simp_all add: covers_def)
  ultimately show ?thesis using pg(3) find_run_id by metis
qed

lemma ndjson_rows_trimmed: "ndjson_rows a e io limit s off row recs failed = Inr b \<Longrightarrow> trim_space (fb_next b) = fb_next b"
proof (induction s arbitrary: off row recs failed rule: measure_induct_rule [of length])
  case (less s)
  obtain line n err where ln: "read_line io s = (line, n, err)" by (cases "read_line io s")
  have IH: "ndjson_rows a e io limit (drop n s) off' row' recs' failed' = Inr b \<Longrightarrow> 0 < n \<Longrightarrow> trim_space (fb_next b) = fb_next b"
    for off' row' recs' failed' using less.IH [of "drop n s"] line_length [OF ln [symmetric]] by simp
  show ?case using less.prems [unfolded ndjson_rows.simps [of a e io limit s] ln]
    by (cases err) (auto simp: Let_def dest: IH split: if_splits option.splits sum.splits)
qed

lemma feed_source_trimmed: "feed_source a fe file io cp n s = Inr res \<Longrightarrow> trim_space (fr_next res) = fr_next res"
  using ndjson_rows_trimmed
  by (auto simp: feed_source_def fetch_ndjson_def stream_ndjson_def bindr_Inr_iff Let_def split: option.splits)

text \<open>A feed of six lines, one of them blank and one malformed, read two records at a time.\<close>

definition demo_feed_env :: feed_env where
  "demo_feed_env = \<lparr>fe_raw = \<lparr>rx_sha256_hex = (\<lambda>s. s), rx_json_valid = (\<lambda>_. True)\<rparr>,
     fe_decode = (\<lambda>l. if l = ''x'' then Inl (Opaque ''invalid character'') else Inr (JObj [(''id'', JStr l), (''v'', JStr ''7'')])),
     fe_rfc3339 = (\<lambda>_. None)\<rparr>"

definition demo_feed_adapter :: feed_adapter where
  "demo_feed_adapter = \<lparr>fa_source_id = ''s2'', fa_format = FeedNDJSON, fa_batch_size = 500, fa_identity = PathIdentity ''id'',
     fa_policy = SkipMalformed, fa_source_version = []\<rparr>"

definition demo_feed :: string where
  "demo_feed = concat (map (\<lambda>l. l @ [newline]) [''a'', ''b'', [], ''x'', ''c'']) @ ''d''"

definition demo_row_id :: "sync_slot \<Rightarrow> nat \<Rightarrow> string" where
  "demo_row_id s k = (''r'' @ show_nat (nat (ss_now s))) @ CHR '':'' # show_nat k"

lemma demo_row_id_not_blank: "\<not> is_blank (demo_row_id s k)"
proof -
  have "space_len (demo_row_id s k) = 0"
    by (cases "demo_row_id s k" rule: space_len.cases) (auto simp: demo_row_id_def ascii_space_def space2_def space3_def)
  from trim_prefixed [OF trim_show_nat show_nat_nonempty this [unfolded demo_row_id_def]]
  show ?thesis by (simp add: is_blank_def demo_row_id_def)
qed

definition demo_feed_io :: "sync_slot \<Rightarrow> feed_io" where
  "demo_feed_io s = \<lparr>fi_open = None, fi_seek = None, fi_fail = None, fi_now = ss_now s,
     fi_uuid = (\<lambda>k. Inr (demo_row_id s k)), fi_ctx = (\<lambda>_. None)\<rparr>"

definition demo_feed_sync :: "sync_world \<times> sync_result" where
  "demo_feed_sync = the (sync_source 0 100 (store_sync_deps demo_env (feed_source demo_feed_adapter demo_feed_env demo_feed demo_feed_io)
     (\<lambda>_. ''failed'') (\<lambda>f n. 100 * f div n)) demo_params demo_sync_world)"

lemma demo_feed_sync_eval:
  "map_option (\<lambda>(w, run, err). (map_option ir_status run, map_option ir_metrics run, map_option ir_checkpoint run, err,
      map rr_external_product_id (raw_of_run ''run'' (sw_db w)), length (sw_pages w)))
    (sync_source 0 100 (store_sync_deps demo_env (feed_source demo_feed_adapter demo_feed_env demo_feed demo_feed_io)
     (\<lambda>_. ''failed'') (\<lambda>f n. 100 * f div n)) demo_params demo_sync_world) = Some
    (Some StatusPartial, Some \<lparr>m_seen = 5, m_new = 0, m_changed = 0, m_unchanged = 0, m_failed = 1\<rparr>, Some ''offset:4'', None,
      [''a'', ''b'', ''c'', ''d''], 2)"
  by code_simp

lemma demo_feed_sync_inv: "sync_inv demo_env (feed_source demo_feed_adapter demo_feed_env demo_feed demo_feed_io) demo_sync_world"
  using demo_sync_inv feed_source_trimmed unfolding sync_inv_def by blast

lemma demo_feed_sync_eq:
  "sync_source 0 100 (store_sync_deps demo_env (feed_source demo_feed_adapter demo_feed_env demo_feed demo_feed_io)
     (\<lambda>_. ''failed'') (\<lambda>f n. 100 * f div n)) demo_params demo_sync_world = Some (fst demo_feed_sync, fst (snd demo_feed_sync), None)"
proof -
  have "snd (snd demo_feed_sync) = None" unfolding demo_feed_sync_def by code_simp
  moreover have "sv_inv (store_view demo_env (feed_source demo_feed_adapter demo_feed_env demo_feed demo_feed_io)) demo_sync_world"
    using demo_feed_sync_inv by simp
  from store_sync.sync_source_returns [OF this]
  obtain r where "sync_source 0 100 (store_sync_deps demo_env (feed_source demo_feed_adapter demo_feed_env demo_feed demo_feed_io)
      (\<lambda>_. ''failed'') (\<lambda>f n. 100 * f div n)) demo_params demo_sync_world = Some r" by blast
  ultimately show ?thesis unfolding demo_feed_sync_def by (cases r) simp
qed

theorem feed_sync_saves_file_witness:
  "\<exists>row. fst (snd demo_feed_sync) = Some row \<and>
     map rr_external_product_id (good_rows (map (verdict demo_feed_adapter demo_feed_env) (feed_lines demo_feed))) = [''a'', ''b'', ''c'', ''d''] \<and>
     map content (raw_of_run (ir_id row) (sw_db (fst demo_feed_sync))) =
       good_rows (map (verdict demo_feed_adapter demo_feed_env) (feed_lines demo_feed)) \<and>
     m_failed (ir_metrics row) = 1"
proof -
  have cp: "parse_byte_offset (sp_checkpoint demo_params) = Inr (int (line_offset demo_feed 0))"
    by (simp add: demo_params_def parse_byte_offset_def line_offset_def)
  have u: "\<forall>s k. \<exists>u. fi_uuid (demo_feed_io s) k = Inr u \<and> \<not> is_blank u"
    by (simp add: demo_feed_io_def demo_row_id_not_blank)
  have len: "int (length demo_feed) < 2 ^ 63" by code_simp
  have v: "map rr_external_product_id (good_rows (map (verdict demo_feed_adapter demo_feed_env) (feed_lines demo_feed))) = [''a'', ''b'', ''c'', ''d'']"
    "int (bad_rows (map (verdict demo_feed_adapter demo_feed_env) (feed_lines demo_feed))) = 1" by code_simp+
  from feed_sync_saves_file [OF demo_feed_sync_inv demo_feed_sync_eq cp u len] v show ?thesis by simp
qed

end
