(* ===== verification/Number.thy ===== *)
theory Number
  imports Complex_Main Ingestion
begin

text \<open>
  \<open>CanonicalizeNumber\<close> of \<open>internal/platform/jsonpath/path_lookup.go\<close>: the canonical text of a JSON
  number, computed on its digits. The theorem says that it is a faithful name of the value: two
  numbers get the same text exactly when they are the same rational.
\<close>

subsection \<open>The code\<close>

definition malformed_number :: gerr where
  "malformed_number = Leaf (Platform ErrMalformedNumber)"

definition all_digits :: "string \<Rightarrow> bool" where
  "all_digits s \<longleftrightarrow> list_all is_digit_ascii s"

definition trim_left_zeros :: "string \<Rightarrow> string" where
  "trim_left_zeros s = dropWhile (\<lambda>c. c = CHR ''0'') s"

definition trim_right_char :: "char \<Rightarrow> string \<Rightarrow> string" where
  "trim_right_char x s = rev (dropWhile (\<lambda>c. c = x) (rev s))"

fun cut_exponent :: "string \<Rightarrow> string \<times> string option" where
  "cut_exponent [] = ([], None)"
| "cut_exponent (c # s) = (if c = CHR ''e'' \<or> c = CHR ''E'' then ([], Some s)
     else case cut_exponent s of (b, e) \<Rightarrow> (c # b, e))"

definition cut_sign :: "string \<Rightarrow> bool \<times> string" where
  "cut_sign s = (case s of [] \<Rightarrow> (False, []) | c # cs \<Rightarrow>
     if c = CHR ''-'' then (True, cs) else if c = CHR ''+'' then (False, cs) else (False, s))"

definition cut_point :: "string \<Rightarrow> string \<times> string" where
  "cut_point s = (case cut_at (CHR ''.'') s of None \<Rightarrow> (s, []) | Some p \<Rightarrow> p)"

definition parse_exponent :: "string option \<Rightarrow> gerr + int" where
  "parse_exponent e = (case e of None \<Rightarrow> Inr 0
   | Some s \<Rightarrow> if s = [] then Inl malformed_number
       else (case parse_int64 s of None \<Rightarrow> Inl (Wrap malformed_number)
         | Some n \<Rightarrow> if n > 308 \<or> n < - 308 then Inl (Leaf (Platform ErrExponentTooLarge)) else Inr n))"

text \<open>The parts of a number: its sign, the digits before and after the point, and its exponent.\<close>

type_synonym number_parts = "bool \<times> string \<times> string \<times> int"

definition parse_number :: "string \<Rightarrow> gerr + number_parts" where
  "parse_number raw =
     (let t = trim_space raw in
      failif (t = []) malformed_number
      (case cut_sign t of (neg, s) \<Rightarrow>
      failif (s = []) malformed_number
      (case cut_exponent s of (base, ex) \<Rightarrow>
      bindr (parse_exponent ex) (\<lambda>n.
      case cut_point base of (i, f) \<Rightarrow>
      failif (i = [] \<and> f = []) malformed_number
     (failif (\<not> all_digits i \<or> \<not> all_digits f) malformed_number (Inr (neg, i, f, n)))))))"

text \<open>The position of the decimal point after the exponent, counted from the first digit that is not 0.\<close>

definition decimal_position :: "string \<Rightarrow> string \<Rightarrow> int \<Rightarrow> int" where
  "decimal_position i f n =
     (if trim_left_zeros i = [] then - int (length f - length (trim_left_zeros f)) else int (length (trim_left_zeros i))) + n"

definition place_point :: "string \<Rightarrow> int \<Rightarrow> string" where
  "place_point ds pos =
     (if pos \<le> 0 then ''0.'' @ replicate (nat (- pos)) (CHR ''0'') @ ds
      else if pos \<ge> int (length ds) then ds @ replicate (nat (pos - int (length ds))) (CHR ''0'')
      else take (nat pos) ds @ ''.'' @ drop (nat pos) ds)"

definition strip_fraction :: "string \<Rightarrow> string" where
  "strip_fraction s = (if CHR ''.'' \<in> set s then trim_right_char (CHR ''.'') (trim_right_char (CHR ''0'') s) else s)"

definition render_number :: "number_parts \<Rightarrow> string" where
  "render_number p = (case p of (neg, i, f, n) \<Rightarrow>
     let ds = trim_left_zeros (i @ f) in
     if ds = [] then ''0''
     else let res = strip_fraction (place_point ds (decimal_position i f n)) in
       if res = ''0'' \<or> res = [] then ''0'' else if neg then CHR ''-'' # res else res)"

definition canonicalize_number :: "string \<Rightarrow> gerr + string" where
  "canonicalize_number raw = bindr (parse_number raw) (\<lambda>p. Inr (render_number p))"

subsection \<open>The value of a number\<close>

fun dval :: "string \<Rightarrow> nat" where
  "dval [] = 0"
| "dval (c # s) = (code_of c - 48) * 10 ^ length s + dval s"

definition parts_value :: "number_parts \<Rightarrow> rat" where
  "parts_value p = (case p of (neg, i, f, n) \<Rightarrow>
     (if neg then - 1 else 1) * of_nat (dval (i @ f)) * 10 powi (n - int (length f)))"

definition number_value :: "string \<Rightarrow> rat option" where
  "number_value s = (case parse_number s of Inl _ \<Rightarrow> None | Inr p \<Rightarrow> Some (parts_value p))"

lemma dval_append: "dval (s @ t) = dval s * 10 ^ length t + dval t"
  by (induction s) (simp_all add: algebra_simps power_add)

lemma all_digits_simps [simp]:
  "all_digits []" "all_digits (c # s) \<longleftrightarrow> is_digit_ascii c \<and> all_digits s"
  "all_digits (s @ t) \<longleftrightarrow> all_digits s \<and> all_digits t" "all_digits (replicate n (CHR ''0''))"
  by (auto simp: all_digits_def list_all_iff is_digit_ascii_def)

lemma dval_zeros [simp]: "dval (replicate n (CHR ''0'')) = 0"
  by (induction n) simp_all

lemma dval_trim_left: "dval (trim_left_zeros s) = dval s"
  by (induction s) (simp_all add: trim_left_zeros_def)

lemma dval_less: "all_digits s \<Longrightarrow> dval s < 10 ^ length s"
proof (induction s)
  case (Cons c s)
  then have "code_of c - 48 \<le> 9" "dval s < 10 ^ length s" by (auto simp: is_digit_ascii_def)
  then have "(code_of c - 48) * 10 ^ length s + dval s < 9 * 10 ^ length s + 10 ^ length s"
    by (metis add_le_less_mono mult_le_mono1)
  then show ?case by simp
qed simp

lemma mult_add_less_eq:
  assumes "(x :: nat) < b" "y < b" "p * b + x = q * b + y"
  shows "p = q" "x = y"
proof -
  have "(p * b + x) div b = p" "(q * b + y) div b = q" using assms(1,2) by simp_all
  with assms(3) show "p = q" by metis
  with assms(3) show "x = y" by simp
qed

lemma dval_inj: "all_digits s \<Longrightarrow> all_digits t \<Longrightarrow> length s = length t \<Longrightarrow> dval s = dval t \<Longrightarrow> s = t"
proof (induction s arbitrary: t)
  case (Cons c s)
  from Cons.prems(3) obtain d u where t: "t = d # u" by (cases t) simp_all
  let ?b = "10 ^ length s :: nat"
  have len: "length u = length s" using Cons.prems(3) t by simp
  have "dval s < ?b" "dval u < ?b" using Cons.prems(1,2) dval_less [of s] dval_less [of u] t len by simp_all
  moreover have eq: "(code_of c - 48) * ?b + dval s = (code_of d - 48) * ?b + dval u"
    using Cons.prems(4) unfolding t dval.simps len .
  ultimately have "code_of c - 48 = (code_of d - 48 :: nat)" "dval s = dval u"
    by (rule mult_add_less_eq)+
  moreover have "code_of c \<ge> (48 :: nat)" "code_of d \<ge> (48 :: nat)" using Cons.prems t by (auto simp: is_digit_ascii_def)
  ultimately have "code_of c = (code_of d :: nat)" by linarith
  then have "c = d" by simp
  moreover have "s = u" by (rule Cons.IH) (use Cons.prems(1,2) t len \<open>dval s = dval u\<close> in simp_all)
  ultimately show ?case using t by simp
qed simp

subsection \<open>Canonical forms\<close>

text \<open>The digits of a number, not 0, without zeros at either end.\<close>

definition core_digits :: "string \<Rightarrow> bool" where
  "core_digits s \<longleftrightarrow> all_digits s \<and> s \<noteq> [] \<and> hd s \<noteq> CHR ''0'' \<and> last s \<noteq> CHR ''0''"

definition signed :: "bool \<Rightarrow> string \<Rightarrow> string" where
  "signed neg s = (if neg then CHR ''-'' # s else s)"

definition core_value :: "bool \<Rightarrow> string \<Rightarrow> int \<Rightarrow> rat" where
  "core_value neg c pos = (if neg then - 1 else 1) * of_nat (dval c) * 10 powi (pos - int (length c))"

lemma trim_right_zeros:
  "\<exists>k. s = trim_right_char (CHR ''0'') s @ replicate k (CHR ''0'') \<and>
     (trim_right_char (CHR ''0'') s \<noteq> [] \<longrightarrow> last (trim_right_char (CHR ''0'') s) \<noteq> CHR ''0'')"
proof -
  let ?z = "\<lambda>c. c = CHR ''0''"
  have tw: "takeWhile ?z (rev s) = replicate (length (takeWhile ?z (rev s))) (CHR ''0'')"
    by (rule replicate_eqI) (auto dest: set_takeWhileD)
  have "s = rev (takeWhile ?z (rev s) @ dropWhile ?z (rev s))" by simp
  also have "\<dots> = trim_right_char (CHR ''0'') s @ replicate (length (takeWhile ?z (rev s))) (CHR ''0'')"
    by (subst tw) (simp add: trim_right_char_def)
  finally show ?thesis using hd_dropWhile [of ?z "rev s"] by (auto simp: trim_right_char_def last_rev)
qed

lemma trim_right_append [simp]:
  "last s \<noteq> x \<Longrightarrow> s \<noteq> [] \<Longrightarrow> trim_right_char x (s @ replicate k x) = s"
  by (cases s rule: rev_cases) (auto simp: trim_right_char_def dropWhile_append)

lemma trim_right_id: "last s \<noteq> x \<Longrightarrow> s \<noteq> [] \<Longrightarrow> trim_right_char x s = s"
  using trim_right_append [of s x 0] by simp

lemma no_point: "all_digits s \<Longrightarrow> CHR ''.'' \<notin> set s"
  by (auto simp: all_digits_def list_all_iff is_digit_ascii_def)

lemma strip_place_point:
  assumes c: "core_digits c"
  shows "strip_fraction (place_point (c @ replicate k (CHR ''0'')) pos) = place_point c pos"
proof -
  let ?z = "CHR ''0''"
  have nz: "c \<noteq> []" "last c \<noteq> ?z" "CHR ''.'' \<notin> set c" using c no_point by (auto simp: core_digits_def)
  consider "pos \<le> 0" | "0 < pos" "pos \<ge> int (length c + k)" | "int (length c) \<le> pos" "pos < int (length c + k)" "0 < pos"
    | "0 < pos" "pos < int (length c)" by linarith
  then show ?thesis
  proof cases
    case 1
    have "trim_right_char ?z ((''0.'' @ replicate (nat (- pos)) ?z @ c) @ replicate k ?z) = ''0.'' @ replicate (nat (- pos)) ?z @ c"
      by (rule trim_right_append) (use nz in simp_all)
    moreover have "trim_right_char (CHR ''.'') (''0.'' @ replicate (nat (- pos)) ?z @ c) = ''0.'' @ replicate (nat (- pos)) ?z @ c"
      by (rule trim_right_id) (use nz in \<open>auto dest: last_in_set\<close>)
    ultimately show ?thesis using 1 by (simp add: place_point_def strip_fraction_def)
  next
    case 2
    then have "replicate k ?z @ replicate (nat (pos - int (length c + k))) ?z = replicate (nat (pos - int (length c))) ?z"
      by (simp flip: replicate_add)
    with 2 nz show ?thesis by (simp add: place_point_def strip_fraction_def)
  next
    case 3
    let ?n = "nat pos - length c"
    have p: "nat pos = length c + ?n" "?n < k" using 3 by linarith+
    have tk: "take (nat pos) (c @ replicate k ?z) = c @ replicate ?n ?z" "drop (nat pos) (c @ replicate k ?z) = replicate (k - ?n) ?z"
      using p by simp_all
    have "trim_right_char ?z ((c @ replicate ?n ?z @ ''.'') @ replicate (k - ?n) ?z) = c @ replicate ?n ?z @ ''.''"
      by (rule trim_right_append) simp_all
    moreover have "trim_right_char (CHR ''.'') ((c @ replicate ?n ?z) @ replicate 1 (CHR ''.'')) = c @ replicate ?n ?z"
      by (rule trim_right_append) (use nz in \<open>auto simp: last_append dest: last_in_set\<close>)
    moreover have "nat (pos - int (length c)) = ?n" by linarith
    ultimately show ?thesis using 3 by (simp add: place_point_def strip_fraction_def tk)
  next
    case 4
    have d: "drop (nat pos) (c @ replicate k ?z) = drop (nat pos) c @ replicate k ?z" "take (nat pos) (c @ replicate k ?z) = take (nat pos) c"
      using 4 by simp_all
    have l: "drop (nat pos) c \<noteq> []" "last (drop (nat pos) c) = last c" using 4 by (auto simp: last_drop)
    have "trim_right_char ?z ((take (nat pos) c @ ''.'' @ drop (nat pos) c) @ replicate k ?z) = take (nat pos) c @ ''.'' @ drop (nat pos) c"
      by (rule trim_right_append) (use nz l in simp_all)
    moreover have "trim_right_char (CHR ''.'') (take (nat pos) c @ ''.'' @ drop (nat pos) c) = take (nat pos) c @ ''.'' @ drop (nat pos) c"
      by (rule trim_right_id) (use nz l in \<open>auto dest: last_in_set\<close>)
    ultimately show ?thesis using 4 by (simp add: place_point_def strip_fraction_def d)
  qed
qed

lemma trim_printable: "(\<And>c. c \<in> set s \<Longrightarrow> 33 \<le> code_of c \<and> code_of c \<le> 126) \<Longrightarrow> trim_space s = s"
proof (rule trim_space_id)
  assume p: "\<And>c. c \<in> set s \<Longrightarrow> 33 \<le> code_of c \<and> code_of c \<le> 126"
  have no_space: "(\<forall>c \<in> set t. 33 \<le> code_of c \<and> code_of c \<le> 126) \<Longrightarrow> space_len t = 0 \<and> space_len_back t = 0" for t
    by (cases t rule: space_len.cases) (auto simp: ascii_space_def space2_def space3_def)
  show "space_len s = 0" "space_len_back (rev s) = 0" using no_space [of s] no_space [of "rev s"] p by auto
qed

lemma digits_cut:
  assumes "all_digits s"
  shows "cut_exponent s = (s, None)" "cut_at (CHR ''.'') s = None"
    "cut_exponent (s @ ''.'' @ t) = (s @ CHR ''.'' # fst (cut_exponent t), snd (cut_exponent t))"
    "cut_at (CHR ''.'') (s @ CHR ''.'' # t) = Some (s, t)"
  using assms by (induction s) (auto simp: is_digit_ascii_def split: prod.splits)

lemma parse_signed:
  assumes "all_digits i" "all_digits f" "i \<noteq> []"
  shows "parse_number (signed neg (if point then i @ ''.'' @ f else i)) = Inr (neg, i, if point then f else [], 0)"
proof -
  let ?s = "if point then i @ ''.'' @ f else i"
  have "33 \<le> code_of c \<and> code_of c \<le> 126" if "c \<in> set (signed neg ?s)" for c
    using that assms(1,2) by (auto simp: signed_def all_digits_def list_all_iff is_digit_ascii_def split: if_splits)
  then have t: "trim_space (signed neg ?s) = signed neg ?s" by (rule trim_printable)
  obtain c cs where i: "i = c # cs" "is_digit_ascii c" using assms(1,3) by (cases i) auto
  then have sign: "cut_sign (signed neg ?s) = (neg, ?s)" by (auto simp: cut_sign_def signed_def is_digit_ascii_def)
  have "cut_exponent ?s = (?s, None)" using digits_cut [OF assms(1)] digits_cut(1) [OF assms(2)] by simp
  moreover have "cut_point ?s = (i, if point then f else [])"
    using digits_cut [OF assms(1)] by (simp add: cut_point_def)
  ultimately show ?thesis using i assms t sign
    by (simp add: parse_number_def failif_def parse_exponent_def Let_def signed_def)
qed

lemma all_digits_take_drop: "all_digits s \<Longrightarrow> all_digits (take n s) \<and> all_digits (drop n s)"
  by (auto simp: all_digits_def list_all_iff dest: in_set_takeD in_set_dropD)

text \<open>The canonical text has the value of its digits.\<close>

lemma value_place_point:
  assumes c: "core_digits c"
  shows "number_value (signed neg (place_point c pos)) = Some (core_value neg c pos)"
proof -
  have d: "all_digits c" "c \<noteq> []" using c by (simp_all add: core_digits_def)
  consider "pos \<le> 0" | "0 < pos" "pos \<ge> int (length c)" | "0 < pos" "pos < int (length c)" by linarith
  then show ?thesis
  proof cases
    case 1
    let ?z = "replicate (nat (- pos)) (CHR ''0'')"
    have "parse_number (signed neg (place_point c pos)) = Inr (neg, ''0'', ?z @ c, 0)"
      using parse_signed [of "''0''" "?z @ c" neg True] d 1 by (simp add: place_point_def is_digit_ascii_def)
    moreover have "- int (length (?z @ c)) = pos - int (length c)" using 1 by simp
    ultimately show ?thesis by (simp add: number_value_def parts_value_def core_value_def dval_append)
  next
    case 2
    let ?z = "replicate (nat (pos - int (length c))) (CHR ''0'')"
    have "parse_number (signed neg (place_point c pos)) = Inr (neg, c @ ?z, [], 0)"
      using parse_signed [of "c @ ?z" "[]" neg False] d 2 by (simp add: place_point_def)
    moreover have "(10 :: rat) powi (pos - int (length c)) = 10 ^ nat (pos - int (length c))" using 2 by (simp add: power_int_def)
    ultimately show ?thesis by (simp add: number_value_def parts_value_def core_value_def dval_append)
  next
    case 3
    have "parse_number (signed neg (place_point c pos)) = Inr (neg, take (nat pos) c, drop (nat pos) c, 0)"
      using parse_signed [of "take (nat pos) c" "drop (nat pos) c" neg True] d 3 all_digits_take_drop
      by (simp add: place_point_def)
    moreover have "- int (length (drop (nat pos) c)) = pos - int (length c)" using 3 by simp
    ultimately show ?thesis using 3 by (simp add: number_value_def parts_value_def core_value_def)
  qed
qed

subsection \<open>One text for each value\<close>

lemma dval_ge: "all_digits s \<Longrightarrow> s \<noteq> [] \<Longrightarrow> hd s \<noteq> CHR ''0'' \<Longrightarrow> 10 ^ (length s - 1) \<le> dval s"
proof (cases s)
  case (Cons c t)
  assume "all_digits s" "hd s \<noteq> CHR ''0''"
  then have "48 \<le> (code_of c :: nat)" "code_of c \<noteq> (48 :: nat)"
    using Cons of_char_eq_iff [of c "CHR ''0''", where 'a = nat] by (auto simp: is_digit_ascii_def)
  then have "1 \<le> code_of c - (48 :: nat)" by linarith
  then have "1 * 10 ^ length t \<le> (code_of c - 48) * 10 ^ length t + dval t" by (metis mult_le_mono1 trans_le_add1)
  then show ?thesis using Cons by simp
qed simp

lemma dval_last: "all_digits s \<Longrightarrow> s \<noteq> [] \<Longrightarrow> last s \<noteq> CHR ''0'' \<Longrightarrow> \<not> 10 dvd dval s"
proof (cases s rule: rev_cases)
  case (snoc t c)
  assume "all_digits s" "last s \<noteq> CHR ''0''"
  then have "48 \<le> (code_of c :: nat)" "code_of c \<le> (57 :: nat)" "code_of c \<noteq> (48 :: nat)"
    using snoc of_char_eq_iff [of c "CHR ''0''", where 'a = nat] by (auto simp: is_digit_ascii_def)
  then have "\<not> 10 dvd (code_of c - 48 :: nat)" by (auto dest!: dvd_imp_le)
  moreover have "dval s = dval t * 10 + (code_of c - 48)" using snoc by (simp add: dval_append)
  ultimately show ?thesis by (simp add: dvd_add_right_iff)
qed simp

lemma ten_power: "int n + k = m \<Longrightarrow> (10 :: rat) ^ n * 10 powi k = 10 powi m"
  by (auto simp: power_int_add)

lemma core_value_bounds:
  assumes "core_digits c"
  shows "10 powi (pos - 1) \<le> core_value False c pos" "core_value False c pos < 10 powi pos"
proof -
  have d: "all_digits c" "c \<noteq> []" "hd c \<noteq> CHR ''0''" using assms by (simp_all add: core_digits_def)
  have "(10 :: rat) ^ (length c - 1) \<le> of_nat (dval c)" using dval_ge [OF d] by (metis of_nat_le_iff of_nat_numeral of_nat_power)
  then have "10 ^ (length c - 1) * 10 powi (pos - int (length c)) \<le> core_value False c pos" by (simp add: core_value_def)
  moreover have "(10 :: rat) ^ (length c - 1) * 10 powi (pos - int (length c)) = 10 powi (pos - 1)"
    by (rule ten_power) (use d(2) in \<open>cases c; simp\<close>)
  ultimately show "10 powi (pos - 1) \<le> core_value False c pos" by metis
  have "of_nat (dval c) < (10 :: rat) ^ length c" using dval_less [OF d(1)] by (metis of_nat_less_iff of_nat_numeral of_nat_power)
  then have "core_value False c pos < 10 ^ length c * 10 powi (pos - int (length c))" by (simp add: core_value_def)
  moreover have "(10 :: rat) ^ length c * 10 powi (pos - int (length c)) = 10 powi pos" by (rule ten_power) simp
  ultimately show "core_value False c pos < 10 powi pos" by simp
qed

lemma core_value_unique:
  assumes c: "core_digits c" "core_digits d" and eq: "core_value False c p = core_value False d q"
  shows "c = d \<and> p = q"
proof -
  have le: "p \<le> q" if "core_digits c" "core_digits d" "core_value False c p = core_value False d q" for c d :: string and p q
  proof (rule ccontr)
    assume "\<not> p \<le> q"
    then have "(10 :: rat) powi q \<le> 10 powi (p - 1)" by (simp add: power_int_increasing)
    then show False using core_value_bounds [OF that(1), of p] core_value_bounds [OF that(2), of q] that(3) by simp
  qed
  have pq: "p = q" using le [OF c eq] le [OF c(2,1) eq [symmetric]] by simp
  have len: "length d \<le> length c" if "core_digits c" "core_digits d" "core_value False c q = core_value False d q" for c d :: string
  proof (rule ccontr)
    assume "\<not> length d \<le> length c"
    then obtain k where k: "length d = Suc (length c + k)" by (metis less_iff_Suc_add not_le)
    have "(10 :: rat) powi (q - int (length c)) = 10 ^ Suc k * 10 powi (q - int (length d))"
      by (rule ten_power [symmetric]) (use k in simp)
    with that(3) have "of_nat (dval c) * (10 :: rat) ^ Suc k = of_nat (dval d)" by (simp add: core_value_def)
    then have "of_nat (dval c * 10 ^ Suc k) = (of_nat (dval d) :: rat)" by simp
    then have "dval c * 10 ^ Suc k = dval d" by (simp only: of_nat_eq_iff)
    then have "10 dvd dval d" by (metis dvd_def mult.commute mult.left_commute power_Suc)
    then show False using dval_last that(2) by (simp add: core_digits_def)
  qed
  have ln: "length c = length d" using len [OF c eq [unfolded pq]] len [OF c(2,1) eq [unfolded pq, symmetric]] by simp
  with eq pq have "of_nat (dval c) = (of_nat (dval d) :: rat)" by (simp add: core_value_def)
  then have "c = d" using dval_inj [of c d] c ln by (simp add: core_digits_def)
  with pq show ?thesis by simp
qed

lemma parse_number_digits: "parse_number s = Inr (neg, i, f, n) \<Longrightarrow> all_digits i \<and> all_digits f"
proof -
  assume p: "parse_number s = Inr (neg, i, f, n)"
  obtain neg' t where t: "cut_sign (trim_space s) = (neg', t)" by fastforce
  obtain base ex where b: "cut_exponent t = (base, ex)" by fastforce
  obtain i' f' where c: "cut_point base = (i', f')" by fastforce
  from p show ?thesis
    by (auto simp: parse_number_def failif_def bindr_Inr_iff Let_def t b c split: if_splits)
qed

lemma trim_left_digits: "all_digits s \<Longrightarrow> all_digits (trim_left_zeros s)"
  by (auto simp: trim_left_zeros_def all_digits_def list_all_iff dest: set_dropWhileD)

lemma dropWhile_append_nonempty: "dropWhile P xs \<noteq> [] \<Longrightarrow> dropWhile P (xs @ ys) = dropWhile P xs @ ys"
  by (induction xs) (auto split: if_splits)

lemma decimal_position_length:
  "int (length (trim_left_zeros (i @ f))) + (n - int (length f)) = decimal_position i f n"
proof (cases "trim_left_zeros i = []")
  case True
  have le: "length (trim_left_zeros f) \<le> length f" by (simp add: trim_left_zeros_def length_dropWhile_le)
  from True have "trim_left_zeros (i @ f) = trim_left_zeros f"
    by (simp add: trim_left_zeros_def dropWhile_append)
  with True le show ?thesis by (simp add: decimal_position_def)
next
  case False
  then have "trim_left_zeros (i @ f) = trim_left_zeros i @ f"
    unfolding trim_left_zeros_def by (rule dropWhile_append_nonempty)
  with False show ?thesis by (simp add: decimal_position_def)
qed

lemma place_point_nonzero: "core_digits c \<Longrightarrow> place_point c pos \<noteq> [] \<and> place_point c pos \<noteq> ''0''"
proof -
  assume c: "core_digits c"
  then obtain a t where a: "c = a # t" "a \<noteq> CHR ''0''" by (cases c) (auto simp: core_digits_def)
  show ?thesis
  proof (cases "0 < pos")
    case True
    then obtain k where "nat pos = Suc k" by (metis gr0_implies_Suc zero_less_nat_eq)
    with True a show ?thesis by (auto simp: place_point_def)
  qed (simp add: place_point_def)
qed

text \<open>Every number has a canonical form: 0, or a sign, digits and a position.\<close>

lemma render_number_core:
  assumes d: "all_digits i" "all_digits f" and nz: "trim_left_zeros (i @ f) \<noteq> []"
  obtains c where "core_digits c" "render_number (neg, i, f, n) = signed neg (place_point c (decimal_position i f n))"
    "parts_value (neg, i, f, n) = core_value neg c (decimal_position i f n)"
proof -
  let ?ds = "trim_left_zeros (i @ f)" and ?pos = "decimal_position i f n"
  have ds: "all_digits ?ds" "hd ?ds \<noteq> CHR ''0''" "dval ?ds = dval (i @ f)"
    using d hd_dropWhile [of "\<lambda>c. c = CHR ''0''" "i @ f"] nz dval_trim_left [of "i @ f"] trim_left_digits [of "i @ f"]
    by (simp_all add: trim_left_zeros_def)
  let ?c = "trim_right_char (CHR ''0'') ?ds"
  obtain k where k: "?ds = ?c @ replicate k (CHR ''0'')"
    "?c \<noteq> [] \<Longrightarrow> last ?c \<noteq> CHR ''0''" using trim_right_zeros [of ?ds] by blast
  have "?c \<noteq> []"
  proof
    assume "?c = []"
    with k(1) nz ds(2) show False by (cases k) auto
  qed
  then have c: "core_digits ?c" using ds(1,2) k nz unfolding core_digits_def
    by (metis all_digits_simps(3) hd_append2)
  have "strip_fraction (place_point ?ds ?pos) = place_point ?c ?pos" using strip_place_point [OF c, of k ?pos] k(1) by simp
  then have "render_number (neg, i, f, n) = signed neg (place_point ?c ?pos)"
    using nz place_point_nonzero [OF c, of ?pos] by (simp add: render_number_def signed_def Let_def)
  moreover have "parts_value (neg, i, f, n) = core_value neg ?c ?pos"
  proof -
    have "dval (i @ f) = dval ?c * 10 ^ k" "length ?ds = length ?c + k"
      using ds(3) arg_cong [OF k(1), of dval] arg_cong [OF k(1), of length] by (simp_all add: dval_append)
    then have "(10 :: rat) ^ k * 10 powi (n - int (length f)) = 10 powi (?pos - int (length ?c))" "dval (i @ f) = dval ?c * 10 ^ k"
      using decimal_position_length [of i f n] by (auto intro: ten_power)
    then show ?thesis by (simp add: parts_value_def core_value_def)
  qed
  ultimately show ?thesis using that [of ?c] c by blast
qed

lemma render_number_cases:
  assumes "parse_number s = Inr p"
  obtains "render_number p = ''0''" "parts_value p = 0"
  | neg c pos where "core_digits c" "render_number p = signed neg (place_point c pos)" "parts_value p = core_value neg c pos"
proof -
  obtain neg i f n where p: "p = (neg, i, f, n)" by (metis prod.exhaust)
  have d: "all_digits i" "all_digits f" using parse_number_digits assms p by blast+
  show ?thesis
  proof (cases "trim_left_zeros (i @ f) = []")
    case True
    then have "dval (i @ f) = 0" using dval_trim_left [of "i @ f"] by simp
    with True that(1) p show ?thesis by (simp add: render_number_def parts_value_def)
  next
    case False
    show ?thesis by (rule render_number_core [OF d False, of neg n]) (use that(2) p in blast)
  qed
qed

lemma core_value_signed: "core_value True c pos = - core_value False c pos"
  by (simp add: core_value_def)

lemma core_value_pos: "core_digits c \<Longrightarrow> 0 < core_value False c pos"
  using core_value_bounds(1) [of c pos] by (meson less_le_trans zero_less_numeral zero_less_power_int)

lemma render_number_value: "parse_number s = Inr p \<Longrightarrow> number_value (render_number p) = Some (parts_value p)"
proof (erule render_number_cases)
  assume "render_number p = ''0''" "parts_value p = 0"
  moreover have "number_value ''0'' = Some 0"
    using parse_signed [of "''0''" "[]" False False]
    by (simp add: number_value_def parts_value_def signed_def is_digit_ascii_def)
  ultimately show ?thesis by simp
qed (simp add: value_place_point)

lemma render_number_unique:
  assumes "parse_number s = Inr p" "parse_number t = Inr q" "parts_value p = parts_value q"
  shows "render_number p = render_number q"
proof (rule render_number_cases [OF assms(1)]; rule render_number_cases [OF assms(2)])
  fix neg c pos neg' d pos'
  assume c: "core_digits c" "render_number p = signed neg (place_point c pos)" "parts_value p = core_value neg c pos"
    and d: "core_digits d" "render_number q = signed neg' (place_point d pos')" "parts_value q = core_value neg' d pos'"
  have "neg = neg'" "core_value False c pos = core_value False d pos'"
    using assms(3) c(3) d(3) core_value_pos [OF c(1), of pos] core_value_pos [OF d(1), of pos']
    by (cases neg; cases neg'; simp add: core_value_signed)+
  with core_value_unique [OF c(1) d(1), of pos pos'] c(2) d(2) show ?thesis by simp
next
  fix neg c pos
  assume "parts_value p = 0" "core_digits c" "parts_value q = core_value neg c pos"
  then show ?thesis using assms(3) core_value_pos [of c pos] by (cases neg) (simp_all add: core_value_signed)
next
  fix neg c pos
  assume "parts_value q = 0" "core_digits c" "parts_value p = core_value neg c pos"
  then show ?thesis using assms(3) core_value_pos [of c pos] by (cases neg) (simp_all add: core_value_signed)
qed simp



end
