(* ===== verification/Normalize.thy ===== *)
theory Normalize
  imports Product Json Number
begin

text \<open>
  \<open>internal/domain/product/mapping.go\<close> and \<open>normalize.go\<close>: field mappings and the normalization of a raw
  payload. NFC and lower case are those of \<open>text_env\<close>; the decoder of package \<open>encoding/json\<close> is an
  argument that returns the first value of a text and what follows it. A text is valid UTF-8 where the
  code iterates over its runes.
\<close>

subsection \<open>Field mappings\<close>

record field_mapping =
  fm_name_path :: string
  fm_description_path :: string
  fm_brand_path :: string
  fm_origin_path :: string
  fm_attributes :: "(string \<times> string) list"

definition invalid_mapping :: gerr where
  "invalid_mapping = Wrap (Leaf (Product ErrInvalidFieldMapping))"

definition validate_mapping_path :: "string \<Rightarrow> gerr + unit" where
  "validate_mapping_path p = mapl (wrap2 (Product ErrInvalidFieldMapping)) (validate_path p)"

definition validate_optional_path :: "string \<Rightarrow> gerr + unit" where
  "validate_optional_path p = (if p = [] then Inr () else validate_mapping_path p)"

text \<open>The attributes in the order of the traversal, with the folded keys seen so far.\<close>

fun validate_attributes :: "text_env \<Rightarrow> (string \<times> string) list \<Rightarrow> string list \<Rightarrow> gerr + unit" where
  "validate_attributes te [] seen = Inr ()"
| "validate_attributes te ((k, p) # as) seen =
     (if is_blank k then Inl invalid_mapping
      else bindr (validate_mapping_path p) (\<lambda>_.
        let folded = te_lower te (te_nfc te (trim_space k)) in
        if folded \<in> set seen then Inl (Wrap (Leaf (Product ErrDuplicateAttributeKey)))
        else validate_attributes te as (folded # seen)))"

definition validate_mapping :: "text_env \<Rightarrow> field_mapping \<Rightarrow> gerr + unit" where
  "validate_mapping te m =
     failif (is_blank (fm_name_path m)) invalid_mapping
    (bindr (validate_mapping_path (fm_name_path m)) (\<lambda>_.
     bindr (validate_optional_path (fm_description_path m)) (\<lambda>_.
     bindr (validate_optional_path (fm_brand_path m)) (\<lambda>_.
     bindr (validate_optional_path (fm_origin_path m)) (\<lambda>_. validate_attributes te (fm_attributes m) [])))))"

subsection \<open>Texts\<close>

text \<open>The zero-width runes U+200B, U+200C, U+200D and U+FEFF.\<close>

fun zero_width :: "string \<Rightarrow> bool" where
  "zero_width (a # b # c # s) \<longleftrightarrow>
     code_of a = (0xE2 :: nat) \<and> code_of b = (0x80 :: nat) \<and> code_of c \<in> {0x8B, 0x8C, 0x8D :: nat} \<or>
     code_of a = (0xEF :: nat) \<and> code_of b = (0xBB :: nat) \<and> code_of c = (0xBF :: nat)"
| "zero_width s \<longleftrightarrow> False"

text \<open>The slow path: drop zero-width runes and make every run of white space one blank.\<close>

function collapse_runs :: "bool \<Rightarrow> string \<Rightarrow> string" where
  "collapse_runs in_space [] = []"
| "collapse_runs in_space (c # s) =
     (if zero_width (c # s) then collapse_runs in_space (drop 3 (c # s))
      else if space_len (c # s) > 0
        then (if in_space then collapse_runs True (drop (space_len (c # s)) (c # s))
              else CHR '' '' # collapse_runs True (drop (space_len (c # s)) (c # s)))
      else c # collapse_runs False s)"
  by pat_completeness auto
termination
  by (relation "measure (\<lambda>(b, s). length s)") auto

text \<open>The fast path is taken when this says no.\<close>

fun interior_spaces :: "string \<Rightarrow> bool" where
  "interior_spaces [] \<longleftrightarrow> False"
| "interior_spaces (c # s) \<longleftrightarrow> code_of c < (0x20 :: nat) \<or> code_of c \<ge> (0x80 :: nat) \<or>
     c = CHR '' '' \<and> (case s of [] \<Rightarrow> False | d # _ \<Rightarrow> code_of d \<le> (0x20 :: nat)) \<or> interior_spaces s"

definition needs_collapse :: "string \<Rightarrow> bool" where
  "needs_collapse s \<longleftrightarrow> code_of (hd s) \<le> (0x20 :: nat) \<or> code_of (last s) \<le> (0x20 :: nat) \<or> interior_spaces s"

definition collapse_whitespace :: "text_env \<Rightarrow> string \<Rightarrow> string" where
  "collapse_whitespace te s =
     (if s = [] then []
      else let nfc = te_nfc te s in
        if \<not> needs_collapse nfc then nfc else trim_space (collapse_runs False nfc))"

definition rune_count :: "string \<Rightarrow> int" where
  "rune_count s = int (length (filter (\<lambda>c. \<not> (0x80 \<le> code_of c \<and> code_of c < (0xC0 :: nat))) s))"

definition is_alpha :: "string \<Rightarrow> bool" where
  "is_alpha s \<longleftrightarrow> list_all (\<lambda>c. is_lower_ascii c \<or> is_upper_ascii c) s"

definition continuation :: "char \<Rightarrow> bool" where
  "continuation c \<longleftrightarrow> 0x80 \<le> code_of c \<and> code_of c \<le> (0xBF :: nat)"

definition between :: "nat \<Rightarrow> char \<Rightarrow> nat \<Rightarrow> bool" where
  "between l c h \<longleftrightarrow> l \<le> code_of c \<and> code_of c \<le> h"

text \<open>\<open>utf8.Valid\<close>: the well-formed sequences of one to four bytes.\<close>

function valid_utf8 :: "string \<Rightarrow> bool" where
  "valid_utf8 s = (case s of [] \<Rightarrow> True
     | a # s1 \<Rightarrow> if code_of a < (0x80 :: nat) then valid_utf8 s1
       else (case s1 of [] \<Rightarrow> False
         | b # s2 \<Rightarrow> if between 0xC2 a 0xDF then continuation b \<and> valid_utf8 s2
           else (case s2 of [] \<Rightarrow> False
             | c # s3 \<Rightarrow> if between 0xE0 a 0xEF
                 then between (if code_of a = (0xE0 :: nat) then 0xA0 else 0x80) b (if code_of a = (0xED :: nat) then 0x9F else 0xBF)
                   \<and> continuation c \<and> valid_utf8 s3
               else (case s3 of [] \<Rightarrow> False
                 | d # s4 \<Rightarrow> between 0xF0 a 0xF4
                   \<and> between (if code_of a = (0xF0 :: nat) then 0x90 else 0x80) b (if code_of a = (0xF4 :: nat) then 0x8F else 0xBF)
                   \<and> continuation c \<and> continuation d \<and> valid_utf8 s4))))"
  by pat_completeness auto
termination
  by (relation "measure length") auto

declare valid_utf8.simps [simp del]

subsection \<open>Normalize\<close>

definition max_canonical_name_chars :: int where "max_canonical_name_chars = 512"
definition max_brand_chars :: int where "max_brand_chars = 255"

definition malformed_record :: gerr where
  "malformed_record = Leaf (Product ErrMalformedRecord)"

definition extract_scalar_string :: "json \<Rightarrow> gerr + string" where
  "extract_scalar_string v = (case v of
     JStr s \<Rightarrow> Inr s
   | JNum s \<Rightarrow> canonicalize_number s
   | JBool b \<Rightarrow> Inr (bool_text b)
   | _ \<Rightarrow> Inl (Opaque ''expected scalar value''))"

definition scalar_text :: "text_env \<Rightarrow> json \<Rightarrow> gerr + string" where
  "scalar_text te v = bindr (mapl (wrap2 (Product ErrMalformedRecord)) (extract_scalar_string v)) (\<lambda>s. Inr (collapse_whitespace te s))"

definition canonical_name :: "text_env \<Rightarrow> json \<Rightarrow> string \<Rightarrow> gerr + string" where
  "canonical_name te doc path = (case lookup_path doc path of
     None \<Rightarrow> Inl (Leaf (Product ErrMissingCanonicalField))
   | Some JNull \<Rightarrow> Inl (Leaf (Product ErrMissingCanonicalField))
   | Some (JBool _) \<Rightarrow> Inl (Wrap malformed_record)
   | Some v \<Rightarrow> bindr (scalar_text te v) (\<lambda>name.
       failif (name = []) (Leaf (Product ErrMissingCanonicalField))
      (failif (rune_count name > max_canonical_name_chars) (Wrap malformed_record) (Inr name))))"

text \<open>An optional field: blank when the path is not set, the value is missing or null.\<close>

definition optional_field :: "text_env \<Rightarrow> json \<Rightarrow> string \<Rightarrow> gerr + string" where
  "optional_field te doc path =
     (if path = [] then Inr [] else case lookup_path doc path of
        None \<Rightarrow> Inr [] | Some JNull \<Rightarrow> Inr [] | Some v \<Rightarrow> scalar_text te v)"

definition brand_field :: "text_env \<Rightarrow> json \<Rightarrow> string \<Rightarrow> gerr + string" where
  "brand_field te doc path = bindr (optional_field te doc path) (\<lambda>b.
     failif (rune_count b > max_brand_chars) (Wrap malformed_record) (Inr b))"

definition origin_field :: "text_env \<Rightarrow> json \<Rightarrow> string \<Rightarrow> gerr + string" where
  "origin_field te doc path = bindr (optional_field te doc path) (\<lambda>c.
     if c = [] then Inr []
     else if length c \<noteq> 2 \<or> \<not> is_alpha c then Inl (Wrap (Leaf (Product ErrInvalidOriginCountry))) else Inr (to_upper c))"

fun attribute_fields :: "text_env \<Rightarrow> json \<Rightarrow> (string \<times> string) list \<Rightarrow> gerr + (string \<times> string) list" where
  "attribute_fields te doc [] = Inr []"
| "attribute_fields te doc ((k, path) # as) = (case lookup_path doc path of
     None \<Rightarrow> attribute_fields te doc as
   | Some JNull \<Rightarrow> attribute_fields te doc as
   | Some v \<Rightarrow> bindr (scalar_text te v) (\<lambda>x. bindr (attribute_fields te doc as) (\<lambda>xs.
       Inr (if x = [] then xs else (k, x) # xs))))"

definition json_space :: "char \<Rightarrow> bool" where
  "json_space c \<longleftrightarrow> c \<in> {CHR '' '', CHR 0x09, CHR 0x0A, CHR 0x0D}"

definition normalize :: "text_env \<Rightarrow> (string \<Rightarrow> gerr + (json \<times> string)) \<Rightarrow> string \<Rightarrow> field_mapping \<Rightarrow> gerr + normalized" where
  "normalize te decode payload m =
     failif (payload = []) malformed_record
    (failif (\<not> valid_utf8 payload) malformed_record
    (failif (is_blank (fm_name_path m)) (Leaf (Product ErrMissingFieldMapping))
    (bindr (validate_mapping te m) (\<lambda>_.
     bindr (mapl (wrap2 (Product ErrMalformedRecord)) (decode payload)) (\<lambda>(v, rest).
     case v of JObj members \<Rightarrow>
       failif (\<not> list_all json_space rest) (Wrap malformed_record)
      (bindr (canonical_name te v (fm_name_path m)) (\<lambda>name.
       bindr (optional_field te v (fm_description_path m)) (\<lambda>desc.
       bindr (brand_field te v (fm_brand_path m)) (\<lambda>brand.
       bindr (origin_field te v (fm_origin_path m)) (\<lambda>origin.
       bindr (attribute_fields te v (fm_attributes m)) (\<lambda>attrs.
       Inr \<lparr>n_canonical_name = name, n_description = desc, n_brand = brand, n_origin_country = origin, n_attributes = attrs\<rparr>))))))
     | _ \<Rightarrow> Inl (Wrap malformed_record))))))"

subsection \<open>The fast path\<close>

lemma space_len_ascii: "code_of c \<le> (0x7F :: nat) \<Longrightarrow> space_len (c # s) = (if ascii_space (code_of c) then 1 else 0)"
  by (cases "c # s" rule: space_len.cases) (auto simp: space2_def space3_def)

lemma space_len_back_ascii: "code_of c \<le> (0x7F :: nat) \<Longrightarrow> space_len_back (c # s) = (if ascii_space (code_of c) then 1 else 0)"
  by (cases "c # s" rule: space_len_back.cases) (auto simp: space2_def space3_def)

lemma zero_width_ascii: "code_of c \<le> (0x7F :: nat) \<Longrightarrow> \<not> zero_width (c # s)"
  by (cases "c # s" rule: zero_width.cases) auto

text \<open>A text of printable ASCII without two blanks in a row is left alone.\<close>

lemma collapse_runs_id:
  "\<not> interior_spaces s \<Longrightarrow> (b \<Longrightarrow> s = [] \<or> hd s \<noteq> CHR '' '') \<Longrightarrow> collapse_runs b s = s"
proof (induction s arbitrary: b)
  case (Cons c s)
  then have c: "0x20 \<le> code_of c" "code_of c \<le> (0x7F :: nat)" by auto
  have sp: "c = CHR '' '' \<longleftrightarrow> code_of c = (0x20 :: nat)" using of_char_eq_iff [of c "CHR '' ''", where 'a = nat] by simp
  have z: "\<not> zero_width (c # s)" using zero_width_ascii c(2) .
  have l: "space_len (c # s) = (if c = CHR '' '' then 1 else 0)" using space_len_ascii [OF c(2), of s] c sp by (auto simp: ascii_space_def)
  show ?case
  proof (cases "c = CHR '' ''")
    case True
    have "s = [] \<or> hd s \<noteq> CHR '' ''" using Cons.prems(1) True by (cases s) auto
    then have "collapse_runs True s = s" using Cons.IH [of True] Cons.prems(1) by simp
    with True z l Cons.prems(2) show ?thesis by (cases b) auto
  next
    case False
    with z l Cons show ?thesis by simp
  qed
qed simp

lemma slow_path_id: "s \<noteq> [] \<Longrightarrow> \<not> needs_collapse s \<Longrightarrow> trim_space (collapse_runs False s) = s"
proof -
  assume s: "s \<noteq> []" "\<not> needs_collapse s"
  then have i: "\<not> interior_spaces s" "code_of (hd s) > (0x20 :: nat)" "code_of (last s) > (0x20 :: nat)" by (auto simp: needs_collapse_def)
  have ascii: "code_of c \<le> (0x7F :: nat)" if "c \<in> set s" for c using i(1) that by (induction s) auto
  have "space_len s = 0"
    using s(1) i(2) ascii space_len_ascii [of "hd s" "tl s"] by (cases s) (auto simp: ascii_space_def)
  moreover have "space_len_back (rev s) = 0"
  proof -
    obtain t c where t: "rev s = c # t" "c = last s" using s(1) by (cases s rule: rev_cases) auto
    then have "c \<in> set s" using s(1) by simp
    then show ?thesis using i(3) t(2) ascii [of c] unfolding t(1) by (simp add: space_len_back_ascii) (simp add: ascii_space_def)
  qed
  ultimately have "trim_space s = s" by (rule trim_space_id)
  with collapse_runs_id [OF i(1), of False] show ?thesis by simp
qed

subsection \<open>What Normalize promises\<close>

definition attribute_keys_distinct :: "text_env \<Rightarrow> (string \<times> string) list \<Rightarrow> bool" where
  "attribute_keys_distinct te as \<longleftrightarrow> distinct (map (\<lambda>a. fold_key te (fst a)) as)"

lemma validate_attributes_distinct:
  "validate_attributes te as seen = Inr () \<Longrightarrow>
     attribute_keys_distinct te as \<and> set seen \<inter> set (map (\<lambda>a. fold_key te (fst a)) as) = {} \<and> (\<forall>a \<in> set as. \<not> is_blank (fst a))"
proof (induction te as seen rule: validate_attributes.induct)
  case (2 te k p as seen)
  then have "\<not> is_blank k" "fold_key te k \<notin> set seen" "validate_attributes te as (fold_key te k # seen) = Inr ()"
    by (auto simp: bindr_Inr_iff Let_def fold_key_def split: if_splits)
  with 2 show ?case by (auto simp: attribute_keys_distinct_def bindr_Inr_iff Let_def fold_key_def split: if_splits)
qed (simp add: attribute_keys_distinct_def)

lemma attribute_fields_sub:
  "attribute_fields te doc as = Inr xs \<Longrightarrow> attribute_keys_distinct te as \<Longrightarrow>
     attribute_keys_distinct te xs \<and> fst ` set xs \<subseteq> fst ` set as \<and> (\<forall>x \<in> set xs. snd x \<noteq> [])"
proof (induction "as" arbitrary: xs)
  case (Cons a "as")
  obtain k path where a: "a = (k, path)" by (cases a)
  have dk: "attribute_keys_distinct te as" using Cons.prems(2) by (simp add: attribute_keys_distinct_def)
  show ?case
  proof (cases "\<exists>v. lookup_path doc path = Some v \<and> v \<noteq> JNull")
    case False
    then have "attribute_fields te doc as = Inr xs" using Cons.prems(1) a by (auto split: option.splits json.splits)
    with Cons.IH dk show ?thesis by force
  next
    case True
    then obtain v where v: "lookup_path doc path = Some v" "v \<noteq> JNull" by blast
    then have "bindr (scalar_text te v) (\<lambda>x. bindr (attribute_fields te doc as) (\<lambda>ys. Inr (if x = [] then ys else (k, x) # ys))) = Inr xs"
      using Cons.prems(1) unfolding a by (cases v) simp_all
    then obtain x ys where x: "attribute_fields te doc as = Inr ys" "xs = (if x = [] then ys else (k, x) # ys)"
      unfolding bindr_Inr_iff by blast
    from Cons.IH [OF x(1) dk] have ys: "attribute_keys_distinct te ys" "fst ` set ys \<subseteq> fst ` set as" "\<forall>y \<in> set ys. snd y \<noteq> []" by auto
    have keys: "set (map (\<lambda>a. fold_key te (fst a)) l) = fold_key te ` fst ` set l" for l :: "(string \<times> string) list"
      by (simp add: image_image)
    have "fold_key te k \<notin> fold_key te ` fst ` set as"
      using Cons.prems(2) unfolding a attribute_keys_distinct_def by (simp add: image_image)
    then have new: "fold_key te k \<notin> set (map (\<lambda>a. fold_key te (fst a)) ys)" unfolding keys using ys(2) by blast
    show ?thesis
    proof (cases "x = []")
      case True
      with x(2) ys show ?thesis by auto
    next
      case False
      with x(2) have xs: "xs = (k, x) # ys" by simp
      have "attribute_keys_distinct te xs" using ys(1) new xs by (simp add: attribute_keys_distinct_def)
      moreover have "fst ` set xs \<subseteq> fst ` set (a # as)" using ys(2) xs a by auto
      moreover have "\<forall>y \<in> set xs. snd y \<noteq> []" using ys(3) xs False by simp
      ultimately show ?thesis by blast
    qed
  qed
qed (simp add: attribute_keys_distinct_def)

lemma two_letters: "length c = 2 \<Longrightarrow> is_alpha c \<Longrightarrow> length (to_upper c) = 2 \<and> list_all is_upper_ascii (to_upper c)"
proof -
  assume l: "length c = 2" "is_alpha c"
  then obtain a b where c: "c = [a, b]" by (cases c rule: to_upper.cases) simp_all
  with l(2) have ab: "is_lower_ascii a \<or> is_upper_ascii a" "is_lower_ascii b \<or> is_upper_ascii b" by (simp_all add: is_alpha_def)
  moreover have "is_upper_ascii (upper_char x)" if "is_lower_ascii x \<or> is_upper_ascii x" for x
    using that by (auto simp: upper_char_def is_lower_ascii_def is_upper_ascii_def)
  ultimately have "is_upper_ascii (upper_char a)" "is_upper_ascii (upper_char b)" by blast+
  moreover have "code_of a < (0xC4 :: nat)" using ab(1) by (auto simp: is_lower_ascii_def is_upper_ascii_def)
  ultimately show ?thesis using c by simp
qed

text \<open>Claim C17. What \<open>Normalize\<close> accepts fits the product tables: a name that is not blank and has at
  most 512 characters, a brand of at most 255, an origin that is absent or two upper-case letters, and
  attributes that are not blank, come from the mapping, and whose keys stay distinct when the
  fingerprint folds them, so that no attribute overwrites another.\<close>

theorem normalize_well_formed:
  assumes "normalize te decode payload m = Inr n"
  shows "n_canonical_name n \<noteq> [] \<and> rune_count (n_canonical_name n) \<le> 512 \<and> rune_count (n_brand n) \<le> 255 \<and>
    (n_origin_country n = [] \<or> length (n_origin_country n) = 2 \<and> list_all is_upper_ascii (n_origin_country n)) \<and>
    (\<forall>a \<in> set (n_attributes n). snd a \<noteq> [] \<and> \<not> is_blank (fst a) \<and> fst a \<in> fst ` set (fm_attributes m)) \<and>
    distinct (map (\<lambda>a. fold_key te (fst a)) (n_attributes n))"
proof -
  obtain v rest where v: "decode payload = Inr (v, rest)" and vm: "validate_mapping te m = Inr ()"
    using assms by (auto simp: normalize_def failif_def bindr_Inr_iff mapl_def split: if_splits sum.splits)
  obtain members where o: "v = JObj members"
    using assms v by (cases v) (auto simp: normalize_def failif_def bindr_Inr_iff mapl_def split: if_splits)
  obtain name desc brand origin attrs where f: "canonical_name te v (fm_name_path m) = Inr name"
    "brand_field te v (fm_brand_path m) = Inr brand" "origin_field te v (fm_origin_path m) = Inr origin"
    "attribute_fields te v (fm_attributes m) = Inr attrs"
    "n = \<lparr>n_canonical_name = name, n_description = desc, n_brand = brand, n_origin_country = origin, n_attributes = attrs\<rparr>"
    using assms v o by (auto simp: normalize_def failif_def bindr_Inr_iff mapl_def split: if_splits)
  have "name \<noteq> [] \<and> rune_count name \<le> 512"
    using f(1) by (auto simp: canonical_name_def failif_def bindr_Inr_iff max_canonical_name_chars_def split: option.splits json.splits if_splits)
  moreover have "rune_count brand \<le> 255"
    using f(2) by (auto simp: brand_field_def failif_def bindr_Inr_iff max_brand_chars_def split: if_splits)
  moreover have "origin = [] \<or> length origin = 2 \<and> list_all is_upper_ascii origin"
    using f(3) two_letters by (auto simp: origin_field_def bindr_Inr_iff split: if_splits)
  moreover have "validate_attributes te (fm_attributes m) [] = Inr ()"
    using vm by (auto simp: validate_mapping_def failif_def bindr_Inr_iff split: if_splits)
  then have keys: "attribute_keys_distinct te (fm_attributes m)" "\<forall>a \<in> set (fm_attributes m). \<not> is_blank (fst a)"
    using validate_attributes_distinct by blast+
  moreover from attribute_fields_sub [OF f(4) keys(1)]
  have sub: "attribute_keys_distinct te attrs" "fst ` set attrs \<subseteq> fst ` set (fm_attributes m)" "\<forall>x \<in> set attrs. snd x \<noteq> []" by blast+
  have "snd x \<noteq> [] \<and> \<not> is_blank (fst x) \<and> fst x \<in> fst ` set (fm_attributes m)" if "x \<in> set attrs" for x
    using that keys(2) sub(2,3) by (metis image_eqI imageE subsetD)
  ultimately show ?thesis using f(5) sub(1) by (simp add: attribute_keys_distinct_def)
qed

text \<open>A payload with a price as a number, a blank attribute and spaces in its name.\<close>

definition demo_decode :: "string \<Rightarrow> gerr + (json \<times> string)" where
  "demo_decode p = (if p = ''{}'' then Inr (JObj [], []) else Inr (JObj [(''title'', JStr (''  Red'' @ [CHR 0x09] @ '' mug '')), (''brand'', JNull),
     (''origin'', JStr ''de''), (''price'', JNum ''12.50''), (''colour'', JStr '' '')], '' ''))"

definition demo_mapping :: field_mapping where
  "demo_mapping = \<lparr>fm_name_path = ''title'', fm_description_path = [], fm_brand_path = ''brand'', fm_origin_path = ''origin'',
     fm_attributes = [(''Price'', ''price''), (''Colour'', ''colour'')]\<rparr>"

lemma demo_normalize: "normalize demo_te demo_decode ''{...}'' demo_mapping = Inr \<lparr>n_canonical_name = ''Red mug'', n_description = [],
    n_brand = [], n_origin_country = ''DE'', n_attributes = [(''Price'', ''12.5'')]\<rparr>"
  by code_simp

theorem normalize_well_formed_witness:
  "rune_count ''Red mug'' \<le> 512 \<and> distinct (map (\<lambda>a. fold_key demo_te (fst a)) [(''Price'', ''12.5'')])"
  using normalize_well_formed [OF demo_normalize] by simp

end
