(* ===== verification/Source.thy ===== *)
theory Source
  imports Normalize
begin

text \<open>
  \<open>internal/domain/source\<close>: a source, its configuration (\<open>entity.go\<close>) and secret references (\<open>secrets.go\<close>).
  A configuration is a Go map with string keys, an association list with the values that JSON, or a
  caller, puts in it; \<open>'f\<close> is the type \<open>float64\<close>. The truncation of a float, \<open>url.Parse\<close> and the lower
  case of package strings are arguments.
\<close>

subsection \<open>Configuration values\<close>

datatype 'f config_value =
    CNil
  | CString string
  | CBool bool
  | CInt int
  | CFloat 'f
  | CStrings "string list"
  | CList "'f config_value list"
  | CMap "(string \<times> 'f config_value) list"

type_synonym 'f config = "(string \<times> 'f config_value) list"

record 'f source_env =
  se_text :: text_env
  se_trunc :: "'f \<Rightarrow> int"
  se_url :: "string \<Rightarrow> (string \<times> string) option"

text \<open>A key that is missing reads as nil.\<close>

definition config_at :: "'f config \<Rightarrow> string \<Rightarrow> 'f config_value" where
  "config_at c k = (case map_of c k of None \<Rightarrow> CNil | Some v \<Rightarrow> v)"

definition config_string :: "'f config \<Rightarrow> string \<Rightarrow> string" where
  "config_string c k = (case config_at c k of CString s \<Rightarrow> trim_space s | _ \<Rightarrow> [])"

fun string_items :: "'f config_value list \<Rightarrow> string list" where
  "string_items [] = []"
| "string_items (CString s # vs) = (if is_blank s then string_items vs else trim_space s # string_items vs)"
| "string_items (v # vs) = string_items vs"

definition parse_string_slice :: "'f config_value \<Rightarrow> string list" where
  "parse_string_slice v = (case v of CStrings ss \<Rightarrow> ss | CList vs \<Rightarrow> string_items vs | _ \<Rightarrow> [])"

definition parse_int :: "'f source_env \<Rightarrow> 'f config_value \<Rightarrow> int \<Rightarrow> int" where
  "parse_int e v dflt = (case v of
     CInt n \<Rightarrow> n
   | CFloat f \<Rightarrow> se_trunc e f
   | CString s \<Rightarrow> (case parse_int64 s of None \<Rightarrow> dflt | Some n \<Rightarrow> n)
   | _ \<Rightarrow> dflt)"

fun string_map :: "(string \<times> 'f config_value) list \<Rightarrow> gerr + (string \<times> string) list" where
  "string_map [] = Inr []"
| "string_map ((k, CString s) # m) = bindr (string_map m) (\<lambda>r. Inr ((k, trim_space s) # r))"
| "string_map (kv # m) = Inl (Opaque ''attribute_paths must be a string path'')"

definition parse_string_map :: "'f config_value \<Rightarrow> gerr + (string \<times> string) list" where
  "parse_string_map v = (case v of
     CNil \<Rightarrow> Inr [] | CMap m \<Rightarrow> string_map m | _ \<Rightarrow> Inl (Opaque ''attribute_paths must be a JSON object''))"

definition parse_field_mapping :: "text_env \<Rightarrow> 'f config_value \<Rightarrow> gerr + field_mapping option" where
  "parse_field_mapping te v = (case v of
     CNil \<Rightarrow> Inr None
   | CMap m \<Rightarrow>
       bindr (parse_string_map (config_at m ''attribute_paths'')) (\<lambda>attrs.
       let fm = \<lparr>fm_name_path = config_string m ''name_path'', fm_description_path = config_string m ''description_path'',
         fm_brand_path = config_string m ''brand_path'', fm_origin_path = config_string m ''origin_country_path'', fm_attributes = attrs\<rparr> in
       bindr (validate_mapping te fm) (\<lambda>_. Inr (Some fm)))
   | _ \<Rightarrow> Inl (Opaque ''field_mapping must be a JSON object''))"

subsection \<open>API sources\<close>

text \<open>\<open>ValidateSecretRef\<close>: a scheme of lower-case letters, a colon, and a key that is not blank.\<close>

definition validate_secret_ref :: "string \<Rightarrow> gerr + unit" where
  "validate_secret_ref ref = (case cut_at (CHR '':'') (trim_space ref) of
     None \<Rightarrow> Inl (Leaf (Source ErrInvalidSecretRef))
   | Some (scheme, key) \<Rightarrow>
       if scheme = [] \<or> is_blank key \<or> \<not> list_all is_lower_ascii scheme then Inl (Leaf (Source ErrInvalidSecretRef)) else Inr ())"

record pagination_config =
  pc_kind :: string
  pc_cursor_param :: string
  pc_cursor_path :: string
  pc_page_param :: string
  pc_page_size_param :: string
  pc_page_size :: int

record api_config =
  ac_base_url :: string
  ac_records_path :: string
  ac_id_field :: string
  ac_composite_ids :: "string list"
  ac_composite_sep :: string
  ac_pagination :: pagination_config
  ac_auth_kind :: string
  ac_auth_ref :: string
  ac_auth_header :: string
  ac_auth_user :: string
  ac_auth_password_ref :: string
  ac_field_mapping :: "field_mapping option"

definition validate_base_url :: "'f source_env \<Rightarrow> string \<Rightarrow> gerr + unit" where
  "validate_base_url e raw =
     failif (raw = []) (Opaque ''missing required base_url'')
    (case se_url e raw of None \<Rightarrow> Inl (Opaque ''base_url must be an absolute http(s) URL'')
     | Some (scheme, host) \<Rightarrow>
         if scheme \<noteq> ''http'' \<and> scheme \<noteq> ''https'' \<or> host = [] then Inl (Opaque ''base_url must be an absolute http(s) URL'')
         else Inr ())"

definition validate_auth :: "api_config \<Rightarrow> gerr + api_config" where
  "validate_auth c =
     (if ac_auth_kind c = [] \<or> ac_auth_kind c = ''none''
      then failif (ac_auth_ref c \<noteq> [] \<or> ac_auth_password_ref c \<noteq> []) (Opaque ''auth references are set'')
        (Inr (c\<lparr>ac_auth_kind := ''none''\<rparr>))
      else if ac_auth_kind c = ''bearer'' \<or> ac_auth_kind c = ''api_key_header''
      then bindr (mapl Wrap (validate_secret_ref (ac_auth_ref c))) (\<lambda>_. Inr c)
      else if ac_auth_kind c = ''basic''
      then failif (ac_auth_user c = []) (Opaque ''auth_user is required for basic auth'')
        (bindr (mapl Wrap (validate_secret_ref (ac_auth_password_ref c))) (\<lambda>_. Inr c))
      else Inl (Opaque ''unsupported auth_kind''))"

definition pagination_kind :: "pagination_config \<Rightarrow> string" where
  "pagination_kind p =
     (if pc_page_param p \<noteq> [] then ''page''
      else if pc_cursor_param p \<noteq> [] \<or> pc_cursor_path p \<noteq> [] then ''cursor'' else ''none'')"

definition read_pagination :: "'f source_env \<Rightarrow> 'f config \<Rightarrow> pagination_config" where
  "read_pagination e c =
     (let p = \<lparr>pc_kind = [], pc_cursor_param = config_string c ''cursor_param'', pc_cursor_path = config_string c ''cursor_path'',
        pc_page_param = config_string c ''page_param'', pc_page_size_param = config_string c ''page_size_param'',
        pc_page_size = parse_int e (config_at c ''page_size'') 100\<rparr> in p\<lparr>pc_kind := pagination_kind p\<rparr>)"

definition read_api_config :: "'f source_env \<Rightarrow> 'f config \<Rightarrow> api_config" where
  "read_api_config e c = \<lparr>
     ac_base_url = config_string c ''base_url'', ac_records_path = config_string c ''records_path'',
     ac_id_field = config_string c ''id_field'', ac_composite_ids = parse_string_slice (config_at c ''composite_ids''),
     ac_composite_sep = config_string c ''composite_sep'', ac_pagination = read_pagination e c,
     ac_auth_kind = te_lower (se_text e) (config_string c ''auth_kind''), ac_auth_ref = config_string c ''auth_ref'',
     ac_auth_header = config_string c ''auth_header'', ac_auth_user = config_string c ''auth_user'',
     ac_auth_password_ref = config_string c ''auth_password_ref'', ac_field_mapping = None\<rparr>"

definition parse_api_config :: "'f source_env \<Rightarrow> 'f config \<Rightarrow> gerr + api_config" where
  "parse_api_config e c =
     (let a = read_api_config e c in
      bindr (validate_base_url e (ac_base_url a)) (\<lambda>_.
      bindr (validate_auth a) (\<lambda>a.
      bindr (parse_field_mapping (se_text e) (config_at c ''field_mapping'')) (\<lambda>fm. Inr (a\<lparr>ac_field_mapping := fm\<rparr>)))))"

subsection \<open>Feed sources\<close>

record feed_source_config =
  sf_file_path :: string
  sf_format :: string
  sf_id_field :: string
  sf_composite_ids :: "string list"
  sf_composite_sep :: string
  sf_batch_size :: int
  sf_skip_malformed :: bool
  sf_field_mapping :: "field_mapping option"

definition parse_feed_config :: "'f source_env \<Rightarrow> 'f config \<Rightarrow> gerr + feed_source_config" where
  "parse_feed_config e c =
     (let path = config_string c ''file_path'';
          fmt = to_upper (config_string c ''format'');
          format = (if fmt = [] then ''NDJSON'' else fmt);
          batch = parse_int e (config_at c ''batch_size'') 500;
          skip = (case config_at c ''skip_malformed'' of CBool b \<Rightarrow> b | _ \<Rightarrow> True) in
      failif (path = []) (Opaque ''missing required file_path'')
     (failif (format \<noteq> ''CSV'' \<and> format \<noteq> ''NDJSON'') (Opaque ''unsupported feed format'')
     (failif (batch \<le> 0) (Opaque ''batch_size must be positive'')
     (bindr (parse_field_mapping (se_text e) (config_at c ''field_mapping'')) (\<lambda>fm.
      Inr \<lparr>sf_file_path = path, sf_format = format, sf_id_field = config_string c ''id_field'',
        sf_composite_ids = parse_string_slice (config_at c ''composite_ids''), sf_composite_sep = config_string c ''composite_sep'',
        sf_batch_size = batch, sf_skip_malformed = skip, sf_field_mapping = fm\<rparr>)))))"

subsection \<open>Sources\<close>

datatype source_type = TypeUnknown | TypeAPI | TypeFile | TypeFeed | TypeScraper | TypeOther string

record 'f source =
  so_id :: string
  so_name :: string
  so_type :: source_type
  so_config :: "'f config"
  so_rate_limit :: int
  so_created_at :: instant
  so_updated_at :: instant
  so_enabled :: bool

definition validate_source :: "'f source_env \<Rightarrow> 'f source \<Rightarrow> gerr + unit" where
  "validate_source e s =
     failif (is_blank (so_id s)) (Leaf (Source ErrInvalidSourceID))
    (failif (is_blank (so_name s)) (Leaf (Source ErrInvalidSourceName))
    (failif (so_rate_limit s \<le> 0) (Leaf (Source ErrInvalidRateLimit))
    (case so_type s of
       TypeAPI \<Rightarrow> bindr (mapl (wrap2 (Source ErrInvalidSourceConfig)) (parse_api_config e (so_config s))) (\<lambda>_. Inr ())
     | TypeFile \<Rightarrow> bindr (mapl (wrap2 (Source ErrInvalidSourceConfig)) (parse_feed_config e (so_config s))) (\<lambda>_. Inr ())
     | TypeFeed \<Rightarrow> bindr (mapl (wrap2 (Source ErrInvalidSourceConfig)) (parse_feed_config e (so_config s))) (\<lambda>_. Inr ())
     | TypeScraper \<Rightarrow> Inr ()
     | _ \<Rightarrow> Inl (Leaf (Source ErrInvalidSourceType)))))"

definition new_source :: "'f source_env \<Rightarrow> instant \<Rightarrow> string \<Rightarrow> string \<Rightarrow> source_type \<Rightarrow> 'f config \<Rightarrow> int \<Rightarrow> gerr + 'f source" where
  "new_source e now i name t c limit =
     (let s = \<lparr>so_id = i, so_name = trim_space name, so_type = t, so_config = c, so_rate_limit = limit,
        so_created_at = now, so_updated_at = now, so_enabled = True\<rparr> in
      bindr (validate_source e s) (\<lambda>_. Inr s))"

definition get_field_mapping :: "'f source_env \<Rightarrow> 'f source \<Rightarrow> gerr + field_mapping option" where
  "get_field_mapping e s = parse_field_mapping (se_text e) (config_at (so_config s) ''field_mapping'')"

definition set_rate_limit :: "instant \<Rightarrow> int \<Rightarrow> 'f source \<Rightarrow> gerr + 'f source" where
  "set_rate_limit now limit s =
     failif (limit \<le> 0) (Leaf (Source ErrInvalidRateLimit)) (Inr (s\<lparr>so_rate_limit := limit, so_updated_at := now\<rparr>))"

definition enable_source :: "instant \<Rightarrow> 'f source \<Rightarrow> 'f source" where
  "enable_source now s = s\<lparr>so_enabled := True, so_updated_at := now\<rparr>"

definition disable_source :: "instant \<Rightarrow> 'f source \<Rightarrow> 'f source" where
  "disable_source now s = s\<lparr>so_enabled := False, so_updated_at := now\<rparr>"

subsection \<open>The table of sources and its repository\<close>

text \<open>\<open>source_repository.go\<close> and \<open>application/source/service.go\<close>. A row is the source itself; \<open>sx_json\<close> is
  the configuration as \<open>json.Marshal\<close> and \<open>json.Unmarshal\<close> return it, \<open>sx_in_use\<close> the foreign keys.\<close>

record 'f source_store_env =
  sx_json :: "'f config \<Rightarrow> gerr + 'f config"
  sx_in_use :: "string \<Rightarrow> bool"

definition find_source :: "string \<Rightarrow> 'f source list \<Rightarrow> 'f source option" where
  "find_source i rows = find (\<lambda>s. so_id s = i) rows"

definition find_source_by_id :: "'f source list \<Rightarrow> string \<Rightarrow> gerr + 'f source" where
  "find_source_by_id rows i =
     failif (is_blank i) (Leaf (Source ErrSourceNotFound))
    (case find_source (trim_space i) rows of None \<Rightarrow> Inl (Leaf (Source ErrSourceNotFound)) | Some s \<Rightarrow> Inr s)"

definition by_source_id :: "'f source list \<Rightarrow> 'f source list" where
  "by_source_id rows = sort_key so_id rows"

definition list_sources :: "'f source list \<Rightarrow> 'f source list" where
  "list_sources rows = by_source_id rows"

definition find_active_sources :: "'f source list \<Rightarrow> 'f source list" where
  "find_active_sources rows = by_source_id (filter so_enabled rows)"

definition delete_source_row :: "'f source_store_env \<Rightarrow> string \<Rightarrow> 'f source list \<Rightarrow> gerr + ('f source list \<times> unit)" where
  "delete_source_row x i rows =
     failif (is_blank i) (Leaf (Source ErrSourceNotFound))
    (failif (sx_in_use x (trim_space i)) (Leaf (Source ErrSourceInUse))
     (Inr (filter (\<lambda>s. so_id s \<noteq> trim_space i) rows, ())))"

text \<open>\<open>INSERT \<dots> ON CONFLICT (id) DO UPDATE\<close>: the creation time of a known row stays.\<close>

definition upsert_source :: "'f source \<Rightarrow> 'f source list \<Rightarrow> 'f source list \<times> 'f source" where
  "upsert_source s rows = (case find_source (so_id s) rows of
     None \<Rightarrow> (rows @ [s], s)
   | Some old \<Rightarrow> let s' = s\<lparr>so_created_at := so_created_at old\<rparr> in
       (map (\<lambda>r. if so_id r = so_id s then s' else r) rows, s'))"

definition save_source :: "'f source_store_env \<Rightarrow> 'f source \<Rightarrow> 'f source list \<Rightarrow> gerr + ('f source list \<times> 'f source)" where
  "save_source x s rows =
     failif (is_blank (so_id s)) (Leaf (Source ErrInvalidSourceState))
    (bindr (mapl (wrap2 (Source ErrInvalidSourceState)) (if so_config s = [] then Inr [] else sx_json x (so_config s))) (\<lambda>c.
     bindr (mapl (\<lambda>_. Wrap (Leaf (Source ErrInvalidRateLimit))) (to_int32 (so_rate_limit s))) (\<lambda>_.
     bindr (mapl (wrap2 (Source ErrInvalidSourceState)) (required_audit_timestamps (so_created_at s) (so_updated_at s))) (\<lambda>_.
     case upsert_source (s\<lparr>so_config := c\<rparr>) rows of (rows', saved) \<Rightarrow>
       Inr (rows', s\<lparr>so_created_at := so_created_at saved, so_updated_at := so_updated_at saved\<rparr>)))))"

definition create_source ::
  "'f source_env \<Rightarrow> 'f source_store_env \<Rightarrow> instant \<Rightarrow> string \<Rightarrow> string \<Rightarrow> source_type \<Rightarrow> 'f config \<Rightarrow> int \<Rightarrow> 'f source list
     \<Rightarrow> gerr + ('f source list \<times> 'f source)" where
  "create_source e x now i name t c limit rows =
     bindr (mapl Wrap (new_source e now i (trim_space name) t c limit)) (\<lambda>s. mapl Wrap (save_source x s rows))"

definition get_source :: "string \<Rightarrow> 'f source list \<Rightarrow> gerr + 'f source" where
  "get_source i rows = failif (is_blank i) (Leaf (Source ErrInvalidSourceID)) (mapl Wrap (find_source_by_id rows i))"

definition update_rate_limit ::
  "'f source_store_env \<Rightarrow> instant \<Rightarrow> string \<Rightarrow> int \<Rightarrow> 'f source list \<Rightarrow> gerr + ('f source list \<times> 'f source)" where
  "update_rate_limit x now i limit rows =
     bindr (get_source i rows) (\<lambda>s. bindr (set_rate_limit now limit s) (\<lambda>s. mapl Wrap (save_source x s rows)))"

definition set_source_enabled ::
  "'f source_store_env \<Rightarrow> instant \<Rightarrow> string \<Rightarrow> bool \<Rightarrow> 'f source list \<Rightarrow> gerr + ('f source list \<times> 'f source)" where
  "set_source_enabled x now i enabled rows =
     bindr (get_source i rows) (\<lambda>s.
     mapl Wrap (save_source x (if enabled then enable_source now s else disable_source now s) rows))"

definition delete_source :: "'f source_store_env \<Rightarrow> string \<Rightarrow> 'f source list \<Rightarrow> gerr + ('f source list \<times> unit)" where
  "delete_source x i rows = failif (is_blank i) (Leaf (Source ErrInvalidSourceID)) (mapl Wrap (delete_source_row x i rows))"

subsection \<open>What a validated source looks like\<close>

definition secret_ref :: "string \<Rightarrow> bool" where
  "secret_ref ref \<longleftrightarrow> (\<exists>scheme key. trim_space ref = scheme @ CHR '':'' # key \<and> scheme \<noteq> [] \<and> list_all is_lower_ascii scheme \<and> \<not> is_blank key)"

lemma validate_secret_ref_iff: "validate_secret_ref ref = Inr () \<longleftrightarrow> secret_ref ref"
proof
  assume "validate_secret_ref ref = Inr ()"
  then obtain scheme key where "cut_at (CHR '':'') (trim_space ref) = Some (scheme, key)" "scheme \<noteq> []" "\<not> is_blank key" "list_all is_lower_ascii scheme"
    by (auto simp: validate_secret_ref_def split: option.splits prod.splits if_splits)
  then show "secret_ref ref" unfolding secret_ref_def cut_at_Some by blast
next
  assume "secret_ref ref"
  then obtain scheme key where s: "trim_space ref = scheme @ CHR '':'' # key" "scheme \<noteq> []" "list_all is_lower_ascii scheme" "\<not> is_blank key"
    unfolding secret_ref_def by blast
  have "CHR '':'' \<notin> set scheme" using s(3) by (auto simp: list_all_iff is_lower_ascii_def)
  then have "cut_at (CHR '':'') (trim_space ref) = Some (scheme, key)" using s(1) cut_at_Some by blast
  with s show "validate_secret_ref ref = Inr ()" by (simp add: validate_secret_ref_def)
qed

definition api_config_ok :: "api_config \<Rightarrow> bool" where
  "api_config_ok c \<longleftrightarrow> ac_base_url c \<noteq> [] \<and>
     (ac_auth_kind c = ''none'' \<and> ac_auth_ref c = [] \<and> ac_auth_password_ref c = [] \<or>
      ac_auth_kind c \<in> {''bearer'', ''api_key_header''} \<and> secret_ref (ac_auth_ref c) \<or>
      ac_auth_kind c = ''basic'' \<and> ac_auth_user c \<noteq> [] \<and> secret_ref (ac_auth_password_ref c)) \<and>
     pc_kind (ac_pagination c) = pagination_kind (ac_pagination c)"

definition feed_config_ok :: "feed_source_config \<Rightarrow> bool" where
  "feed_config_ok c \<longleftrightarrow> sf_file_path c \<noteq> [] \<and> sf_format c \<in> {''CSV'', ''NDJSON''} \<and> 0 < sf_batch_size c"

definition mapping_ok :: "text_env \<Rightarrow> field_mapping option \<Rightarrow> bool" where
  "mapping_ok te fm \<longleftrightarrow> (case fm of None \<Rightarrow> True | Some m \<Rightarrow> validate_mapping te m = Inr ())"

definition source_ok :: "'f source_env \<Rightarrow> 'f source \<Rightarrow> bool" where
  "source_ok e s \<longleftrightarrow> \<not> is_blank (so_id s) \<and> \<not> is_blank (so_name s) \<and> 0 < so_rate_limit s \<and>
     (case so_type s of
        TypeAPI \<Rightarrow> (\<exists>c. parse_api_config e (so_config s) = Inr c \<and> api_config_ok c \<and> mapping_ok (se_text e) (ac_field_mapping c))
      | TypeFile \<Rightarrow> (\<exists>c. parse_feed_config e (so_config s) = Inr c \<and> feed_config_ok c \<and> mapping_ok (se_text e) (sf_field_mapping c))
      | TypeFeed \<Rightarrow> (\<exists>c. parse_feed_config e (so_config s) = Inr c \<and> feed_config_ok c \<and> mapping_ok (se_text e) (sf_field_mapping c))
      | TypeScraper \<Rightarrow> True | _ \<Rightarrow> False)"

lemma parse_field_mapping_ok: "parse_field_mapping te v = Inr fm \<Longrightarrow> mapping_ok te fm"
  by (cases v) (auto simp: parse_field_mapping_def mapping_ok_def bindr_Inr_iff Let_def)

lemma pagination_kind_read [simp]: "pc_kind (read_pagination e c) = pagination_kind (read_pagination e c)"
  by (simp add: read_pagination_def pagination_kind_def Let_def)

lemma parse_api_config_ok:
  assumes "parse_api_config e c = Inr a"
  shows "api_config_ok a \<and> mapping_ok (se_text e) (ac_field_mapping a)"
proof -
  let ?r = "read_api_config e c"
  obtain b fm where b: "validate_base_url e (ac_base_url ?r) = Inr ()" "validate_auth ?r = Inr b"
    "parse_field_mapping (se_text e) (config_at c ''field_mapping'') = Inr fm" "a = b\<lparr>ac_field_mapping := fm\<rparr>"
    using assms by (auto simp: parse_api_config_def bindr_Inr_iff Let_def)
  have "ac_base_url ?r \<noteq> []" using b(1) by (auto simp: validate_base_url_def failif_def)
  moreover have "ac_pagination ?r = read_pagination e c" by (simp add: read_api_config_def)
  ultimately have "api_config_ok a" using b(2,4)
    by (auto simp: validate_auth_def api_config_ok_def failif_def bindr_Inr_iff mapl_def validate_secret_ref_iff
        split: if_splits sum.splits)
  with parse_field_mapping_ok [OF b(3)] b(4) show ?thesis by simp
qed

lemma parse_feed_config_ok: "parse_feed_config e c = Inr f \<Longrightarrow> feed_config_ok f \<and> mapping_ok (se_text e) (sf_field_mapping f)"
  using parse_field_mapping_ok
  by (auto simp: parse_feed_config_def feed_config_ok_def failif_def bindr_Inr_iff Let_def split: if_splits)

lemma validate_source_ok: "validate_source e s = Inr () \<longleftrightarrow> source_ok e s"
proof
  assume "validate_source e s = Inr ()"
  then show "source_ok e s"
    by (cases "so_type s") (auto simp: validate_source_def source_ok_def failif_def bindr_Inr_iff mapl_def
        split: if_splits sum.splits dest: parse_api_config_ok parse_feed_config_ok)
next
  assume "source_ok e s"
  then show "validate_source e s = Inr ()"
    by (cases "so_type s") (auto simp: validate_source_def source_ok_def failif_def bindr_def mapl_def)
qed

subsection \<open>The sources a service can reach\<close>

text \<open>Values as \<open>json.Unmarshal\<close> makes them; encoding and decoding returns them unchanged.\<close>

fun json_value :: "'f config_value \<Rightarrow> bool" where
  "json_value (CInt n) \<longleftrightarrow> False"
| "json_value (CStrings ss) \<longleftrightarrow> False"
| "json_value (CList vs) \<longleftrightarrow> list_all json_value vs"
| "json_value (CMap m) \<longleftrightarrow> list_all (\<lambda>kv. json_value (snd kv)) m"
| "json_value v \<longleftrightarrow> True"

definition json_config :: "'f config \<Rightarrow> bool" where
  "json_config c \<longleftrightarrow> json_value (CMap c)"

datatype 'f source_op =
    OpCreate instant string string source_type "'f config" int
  | OpRateLimit instant string int
  | OpEnabled instant string bool
  | OpDelete string

definition after_source :: "'f source list \<Rightarrow> gerr + ('f source list \<times> 'a) \<Rightarrow> 'f source list" where
  "after_source rows r = (case r of Inl _ \<Rightarrow> rows | Inr (rows', _) \<Rightarrow> rows')"

fun exec_source_op :: "'f source_env \<Rightarrow> 'f source_store_env \<Rightarrow> 'f source_op \<Rightarrow> 'f source list \<Rightarrow> 'f source list" where
  "exec_source_op e x (OpCreate now i name t c limit) rows = after_source rows (create_source e x now i name t c limit rows)"
| "exec_source_op e x (OpRateLimit now i limit) rows = after_source rows (update_rate_limit x now i limit rows)"
| "exec_source_op e x (OpEnabled now i b) rows = after_source rows (set_source_enabled x now i b rows)"
| "exec_source_op e x (OpDelete i) rows = after_source rows (delete_source x i rows)"

fun op_config :: "'f source_op \<Rightarrow> 'f config" where
  "op_config (OpCreate now i name t c limit) = c"
| "op_config op = []"

definition json_roundtrip :: "'f source_store_env \<Rightarrow> bool" where
  "json_roundtrip x \<longleftrightarrow> (\<forall>c. json_config c \<longrightarrow> sx_json x c = Inr c)"

definition source_row_ok :: "'f source_env \<Rightarrow> 'f source \<Rightarrow> bool" where
  "source_row_ok e s \<longleftrightarrow> source_ok e s \<and> json_config (so_config s) \<and> so_rate_limit s < 2 ^ 31"

definition sources_inv :: "'f source_env \<Rightarrow> 'f source list \<Rightarrow> bool" where
  "sources_inv e rows \<longleftrightarrow> distinct (map so_id rows) \<and> list_all (source_row_ok e) rows"

lemma save_source_inv:
  assumes inv: "sources_inv e rows" and s: "source_ok e s" "json_config (so_config s)" and x: "json_roundtrip x"
    and save: "save_source x s rows = Inr (rows', s')"
  shows "sources_inv e rows'"
proof -
  have c: "(if so_config s = [] then Inr [] else sx_json x (so_config s)) = Inr (so_config s)"
    using s(2) x by (simp add: json_roundtrip_def)
  have up: "fst (upsert_source s rows) = rows'" and rl: "so_rate_limit s < 2 ^ 31"
    using save unfolding save_source_def c
    by (auto simp: failif_def bindr_Inr_iff mapl_def to_int32_def split: if_splits sum.splits prod.splits)
  have ok: "source_row_ok e (s\<lparr>so_created_at := t\<rparr>)" for t
    using s rl by (simp add: source_row_ok_def source_ok_def cong: source_type.case_cong)
  show ?thesis
  proof (cases "find_source (so_id s) rows")
    case None
    then have "so_id s \<notin> so_id ` set rows" by (auto simp: find_source_def find_None_iff)
    with None up inv ok [of "so_created_at s"] show ?thesis by (auto simp: sources_inv_def upsert_source_def)
  next
    case (Some old)
    let ?f = "\<lambda>r. if so_id r = so_id s then s\<lparr>so_created_at := so_created_at old\<rparr> else r"
    have rows': "rows' = map ?f rows" using up Some by (simp add: upsert_source_def Let_def)
    have "map so_id rows' = map so_id rows" unfolding rows' by simp
    moreover have "list_all (source_row_ok e) rows'" using inv ok rows' by (auto simp: sources_inv_def list_all_iff)
    ultimately show ?thesis using inv by (simp add: sources_inv_def)
  qed
qed

lemma find_source_by_id_row: "find_source_by_id rows i = Inr s \<Longrightarrow> s \<in> set rows"
  by (auto simp: find_source_by_id_def failif_def find_source_def find_Some_iff split: if_splits option.splits)

lemma get_source_row: "get_source i rows = Inr s \<Longrightarrow> s \<in> set rows"
  using find_source_by_id_row by (auto simp: get_source_def failif_def mapl_def split: if_splits sum.splits)

lemma source_ok_edits:
  "source_ok e s \<Longrightarrow> 0 < l \<Longrightarrow> source_ok e (s\<lparr>so_rate_limit := l, so_updated_at := t\<rparr>)"
  "source_ok e s \<Longrightarrow> source_ok e (s\<lparr>so_enabled := b, so_updated_at := t\<rparr>)"
  by (simp_all add: source_ok_def cong: source_type.case_cong)

lemma exec_source_op_inv:
  assumes inv: "sources_inv e rows" and x: "json_roundtrip x" and op: "json_config (op_config op)"
  shows "sources_inv e (exec_source_op e x op rows)"
proof -
  have edit: "sources_inv e (after_source rows (bindr (get_source i rows) (\<lambda>s. bindr (f s) (\<lambda>s. mapl Wrap (save_source x s rows)))))"
    if f: "\<And>s s'. source_row_ok e s \<Longrightarrow> f s = Inr s' \<Longrightarrow> source_ok e s' \<and> so_config s' = so_config s" for i f
  proof (cases "bindr (get_source i rows) (\<lambda>s. bindr (f s) (\<lambda>s. mapl Wrap (save_source x s rows)))")
    case (Inr r)
    then obtain s s' where s: "get_source i rows = Inr s" "f s = Inr s'" "save_source x s' rows = Inr r"
      unfolding bindr_Inr_iff mapl_Inr_iff by blast
    have "source_row_ok e s" using get_source_row [OF s(1)] inv by (simp add: sources_inv_def list_all_iff)
    with f [OF this s(2)] save_source_inv [OF inv _ _ x, of s' "fst r" "snd r"] s(3) Inr show ?thesis
      by (auto simp: after_source_def source_row_ok_def split: prod.splits)
  qed (simp add: after_source_def inv)
  show ?thesis
  proof (cases op)
    case (OpCreate now i name t c limit)
    show ?thesis
    proof (cases "create_source e x now i name t c limit rows")
      case (Inr r)
      then obtain s where s: "new_source e now i (trim_space name) t c limit = Inr s" "save_source x s rows = Inr r"
        by (auto simp: create_source_def bindr_Inr_iff mapl_def split: sum.splits)
      then have "source_ok e s" "so_config s = c" using validate_source_ok by (auto simp: new_source_def bindr_Inr_iff Let_def)
      with save_source_inv [OF inv _ _ x, of s "fst r" "snd r"] s(2) Inr op OpCreate show ?thesis
        by (auto simp: after_source_def split: prod.splits)
    qed (simp add: after_source_def inv OpCreate)
  next
    case (OpRateLimit now i limit)
    have "source_ok e s' \<and> so_config s' = so_config s" if "source_row_ok e s" "set_rate_limit now limit s = Inr s'" for s s'
      using that by (auto simp: set_rate_limit_def source_row_ok_def source_ok_edits)
    from edit [of "set_rate_limit now limit" i, OF this] OpRateLimit show ?thesis by (simp add: update_rate_limit_def)
  next
    case (OpEnabled now i b)
    have "source_ok e s' \<and> so_config s' = so_config s"
      if "source_row_ok e s" "Inr (if b then enable_source now s else disable_source now s) = Inr s'" for s s'
      using that by (auto simp: enable_source_def disable_source_def source_row_ok_def source_ok_edits)
    from edit [of "\<lambda>s. Inr (if b then enable_source now s else disable_source now s)" i, OF this] OpEnabled
    show ?thesis by (simp add: set_source_enabled_def)
  next
    case (OpDelete i)
    have "sources_inv e (filter P rows)" for P using inv by (auto simp: sources_inv_def distinct_map_filter list_all_iff)
    with OpDelete inv show ?thesis
      by (auto simp: after_source_def delete_source_def delete_source_row_def failif_def mapl_def split: if_splits)
  qed
qed


definition demo_source_env :: "int source_env" where
  "demo_source_env = \<lparr>se_text = demo_te, se_trunc = (\<lambda>f. f), se_url = (\<lambda>u. if u = ''https://a'' then Some (''https'', ''a'') else None)\<rparr>"

definition demo_store_env :: "int source_store_env" where
  "demo_store_env = \<lparr>sx_json = Inr, sx_in_use = (\<lambda>_. False)\<rparr>"

definition demo_source_ops :: "int source_op list" where
  "demo_source_ops = [
     OpCreate 5 ''s1'' '' Shop '' TypeAPI [(''base_url'', CString ''https://a''), (''auth_kind'', CString ''Bearer''), (''auth_ref'', CString ''env:TOKEN'')] 3,
     OpCreate 6 ''s2'' ''Feed'' TypeFeed [(''file_path'', CString ''/f''), (''batch_size'', CFloat 50)] 1,
     OpCreate 7 ''s3'' ''Leak'' TypeAPI [(''base_url'', CString ''https://a''), (''auth_kind'', CString ''bearer''), (''auth_ref'', CString ''hunter2'')] 3,
     OpRateLimit 8 ''s1'' 9, OpEnabled 9 ''s2'' False]"

lemma demo_sources: "map (\<lambda>s. (so_id s, so_name s, so_rate_limit s, so_enabled s)) (fold (exec_source_op demo_source_env demo_store_env) demo_source_ops []) =
    [(''s1'', ''Shop'', 9, True), (''s2'', ''Feed'', 1, False)]"
  by code_simp


text \<open>A source whose id has blanks around it is saved under that id and looked up under the trimmed one.\<close>

lemma untrimmed_source_is_lost:
  "(case create_source demo_source_env demo_store_env 5 '' s1'' ''Shop'' TypeScraper [] 3 [] of
      Inl _ \<Rightarrow> False | Inr (rows, s) \<Rightarrow> length rows = 1 \<and> get_source (so_id s) rows = Inl (Wrap (Leaf (Source ErrSourceNotFound))))"
  by code_simp

text \<open>A credential that the chosen kind of authentication does not use is not checked: a literal stays
  in the configuration.\<close>

lemma unused_literal_secret_is_stored:
  "(case parse_api_config demo_source_env [(''base_url'', CString ''https://a''), (''auth_kind'', CString ''bearer''),
        (''auth_ref'', CString ''env:TOKEN''), (''auth_password_ref'', CString ''hunter2'')] of
      Inl _ \<Rightarrow> False | Inr c \<Rightarrow> ac_auth_password_ref c = ''hunter2'')"
  by code_simp

end
