(* ===== verification/ProductStore.thy ===== *)
theory ProductStore
  imports Batch Db
begin

text \<open>
  The tables \<open>products\<close>, \<open>product_sources\<close>, \<open>product_versions\<close> and \<open>product_changes\<close>, and the
  repository that reads and writes them: \<open>internal/infrastructure/postgres/product_repository.go\<close>
  and \<open>product_batch.go\<close>, with the SQL of \<open>generated/products.sql.go\<close>,
  \<open>product_sources.sql.go\<close> and \<open>product_changes.sql.go\<close>.

  A table is the list of its rows in the order of insertion. The unique constraints and the foreign
  keys among the four tables are written out; the widths of the columns and the foreign keys to
  other tables are the arguments \<open>px_check_\<dots>\<close> of the environment, \<open>px_round\<close> is the microsecond
  rounding of a stored time, and \<open>px_fault\<close> is what the server reports for a statement on its own
  account (a deadlock, a lost connection).
\<close>

subsection \<open>Tables and environment\<close>

record product_db =
  pb_products :: "product list"
  pb_sources :: "product_source list"
  pb_versions :: "product_version list"
  pb_changes :: "product_change list"

text \<open>An error of the driver: a \<open>pgconn.PgError\<close> with its code and constraint, or another one.\<close>

datatype db_error = PgError string string | OtherError gerr

datatype product_stmt =
    CopyProducts | CopySources | CopyVersions | UpdateVersions | UpdateFingerprints
  | UpdateSourcesChanged | UpdateWatermarks | CopyChanges | ReadSnapshots | ReadProducts

record product_env =
  px_scan :: scanner
  px_round :: "instant \<Rightarrow> instant"
  px_check_product :: "product \<Rightarrow> db_error option"
  px_check_source :: "product_source \<Rightarrow> db_error option"
  px_check_version :: "product_version \<Rightarrow> db_error option"
  px_check_change :: "product_change \<Rightarrow> db_error option"
  px_fault :: "product_stmt \<Rightarrow> db_error option"

definition uq_source_external :: string where
  "uq_source_external = ''uq_product_sources_source_external''"

definition uq_product_version :: string where
  "uq_product_version = ''uq_product_versions_product_version''"

fun driver_error :: "db_error \<Rightarrow> gerr" where
  "driver_error (PgError c k) = Opaque c"
| "driver_error (OtherError x) = x"

fun map_postgres_error :: "db_error \<Rightarrow> gerr" where
  "map_postgres_error (PgError c k) =
     (let err = Wrap (driver_error (PgError c k)) in
      if c = ''23505'' \<and> k = uq_source_external then wrap2 (Product ErrIdentityConflict) err
      else if c = ''23505'' \<and> k = uq_product_version then wrap2 (Product ErrVersionConflict) err
      else if c = ''40P01'' \<or> c = ''40001'' then wrap2 (Product ErrDeadlockConflict) err
      else err)"
| "map_postgres_error (OtherError x) = Wrap x"

subsection \<open>Parameters of the statements\<close>

definition req_id :: "product_env \<Rightarrow> string \<Rightarrow> gerr + string" where
  "req_id e s = mapl (wrap2 (Product ErrInvalidProductState)) (parse_uuid (px_scan e) s)"

definition opt_id :: "product_env \<Rightarrow> string option \<Rightarrow> gerr + string option" where
  "opt_id e s = mapl (wrap2 (Product ErrInvalidProductState)) (parse_optional_uuid (px_scan e) s)"

definition req_time :: "product_env \<Rightarrow> instant \<Rightarrow> gerr + instant" where
  "req_time e t = bindr (mapl (wrap2 (Product ErrInvalidProductState)) (required_timestamptz t)) (\<lambda>u. Inr (px_round e u))"

definition opt_time :: "product_env \<Rightarrow> instant option \<Rightarrow> instant option" where
  "opt_time e t = map_option (px_round e) (to_timestamptz t)"

fun mapr :: "('a \<Rightarrow> 'e + 'b) \<Rightarrow> 'a list \<Rightarrow> 'e + 'b list" where
  "mapr f [] = Inr []"
| "mapr f (x # xs) = bindr (f x) (\<lambda>y. bindr (mapr f xs) (\<lambda>ys. Inr (y # ys)))"

definition copy_product_params :: "product_env \<Rightarrow> product \<Rightarrow> gerr + product" where
  "copy_product_params e p =
     bindr (req_id e (p_id p)) (\<lambda>i.
     bindr (opt_id e (p_current_version_id p)) (\<lambda>v.
     bindr (req_time e (p_created_at p)) (\<lambda>c.
     bindr (req_time e (p_updated_at p)) (\<lambda>u.
       Inr (p\<lparr>p_id := i, p_current_version_id := v, p_created_at := c, p_updated_at := u\<rparr>)))))"

definition copy_source_params :: "product_env \<Rightarrow> product_source \<Rightarrow> gerr + product_source" where
  "copy_source_params e ps =
     bindr (req_id e (ps_id ps)) (\<lambda>i.
     bindr (req_id e (ps_product_id ps)) (\<lambda>p.
     bindr (req_time e (ps_first_seen_at ps)) (\<lambda>f.
     bindr (req_time e (ps_last_changed_at ps)) (\<lambda>c.
     bindr (req_time e (ps_last_received_at ps)) (\<lambda>r.
       Inr (ps\<lparr>ps_id := i, ps_product_id := p, ps_first_seen_at := f, ps_last_changed_at := c,
         ps_last_source_updated_at := opt_time e (ps_last_source_updated_at ps), ps_last_received_at := r\<rparr>))))))"

definition copy_version_params :: "product_env \<Rightarrow> product_version \<Rightarrow> gerr + product_version" where
  "copy_version_params e v =
     bindr (mapl (wrap2 (Product ErrInvalidProductState)) (to_int32 (v_number v))) (\<lambda>n.
     bindr (req_id e (v_id v)) (\<lambda>i.
     bindr (req_id e (v_product_id v)) (\<lambda>p.
     bindr (opt_id e (v_ingestion_run_id v)) (\<lambda>r.
     bindr (req_time e (v_created_at v)) (\<lambda>c.
       Inr (v\<lparr>v_id := i, v_product_id := p, v_number := n, v_ingestion_run_id := r, v_created_at := c\<rparr>))))))"

definition copy_change_params :: "product_env \<Rightarrow> product_change \<Rightarrow> gerr + product_change" where
  "copy_change_params e c =
     bindr (req_id e (ch_id c)) (\<lambda>i.
     bindr (req_id e (ch_product_id c)) (\<lambda>p.
     bindr (req_id e (ch_to_version_id c)) (\<lambda>t.
     bindr (opt_id e (ch_from_version_id c)) (\<lambda>f.
     bindr (opt_id e (ch_ingestion_run_id c)) (\<lambda>r.
     bindr (opt_id e (ch_raw_record_id c)) (\<lambda>w.
     bindr (req_time e (ch_detected_at c)) (\<lambda>d.
       Inr (c\<lparr>ch_id := i, ch_product_id := p, ch_to_version_id := t, ch_from_version_id := f,
         ch_ingestion_run_id := r, ch_raw_record_id := w, ch_detected_at := d\<rparr>))))))))"

subsection \<open>Inserting rows\<close>

text \<open>\<open>COPY\<close> of the rows: the first row that violates a constraint fails the statement.\<close>

fun insert_all :: "('r \<Rightarrow> 'r list \<Rightarrow> db_error option) \<Rightarrow> 'r list \<Rightarrow> 'r list \<Rightarrow> db_error + 'r list" where
  "insert_all bad [] rows = Inr rows"
| "insert_all bad (r # rs) rows =
     (case bad r rows of Some x \<Rightarrow> Inl x | None \<Rightarrow> insert_all bad rs (rows @ [r]))"

definition violates :: "bool \<Rightarrow> string \<Rightarrow> db_error option \<Rightarrow> db_error option" where
  "violates c k rest = (if c then Some (PgError ''23505'' k) else rest)"

definition missing_key :: "bool \<Rightarrow> db_error option \<Rightarrow> db_error option" where
  "missing_key c rest = (if c then Some (PgError ''23503'' ''fkey'') else rest)"

definition bad_product :: "product_env \<Rightarrow> product \<Rightarrow> product list \<Rightarrow> db_error option" where
  "bad_product e p rows = violates (p_id p \<in> p_id ` set rows) ''products_pkey'' (px_check_product e p)"

definition bad_source :: "product_env \<Rightarrow> product list \<Rightarrow> product_source \<Rightarrow> product_source list \<Rightarrow> db_error option" where
  "bad_source e ps s rows =
     violates (ps_id s \<in> ps_id ` set rows) ''product_sources_pkey''
    (violates (list_ex (\<lambda>q. ps_source_id q = ps_source_id s \<and> ps_external_product_id q = ps_external_product_id s) rows)
       uq_source_external
    (missing_key (ps_product_id s \<notin> p_id ` set ps) (px_check_source e s)))"

definition bad_version :: "product_env \<Rightarrow> product list \<Rightarrow> product_version \<Rightarrow> product_version list \<Rightarrow> db_error option" where
  "bad_version e ps v rows =
     violates (v_id v \<in> v_id ` set rows) ''product_versions_pkey''
    (violates (list_ex (\<lambda>q. v_product_id q = v_product_id v \<and> v_number q = v_number v) rows) uq_product_version
    (missing_key (v_product_id v \<notin> p_id ` set ps) (px_check_version e v)))"

definition bad_change ::
  "product_env \<Rightarrow> product list \<Rightarrow> product_version list \<Rightarrow> product_change \<Rightarrow> product_change list \<Rightarrow> db_error option" where
  "bad_change e ps vs c rows =
     violates (ch_id c \<in> ch_id ` set rows) ''product_changes_pkey''
    (violates (ch_to_version_id c \<in> ch_to_version_id ` set rows) ''uq_product_changes_to_version''
    (missing_key (ch_product_id c \<notin> p_id ` set ps \<or> ch_to_version_id c \<notin> v_id ` set vs \<or>
       (case ch_from_version_id c of None \<Rightarrow> False | Some f \<Rightarrow> f \<notin> v_id ` set vs)) (px_check_change e c)))"

definition copy_rows ::
  "product_env \<Rightarrow> product_stmt \<Rightarrow> ('r \<Rightarrow> gerr + 'r) \<Rightarrow> ('r \<Rightarrow> 'r list \<Rightarrow> db_error option) \<Rightarrow> 'r list \<Rightarrow> 'r list \<Rightarrow> gerr + 'r list" where
  "copy_rows e st to_params bad new rows =
     (if new = [] then Inr rows
      else bindr (mapr (\<lambda>r. mapl Wrap (to_params r)) new) (\<lambda>ps.
        mapl map_postgres_error (case px_fault e st of Some x \<Rightarrow> Inl x | None \<Rightarrow> insert_all bad ps rows)))"

subsection \<open>Guarded updates\<close>

definition version_update_params :: "product_env \<Rightarrow> guarded_update \<Rightarrow> gerr + guarded_update" where
  "version_update_params e u =
     bindr (req_id e (gu_product_id u)) (\<lambda>i.
     bindr (req_id e (gu_to_version_id u)) (\<lambda>t.
     bindr (opt_id e (gu_expected_version_id u)) (\<lambda>x.
     bindr (req_time e (gu_updated_at u)) (\<lambda>d.
       Inr (u\<lparr>gu_product_id := i, gu_to_version_id := t, gu_expected_version_id := x, gu_updated_at := d\<rparr>)))))"

definition fingerprint_update_params :: "product_env \<Rightarrow> fingerprint_update \<Rightarrow> gerr + fingerprint_update" where
  "fingerprint_update_params e u =
     bindr (req_id e (fu_product_id u)) (\<lambda>i.
     bindr (opt_id e (fu_expected_version_id u)) (\<lambda>x.
     bindr (req_time e (fu_updated_at u)) (\<lambda>d.
       Inr (u\<lparr>fu_product_id := i, fu_expected_version_id := x, fu_updated_at := d\<rparr>))))"

definition changed_update_params :: "product_env \<Rightarrow> changed_update \<Rightarrow> gerr + changed_update" where
  "changed_update_params e u =
     bindr (req_id e (cu_product_source_id u)) (\<lambda>i.
     bindr (req_time e (cu_last_changed_at u)) (\<lambda>c.
     bindr (req_time e (cu_received_at u)) (\<lambda>r.
       Inr (u\<lparr>cu_product_source_id := i, cu_last_changed_at := c,
         cu_source_updated_at := opt_time e (cu_source_updated_at u), cu_received_at := r\<rparr>))))"

definition watermark_update_params :: "product_env \<Rightarrow> watermark_update \<Rightarrow> gerr + watermark_update" where
  "watermark_update_params e u =
     bindr (req_id e (wu_product_source_id u)) (\<lambda>i.
     bindr (req_time e (wu_received_at u)) (\<lambda>r.
       Inr (u\<lparr>wu_product_source_id := i, wu_source_updated_at := opt_time e (wu_source_updated_at u),
         wu_received_at := r\<rparr>)))"

text \<open>
  \<open>UPDATE t SET f(t, u) FROM u WHERE m(t, u)\<close>: each row is joined with one matching row of \<open>u\<close>;
  the result is the table and the number of rows updated. A row the update leaves in violation of
  its column checks fails the statement.
\<close>

fun update_from ::
  "('r \<Rightarrow> db_error option) \<Rightarrow> ('r \<Rightarrow> 'u \<Rightarrow> bool) \<Rightarrow> ('r \<Rightarrow> 'u \<Rightarrow> 'r) \<Rightarrow> 'u list \<Rightarrow> 'r list \<Rightarrow> db_error + ('r list \<times> nat)" where
  "update_from chk m f us [] = Inr ([], 0)"
| "update_from chk m f us (r # rs) =
     (case find (m r) us of
        None \<Rightarrow> bindr (update_from chk m f us rs) (\<lambda>(qs, n). Inr (r # qs, n))
      | Some u \<Rightarrow> (case chk (f r u) of Some x \<Rightarrow> Inl x
          | None \<Rightarrow> bindr (update_from chk m f us rs) (\<lambda>(qs, n). Inr (f r u # qs, Suc n))))"

definition require_all_updated :: "nat \<Rightarrow> nat \<Rightarrow> gerr + unit" where
  "require_all_updated n want = (if n \<noteq> want then Inl (Wrap (Leaf (Product ErrVersionConflict))) else Inr ())"

definition batch_update ::
  "product_env \<Rightarrow> product_stmt \<Rightarrow> ('u \<Rightarrow> gerr + 'u) \<Rightarrow> ('u \<Rightarrow> string) \<Rightarrow> bool \<Rightarrow> ('r \<Rightarrow> db_error option) \<Rightarrow> ('r \<Rightarrow> 'u \<Rightarrow> bool)
     \<Rightarrow> ('r \<Rightarrow> 'u \<Rightarrow> 'r) \<Rightarrow> 'u list \<Rightarrow> 'r list \<Rightarrow> gerr + 'r list" where
  "batch_update e st to_params key all chk m f us rows =
     (if us = [] then Inr rows
      else bindr (mapr to_params (sort_key key us)) (\<lambda>ps.
        bindr (mapl map_postgres_error (case px_fault e st of Some x \<Rightarrow> Inl x
                 | None \<Rightarrow> update_from chk m f ps rows)) (\<lambda>(rows', n).
        bindr (if all then require_all_updated n (length us) else Inr ()) (\<lambda>_. Inr rows'))))"

definition guarded :: "product \<Rightarrow> guarded_update \<Rightarrow> bool" where
  "guarded p u \<longleftrightarrow> p_id p = gu_product_id u \<and> p_current_version_id p = gu_expected_version_id u"

definition set_version :: "product \<Rightarrow> guarded_update \<Rightarrow> product" where
  "set_version p u = p\<lparr>p_current_version_id := Some (gu_to_version_id u),
     p_current_fingerprint := gu_current_fingerprint u, p_canonical_name := gu_canonical_name u,
     p_description := gu_description u, p_brand := gu_brand u, p_origin_country := gu_origin_country u,
     p_updated_at := gu_updated_at u\<rparr>"

definition update_product_versions :: "product_env \<Rightarrow> guarded_update list \<Rightarrow> product list \<Rightarrow> gerr + product list" where
  "update_product_versions e us rows =
     batch_update e UpdateVersions (version_update_params e) gu_product_id True (px_check_product e) guarded set_version us rows"

definition guarded_fingerprint :: "product \<Rightarrow> fingerprint_update \<Rightarrow> bool" where
  "guarded_fingerprint p u \<longleftrightarrow> p_id p = fu_product_id u \<and> p_current_version_id p = fu_expected_version_id u"

definition set_fingerprint :: "product \<Rightarrow> fingerprint_update \<Rightarrow> product" where
  "set_fingerprint p u = p\<lparr>p_current_fingerprint := fu_current_fingerprint u, p_updated_at := fu_updated_at u\<rparr>"

definition update_product_fingerprints :: "product_env \<Rightarrow> fingerprint_update list \<Rightarrow> product list \<Rightarrow> gerr + product list" where
  "update_product_fingerprints e us rows =
     batch_update e UpdateFingerprints (fingerprint_update_params e) fu_product_id True (px_check_product e)
       guarded_fingerprint set_fingerprint us rows"

definition raise_source :: "product_source \<Rightarrow> instant option \<Rightarrow> instant \<Rightarrow> product_source" where
  "raise_source s t r = s\<lparr>ps_last_source_updated_at := opt_max (ps_last_source_updated_at s) t,
     ps_last_received_at := max (ps_last_received_at s) r\<rparr>"

definition set_changed :: "product_source \<Rightarrow> changed_update \<Rightarrow> product_source" where
  "set_changed s u = (raise_source s (cu_source_updated_at u) (cu_received_at u))\<lparr>ps_last_changed_at := cu_last_changed_at u\<rparr>"

definition update_sources_on_changed :: "product_env \<Rightarrow> changed_update list \<Rightarrow> product_source list \<Rightarrow> gerr + product_source list" where
  "update_sources_on_changed e us rows =
     batch_update e UpdateSourcesChanged (changed_update_params e) cu_product_source_id True (px_check_source e)
       (\<lambda>s u. ps_id s = cu_product_source_id u) set_changed us rows"

definition behind :: "product_source \<Rightarrow> watermark_update \<Rightarrow> bool" where
  "behind s u \<longleftrightarrow> ps_id s = wu_product_source_id u \<and>
     (ps_last_source_updated_at s \<noteq> opt_max (ps_last_source_updated_at s) (wu_source_updated_at u) \<or>
      ps_last_received_at s < wu_received_at u)"

definition set_watermark :: "product_source \<Rightarrow> watermark_update \<Rightarrow> product_source" where
  "set_watermark s u = raise_source s (wu_source_updated_at u) (wu_received_at u)"

definition update_source_watermarks :: "product_env \<Rightarrow> watermark_update list \<Rightarrow> product_source list \<Rightarrow> gerr + product_source list" where
  "update_source_watermarks e us rows =
     batch_update e UpdateWatermarks (watermark_update_params e) wu_product_source_id False (px_check_source e)
       behind set_watermark us rows"

subsection \<open>The repository\<close>

definition apply_batch :: "product_env \<Rightarrow> plan \<Rightarrow> product_db \<Rightarrow> gerr + product_db" where
  "apply_batch e pl db =
     bindr (copy_rows e CopyProducts (copy_product_params e) (bad_product e) (pl_products pl) (pb_products db)) (\<lambda>ps.
     bindr (copy_rows e CopySources (copy_source_params e) (bad_source e ps) (pl_sources pl) (pb_sources db)) (\<lambda>ss.
     bindr (copy_rows e CopyVersions (copy_version_params e) (bad_version e ps) (pl_versions pl) (pb_versions db)) (\<lambda>vs.
     bindr (update_product_versions e (pl_updates pl) ps) (\<lambda>ps1.
     bindr (update_product_fingerprints e (pl_fingerprints pl) ps1) (\<lambda>ps2.
     bindr (update_sources_on_changed e (pl_source_changes pl) ss) (\<lambda>ss1.
     bindr (update_source_watermarks e (pl_watermarks pl) ss1) (\<lambda>ss2.
     bindr (copy_rows e CopyChanges (copy_change_params e) (bad_change e ps2 vs) (pl_changes pl) (pb_changes db)) (\<lambda>cs.
       Inr \<lparr>pb_products = ps2, pb_sources = ss2, pb_versions = vs, pb_changes = cs\<rparr>))))))))"

type_synonym identity_ref = "string \<times> string"

definition snapshot_row :: "product_db \<Rightarrow> product_source \<Rightarrow> product \<Rightarrow> snapshot" where
  "snapshot_row db s p = \<lparr>sn_product_source_id = ps_id s, sn_product_id = ps_product_id s,
     sn_current_version_id = p_current_version_id p, sn_current_fingerprint = p_current_fingerprint p,
     sn_last_source_updated_at = ps_last_source_updated_at s, sn_last_received_at = ps_last_received_at s,
     sn_stored_current_version = find (\<lambda>v. p_current_version_id p = Some (v_id v)) (pb_versions db)\<rparr>"

text \<open>The rows of the join, keyed by identity; a row with no product is not joined.\<close>

definition snapshot_rows :: "product_db \<Rightarrow> identity_ref list \<Rightarrow> (string \<times> snapshot) list" where
  "snapshot_rows db refs =
     map (\<lambda>s. (identity_key (ps_source_id s) (ps_external_product_id s),
       snapshot_row db s (the (find (\<lambda>p. p_id p = ps_product_id s) (pb_products db)))))
       (filter (\<lambda>s. (ps_source_id s, ps_external_product_id s) \<in> set refs \<and>
          find (\<lambda>p. p_id p = ps_product_id s) (pb_products db) \<noteq> None) (pb_sources db))"

definition find_snapshots :: "product_env \<Rightarrow> identity_ref list \<Rightarrow> product_db \<Rightarrow> gerr + (string \<rightharpoonup> snapshot)" where
  "find_snapshots e refs db =
     (if refs = [] then Inr Map.empty
      else case px_fault e ReadSnapshots of Some x \<Rightarrow> Inl (Wrap (driver_error x))
      | None \<Rightarrow> Inr (map_of (rev (snapshot_rows db refs))))"

definition find_product :: "product_env \<Rightarrow> string \<Rightarrow> product_db \<Rightarrow> gerr + product" where
  "find_product e i db =
     bindr (mapl (wrap2 (Product ErrProductNotFound)) (parse_uuid (px_scan e) i)) (\<lambda>u.
     case px_fault e ReadProducts of Some x \<Rightarrow> Inl (Wrap (driver_error x))
     | None \<Rightarrow> (case find (\<lambda>p. p_id p = u) (pb_products db) of
         None \<Rightarrow> Inl (Leaf (Product ErrProductNotFound)) | Some p \<Rightarrow> Inr p))"

subsection \<open>Listing the catalogue\<close>

record list_cursor =
  lc_created_at :: instant
  lc_id :: string

record list_params =
  lp_after :: "list_cursor option"
  lp_limit :: int

record product_page =
  pp_items :: "product list"
  pp_next :: "list_cursor option"

definition max_product_list_limit :: int where
  "max_product_list_limit = 500"

definition validate_list_params :: "list_params \<Rightarrow> gerr + unit" where
  "validate_list_params q =
     failif (lp_limit q < 1 \<or> max_product_list_limit < lp_limit q) (Wrap (Leaf (Product ErrInvalidListParams)))
    (failif (case lp_after q of None \<Rightarrow> False | Some c \<Rightarrow> is_zero (lc_created_at c) \<or> is_blank (lc_id c))
       (Wrap (Leaf (Product ErrInvalidListParams))) (Inr ()))"

definition product_key :: "product \<Rightarrow> instant \<times> string" where
  "product_key p = (p_created_at p, p_id p)"

definition newest_first :: "product list \<Rightarrow> product list" where
  "newest_first rows = rev (sort_key product_key rows)"

definition list_rows :: "product_env \<Rightarrow> list_params \<Rightarrow> product list \<Rightarrow> gerr + product list" where
  "list_rows e q rows =
     bindr (mapl (wrap2 (Product ErrInvalidListParams)) (to_int32 (lp_limit q + 1))) (\<lambda>n.
     case lp_after q of
       None \<Rightarrow> (case px_fault e ReadProducts of Some x \<Rightarrow> Inl (Wrap (driver_error x))
         | None \<Rightarrow> Inr (take (nat n) (newest_first rows)))
     | Some c \<Rightarrow>
         bindr (mapl (wrap2 (Product ErrInvalidListParams)) (parse_uuid (px_scan e) (lc_id c))) (\<lambda>i.
         case px_fault e ReadProducts of Some x \<Rightarrow> Inl (Wrap (driver_error x))
         | None \<Rightarrow> Inr (take (nat n) (newest_first (filter (\<lambda>p. product_key p < (lc_created_at c, i)) rows)))))"

definition list_products :: "product_env \<Rightarrow> list_params \<Rightarrow> product_db \<Rightarrow> gerr + product_page" where
  "list_products e q db =
     bindr (validate_list_params q) (\<lambda>_.
     bindr (list_rows e q (pb_products db)) (\<lambda>rows.
       Inr (if lp_limit q < int (length rows)
         then (let items = take (nat (lp_limit q)) rows in
           \<lparr>pp_items = items, pp_next = Some \<lparr>lc_created_at = p_created_at (last items), lc_id = p_id (last items)\<rparr>\<rparr>)
         else \<lparr>pp_items = rows, pp_next = None\<rparr>)))"

subsection \<open>Statements that succeed\<close>

lemma mapr_Inr: "mapr f xs = Inr ys \<longleftrightarrow> map f xs = map Inr ys"
  by (induction xs arbitrary: ys) (auto simp: bindr_Inr_iff map_eq_Cons_conv)

lemma mapr_Inr_map: "mapr f xs = Inr ys \<Longrightarrow> ys = map (\<lambda>x. projr (f x)) xs \<and> (\<forall>x \<in> set xs. f x = Inr (projr (f x)))"
proof (induction xs arbitrary: ys)
  case (Cons x xs)
  then show ?case by (auto simp: bindr_Inr_iff)
qed simp

lemma mapr_Wrap: "mapr (\<lambda>r. mapl Wrap (f r)) xs = Inr ys \<longleftrightarrow> mapr f xs = Inr ys"
  by (induction xs arbitrary: ys) (auto simp: bindr_Inr_iff)

lemma insert_all_Inr: "insert_all bad rs rows = Inr rows' \<Longrightarrow> rows' = rows @ rs"
  by (induction rs arbitrary: rows) (fastforce split: option.splits)+

lemma insert_all_checked:
  "insert_all bad rs rows = Inr rows' \<Longrightarrow> (\<And>r xs. bad r xs = None \<Longrightarrow> P r) \<Longrightarrow> \<forall>r \<in> set rs. P r"
proof (induction rs arbitrary: rows)
  case (Cons r rs)
  then have "bad r rows = None" "insert_all bad rs (rows @ [r]) = Inr rows'" by (auto split: option.splits)
  with Cons show ?case by auto
qed simp

lemma insert_all_distinct:
  "insert_all bad rs rows = Inr rows' \<Longrightarrow> (\<And>r xs. bad r xs = None \<Longrightarrow> key r \<notin> key ` set xs) \<Longrightarrow>
     distinct (map key rows) \<Longrightarrow> distinct (map key rows')"
proof (induction rs arbitrary: rows)
  case (Cons r rs)
  then have "bad r rows = None" "insert_all bad rs (rows @ [r]) = Inr rows'" by (auto split: option.splits)
  moreover have "distinct (map key (rows @ [r]))" using Cons.prems calculation(1) by auto
  ultimately show ?case using Cons by blast
qed simp

lemma copy_rows_Inr:
  assumes "copy_rows e st tp bad new rows = Inr rows'"
  shows "mapr tp new = Inr (map (\<lambda>r. projr (tp r)) new)" (is ?a)
    and "insert_all bad (map (\<lambda>r. projr (tp r)) new) rows = Inr rows'" (is ?b)
    and "rows' = rows @ map (\<lambda>r. projr (tp r)) new"
proof -
  have "?a \<and> ?b"
  proof (cases "new = []")
    case True
    with assms show ?thesis by (simp add: copy_rows_def)
  next
    case False
    with assms obtain ps where ps: "mapr tp new = Inr ps"
      "(case px_fault e st of Some x \<Rightarrow> Inl x | None \<Rightarrow> insert_all bad ps rows) = Inr rows'"
      unfolding copy_rows_def by (auto simp: bindr_Inr_iff mapr_Wrap)
    then have "insert_all bad ps rows = Inr rows'" by (simp split: option.splits)
    with ps(1) mapr_Inr_map [OF ps(1)] show ?thesis by simp
  qed
  then show ?a ?b "rows' = rows @ map (\<lambda>r. projr (tp r)) new" using insert_all_Inr by blast+
qed

lemma copy_rows_params:
  "copy_rows e st tp bad new rows = Inr rows' \<Longrightarrow> r \<in> set new \<Longrightarrow> tp r = Inr (projr (tp r))"
  using copy_rows_Inr(1) mapr_Inr_map by blast

lemma violates_None [simp]: "violates c k r = None \<longleftrightarrow> \<not> c \<and> r = None"
  by (simp add: violates_def)

lemma missing_key_None [simp]: "missing_key c r = None \<longleftrightarrow> \<not> c \<and> r = None"
  by (simp add: missing_key_def)

lemma update_from_Inr:
  "update_from chk m f us rows = Inr (rows', n) \<Longrightarrow>
     rows' = map (\<lambda>r. case find (m r) us of None \<Rightarrow> r | Some u \<Rightarrow> f r u) rows \<and>
     n = length (filter (\<lambda>r. find (m r) us \<noteq> None) rows)"
proof (induction rows arbitrary: rows' n)
  case (Cons r rs)
  show ?case
  proof (cases "find (m r) us")
    case None
    with Cons.prems obtain qs where "update_from chk m f us rs = Inr (qs, n)" "rows' = r # qs"
      by (auto simp: bindr_Inr_iff)
    with Cons.IH None show ?thesis by simp
  next
    case (Some u)
    with Cons.prems obtain qs k where "update_from chk m f us rs = Inr (qs, k)" "rows' = f r u # qs" "n = Suc k"
      by (auto simp: bindr_Inr_iff split: option.splits)
    with Cons.IH Some show ?thesis by simp
  qed
qed simp

text \<open>
  When as many rows were updated as there are updates, no two updates name the same row and each
  one found its row.
\<close>

lemma all_updated:
  assumes n: "length (filter (\<lambda>r. find (m r) us \<noteq> None) rows) = length us"
    and id: "\<And>r u. m r u \<Longrightarrow> key r = ukey u" and d: "distinct (map key rows)"
  shows "distinct (map ukey us) \<and> (\<forall>u \<in> set us. \<exists>r \<in> set rows. m r u \<and> find (m r) us = Some u)"
proof -
  let ?M = "filter (\<lambda>r. find (m r) us \<noteq> None) rows"
  have found: "\<exists>u \<in> set us. m r u \<and> find (m r) us = Some u" if "r \<in> set ?M" for r
    using that by (auto simp: find_Some_iff)
  have sub: "key ` set ?M \<subseteq> ukey ` set us" using found id by (force simp: image_iff)
  have "card (key ` set ?M) = length us" using n d by (metis distinct_card distinct_map_filter length_map set_map)
  moreover have "card (key ` set ?M) \<le> card (ukey ` set us)" by (rule card_mono) (use sub in simp_all)
  moreover have "card (ukey ` set us) \<le> length us" by (metis card_length length_map set_map)
  ultimately have c: "card (ukey ` set us) = length us" "card (key ` set ?M) = card (ukey ` set us)" by simp_all
  then have du: "distinct (map ukey us)" by (metis card_distinct length_map set_map)
  have eq: "key ` set ?M = ukey ` set us" by (rule card_subset_eq) (use sub c(2) in simp_all)
  have "\<exists>r \<in> set rows. m r u \<and> find (m r) us = Some u" if u: "u \<in> set us" for u
  proof -
    from u have "ukey u \<in> key ` set ?M" unfolding eq by (rule imageI)
    then obtain r where r: "ukey u = key r" "r \<in> set ?M" by (rule imageE)
    from found [OF r(2)] obtain w where w: "w \<in> set us" "m r w" "find (m r) us = Some w" by blast
    have "ukey w = ukey u" using id [OF w(2)] r(1) by simp
    then have "w = u" using map_of_distinct_in [OF du w(1) u] by simp
    with w r(2) show ?thesis by auto
  qed
  with du show ?thesis by blast
qed

lemma batch_update_Inr:
  assumes "batch_update e st tp k all chk m f us rows = Inr rows'"
  obtains ps where "mapr tp (sort_key k us) = Inr ps"
    "rows' = map (\<lambda>r. case find (m r) ps of None \<Rightarrow> r | Some u \<Rightarrow> f r u) rows"
    "all \<Longrightarrow> length (filter (\<lambda>r. find (m r) ps \<noteq> None) rows) = length ps"
proof (cases "us = []")
  case True
  with assms have "rows' = rows" by (simp add: batch_update_def)
  with True show ?thesis by (intro that [of "[]"]) simp_all
next
  case False
  with assms obtain ps n where ps: "mapr tp (sort_key k us) = Inr ps"
    and u: "update_from chk m f ps rows = Inr (rows', n)" and n: "all \<Longrightarrow> n = length us"
    by (auto simp: batch_update_def bindr_Inr_iff require_all_updated_def split: option.splits if_splits)
  from mapr_Inr_map [OF ps] have "length ps = length us" by simp
  with update_from_Inr [OF u] n ps show ?thesis by (intro that [of ps]) simp_all
qed

text \<open>What the batch updates do not touch.\<close>

lemma batch_update_keeps:
  assumes "batch_update e st tp k all chk m f us rows = Inr rows'" "\<And>r u. g (f r u) = g r"
  shows "map g rows' = map g rows"
proof -
  from assms(1) obtain ps where "rows' = map (\<lambda>r. case find (m r) ps of None \<Rightarrow> r | Some u \<Rightarrow> f r u) rows"
    by (rule batch_update_Inr)
  with assms(2) show ?thesis by (auto split: option.split)
qed

subsection \<open>Identifiers\<close>

definition rid :: "scanner \<Rightarrow> string \<Rightarrow> string" where
  "rid scan s = projr (parse_uuid scan s)"

definition canonical :: "scanner \<Rightarrow> string \<Rightarrow> bool" where
  "canonical scan s \<longleftrightarrow> parse_uuid scan s = Inr s"

lemma req_id_Inr: "req_id e s = Inr u \<longleftrightarrow> parse_uuid (px_scan e) s = Inr u"
  by (simp add: req_id_def)

lemma opt_id_Inr: "opt_id e s = Inr u \<longleftrightarrow> parse_optional_uuid (px_scan e) s = Inr u"
  by (simp add: opt_id_def)

lemma rid_Inr: "parse_uuid scan s = Inr u \<Longrightarrow> rid scan s = u"
  by (simp add: rid_def)

lemma rid_canonical: "canonical scan s \<Longrightarrow> rid scan s = s"
  by (simp add: canonical_def rid_def)

lemma canonical_parsed: "canonical_scan scan \<Longrightarrow> parse_uuid scan s = Inr u \<Longrightarrow> canonical scan u"
  unfolding canonical_def by (rule canonical_scan_parse)

lemma parse_uuid_not_blank: "parse_uuid scan s = Inr u \<Longrightarrow> \<not> is_blank s"
  by (auto simp: parse_uuid_def is_blank_def Let_def)

lemma opt_id_parsed:
  "parse_uuid (px_scan e) s = Inr u \<Longrightarrow> opt_id e (Some s) = Inr (Some u)"
  by (simp add: opt_id_Inr parse_optional_uuid_def parse_uuid_not_blank)

subsection \<open>Paging through the catalogue\<close>

lemma newest_first_strict:
  assumes "distinct (map product_key rows)"
  shows "sorted_wrt (\<lambda>a b. product_key b < product_key a) (newest_first rows)"
proof -
  have "distinct (map product_key (sort_key product_key rows))" using assms by (simp add: distinct_map)
  moreover have "sorted (map product_key (sort_key product_key rows))" by simp
  ultimately have "sorted_wrt (<) (map product_key (sort_key product_key rows))" by (simp add: strict_sorted_iff)
  then show ?thesis by (simp add: newest_first_def sorted_wrt_map sorted_wrt_rev)
qed

text \<open>The rows past the last row of a page are those that follow it.\<close>

lemma newest_first_after:
  assumes d: "distinct (map product_key rows)" and s: "newest_first rows = xs @ ys" and ne: "xs \<noteq> []"
  shows "newest_first (filter (\<lambda>p. product_key p < product_key (last xs)) rows) = ys"
proof -
  let ?P = "\<lambda>p. product_key p < product_key (last xs)"
  have w: "sorted_wrt (\<lambda>a b. product_key b < product_key a) (xs @ ys)" using newest_first_strict [OF d] s by simp
  have xs: "xs = butlast xs @ [last xs]" using ne by simp
  from w have "\<forall>y \<in> set ys. ?P y" using ne by (auto simp: sorted_wrt_append)
  moreover have "\<forall>x \<in> set xs. \<not> ?P x"
  proof -
    from w have "sorted_wrt (\<lambda>a b. product_key b < product_key a) (butlast xs @ [last xs])"
      using xs by (simp add: sorted_wrt_append)
    then have "\<forall>x \<in> set (butlast xs). product_key (last xs) < product_key x" by (simp add: sorted_wrt_append)
    moreover have "set xs = insert (last xs) (set (butlast xs))" by (subst xs) simp
    ultimately show ?thesis by auto
  qed
  ultimately have "filter ?P (xs @ ys) = ys" by (simp add: filter_id_conv filter_empty_conv)
  moreover have "newest_first (filter ?P rows) = filter ?P (newest_first rows)"
    by (simp only: newest_first_def filter_sort [symmetric] rev_filter)
  ultimately show ?thesis by (simp add: s)
qed

text \<open>A page that names a next cursor is continued where it stopped.\<close>

lemma list_products_continues:
  assumes page: "list_products e q db = Inr pg" "pp_next pg = Some c" and q: "lp_after q = None"
    and keys: "distinct (map p_id (pb_products db))" "\<forall>p \<in> set (pb_products db). parse_uuid (px_scan e) (p_id p) = Inr (p_id p)"
  shows "newest_first (pb_products db) = pp_items pg @ drop (nat (lp_limit q)) (newest_first (pb_products db))"
    and "list_rows e (q\<lparr>lp_after := Some c\<rparr>) (pb_products db) =
      Inr (take (nat (lp_limit q + 1)) (drop (nat (lp_limit q)) (newest_first (pb_products db))))"
proof -
  let ?n = "nat (lp_limit q)" and ?rows = "newest_first (pb_products db)"
  from page(1) have v: "validate_list_params q = Inr ()" by (auto simp: list_products_def bindr_Inr_iff)
  then have b: "1 \<le> lp_limit q" "lp_limit q \<le> 500" by (auto simp: validate_list_params_def max_product_list_limit_def)
  then have n: "to_int32 (lp_limit q + 1) = Inr (lp_limit q + 1)" by (simp add: to_int32_def)
  from page q n have f: "px_fault e ReadProducts = None" and pg: "pp_items pg = take ?n (take (nat (lp_limit q + 1)) ?rows)"
    and c: "c = \<lparr>lc_created_at = p_created_at (last (pp_items pg)), lc_id = p_id (last (pp_items pg))\<rparr>"
    and long: "lp_limit q < int (length (take (nat (lp_limit q + 1)) ?rows))"
    by (auto simp: list_products_def list_rows_def bindr_Inr_iff Let_def split: option.splits if_splits)
  have items: "pp_items pg = take ?n ?rows" using pg b by (simp add: min_def nat_add_distrib)
  then show cat: "?rows = pp_items pg @ drop ?n ?rows" by simp
  have ne: "pp_items pg \<noteq> []" using items long b by auto
  then have "last (pp_items pg) \<in> set ?rows" using items by (metis last_in_set in_set_takeD)
  then have mem: "last (pp_items pg) \<in> set (pb_products db)" by (simp add: newest_first_def)
  have d: "distinct (map product_key (pb_products db))"
    using keys(1) by (auto simp: distinct_map inj_on_def product_key_def)
  have "lc_id c = p_id (last (pp_items pg))" "(lc_created_at c, p_id (last (pp_items pg))) = product_key (last (pp_items pg))"
    by (simp_all add: c product_key_def)
  with newest_first_after [OF d cat ne] keys(2) mem f n
  show "list_rows e (q\<lparr>lp_after := Some c\<rparr>) (pb_products db) = Inr (take (nat (lp_limit q + 1)) (drop ?n ?rows))"
    by (simp add: list_rows_def)
qed

end
