(* ===== verification/ProductHistory.thy ===== *)
theory ProductHistory
  imports ProductStore
begin

text \<open>
  What the pages of \<open>product_batch.go\<close> do to the product tables over time: a plan of
  \<open>DecideBatch\<close> is the concatenation of what each identity contributes; applied by \<open>ApplyBatch\<close>
  it extends the history of every product; and since the guards and unique constraints fail the
  pages that decided on outdated snapshots, every interleaving of transactions keeps the histories.
\<close>

subsection \<open>A plan is made of the contributions of its identities\<close>

record contribution =
  ct_group :: identity_group
  ct_start :: "snapshot option"
  ct_end :: snapshot
  ct_versions :: "product_version list"
  ct_changes :: "product_change list"
  ct_touched :: bool

definition ct_pid :: "contribution \<Rightarrow> string" where
  "ct_pid k = sn_product_id (ct_end k)"

definition k_products :: "instant \<Rightarrow> contribution \<Rightarrow> product list" where
  "k_products now k = (if ct_start k = None then [product_row now (ct_end k) (last (ct_versions k))] else [])"

definition k_sources :: "instant \<Rightarrow> contribution \<Rightarrow> product_source list" where
  "k_sources now k = (if ct_start k = None then [source_row now (ct_group k) (ct_end k)] else [])"

definition k_updates :: "instant \<Rightarrow> contribution \<Rightarrow> guarded_update list" where
  "k_updates now k = (case ct_start k of None \<Rightarrow> [] | Some s \<Rightarrow>
     if ct_versions k = [] then [] else [version_update now s (ct_end k) (last (ct_versions k))])"

definition k_source_changes :: "instant \<Rightarrow> contribution \<Rightarrow> changed_update list" where
  "k_source_changes now k = (if ct_start k = None \<or> ct_versions k = [] then []
     else [\<lparr>cu_product_source_id = sn_product_source_id (ct_end k), cu_last_changed_at = now,
       cu_source_updated_at = sn_last_source_updated_at (ct_end k), cu_received_at = sn_last_received_at (ct_end k)\<rparr>])"

definition k_fingerprints :: "instant \<Rightarrow> contribution \<Rightarrow> fingerprint_update list" where
  "k_fingerprints now k = (case ct_start k of None \<Rightarrow> [] | Some s \<Rightarrow>
     if ct_versions k = [] \<and> ct_touched k \<and> sn_current_fingerprint (ct_end k) \<noteq> sn_current_fingerprint s
     then [\<lparr>fu_product_id = ct_pid k, fu_expected_version_id = sn_current_version_id s,
       fu_current_fingerprint = sn_current_fingerprint (ct_end k), fu_updated_at = now\<rparr>] else [])"

definition k_watermarks :: "instant \<Rightarrow> contribution \<Rightarrow> watermark_update list" where
  "k_watermarks now k = (if ct_start k = None \<or> ct_versions k \<noteq> [] \<or> \<not> ct_touched k then []
     else [\<lparr>wu_product_source_id = sn_product_source_id (ct_end k),
       wu_source_updated_at = sn_last_source_updated_at (ct_end k), wu_received_at = sn_last_received_at (ct_end k)\<rparr>])"

definition well_contributed :: "text_env \<Rightarrow> contribution \<Rightarrow> bool" where
  "well_contributed te k \<longleftrightarrow>
     (\<exists>es. chain (ct_pid k) (start_version (ct_start k)) (start_number (ct_start k)) (ct_versions k) (ct_changes k) es) \<and>
     sn_current_version_id (ct_end k) = chain_end (start_version (ct_start k)) (ct_versions k) \<and>
     (ct_versions k \<noteq> [] \<longrightarrow> sn_stored_current_version (ct_end k) = Some (last (ct_versions k)) \<and> ct_touched k) \<and>
     (case ct_start k of None \<Rightarrow> ct_versions k \<noteq> []
      | Some s \<Rightarrow> ct_pid k = sn_product_id s \<and> sn_product_source_id (ct_end k) = sn_product_source_id s \<and>
          (ct_touched k \<or> ct_end k = s) \<and>
          (ct_versions k = [] \<longrightarrow> sn_stored_current_version (ct_end k) = sn_stored_current_version s)) \<and>
     fold (abs_step te) (ig_records (ct_group k)) (map_option abs_of (ct_start k)) = Some (abs_of (ct_end k))"

text \<open>The rows of a plan, one contribution after the other.\<close>

definition made_of :: "instant \<Rightarrow> contribution list \<Rightarrow> plan \<Rightarrow> bool" where
  "made_of now ks p \<longleftrightarrow>
     pl_products p = concat (map (k_products now) ks) \<and> pl_sources p = concat (map (k_sources now) ks) \<and>
     pl_versions p = concat (map ct_versions ks) \<and> pl_changes p = concat (map ct_changes ks) \<and>
     pl_updates p = concat (map (k_updates now) ks) \<and> pl_fingerprints p = concat (map (k_fingerprints now) ks) \<and>
     pl_source_changes p = concat (map (k_source_changes now) ks) \<and>
     pl_watermarks p = concat (map (k_watermarks now) ks)"

lemma made_of_empty: "made_of now [] (empty_plan n)"
  by (simp add: made_of_def empty_plan_def)

lemma emit_made_of:
  assumes inv: "fold_inv s0 p n f vs cs es" and c: "if_cur f = Some c" and e: "emit now g f = Inr q"
    and m: "made_of now ks p"
  shows "made_of now (ks @ [\<lparr>ct_group = g, ct_start = s0, ct_end = c, ct_versions = vs, ct_changes = cs,
      ct_touched = if_touched f\<rparr>]) q"
proof (cases s0)
  case None
  with inv c have f: "if_start f = None" "vs \<noteq> []" "sn_stored_current_version c = Some (last vs)"
    and app: "appended p n vs cs es (if_plan f)"
    by (auto simp: fold_inv_def)
  from e c f have q: "q = emit_insert now g c (last vs) (if_plan f)" by (simp add: emit_def)
  show ?thesis using None app f m
    by (simp add: q emit_insert_def appended_def made_of_def k_products_def k_sources_def k_updates_def
        k_source_changes_def k_fingerprints_def k_watermarks_def)
next
  case (Some s)
  with inv c have f: "if_start f = Some s" "if_versioned f \<longleftrightarrow> vs \<noteq> []" and app: "appended p n vs cs es (if_plan f)"
    by (auto simp: fold_inv_def)
  show ?thesis
  proof (cases "vs = []")
    case True
    from e c f True have q: "q = (if if_touched f then emit_touched now s c (if_plan f) else if_plan f)"
      by (simp add: emit_def split: if_splits)
    show ?thesis using Some True app f m
      by (simp add: q emit_touched_def Let_def appended_def made_of_def k_products_def k_sources_def k_updates_def
          k_source_changes_def k_fingerprints_def k_watermarks_def ct_pid_def)
  next
    case False
    with inv c Some have "sn_stored_current_version c = Some (last vs)" by (simp add: fold_inv_def)
    with e c f False have q: "q = emit_version_update now s c (last vs) (if_plan f)" by (simp add: emit_def)
    show ?thesis using Some False app f m
      by (simp add: q emit_version_update_def appended_def made_of_def k_products_def k_sources_def k_updates_def
          k_source_changes_def k_fingerprints_def k_watermarks_def)
  qed
qed

lemma fold_group_made_of:
  assumes "fold_group te ids now sn g st = Inr st'" "ig_records g \<noteq> []" "made_of now ks (snd st)"
  shows "\<exists>k. made_of now (ks @ [k]) (snd st') \<and> well_contributed te k \<and> ct_group k = g \<and> ct_start k = sn (ig_key g)"
proof -
  from assms(1) obtain f p where f: "apply_all te ids now (ig_records g) (new_identity_fold (fst st) (snd st) (sn (ig_key g))) = Inr f"
    "emit now g f = Inr p" "st' = (if_next f, p)"
    by (auto simp: fold_group_def bindr_Inr_iff)
  obtain f0 where f0: "f0 = new_identity_fold (fst st) (snd st) (sn (ig_key g))" "fold_inv (sn (ig_key g)) (snd st) 0 f0 [] [] []"
    using fold_inv_start by blast
  have ap: "apply_all te ids now (ig_records g) f0 = Inr f" using f(1) f0(1) by simp
  from apply_all_inv [OF f0(2) ap] obtain vs cs es where
    inv: "fold_inv (sn (ig_key g)) (snd st) (length (ig_records g)) f vs cs es"
    and abs: "map_option abs_of (if_cur f) = fold (abs_step te) (ig_records g) (map_option abs_of (if_cur f0))"
    by auto
  obtain c where c: "if_cur f = Some c" using fold_inv_cur [OF inv] assms(2) by auto
  let ?k = "\<lparr>ct_group = g, ct_start = sn (ig_key g), ct_end = c, ct_versions = vs, ct_changes = cs,
      ct_touched = if_touched f\<rparr>"
  have cur0: "if_cur f0 = sn (ig_key g)" by (simp add: f0(1) new_identity_fold_def)
  have "well_contributed te ?k"
    using inv c abs cur0
    by (auto simp: well_contributed_def ct_pid_def fold_inv_def split: option.splits)
  with emit_made_of [OF inv c f(2) assms(3)] f(3) show ?thesis by (intro exI [of _ ?k]) simp
qed

lemma fold_groups_made_of:
  "fold_groups te ids now sn gs st = Inr st' \<Longrightarrow> \<forall>g \<in> set gs. ig_records g \<noteq> [] \<Longrightarrow> made_of now ks (snd st) \<Longrightarrow>
     \<exists>ks'. made_of now (ks @ ks') (snd st') \<and> map ct_group ks' = gs \<and>
       (\<forall>k \<in> set ks'. well_contributed te k \<and> ct_start k = sn (ig_key (ct_group k)))"
proof (induction gs arbitrary: st ks)
  case Nil
  then show ?case by (intro exI [of _ "[]"]) simp
next
  case (Cons g gs)
  then obtain st1 where st1: "fold_group te ids now sn g st = Inr st1" "fold_groups te ids now sn gs st1 = Inr st'"
    by (auto simp: bindr_Inr_iff)
  from Cons.prems(2) have "ig_records g \<noteq> []" "\<forall>g \<in> set gs. ig_records g \<noteq> []" by simp_all
  with fold_group_made_of [OF st1(1) _ Cons.prems(3)] obtain k where
    k: "made_of now (ks @ [k]) (snd st1)" "well_contributed te k" "ct_group k = g" "ct_start k = sn (ig_key g)" by blast
  from Cons.IH [OF st1(2) \<open>\<forall>g \<in> set gs. ig_records g \<noteq> []\<close> k(1)] obtain ks' where
    ks: "made_of now ((ks @ [k]) @ ks') (snd st')" "map ct_group ks' = gs"
      "\<forall>k \<in> set ks'. well_contributed te k \<and> ct_start k = sn (ig_key (ct_group k))" by blast
  with k show ?case by (intro exI [of _ "k # ks'"]) simp
qed

lemma decide_batch_made_of:
  assumes "decide_batch te ids sn incoming now = Inr pl"
  obtains ks where "made_of now ks pl" "map ct_group ks = group_by_identity incoming"
    "\<forall>k \<in> set ks. well_contributed te k \<and> ct_start k = sn (ig_key (ct_group k))"
proof -
  from assms obtain st where st: "fold_groups te ids now sn (group_by_identity incoming) (0, empty_plan (int (length incoming))) = Inr st"
    "pl = snd st"
    by (auto simp: decide_batch_def bindr_Inr_iff split: if_splits)
  have "\<forall>g \<in> set (group_by_identity incoming). ig_records g \<noteq> []" using group_by_identity_spec by blast
  from fold_groups_made_of [OF st(1) this, of "[]"] st(2) made_of_empty show thesis
    by (auto intro: that)
qed

subsection \<open>The history of a product\<close>

text \<open>
  Versions numbered from the one before on, each with the change row that links it to its
  predecessor.
\<close>

fun linked :: "string option \<Rightarrow> int \<Rightarrow> product_version list \<Rightarrow> product_change list \<Rightarrow> bool" where
  "linked fr n [] [] \<longleftrightarrow> True"
| "linked fr n (v # vs) (c # cs) \<longleftrightarrow>
     v_number v = n + 1 \<and> ch_from_version_id c = fr \<and> ch_to_version_id c = v_id v \<and> linked (Some (v_id v)) (n + 1) vs cs"
| "linked fr n _ _ \<longleftrightarrow> False"

lemma linked_lengths: "linked fr n vs cs \<Longrightarrow> length cs = length vs"
  by (induction fr n vs cs rule: linked.induct) auto

lemma linked_append:
  "linked fr n vs cs \<Longrightarrow> linked fr n (vs @ ws) (cs @ ds) \<longleftrightarrow> linked (chain_end fr vs) (n + int (length vs)) ws ds"
proof (induction fr n vs cs rule: linked.induct)
  case (2 fr n v vs c cs)
  then show ?case by (cases vs) (auto simp: chain_end_def algebra_simps)
qed (simp_all add: chain_end_def)

lemma linked_last: "linked fr n vs cs \<Longrightarrow> vs \<noteq> [] \<Longrightarrow> v_number (last vs) = n + int (length vs)"
  by (induction fr n vs cs rule: linked.induct) (auto split: if_splits)

lemma linked_numbers: "linked fr n vs cs \<Longrightarrow> map v_number vs = map (\<lambda>k. n + 1 + int k) [0..<length vs]"
proof (induction fr n vs cs rule: linked.induct)
  case (2 fr n v vs c cs)
  have "[0..<Suc (length vs)] = 0 # map Suc [0..<length vs]" by (simp add: map_Suc_upt upt_conv_Cons del: upt_Suc)
  with 2 show ?case by (simp add: algebra_simps del: upt_Suc)
qed simp_all

lemma linked_chain: "chain p fr n vs cs es \<Longrightarrow> linked fr n vs cs"
  by (induction p fr n vs cs es rule: chain.induct) auto

lemma chain_product: "chain p fr n vs cs es \<Longrightarrow> (\<forall>v \<in> set vs. v_product_id v = p) \<and> (\<forall>c \<in> set cs. ch_product_id c = p)"
  by (induction p fr n vs cs es rule: chain.induct) auto

definition shows_version :: "product \<Rightarrow> product_version \<Rightarrow> bool" where
  "shows_version p v \<longleftrightarrow> p_current_version_id p = Some (v_id v) \<and> p_canonical_name p = v_canonical_name v \<and>
     p_description p = v_description v \<and> p_brand p = v_brand v \<and> p_origin_country p = v_origin_country v"

definition versions_of :: "product_db \<Rightarrow> string \<Rightarrow> product_version list" where
  "versions_of db i = filter (\<lambda>v. v_product_id v = i) (pb_versions db)"

definition changes_of :: "product_db \<Rightarrow> string \<Rightarrow> product_change list" where
  "changes_of db i = filter (\<lambda>c. ch_product_id c = i) (pb_changes db)"

text \<open>A product shows its newest version; its versions are numbered from 1 without a gap.\<close>

definition has_history :: "product_db \<Rightarrow> product \<Rightarrow> bool" where
  "has_history db p \<longleftrightarrow> versions_of db (p_id p) \<noteq> [] \<and> linked None 0 (versions_of db (p_id p)) (changes_of db (p_id p)) \<and>
     shows_version p (last (versions_of db (p_id p)))"

definition keys_ok :: "scanner \<Rightarrow> product_db \<Rightarrow> bool" where
  "keys_ok scan db \<longleftrightarrow>
     distinct (map p_id (pb_products db)) \<and> distinct (map v_id (pb_versions db)) \<and> distinct (map ps_id (pb_sources db)) \<and>
     distinct (map (\<lambda>s. (ps_source_id s, ps_external_product_id s)) (pb_sources db)) \<and>
     map ps_product_id (pb_sources db) = map p_id (pb_products db) \<and>
     (\<forall>v \<in> set (pb_versions db). v_product_id v \<in> p_id ` set (pb_products db) \<and> canonical scan (v_id v)) \<and>
     (\<forall>c \<in> set (pb_changes db). ch_product_id c \<in> p_id ` set (pb_products db)) \<and>
     (\<forall>s \<in> set (pb_sources db). canonical scan (ps_id s)) \<and> (\<forall>p \<in> set (pb_products db). canonical scan (p_id p))"

definition histories_ok :: "scanner \<Rightarrow> product_db \<Rightarrow> bool" where
  "histories_ok scan db \<longleftrightarrow> keys_ok scan db \<and> (\<forall>p \<in> set (pb_products db). has_history db p)"

text \<open>What a snapshot read from a state of the tables keeps saying of every later state.\<close>

definition recalls :: "product_db \<Rightarrow> snapshot \<Rightarrow> bool" where
  "recalls db s \<longleftrightarrow> (\<exists>v \<in> set (pb_versions db). sn_stored_current_version s = Some v \<and>
     sn_current_version_id s = Some (v_id v) \<and> sn_product_id s = v_product_id v) \<and>
     sn_product_source_id s \<in> ps_id ` set (pb_sources db)"

subsection \<open>Lists with one matching element\<close>

lemma concat_filter_key:
  assumes "distinct (map key (filter (\<lambda>k. f k \<noteq> []) ks))"
  shows "concat (map (\<lambda>k. if key k = i then f k else []) ks) =
    (case find (\<lambda>k. f k \<noteq> [] \<and> key k = i) ks of None \<Rightarrow> [] | Some k \<Rightarrow> f k)"
  using assms
proof (induction ks)
  case (Cons k ks)
  show ?case
  proof (cases "f k \<noteq> [] \<and> key k = i")
    case True
    with Cons.prems have "i \<notin> key ` {q \<in> set ks. f q \<noteq> []}" by auto
    then have "\<forall>q \<in> set ks. f q \<noteq> [] \<longrightarrow> key q \<noteq> i" by blast
    then have "concat (map (\<lambda>k. if key k = i then f k else []) ks) = []" by auto
    with True show ?thesis by simp
  next
    case False
    then show ?thesis using Cons by (auto split: if_splits)
  qed
qed simp

lemma distinct_map_split:
  "distinct (map key (filter P xs)) \<Longrightarrow> distinct (map key (filter (\<lambda>x. \<not> P x) xs)) \<Longrightarrow>
   (\<forall>x \<in> set xs. \<forall>y \<in> set xs. P x \<longrightarrow> \<not> P y \<longrightarrow> key x \<noteq> key y) \<Longrightarrow> distinct (map key xs)"
proof (induction xs)
  case (Cons x xs)
  have "key x \<notin> key ` set xs"
  proof
    assume "key x \<in> key ` set xs"
    then obtain y where y: "y \<in> set xs" "key y = key x" by force
    show False
    proof (cases "P x = P y")
      case True
      with Cons.prems y show False by (cases "P x") (auto simp: image_iff)
    next
      case False
      with Cons.prems(3) y show False by (metis list.set_intros(1,2))
    qed
  qed
  with Cons show ?case by (auto split: if_splits)
qed simp

lemma filter_concat_map:
  assumes "\<And>k v. k \<in> set ks \<Longrightarrow> v \<in> set (f k) \<Longrightarrow> P v \<longleftrightarrow> key k = i"
  shows "filter P (concat (map f ks)) = concat (map (\<lambda>k. if key k = i then f k else []) ks)"
  using assms
proof (induction ks)
  case (Cons k ks)
  have "filter P (f k) = (if key k = i then f k else [])"
    using Cons.prems [of k] by (auto simp: filter_id_conv filter_empty_conv)
  with Cons show ?case by simp
qed simp

subsection \<open>Parameters keep what they carry\<close>

lemma copy_version_params_Inr:
  assumes "copy_version_params e v = Inr w"
  shows "parse_uuid (px_scan e) (v_id v) = Inr (v_id w)" "parse_uuid (px_scan e) (v_product_id v) = Inr (v_product_id w)"
    "v_number w = v_number v" "version_product w = version_product v" "v_fingerprint w = v_fingerprint v"
  using assms
  by (auto simp: copy_version_params_def bindr_Inr_iff req_id_Inr to_int32_def version_product_def split: if_splits)

lemma copy_change_params_Inr:
  assumes "copy_change_params e c = Inr d"
  shows "parse_uuid (px_scan e) (ch_product_id c) = Inr (ch_product_id d)"
    "parse_uuid (px_scan e) (ch_to_version_id c) = Inr (ch_to_version_id d)"
    "opt_id e (ch_from_version_id c) = Inr (ch_from_version_id d)"
  using assms by (auto simp: copy_change_params_def bindr_Inr_iff req_id_Inr)

lemma copy_product_params_Inr:
  assumes "copy_product_params e p = Inr q"
  shows "parse_uuid (px_scan e) (p_id p) = Inr (p_id q)" "opt_id e (p_current_version_id p) = Inr (p_current_version_id q)"
    "p_canonical_name q = p_canonical_name p" "p_description q = p_description p" "p_brand q = p_brand p"
    "p_origin_country q = p_origin_country p" "p_current_fingerprint q = p_current_fingerprint p"
  using assms by (auto simp: copy_product_params_def bindr_Inr_iff req_id_Inr)

lemma copy_source_params_Inr:
  assumes "copy_source_params e s = Inr t"
  shows "parse_uuid (px_scan e) (ps_id s) = Inr (ps_id t)" "parse_uuid (px_scan e) (ps_product_id s) = Inr (ps_product_id t)"
    "ps_source_id t = ps_source_id s" "ps_external_product_id t = ps_external_product_id s"
    "ps_last_source_updated_at t = opt_time e (ps_last_source_updated_at s)"
    "req_time e (ps_last_received_at s) = Inr (ps_last_received_at t)"
  using assms by (auto simp: copy_source_params_def bindr_Inr_iff req_id_Inr)

lemma version_update_params_Inr:
  assumes "version_update_params e u = Inr w"
  shows "parse_uuid (px_scan e) (gu_product_id u) = Inr (gu_product_id w)"
    "parse_uuid (px_scan e) (gu_to_version_id u) = Inr (gu_to_version_id w)"
    "opt_id e (gu_expected_version_id u) = Inr (gu_expected_version_id w)"
    "gu_canonical_name w = gu_canonical_name u" "gu_description w = gu_description u" "gu_brand w = gu_brand u"
    "gu_origin_country w = gu_origin_country u" "gu_current_fingerprint w = gu_current_fingerprint u"
  using assms by (auto simp: version_update_params_def bindr_Inr_iff req_id_Inr)

lemma linked_params:
  assumes "linked fr n vs cs" "opt_id e fr = Inr fr'"
    and "\<forall>v \<in> set vs. copy_version_params e v = Inr (V v)" "\<forall>c \<in> set cs. copy_change_params e c = Inr (C c)"
  shows "linked fr' n (map V vs) (map C cs)"
  using assms
proof (induction fr n vs cs arbitrary: fr' rule: linked.induct)
  case (2 fr n v vs c cs)
  then have v: "copy_version_params e v = Inr (V v)" and c: "copy_change_params e c = Inr (C c)" by simp_all
  note vp = copy_version_params_Inr [OF v] and cp = copy_change_params_Inr [OF c]
  have "opt_id e (Some (v_id v)) = Inr (Some (v_id (V v)))" by (rule opt_id_parsed [OF vp(1)])
  with 2 have "linked (Some (v_id (V v))) (n + 1) (map V vs) (map C cs)" by simp
  with 2 vp cp show ?case by simp
qed simp_all

lemma linked_change_product:
  assumes "chain p fr n vs cs es" shows "(vs = []) = (cs = [])"
  using chain_lengths [OF assms] by auto

subsection \<open>What a page that was applied did\<close>

lemma apply_batch_Inr:
  assumes "apply_batch e pl db = Inr db'"
  obtains ps ss vs ps1 ps2 ss1 ss2 cs where
    "copy_rows e CopyProducts (copy_product_params e) (bad_product e) (pl_products pl) (pb_products db) = Inr ps"
    "copy_rows e CopySources (copy_source_params e) (bad_source e ps) (pl_sources pl) (pb_sources db) = Inr ss"
    "copy_rows e CopyVersions (copy_version_params e) (bad_version e ps) (pl_versions pl) (pb_versions db) = Inr vs"
    "update_product_versions e (pl_updates pl) ps = Inr ps1"
    "update_product_fingerprints e (pl_fingerprints pl) ps1 = Inr ps2"
    "update_sources_on_changed e (pl_source_changes pl) ss = Inr ss1"
    "update_source_watermarks e (pl_watermarks pl) ss1 = Inr ss2"
    "copy_rows e CopyChanges (copy_change_params e) (bad_change e ps2 vs) (pl_changes pl) (pb_changes db) = Inr cs"
    "db' = \<lparr>pb_products = ps2, pb_sources = ss2, pb_versions = vs, pb_changes = cs\<rparr>"
  using assms unfolding apply_batch_def bindr_Inr_iff by blast

text \<open>A product row as far as its history goes.\<close>

definition product_core :: "product \<Rightarrow> string \<times> string option \<times> string \<times> string \<times> string \<times> string" where
  "product_core p = (p_id p, p_current_version_id p, p_canonical_name p, p_description p, p_brand p, p_origin_country p)"

lemma fingerprints_keep_core:
  "update_product_fingerprints e us rows = Inr rows' \<Longrightarrow> map product_core rows' = map product_core rows"
  unfolding update_product_fingerprints_def
  by (erule batch_update_keeps) (simp add: product_core_def set_fingerprint_def)

lemma versions_keep_ids: "update_product_versions e us rows = Inr rows' \<Longrightarrow> map p_id rows' = map p_id rows"
  unfolding update_product_versions_def by (erule batch_update_keeps) (simp add: set_version_def)

definition source_core :: "product_source \<Rightarrow> string \<times> string \<times> string \<times> string" where
  "source_core s = (ps_id s, ps_product_id s, ps_source_id s, ps_external_product_id s)"

lemma sources_keep_core:
  "update_sources_on_changed e us rows = Inr rows' \<Longrightarrow> map source_core rows' = map source_core rows"
  "update_source_watermarks e ws rows = Inr rows' \<Longrightarrow> map source_core rows' = map source_core rows"
  unfolding update_sources_on_changed_def update_source_watermarks_def
  by (erule batch_update_keeps, simp add: source_core_def set_changed_def set_watermark_def raise_source_def)+

lemma core_ids:
  "map product_core ps' = map product_core ps \<Longrightarrow> map p_id ps' = map p_id ps"
  "map source_core ss' = map source_core ss \<Longrightarrow> map ps_id ss' = map ps_id ss \<and> map ps_product_id ss' = map ps_product_id ss \<and>
     map (\<lambda>s. (ps_source_id s, ps_external_product_id s)) ss' = map (\<lambda>s. (ps_source_id s, ps_external_product_id s)) ss"
proof -
  assume "map product_core ps' = map product_core ps"
  then have "map fst (map product_core ps') = map fst (map product_core ps)" by simp
  then show "map p_id ps' = map p_id ps" by (simp add: product_core_def comp_def)
next
  assume c: "map source_core ss' = map source_core ss"
  from c have "map fst (map source_core ss') = map fst (map source_core ss)" by simp
  moreover from c have "map (fst \<circ> snd) (map source_core ss') = map (fst \<circ> snd) (map source_core ss)" by simp
  moreover from c have "map (snd \<circ> snd) (map source_core ss') = map (snd \<circ> snd) (map source_core ss)" by simp
  ultimately show "map ps_id ss' = map ps_id ss \<and> map ps_product_id ss' = map ps_product_id ss \<and>
     map (\<lambda>s. (ps_source_id s, ps_external_product_id s)) ss' = map (\<lambda>s. (ps_source_id s, ps_external_product_id s)) ss"
    by (simp add: source_core_def comp_def)
qed

text \<open>The keys of the rows a contribution list inserts and updates.\<close>

lemma made_products:
  "map p_id (concat (map (k_products now) ks)) = map ct_pid (filter (\<lambda>k. ct_start k = None) ks)"
  by (induction ks) (auto simp: k_products_def product_row_def ct_pid_def)

lemma made_updates:
  "map gu_product_id (concat (map (k_updates now) ks)) =
     map ct_pid (filter (\<lambda>k. ct_start k \<noteq> None \<and> ct_versions k \<noteq> []) ks)"
  by (induction ks) (auto simp: k_updates_def version_update_def ct_pid_def split: option.split)

lemma made_sources:
  "map ps_product_id (concat (map (k_sources now) ks)) = map ct_pid (filter (\<lambda>k. ct_start k = None) ks)"
  by (induction ks) (auto simp: k_sources_def source_row_def ct_pid_def)

text \<open>The situation of a page: what it is made of, what it was decided from, what it was applied to.\<close>

definition page_applied :: "product_env \<Rightarrow> text_env \<Rightarrow> instant \<Rightarrow> contribution list \<Rightarrow> plan \<Rightarrow> product_db \<Rightarrow> product_db \<Rightarrow> bool" where
  "page_applied e te now ks pl db db' \<longleftrightarrow>
     canonical_scan (px_scan e) \<and> histories_ok (px_scan e) db \<and> made_of now ks pl \<and> apply_batch e pl db = Inr db' \<and>
     (\<forall>k \<in> set ks. well_contributed te k \<and> (\<forall>s. ct_start k = Some s \<longrightarrow> recalls db s))"

definition ct_key :: "product_env \<Rightarrow> contribution \<Rightarrow> string" where
  "ct_key e k = rid (px_scan e) (ct_pid k)"

abbreviation versioned :: "contribution \<Rightarrow> bool" where
  "versioned k \<equiv> ct_versions k \<noteq> []"

lemma recalls_product:
  assumes "keys_ok scan db" "recalls db s"
  shows "sn_product_id s \<in> p_id ` set (pb_products db)" "canonical scan (sn_product_id s)"
    "\<exists>u. sn_current_version_id s = Some u \<and> canonical scan u"
proof -
  from assms(2) obtain v where v: "v \<in> set (pb_versions db)" "sn_current_version_id s = Some (v_id v)" "sn_product_id s = v_product_id v"
    by (auto simp: recalls_def)
  with assms(1) show i: "sn_product_id s \<in> p_id ` set (pb_products db)" by (simp add: keys_ok_def)
  with assms(1) show "canonical scan (sn_product_id s)" by (auto simp: keys_ok_def)
  from v assms(1) show "\<exists>u. sn_current_version_id s = Some u \<and> canonical scan u" by (auto simp: keys_ok_def)
qed

lemma known_key:
  assumes "page_applied e te now ks pl db db'" "k \<in> set ks" "ct_start k = Some s"
  shows "ct_key e k = sn_product_id s" "ct_pid k = sn_product_id s" "ct_key e k \<in> p_id ` set (pb_products db)"
proof -
  from assms have s: "recalls db s" "ct_pid k = sn_product_id s" "keys_ok (px_scan e) db"
    by (auto simp: page_applied_def well_contributed_def histories_ok_def)
  note r = recalls_product [OF s(3,1)]
  from s(2) show "ct_pid k = sn_product_id s" .
  from s(2) r(2) show "ct_key e k = sn_product_id s" by (simp add: ct_key_def rid_canonical)
  with r(1) show "ct_key e k \<in> p_id ` set (pb_products db)" by simp
qed

lemma new_products:
  assumes "page_applied e te now ks pl db db'"
    and ps: "copy_rows e CopyProducts (copy_product_params e) (bad_product e) (pl_products pl) (pb_products db) = Inr ps"
  shows "distinct (map p_id ps)"
    and "map p_id ps = map p_id (pb_products db) @ map (ct_key e) (filter (\<lambda>k. ct_start k = None) ks)"
    and "\<forall>p \<in> set ps. canonical (px_scan e) (p_id p)"
proof -
  from assms(1) have k: "keys_ok (px_scan e) db" and m: "pl_products pl = concat (map (k_products now) ks)"
    and cs: "canonical_scan (px_scan e)"
    by (simp_all add: page_applied_def histories_ok_def made_of_def)
  from k have "distinct (map p_id (pb_products db))" by (simp add: keys_ok_def)
  then show "distinct (map p_id ps)"
    by (rule insert_all_distinct [OF copy_rows_Inr(2) [OF ps], rotated]) (simp add: bad_product_def)
  have par: "p_id (projr (copy_product_params e r)) = rid (px_scan e) (p_id r) \<and>
      canonical (px_scan e) (p_id (projr (copy_product_params e r)))" if "r \<in> set (pl_products pl)" for r
    using copy_product_params_Inr(1) [OF copy_rows_params [OF ps that]] canonical_parsed [OF cs] rid_Inr by metis
  have "map p_id (map (\<lambda>r. projr (copy_product_params e r)) (pl_products pl)) = map (rid (px_scan e)) (map p_id (pl_products pl))"
    using par by simp
  then show "map p_id ps = map p_id (pb_products db) @ map (ct_key e) (filter (\<lambda>k. ct_start k = None) ks)"
    by (simp add: copy_rows_Inr(3) [OF ps] m made_products ct_key_def comp_def del: map_map) (simp add: ct_key_def)
  show "\<forall>p \<in> set ps. canonical (px_scan e) (p_id p)"
    using par k by (auto simp: copy_rows_Inr(3) [OF ps] keys_ok_def)
qed

lemma mset_distinct_map: "mset xs = mset ys \<Longrightarrow> distinct (map f xs) = distinct (map f ys)"
  by (metis mset_eq_imp_distinct_iff mset_map)

text \<open>The guarded updates that were sent, each of which found its product.\<close>

lemma version_updates:
  assumes pa: "page_applied e te now ks pl db db'" and d: "distinct (map p_id ps)"
    and up: "update_product_versions e (pl_updates pl) ps = Inr ps1"
  obtains us where
    "us = map (\<lambda>u. projr (version_update_params e u)) (sort_key gu_product_id (pl_updates pl))"
    "\<forall>u \<in> set (pl_updates pl). version_update_params e u = Inr (projr (version_update_params e u))"
    "ps1 = map (\<lambda>r. case find (guarded r) us of None \<Rightarrow> r | Some u \<Rightarrow> set_version r u) ps"
    "distinct (map (ct_key e) (filter (\<lambda>k. ct_start k \<noteq> None \<and> versioned k) ks))"
    "\<forall>u \<in> set us. \<exists>r \<in> set ps. guarded r u \<and> find (guarded r) us = Some u"
proof -
  let ?W = "\<lambda>u. projr (version_update_params e u)"
  from up obtain us where us: "mapr (version_update_params e) (sort_key gu_product_id (pl_updates pl)) = Inr us"
    and ps1: "ps1 = map (\<lambda>r. case find (guarded r) us of None \<Rightarrow> r | Some u \<Rightarrow> set_version r u) ps"
    and n: "length (filter (\<lambda>r. find (guarded r) us \<noteq> None) ps) = length us"
    unfolding update_product_versions_def by (elim batch_update_Inr) simp
  from mapr_Inr_map [OF us] have us': "us = map ?W (sort_key gu_product_id (pl_updates pl))"
    and par: "\<forall>u \<in> set (pl_updates pl). version_update_params e u = Inr (?W u)" by simp_all
  have "distinct (map gu_product_id us) \<and> (\<forall>u \<in> set us. \<exists>r \<in> set ps. guarded r u \<and> find (guarded r) us = Some u)"
    by (rule all_updated [OF n, of p_id]) (use d in \<open>simp_all add: guarded_def\<close>)
  then have du: "distinct (map (gu_product_id \<circ> ?W) (pl_updates pl))"
    and found: "\<forall>u \<in> set us. \<exists>r \<in> set ps. guarded r u \<and> find (guarded r) us = Some u"
    unfolding us' using mset_distinct_map [of "sort_key gu_product_id (pl_updates pl)" "pl_updates pl" "gu_product_id \<circ> ?W"]
    by simp_all
  have "map (gu_product_id \<circ> ?W) (pl_updates pl) = map (rid (px_scan e)) (map gu_product_id (pl_updates pl))"
    using par by (auto dest!: bspec version_update_params_Inr(1) rid_Inr)
  also have "\<dots> = map (ct_key e) (filter (\<lambda>k. ct_start k \<noteq> None \<and> versioned k) ks)"
    using pa by (simp add: page_applied_def made_of_def made_updates ct_key_def comp_def del: map_map) (simp add: ct_key_def)
  finally have "distinct (map (ct_key e) (filter (\<lambda>k. ct_start k \<noteq> None \<and> versioned k) ks))" using du by simp
  with us' par ps1 found show thesis by (intro that)
qed

text \<open>At most one contribution gives a product new versions.\<close>

lemma versioned_keys:
  assumes pa: "page_applied e te now ks pl db db'"
    and ps: "copy_rows e CopyProducts (copy_product_params e) (bad_product e) (pl_products pl) (pb_products db) = Inr ps"
    and up: "update_product_versions e (pl_updates pl) ps = Inr ps1"
  shows "distinct (map (ct_key e) (filter versioned ks))"
proof (rule distinct_map_split [where P = "\<lambda>k. ct_start k = None"])
  note np = new_products [OF pa ps]
  have new: "versioned k" if "k \<in> set ks" "ct_start k = None" for k
    using pa that by (auto simp: page_applied_def well_contributed_def split: option.splits)
  have "filter (\<lambda>k. ct_start k = None) (filter versioned ks) = filter (\<lambda>k. ct_start k = None) ks"
    using new by (auto intro: filter_cong)
  then show "distinct (map (ct_key e) (filter (\<lambda>k. ct_start k = None) (filter versioned ks)))"
    using np(1) unfolding np(2) by simp
  have "distinct (map (ct_key e) (filter (\<lambda>k. ct_start k \<noteq> None \<and> versioned k) ks))"
    by (rule version_updates [OF pa np(1) up])
  then show "distinct (map (ct_key e) (filter (\<lambda>k. ct_start k \<noteq> None) (filter versioned ks)))" by (simp add: conj_commute)
  show "\<forall>x \<in> set (filter versioned ks). \<forall>y \<in> set (filter versioned ks). ct_start x = None \<longrightarrow> ct_start y \<noteq> None \<longrightarrow>
      ct_key e x \<noteq> ct_key e y"
  proof (intro ballI impI)
    fix x y assume x: "x \<in> set (filter versioned ks)" "ct_start x = None"
      and y: "y \<in> set (filter versioned ks)" "ct_start y \<noteq> None"
    from x have "ct_key e x \<in> ct_key e ` set (filter (\<lambda>k. ct_start k = None) ks)" by simp
    with np(1) have "ct_key e x \<notin> p_id ` set (pb_products db)" unfolding np(2) by auto
    moreover from y known_key(3) [OF pa] have "ct_key e y \<in> p_id ` set (pb_products db)" by auto
    ultimately show "ct_key e x \<noteq> ct_key e y" by auto
  qed
qed

text \<open>The versions and changes a page adds to one product are those of its one versioned contribution.\<close>

definition new_rows :: "product_env \<Rightarrow> ('r \<Rightarrow> gerr + 'r) \<Rightarrow> (contribution \<Rightarrow> 'r list) \<Rightarrow> contribution list \<Rightarrow> string \<Rightarrow> 'r list" where
  "new_rows e tp f ks i = (case find (\<lambda>k. versioned k \<and> ct_key e k = i) ks of None \<Rightarrow> []
     | Some k \<Rightarrow> map (\<lambda>r. projr (tp r)) (f k))"

lemma new_rows_of:
  assumes d: "distinct (map (ct_key e) (filter versioned ks))"
    and f: "\<And>k. k \<in> set ks \<Longrightarrow> f k = [] \<longleftrightarrow> \<not> versioned k"
    and key: "\<And>k r. k \<in> set ks \<Longrightarrow> r \<in> set (f k) \<Longrightarrow> pid (projr (tp r)) = ct_key e k"
  shows "filter (\<lambda>r. pid r = i) (map (\<lambda>r. projr (tp r)) (concat (map f ks))) = new_rows e tp f ks i"
proof -
  let ?g = "\<lambda>k. map (\<lambda>r. projr (tp r)) (f k)"
  have g: "?g k \<noteq> [] \<longleftrightarrow> versioned k" if "k \<in> set ks" for k using f [OF that] by simp
  have "filter (\<lambda>r. pid r = i) (concat (map ?g ks)) = concat (map (\<lambda>k. if ct_key e k = i then ?g k else []) ks)"
    by (rule filter_concat_map) (use key in auto)
  also have "\<dots> = (case find (\<lambda>k. ?g k \<noteq> [] \<and> ct_key e k = i) ks of None \<Rightarrow> [] | Some k \<Rightarrow> ?g k)"
  proof (rule concat_filter_key)
    have "filter (\<lambda>k. ?g k \<noteq> []) ks = filter versioned ks" by (rule filter_cong) (use g in auto)
    with d show "distinct (map (ct_key e) (filter (\<lambda>k. ?g k \<noteq> []) ks))" by simp
  qed
  also have "\<dots> = new_rows e tp f ks i"
    unfolding new_rows_def by (rule arg_cong [of _ _ "\<lambda>x. case x of None \<Rightarrow> [] | Some k \<Rightarrow> ?g k"])
      (rule find_cong [OF refl], use g in auto)
  finally show ?thesis by (simp add: map_concat comp_def)
qed

lemma applied_versions:
  assumes pa: "page_applied e te now ks pl db db'" and d: "distinct (map (ct_key e) (filter versioned ks))"
    and vs: "copy_rows e CopyVersions (copy_version_params e) (bad_version e ps) (pl_versions pl) (pb_versions db) = Inr (pb_versions db')"
  shows "versions_of db' i = versions_of db i @ new_rows e (copy_version_params e) ct_versions ks i"
proof -
  have m: "pl_versions pl = concat (map ct_versions ks)" using pa by (simp add: page_applied_def made_of_def)
  have key: "v_product_id (projr (copy_version_params e r)) = ct_key e k" if k: "k \<in> set ks" "r \<in> set (ct_versions k)" for k r
  proof -
    have "r \<in> set (pl_versions pl)" using k m by auto
    from copy_version_params_Inr(2) [OF copy_rows_params [OF vs this]]
    have "v_product_id (projr (copy_version_params e r)) = rid (px_scan e) (v_product_id r)" by (simp add: rid_Inr)
    moreover obtain es where "chain (ct_pid k) (start_version (ct_start k)) (start_number (ct_start k)) (ct_versions k) (ct_changes k) es"
      using pa k(1) by (auto simp: page_applied_def well_contributed_def)
    from chain_product [OF this] k(2) have "v_product_id r = ct_pid k" by blast
    ultimately show ?thesis by (simp add: ct_key_def)
  qed
  have "filter (\<lambda>r. v_product_id r = i) (map (\<lambda>r. projr (copy_version_params e r)) (concat (map ct_versions ks))) =
      new_rows e (copy_version_params e) ct_versions ks i"
    by (rule new_rows_of [OF d]) (simp_all add: key)
  then show ?thesis by (simp add: versions_of_def copy_rows_Inr(3) [OF vs] m)
qed

lemma applied_changes:
  assumes pa: "page_applied e te now ks pl db db'" and d: "distinct (map (ct_key e) (filter versioned ks))"
    and cs: "copy_rows e CopyChanges (copy_change_params e) (bad_change e ps vs) (pl_changes pl) (pb_changes db) = Inr (pb_changes db')"
  shows "changes_of db' i = changes_of db i @ new_rows e (copy_change_params e) ct_changes ks i"
proof -
  have m: "pl_changes pl = concat (map ct_changes ks)" using pa by (simp add: page_applied_def made_of_def)
  have ch: "\<exists>es. chain (ct_pid k) (start_version (ct_start k)) (start_number (ct_start k)) (ct_versions k) (ct_changes k) es"
    if "k \<in> set ks" for k
    using pa that by (auto simp: page_applied_def well_contributed_def)
  have key: "ch_product_id (projr (copy_change_params e r)) = ct_key e k" if k: "k \<in> set ks" "r \<in> set (ct_changes k)" for k r
  proof -
    have "r \<in> set (pl_changes pl)" using k m by auto
    from copy_change_params_Inr(1) [OF copy_rows_params [OF cs this]]
    have "ch_product_id (projr (copy_change_params e r)) = rid (px_scan e) (ch_product_id r)" by (simp add: rid_Inr)
    moreover have "ch_product_id r = ct_pid k" using ch [OF k(1)] chain_product k(2) by blast
    ultimately show ?thesis by (simp add: ct_key_def)
  qed
  have "filter (\<lambda>r. ch_product_id r = i) (map (\<lambda>r. projr (copy_change_params e r)) (concat (map ct_changes ks))) =
      new_rows e (copy_change_params e) ct_changes ks i"
  proof (rule new_rows_of [OF d])
    show "(ct_changes k = []) = (\<not> versioned k)" if "k \<in> set ks" for k
      using ch [OF that] by (metis linked_change_product)
  qed (simp_all add: key)
  then show ?thesis by (simp add: changes_of_def copy_rows_Inr(3) [OF cs] m)
qed

text \<open>The history of a product that the page did not version.\<close>

lemma history_unversioned:
  assumes "has_history db p" "product_core q = product_core p"
    and "versions_of db' (p_id p) = versions_of db (p_id p)" "changes_of db' (p_id p) = changes_of db (p_id p)"
  shows "has_history db' q"
  using assms by (simp add: has_history_def product_core_def shows_version_def)

text \<open>The history of a product with its new versions.\<close>

lemma history_versioned:
  assumes old: "linked None 0 (versions_of db i) (changes_of db i)"
    and new: "versions_of db' i = versions_of db i @ ws" "changes_of db' i = changes_of db i @ ds" "ws \<noteq> []"
    and l: "linked (chain_end None (versions_of db i)) (int (length (versions_of db i))) ws ds"
    and p: "p_id p = i" "shows_version p (last ws)"
  shows "has_history db' p"
  using assms linked_append [OF old, of ws ds] by (simp add: has_history_def)

text \<open>Where a snapshot and the history of its product meet: the guard of the update held.\<close>

lemma guard_meets_history:
  assumes k: "keys_ok scan db" and h: "has_history db p" and s: "recalls db s" "sn_product_id s = p_id p"
    and g: "p_current_version_id p = sn_current_version_id s"
  shows "start_version (Some s) = chain_end None (versions_of db (p_id p))"
    "start_number (Some s) = int (length (versions_of db (p_id p)))"
proof -
  let ?vs = "versions_of db (p_id p)"
  from h have ne: "?vs \<noteq> []" and l: "linked None 0 ?vs (changes_of db (p_id p))" and cur: "p_current_version_id p = Some (v_id (last ?vs))"
    by (simp_all add: has_history_def shows_version_def)
  from s(1) obtain v where v: "v \<in> set (pb_versions db)" "sn_stored_current_version s = Some v" "sn_current_version_id s = Some (v_id v)"
    by (auto simp: recalls_def)
  have "last ?vs \<in> set ?vs" using ne by simp
  then have "last ?vs \<in> set (pb_versions db)" by (simp add: versions_of_def)
  moreover have "v_id (last ?vs) = v_id v" using cur g v(3) by simp
  ultimately have "last ?vs = v" using k v(1) by (simp add: keys_ok_def map_of_distinct_in [of v_id "pb_versions db"])
  then show "start_number (Some s) = int (length ?vs)"
    using linked_last [OF l ne] v(2) by (simp add: start_number_def abs_of_def)
  show "start_version (Some s) = chain_end None ?vs"
    using ne cur g by (simp add: start_version_def chain_end_def)
qed

lemma find_SomeD: "find P xs = Some x \<Longrightarrow> x \<in> set xs \<and> P x"
  by (auto simp: find_Some_iff)

lemma new_versioned:
  "page_applied e te now ks pl db db' \<Longrightarrow> k \<in> set ks \<Longrightarrow> ct_start k = None \<Longrightarrow> versioned k"
  by (auto simp: page_applied_def well_contributed_def dest!: bspec)

text \<open>What a page wrote: the products after the insertion, and the updates as they were sent.\<close>

definition page_written ::
  "product_env \<Rightarrow> text_env \<Rightarrow> instant \<Rightarrow> contribution list \<Rightarrow> plan \<Rightarrow> product_db \<Rightarrow> product_db \<Rightarrow> product list \<Rightarrow> guarded_update list \<Rightarrow> bool" where
  "page_written e te now ks pl db db' ps us \<longleftrightarrow> page_applied e te now ks pl db db' \<and>
     copy_rows e CopyProducts (copy_product_params e) (bad_product e) (pl_products pl) (pb_products db) = Inr ps \<and>
     copy_rows e CopyVersions (copy_version_params e) (bad_version e ps) (pl_versions pl) (pb_versions db) = Inr (pb_versions db') \<and>
     (\<exists>qs. copy_rows e CopyChanges (copy_change_params e) (bad_change e qs (pb_versions db')) (pl_changes pl) (pb_changes db)
        = Inr (pb_changes db')) \<and>
     us = map (\<lambda>u. projr (version_update_params e u)) (sort_key gu_product_id (pl_updates pl)) \<and>
     (\<forall>u \<in> set (pl_updates pl). version_update_params e u = Inr (projr (version_update_params e u))) \<and>
     (\<forall>u \<in> set us. \<exists>r \<in> set ps. guarded r u \<and> find (guarded r) us = Some u) \<and>
     distinct (map (ct_key e) (filter versioned ks))"

lemma page_written_facts:
  assumes "page_written e te now ks pl db db' ps us"
  shows "page_applied e te now ks pl db db'" "distinct (map p_id ps)"
    "map p_id ps = map p_id (pb_products db) @ map (ct_key e) (filter (\<lambda>k. ct_start k = None) ks)"
    "set (pb_products db) \<subseteq> set ps"
    "keys_ok (px_scan e) db" "\<forall>p \<in> set (pb_products db). has_history db p" "made_of now ks pl"
    "versions_of db' i = versions_of db i @ new_rows e (copy_version_params e) ct_versions ks i"
    "changes_of db' i = changes_of db i @ new_rows e (copy_change_params e) ct_changes ks i"
proof -
  from assms show pa: "page_applied e te now ks pl db db'" by (simp add: page_written_def)
  from assms have ps: "copy_rows e CopyProducts (copy_product_params e) (bad_product e) (pl_products pl) (pb_products db) = Inr ps"
    by (simp add: page_written_def)
  show "distinct (map p_id ps)"
    "map p_id ps = map p_id (pb_products db) @ map (ct_key e) (filter (\<lambda>k. ct_start k = None) ks)"
    by (rule new_products [OF pa ps])+
  show "set (pb_products db) \<subseteq> set ps" by (simp add: copy_rows_Inr(3) [OF ps])
  from pa show "keys_ok (px_scan e) db" "\<forall>p \<in> set (pb_products db). has_history db p" "made_of now ks pl"
    by (simp_all add: page_applied_def histories_ok_def)
  have d: "distinct (map (ct_key e) (filter versioned ks))" using assms by (simp add: page_written_def)
  from assms have "copy_rows e CopyVersions (copy_version_params e) (bad_version e ps) (pl_versions pl) (pb_versions db) = Inr (pb_versions db')"
    by (simp add: page_written_def)
  then show "versions_of db' i = versions_of db i @ new_rows e (copy_version_params e) ct_versions ks i"
    by (rule applied_versions [OF pa d])
  from assms obtain qs where
    "copy_rows e CopyChanges (copy_change_params e) (bad_change e qs (pb_versions db')) (pl_changes pl) (pb_changes db) = Inr (pb_changes db')"
    by (auto simp: page_written_def)
  then show "changes_of db' i = changes_of db i @ new_rows e (copy_change_params e) ct_changes ks i"
    by (rule applied_changes [OF pa d])
qed

lemma same_product:
  "page_written e te now ks pl db db' ps us \<Longrightarrow> p \<in> set ps \<Longrightarrow> q \<in> set ps \<Longrightarrow> p_id p = p_id q \<Longrightarrow> p = q"
  using page_written_facts(2) map_of_distinct_in [of p_id ps] by blast

lemma old_product:
  assumes "page_written e te now ks pl db db' ps us" "p \<in> set ps" "p_id p \<in> p_id ` set (pb_products db)"
  shows "p \<in> set (pb_products db)"
proof -
  from assms(3) obtain q where "q \<in> set (pb_products db)" "p_id q = p_id p" by auto
  with same_product [OF assms(1,2), of q] page_written_facts(4) [OF assms(1)] show ?thesis by auto
qed

text \<open>An update that was sent belongs to a versioned contribution with a snapshot.\<close>

lemma sent_update:
  assumes pw: "page_written e te now ks pl db db' ps us" and u: "u \<in> set us"
  shows "\<exists>k \<in> set ks. versioned k \<and> gu_product_id u = ct_key e k \<and> ct_key e k \<in> p_id ` set (pb_products db)"
proof -
  from pw have us: "us = map (\<lambda>u. projr (version_update_params e u)) (sort_key gu_product_id (pl_updates pl))"
    "\<forall>u \<in> set (pl_updates pl). version_update_params e u = Inr (projr (version_update_params e u))"
    by (simp_all add: page_written_def)
  from u obtain w where w: "w \<in> set (pl_updates pl)" "u = projr (version_update_params e w)" by (auto simp: us(1))
  with page_written_facts(7) [OF pw] obtain k where k: "k \<in> set ks" "w \<in> set (k_updates now k)" by (auto simp: made_of_def)
  then obtain s where s: "ct_start k = Some s" "versioned k" "gu_product_id w = ct_pid k"
    by (cases "ct_start k") (auto simp: k_updates_def version_update_def ct_pid_def split: if_splits)
  from us(2) w have "version_update_params e w = Inr u" by simp
  from version_update_params_Inr(1) [OF this] s(3) have "gu_product_id u = ct_key e k" by (simp add: ct_key_def rid_Inr)
  with k(1) s(2) known_key(3) [OF page_written_facts(1) [OF pw] k(1) s(1)] show ?thesis by blast
qed

lemma not_updated:
  assumes pw: "page_written e te now ks pl db db' ps us"
    and "p_id p \<notin> p_id ` set (pb_products db) \<or> (\<forall>k \<in> set ks. versioned k \<longrightarrow> ct_key e k \<noteq> p_id p)"
  shows "find (guarded p) us = None"
proof (rule ccontr)
  assume "find (guarded p) us \<noteq> None"
  then obtain u where "u \<in> set us" "guarded p u" using find_SomeD by fastforce
  with sent_update [OF pw] assms(2) show False by (fastforce simp: guarded_def)
qed

lemma unversioned_product:
  assumes pw: "page_written e te now ks pl db db' ps us" and p: "p \<in> set ps"
    and none: "find (\<lambda>k. versioned k \<and> ct_key e k = p_id p) ks = None"
  shows "has_history db' p \<and> find (guarded p) us = None"
proof -
  from none have nk: "\<And>k. k \<in> set ks \<Longrightarrow> versioned k \<Longrightarrow> ct_key e k \<noteq> p_id p" by (auto simp: find_None_iff)
  have "p_id p \<notin> ct_key e ` set (filter (\<lambda>k. ct_start k = None) ks)"
    using nk new_versioned [OF page_written_facts(1) [OF pw]] by fastforce
  moreover have "p_id p \<in> set (map p_id ps)" using p by simp
  ultimately have "p_id p \<in> p_id ` set (pb_products db)" unfolding page_written_facts(3) [OF pw] by auto
  with old_product [OF pw p] page_written_facts(6) [OF pw] have "has_history db p" by blast
  then have "has_history db' p"
    by (rule history_unversioned) (simp_all add: page_written_facts(8,9) [OF pw] new_rows_def none)
  moreover have "find (guarded p) us = None" by (rule not_updated [OF pw]) (use nk in blast)
  ultimately show ?thesis ..
qed

text \<open>The versions and changes of a contribution, as rows.\<close>

lemma contributed_rows:
  assumes pw: "page_written e te now ks pl db db' ps us" and k: "k \<in> set ks" "versioned k"
    and fr: "opt_id e (start_version (ct_start k)) = Inr fr"
  shows "linked fr (start_number (ct_start k)) (map (\<lambda>v. projr (copy_version_params e v)) (ct_versions k))
      (map (\<lambda>c. projr (copy_change_params e c)) (ct_changes k))"
    and "copy_version_params e (last (ct_versions k)) = Inr (projr (copy_version_params e (last (ct_versions k))))"
proof -
  from pw obtain qs where rows:
    "copy_rows e CopyVersions (copy_version_params e) (bad_version e ps) (pl_versions pl) (pb_versions db) = Inr (pb_versions db')"
    "copy_rows e CopyChanges (copy_change_params e) (bad_change e qs (pb_versions db')) (pl_changes pl) (pb_changes db) = Inr (pb_changes db')"
    by (auto simp: page_written_def)
  note m = page_written_facts(7) [OF pw]
  have par: "\<forall>v \<in> set (ct_versions k). copy_version_params e v = Inr (projr (copy_version_params e v))"
    "\<forall>c \<in> set (ct_changes k). copy_change_params e c = Inr (projr (copy_change_params e c))"
    using copy_rows_params [OF rows(1)] copy_rows_params [OF rows(2)] m k(1) by (auto simp: made_of_def)
  obtain es where "chain (ct_pid k) (start_version (ct_start k)) (start_number (ct_start k)) (ct_versions k) (ct_changes k) es"
    using page_written_facts(1) [OF pw] k(1) by (auto simp: page_applied_def well_contributed_def)
  from linked_params [OF linked_chain [OF this] fr par]
  show "linked fr (start_number (ct_start k)) (map (\<lambda>v. projr (copy_version_params e v)) (ct_versions k))
      (map (\<lambda>c. projr (copy_change_params e c)) (ct_changes k))" .
  show "copy_version_params e (last (ct_versions k)) = Inr (projr (copy_version_params e (last (ct_versions k))))"
    using par(1) k(2) by simp
qed

lemma version_content:
  assumes "copy_version_params e v = Inr w"
  shows "v_canonical_name w = v_canonical_name v" "v_description w = v_description v" "v_brand w = v_brand v"
    "v_origin_country w = v_origin_country v"
  using copy_version_params_Inr(4) [OF assms] by (simp_all add: version_product_def)

text \<open>A product the page inserted, and a product it gave new versions.\<close>

lemma inserted_product:
  assumes pw: "page_written e te now ks pl db db' ps us" and p: "p \<in> set ps"
    and k: "k \<in> set ks" "versioned k" "ct_key e k = p_id p" "ct_start k = None"
    and fk: "find (\<lambda>k. versioned k \<and> ct_key e k = p_id p) ks = Some k"
  shows "has_history db' p \<and> find (guarded p) us = None"
proof -
  let ?V = "\<lambda>v. projr (copy_version_params e v)"
  let ?w = "product_row now (ct_end k) (last (ct_versions k))"
  from pw have ps: "copy_rows e CopyProducts (copy_product_params e) (bad_product e) (pl_products pl) (pb_products db) = Inr ps"
    by (simp add: page_written_def)
  have w: "?w \<in> set (pl_products pl)" using page_written_facts(7) [OF pw] k(1,4) by (auto simp: made_of_def k_products_def)
  note wpp = copy_product_params_Inr [OF copy_rows_params [OF ps w]]
  have "p_id (projr (copy_product_params e ?w)) = p_id p"
    using rid_Inr [OF wpp(1)] k(3) by (simp add: product_row_def ct_key_def ct_pid_def)
  moreover have "projr (copy_product_params e ?w) \<in> set ps" using w by (auto simp: copy_rows_Inr(3) [OF ps])
  ultimately have pw': "projr (copy_product_params e ?w) = p" using same_product [OF pw] p by blast
  note wpp' = wpp [unfolded pw']
  have fr: "opt_id e (start_version (ct_start k)) = Inr None"
    by (simp add: opt_id_Inr parse_optional_uuid_def start_version_def k(4))
  note rows = contributed_rows [OF pw k(1,2) fr]
  have "sn_current_version_id (ct_end k) = Some (v_id (last (ct_versions k)))"
    using page_written_facts(1) [OF pw] k(1,2) by (auto simp: page_applied_def well_contributed_def chain_end_def)
  then have "p_current_version_id p = Some (v_id (?V (last (ct_versions k))))"
    using wpp'(2) opt_id_parsed [OF copy_version_params_Inr(1) [OF rows(2)]] by (simp add: product_row_def)
  then have sv: "shows_version p (?V (last (ct_versions k)))"
    using wpp'(3-6) version_content [OF rows(2)] by (simp add: shows_version_def product_row_def)
  have notold: "p_id p \<notin> p_id ` set (pb_products db)"
  proof
    assume "p_id p \<in> p_id ` set (pb_products db)"
    moreover have "p_id p \<in> ct_key e ` set (filter (\<lambda>k. ct_start k = None) ks)" using k by force
    ultimately show False using page_written_facts(2) [OF pw] unfolding page_written_facts(3) [OF pw] by auto
  qed
  then have none: "versions_of db (p_id p) = []" "changes_of db (p_id p) = []"
    using page_written_facts(5) [OF pw] unfolding versions_of_def changes_of_def keys_ok_def filter_empty_conv by metis+
  have nr: "new_rows e (copy_version_params e) ct_versions ks (p_id p) = map ?V (ct_versions k)"
    "new_rows e (copy_change_params e) ct_changes ks (p_id p) = map (\<lambda>c. projr (copy_change_params e c)) (ct_changes k)"
    by (simp_all add: new_rows_def fk)
  have lv: "last (map ?V (ct_versions k)) = ?V (last (ct_versions k))" using k(2) by (rule last_map)
  have "has_history db' p"
    by (rule history_versioned [OF _ page_written_facts(8,9) [OF pw] _ _ refl])
      (use none rows(1) k(2,4) sv in \<open>simp_all add: chain_end_def nr lv start_number_def\<close>)
  moreover have "find (guarded p) us = None" by (rule not_updated [OF pw]) (use notold in blast)
  ultimately show ?thesis ..
qed

lemma updated_product:
  assumes pw: "page_written e te now ks pl db db' ps us" and p: "p \<in> set ps"
    and k: "k \<in> set ks" "versioned k" "ct_key e k = p_id p" "ct_start k = Some s"
    and fk: "find (\<lambda>k. versioned k \<and> ct_key e k = p_id p) ks = Some k"
  shows "\<exists>u. find (guarded p) us = Some u \<and> has_history db' (set_version p u)"
proof -
  let ?V = "\<lambda>v. projr (copy_version_params e v)"
  let ?w = "version_update now s (ct_end k) (last (ct_versions k))"
  let ?u = "projr (version_update_params e ?w)"
  from pw have us: "us = map (\<lambda>u. projr (version_update_params e u)) (sort_key gu_product_id (pl_updates pl))"
    "\<forall>u \<in> set (pl_updates pl). version_update_params e u = Inr (projr (version_update_params e u))"
    "\<forall>u \<in> set us. \<exists>r \<in> set ps. guarded r u \<and> find (guarded r) us = Some u"
    unfolding page_written_def by blast+
  note kok = page_written_facts(5) [OF pw]
  have w: "?w \<in> set (pl_updates pl)" using page_written_facts(7) [OF pw] k(1,2,4) by (auto simp: made_of_def k_updates_def)
  with us(2) have "version_update_params e ?w = Inr ?u" by blast
  note wpp = version_update_params_Inr [OF this]
  have "?u \<in> set us" using w by (simp add: us(1))
  with us(3) obtain r where r: "r \<in> set ps" "guarded r ?u" "find (guarded r) us = Some ?u" by blast
  have "gu_product_id ?u = p_id p"
    using rid_Inr [OF wpp(1)] k(3) by (simp add: version_update_def ct_key_def ct_pid_def)
  with r(2) have "r = p" using same_product [OF pw r(1) p] by (simp add: guarded_def)
  with r have gd: "guarded p ?u" "find (guarded p) us = Some ?u" by simp_all
  have rec: "recalls db s" using page_written_facts(1) [OF pw] k(1,4) by (auto simp: page_applied_def)
  obtain c where cur: "sn_current_version_id s = Some c" "canonical (px_scan e) c"
    using recalls_product(3) [OF kok rec] by blast
  have oc: "opt_id e (Some c) = Inr (Some c)" by (rule opt_id_parsed) (use cur(2) in \<open>simp add: canonical_def\<close>)
  have gp: "p_current_version_id p = sn_current_version_id s"
    using gd(1) wpp(3) oc cur(1) by (simp add: guarded_def version_update_def)
  have spid: "sn_product_id s = p_id p" using known_key [OF page_written_facts(1) [OF pw] k(1,4)] k(3) by simp
  have "p \<in> set (pb_products db)" using old_product [OF pw p] recalls_product(1) [OF kok rec] spid by simp
  then have hp: "has_history db p" using page_written_facts(6) [OF pw] by blast
  note meet = guard_meets_history [OF kok hp rec spid gp]
  have fr: "opt_id e (start_version (ct_start k)) = Inr (start_version (Some s))"
    using oc cur(1) by (simp add: start_version_def k(4))
  note rows = contributed_rows [OF pw k(1,2) fr]
  have "gu_to_version_id ?u = v_id (?V (last (ct_versions k)))"
    using wpp(2) copy_version_params_Inr(1) [OF rows(2)] by (simp add: version_update_def)
  then have sv: "shows_version (set_version p ?u) (?V (last (ct_versions k)))"
    using wpp(4-7) version_content [OF rows(2)] by (simp add: shows_version_def set_version_def) (simp add: version_update_def)
  have l0: "linked None 0 (versions_of db (p_id p)) (changes_of db (p_id p))" using hp by (simp add: has_history_def)
  have lv: "last (map ?V (ct_versions k)) = ?V (last (ct_versions k))" using k(2) by (rule last_map)
  have id: "p_id (set_version p ?u) = p_id p" by (simp add: set_version_def)
  have "has_history db' (set_version p ?u)"
    by (rule history_versioned [OF l0 page_written_facts(8,9) [OF pw] _ _ id])
      (use rows(1) [unfolded k(4) meet] k(2) sv in \<open>simp_all add: new_rows_def fk lv\<close>)
  with gd(2) show ?thesis by blast
qed

lemma page_product_history:
  assumes pw: "page_written e te now ks pl db db' ps us" and p: "p \<in> set ps"
  shows "has_history db' (case find (guarded p) us of None \<Rightarrow> p | Some u \<Rightarrow> set_version p u)"
proof (cases "find (\<lambda>k. versioned k \<and> ct_key e k = p_id p) ks")
  case None
  with unversioned_product [OF pw p] show ?thesis by simp
next
  case (Some k)
  then have k: "k \<in> set ks" "versioned k" "ct_key e k = p_id p" using find_SomeD by fastforce+
  show ?thesis
  proof (cases "ct_start k")
    case None
    with inserted_product [OF pw p k None Some] show ?thesis by simp
  next
    case s: (Some s)
    from updated_product [OF pw p k s Some] show ?thesis by auto
  qed
qed

text \<open>The keys after the page.\<close>

lemma page_keys:
  assumes pa: "page_applied e te now ks pl db db'"
  shows "keys_ok (px_scan e) db'"
proof -
  from pa have k: "keys_ok (px_scan e) db" and m: "made_of now ks pl" and cs: "canonical_scan (px_scan e)"
    and ap: "apply_batch e pl db = Inr db'"
    by (simp_all add: page_applied_def histories_ok_def)
  from ap obtain ps ss vs ps1 ps2 ss1 ss2 cs where
    ps: "copy_rows e CopyProducts (copy_product_params e) (bad_product e) (pl_products pl) (pb_products db) = Inr ps"
    and ss: "copy_rows e CopySources (copy_source_params e) (bad_source e ps) (pl_sources pl) (pb_sources db) = Inr ss"
    and vs: "copy_rows e CopyVersions (copy_version_params e) (bad_version e ps) (pl_versions pl) (pb_versions db) = Inr vs"
    and u1: "update_product_versions e (pl_updates pl) ps = Inr ps1"
    and u2: "update_product_fingerprints e (pl_fingerprints pl) ps1 = Inr ps2"
    and u3: "update_sources_on_changed e (pl_source_changes pl) ss = Inr ss1"
    and u4: "update_source_watermarks e (pl_watermarks pl) ss1 = Inr ss2"
    and ch: "copy_rows e CopyChanges (copy_change_params e) (bad_change e ps2 vs) (pl_changes pl) (pb_changes db) = Inr cs"
    and db': "db' = \<lparr>pb_products = ps2, pb_sources = ss2, pb_versions = vs, pb_changes = cs\<rparr>"
    by (rule apply_batch_Inr)
  note np = new_products [OF pa ps]
  have ids: "map p_id ps2 = map p_id ps" using versions_keep_ids [OF u1] core_ids(1) [OF fingerprints_keep_core [OF u2]] by simp
  have sids: "map source_core ss2 = map source_core ss" using sources_keep_core(1) [OF u3] sources_keep_core(2) [OF u4] by simp
  note sc = core_ids(2) [OF sids]
  have p_in: "p_id ` set ps2 = p_id ` set ps" using ids by (metis list.set_map)
  have old: "p_id ` set (pb_products db) \<subseteq> p_id ` set ps" by (auto simp: copy_rows_Inr(3) [OF ps])
  have new_sources: "map ps_product_id ss = map p_id ps"
  proof -
    have "map ps_product_id (map (\<lambda>r. projr (copy_source_params e r)) (pl_sources pl)) = map (rid (px_scan e)) (map ps_product_id (pl_sources pl))"
      using copy_source_params_Inr(2) [OF copy_rows_params [OF ss]] rid_Inr by auto
    also have "\<dots> = map (ct_key e) (filter (\<lambda>k. ct_start k = None) ks)"
      using m by (simp add: made_of_def made_sources ct_key_def comp_def del: map_map) (simp add: ct_key_def)
    finally show ?thesis using k by (simp add: np(2) copy_rows_Inr(3) [OF ss] keys_ok_def)
  qed
  have dv: "distinct (map v_id vs)"
    by (rule insert_all_distinct [OF copy_rows_Inr(2) [OF vs]]) (use k in \<open>auto simp: bad_version_def keys_ok_def\<close>)
  have ds: "distinct (map ps_id ss)" "distinct (map (\<lambda>s. (ps_source_id s, ps_external_product_id s)) ss)"
    by (rule insert_all_distinct [OF copy_rows_Inr(2) [OF ss]];
      use k in \<open>auto simp: bad_source_def keys_ok_def list_ex_iff\<close>)+
  have fv: "\<forall>v \<in> set vs. v_product_id v \<in> p_id ` set ps \<and> canonical (px_scan e) (v_id v)"
  proof -
    have "\<forall>v \<in> set (map (\<lambda>r. projr (copy_version_params e r)) (pl_versions pl)). v_product_id v \<in> p_id ` set ps"
      by (rule insert_all_checked [OF copy_rows_Inr(2) [OF vs]]) (simp add: bad_version_def)
    moreover have "canonical (px_scan e) (v_id (projr (copy_version_params e r)))" if "r \<in> set (pl_versions pl)" for r
      using copy_version_params_Inr(1) [OF copy_rows_params [OF vs that]] canonical_parsed [OF cs] by blast
    ultimately show ?thesis using k old by (auto simp: copy_rows_Inr(3) [OF vs] keys_ok_def)
  qed
  have fc: "\<forall>c \<in> set cs. ch_product_id c \<in> p_id ` set ps"
  proof -
    have "\<forall>c \<in> set (map (\<lambda>r. projr (copy_change_params e r)) (pl_changes pl)). ch_product_id c \<in> p_id ` set ps2"
      by (rule insert_all_checked [OF copy_rows_Inr(2) [OF ch]]) (simp add: bad_change_def)
    then show ?thesis using k old unfolding p_in by (auto simp: copy_rows_Inr(3) [OF ch] keys_ok_def)
  qed
  have can: "\<forall>s \<in> set ss. canonical (px_scan e) (ps_id s)"
  proof -
    have "canonical (px_scan e) (ps_id (projr (copy_source_params e r)))" if "r \<in> set (pl_sources pl)" for r
      using copy_source_params_Inr(1) [OF copy_rows_params [OF ss that]] canonical_parsed [OF cs] by blast
    with k show ?thesis by (auto simp: copy_rows_Inr(3) [OF ss] keys_ok_def)
  qed
  have "ps_id ` set ss2 = ps_id ` set ss" using sc by (metis list.set_map)
  with can have "\<forall>s \<in> set ss2. canonical (px_scan e) (ps_id s)" by (metis imageE imageI)
  moreover from np(3) p_in have "\<forall>p \<in> set ps2. canonical (px_scan e) (p_id p)" by (metis imageE imageI)
  ultimately show ?thesis
    using ids np(1) dv ds sc new_sources fv fc p_in by (simp add: keys_ok_def db')
qed

text \<open>The histories after the page.\<close>

lemma page_histories:
  assumes pa: "page_applied e te now ks pl db db'"
  shows "histories_ok (px_scan e) db'"
proof -
  from pa have ap: "apply_batch e pl db = Inr db'" by (simp add: page_applied_def)
  then obtain ps ss vs ps1 ps2 ss1 ss2 cs where
    ps: "copy_rows e CopyProducts (copy_product_params e) (bad_product e) (pl_products pl) (pb_products db) = Inr ps"
    and vs: "copy_rows e CopyVersions (copy_version_params e) (bad_version e ps) (pl_versions pl) (pb_versions db) = Inr vs"
    and u1: "update_product_versions e (pl_updates pl) ps = Inr ps1"
    and u2: "update_product_fingerprints e (pl_fingerprints pl) ps1 = Inr ps2"
    and ch: "copy_rows e CopyChanges (copy_change_params e) (bad_change e ps2 vs) (pl_changes pl) (pb_changes db) = Inr cs"
    and db': "db' = \<lparr>pb_products = ps2, pb_sources = ss2, pb_versions = vs, pb_changes = cs\<rparr>"
    by (rule apply_batch_Inr)
  obtain us where us: "us = map (\<lambda>u. projr (version_update_params e u)) (sort_key gu_product_id (pl_updates pl))"
    "\<forall>u \<in> set (pl_updates pl). version_update_params e u = Inr (projr (version_update_params e u))"
    "ps1 = map (\<lambda>r. case find (guarded r) us of None \<Rightarrow> r | Some u \<Rightarrow> set_version r u) ps"
    "\<forall>u \<in> set us. \<exists>r \<in> set ps. guarded r u \<and> find (guarded r) us = Some u"
    by (rule version_updates [OF pa new_products(1) [OF pa ps] u1])
  have pw: "page_written e te now ks pl db db' ps us"
    unfolding page_written_def using pa ps vs ch us versioned_keys [OF pa ps u1] by (auto simp: db')
  have "has_history db' p" if p: "p \<in> set ps1" for p
    using p page_product_history [OF pw] by (auto simp: us(3))
  then have h1: "\<forall>p \<in> set ps1. has_history db' p" by blast
  have "has_history db' q" if q: "q \<in> set ps2" for q
  proof -
    from q have "product_core q \<in> set (map product_core ps2)" by simp
    then obtain p where "p \<in> set ps1" "product_core q = product_core p" unfolding fingerprints_keep_core [OF u2] by auto
    with h1 show ?thesis by (auto intro: history_unversioned)
  qed
  with page_keys [OF pa] show ?thesis by (simp add: histories_ok_def db')
qed

lemma page_recalls:
  assumes pa: "page_applied e te now ks pl db db'" and s: "recalls db s"
  shows "recalls db' s"
proof -
  from pa have "apply_batch e pl db = Inr db'" by (simp add: page_applied_def)
  then obtain ps ss vs ss1 ss2 where
    ss: "copy_rows e CopySources (copy_source_params e) (bad_source e ps) (pl_sources pl) (pb_sources db) = Inr ss"
    and vs: "copy_rows e CopyVersions (copy_version_params e) (bad_version e ps) (pl_versions pl) (pb_versions db) = Inr vs"
    and u: "update_sources_on_changed e (pl_source_changes pl) ss = Inr ss1" "update_source_watermarks e (pl_watermarks pl) ss1 = Inr ss2"
    and db': "pb_sources db' = ss2" "pb_versions db' = vs"
    by (rule apply_batch_Inr) simp
  have "map source_core ss2 = map source_core ss" using sources_keep_core(1) [OF u(1)] sources_keep_core(2) [OF u(2)] by simp
  then have "ps_id ` set ss2 = ps_id ` set ss" using core_ids(2) by (metis list.set_map)
  with s show ?thesis by (auto simp: recalls_def db' copy_rows_Inr(3) [OF ss] copy_rows_Inr(3) [OF vs])
qed

subsection \<open>Transactions that interleave\<close>

text \<open>
  A page's transaction reads its snapshots in one statement and writes in others; other transactions
  may commit in between (\<open>READ COMMITTED\<close>, no row is locked by the read). The foreign key from a
  product to its current version is deferred to the commit. A state is the tables and, for each
  open transaction, the snapshots it has read.
\<close>

type_synonym product_world = "product_db \<times> (nat \<rightharpoonup> (string \<rightharpoonup> snapshot))"

definition current_versions_exist :: "product_db \<Rightarrow> bool" where
  "current_versions_exist db \<longleftrightarrow>
     list_all (\<lambda>p. case p_current_version_id p of None \<Rightarrow> True | Some v \<Rightarrow> v \<in> v_id ` set (pb_versions db)) (pb_products db)"

inductive product_step :: "text_env \<Rightarrow> scanner \<Rightarrow> product_world \<Rightarrow> product_world \<Rightarrow> bool" for te scan where
  read_snapshots: "px_scan e = scan \<Longrightarrow> find_snapshots e refs db = Inr sn \<Longrightarrow>
     product_step te scan (db, op) (db, op(t \<mapsto> sn))"
| write_page: "px_scan e = scan \<Longrightarrow> op t = Some sn \<Longrightarrow> decide_batch te ids sn incoming now = Inr pl \<Longrightarrow>
     apply_batch e pl db = Inr db' \<Longrightarrow> current_versions_exist db' \<Longrightarrow>
     product_step te scan (db, op) (db', op(t := None))"
| give_up: "product_step te scan (db, op) (db, op(t := None))"

inductive product_reachable :: "text_env \<Rightarrow> scanner \<Rightarrow> product_world \<Rightarrow> bool" for te scan where
  empty_tables: "product_reachable te scan
     (\<lparr>pb_products = [], pb_sources = [], pb_versions = [], pb_changes = []\<rparr>, Map.empty)"
| next_step: "product_reachable te scan w \<Longrightarrow> product_step te scan w w' \<Longrightarrow> product_reachable te scan w'"

lemma snapshots_recall:
  assumes h: "histories_ok scan db" and f: "find_snapshots e refs db = Inr sn" "sn k = Some s"
  shows "recalls db s"
proof -
  from f have "(k, s) \<in> set (snapshot_rows db refs)"
    by (auto simp: find_snapshots_def dest: map_of_SomeD split: if_splits option.splits)
  then obtain src where src: "src \<in> set (pb_sources db)" "find (\<lambda>p. p_id p = ps_product_id src) (pb_products db) \<noteq> None"
    and s: "s = snapshot_row db src (the (find (\<lambda>p. p_id p = ps_product_id src) (pb_products db)))"
    by (auto simp: snapshot_rows_def)
  then obtain p where fp: "find (\<lambda>p. p_id p = ps_product_id src) (pb_products db) = Some p" by blast
  with find_SomeD [OF fp] have p: "p \<in> set (pb_products db)" "p_id p = ps_product_id src" by simp_all
  with h have "has_history db p" by (simp add: histories_ok_def)
  then have v: "last (versions_of db (p_id p)) \<in> set (versions_of db (p_id p))"
    "p_current_version_id p = Some (v_id (last (versions_of db (p_id p))))"
    by (simp_all add: has_history_def shows_version_def)
  let ?v = "last (versions_of db (p_id p))"
  from v(1) have vin: "?v \<in> set (pb_versions db)" "v_product_id ?v = p_id p" by (simp_all add: versions_of_def)
  have "find (\<lambda>v. p_current_version_id p = Some (v_id v)) (pb_versions db) = Some ?v"
  proof -
    obtain w where w: "find (\<lambda>v. p_current_version_id p = Some (v_id v)) (pb_versions db) = Some w"
      using vin(1) v(2) by (cases "find (\<lambda>v. p_current_version_id p = Some (v_id v)) (pb_versions db)") (auto simp: find_None_iff)
    with find_SomeD [OF w] v(2) vin(1) h have "w = ?v"
      by (simp add: histories_ok_def keys_ok_def map_of_distinct_in [of v_id "pb_versions db"])
    with w show ?thesis by simp
  qed
  with vin v(2) src(1) p(2) show ?thesis
    unfolding recalls_def s fp option.sel snapshot_row_def by (intro conjI bexI [of _ ?v]) simp_all
qed

definition product_inv :: "scanner \<Rightarrow> product_world \<Rightarrow> bool" where
  "product_inv scan w \<longleftrightarrow> histories_ok scan (fst w) \<and>
     (\<forall>t sn k s. snd w t = Some sn \<longrightarrow> sn k = Some s \<longrightarrow> recalls (fst w) s)"

lemma product_invI [intro]:
  "histories_ok scan db \<Longrightarrow> (\<And>t sn k s. op t = Some sn \<Longrightarrow> sn k = Some s \<Longrightarrow> recalls db s) \<Longrightarrow> product_inv scan (db, op)"
  by (simp add: product_inv_def)

lemma product_invD:
  "product_inv scan (db, op) \<Longrightarrow> histories_ok scan db"
  "product_inv scan (db, op) \<Longrightarrow> op t = Some sn \<Longrightarrow> sn k = Some s \<Longrightarrow> recalls db s"
  by (simp_all add: product_inv_def)

lemma product_step_inv:
  assumes step: "product_step te scan w w'" and cs: "canonical_scan scan" and inv: "product_inv scan w"
  shows "product_inv scan w'"
  using step
proof cases
  case (read_snapshots e refs db sn op t)
  note inv = inv [unfolded read_snapshots(1)]
  show ?thesis unfolding read_snapshots(2)
  proof (rule product_invI)
    show "histories_ok scan db" by (rule product_invD(1) [OF inv])
    show "recalls db s" if "(op(t \<mapsto> sn)) u = Some sn'" "sn' k = Some s" for u sn' k s
    proof (cases "u = t")
      case True
      with that have "sn k = Some s" by simp
      then show ?thesis by (rule snapshots_recall [OF product_invD(1) [OF inv] read_snapshots(4)])
    next
      case False
      with that have "op u = Some sn'" by simp
      then show ?thesis using that(2) by (rule product_invD(2) [OF inv])
    qed
  qed
next
  case (write_page e op t sn ids incoming now pl db db')
  note inv = inv [unfolded write_page(1)]
  obtain ks where m: "made_of now ks pl" "map ct_group ks = group_by_identity incoming"
    "\<forall>k \<in> set ks. well_contributed te k \<and> ct_start k = sn (ig_key (ct_group k))"
    by (rule decide_batch_made_of [OF write_page(5)])
  have rs: "\<forall>k \<in> set ks. well_contributed te k \<and> (\<forall>s. ct_start k = Some s \<longrightarrow> recalls db s)"
    using m(3) product_invD(2) [OF inv write_page(4)] by metis
  have pa: "page_applied e te now ks pl db db'"
    unfolding page_applied_def write_page(3) using cs product_invD(1) [OF inv] m(1) write_page(6) rs by blast
  show ?thesis unfolding write_page(2)
  proof (rule product_invI)
    show "histories_ok scan db'" using page_histories [OF pa] unfolding write_page(3) .
    show "recalls db' s" if "(op(t := None)) u = Some sn'" "sn' k = Some s" for u sn' k s
    proof -
      from that(1) have "op u = Some sn'" by (simp split: if_splits)
      from page_recalls [OF pa product_invD(2) [OF inv this that(2)]] show ?thesis .
    qed
  qed
next
  case (give_up db op t)
  note inv = inv [unfolded give_up(1)]
  show ?thesis unfolding give_up(2)
  proof (rule product_invI)
    show "histories_ok scan db" by (rule product_invD(1) [OF inv])
    show "recalls db s" if "(op(t := None)) u = Some sn" "sn k = Some s" for u sn k s
      using that product_invD(2) [OF inv, of u] by (simp split: if_splits)
  qed
qed

lemma product_reachable_inv:
  assumes "product_reachable te scan w" "canonical_scan scan"
  shows "product_inv scan w"
  using assms
proof (induction rule: product_reachable.induct)
  case empty_tables
  show ?case by (rule product_invI) (simp_all add: histories_ok_def keys_ok_def)
next
  case (next_step w w')
  then show ?case using product_step_inv by blast
qed

text \<open>Claim C7. Whatever the order in which the pages of concurrent workers read their snapshots and
  commit, every product keeps its history: its versions are numbered from 1 without a gap, each with
  the one change row that names its predecessor, the product row shows its newest version, every
  source identity belongs to one product and every product to one identity.\<close>

theorem product_histories_kept:
  assumes "product_reachable te scan (db, op)" "canonical_scan scan"
  shows "keys_ok scan db \<and> (\<forall>p \<in> set (pb_products db). has_history db p)"
  using product_invD(1) [OF product_reachable_inv [OF assms]] by (simp add: histories_ok_def)

lemma histories_numbered:
  "has_history db p \<Longrightarrow> map v_number (versions_of db (p_id p)) = map (\<lambda>k. int k + 1) [0..<length (versions_of db (p_id p))]"
  using linked_numbers [of None 0 "versions_of db (p_id p)" "changes_of db (p_id p)"]
  by (simp add: has_history_def add.commute)

subsection \<open>An instance\<close>

definition demo_scan :: scanner where
  "demo_scan s = (if s \<noteq> [] \<and> trim_space s = s then Some s else None)"

lemma demo_scan_canonical: "canonical_scan demo_scan"
  by (simp add: canonical_scan_def demo_scan_def)

definition demo_products :: product_env where
  "demo_products = \<lparr>px_scan = demo_scan, px_round = (\<lambda>t. t), px_check_product = (\<lambda>p. None),
     px_check_source = (\<lambda>s. None), px_check_version = (\<lambda>v. None), px_check_change = (\<lambda>c. None), px_fault = (\<lambda>st. None)\<rparr>"

definition demo_draws :: "char \<Rightarrow> id_supply" where
  "demo_draws c n = Inr (c # replicate n (CHR ''i''))"

definition no_products :: product_db where
  "no_products = \<lparr>pb_products = [], pb_sources = [], pb_versions = [], pb_changes = []\<rparr>"

definition demo_write :: "char \<Rightarrow> (string \<rightharpoonup> snapshot) \<Rightarrow> batch_record list \<Rightarrow> product_db \<Rightarrow> gerr + product_db" where
  "demo_write c sn incoming db = bindr (decide_batch demo_te (demo_draws c) sn incoming 40) (\<lambda>pl. apply_batch demo_products pl db)"

definition demo_read :: "product_db \<Rightarrow> string \<rightharpoonup> snapshot" where
  "demo_read db = map_of (rev (snapshot_rows db [(''s1'', ''x1'')]))"

definition demo_db1 :: product_db where
  "demo_db1 = \<lparr>pb_products = [\<lparr>p_id = ''a'', p_canonical_name = ''TV'', p_description = [], p_brand = ''ACME'',
       p_origin_country = ''CN'', p_status = StatusDraft, p_current_version_id = Some ''aii'',
       p_current_fingerprint = ''v1:TV|acme'', p_created_at = 40, p_updated_at = 40\<rparr>],
     pb_sources = [\<lparr>ps_id = ''ai'', ps_product_id = ''a'', ps_source_id = ''s1'', ps_external_product_id = ''x1'',
       ps_first_seen_at = 40, ps_last_changed_at = 40, ps_last_source_updated_at = Some 10, ps_last_received_at = 10\<rparr>],
     pb_versions = [\<lparr>v_id = ''aii'', v_product_id = ''a'', v_number = 1, v_fingerprint = ''v1:TV|acme'',
       v_canonical_name = ''TV'', v_description = [], v_brand = ''ACME'', v_origin_country = ''CN'', v_attributes = [],
       v_ingestion_run_id = Some ''run'', v_created_at = 40\<rparr>],
     pb_changes = [\<lparr>ch_id = ''aiii'', ch_product_id = ''a'', ch_from_version_id = None, ch_to_version_id = ''aii'',
       ch_type = ChangeTypeNew, ch_changed_fields = [], ch_ingestion_run_id = Some ''run'',
       ch_raw_record_id = Some ''r1'', ch_detected_at = 40\<rparr>]\<rparr>"

definition demo_db2 :: product_db where
  "demo_db2 = demo_db1\<lparr>pb_sources := map (\<lambda>s. raise_source s (Some 30) 30) (pb_sources demo_db1)\<rparr>"

definition demo_db3 :: product_db where
  "demo_db3 = demo_db2\<lparr>
     pb_products := map (\<lambda>p. p\<lparr>p_canonical_name := ''TV 2'', p_current_version_id := Some ''c'',
       p_current_fingerprint := ''v1:TV 2|acme''\<rparr>) (pb_products demo_db2),
     pb_versions := pb_versions demo_db2 @ map (\<lambda>v. v\<lparr>v_id := ''c'', v_number := 2, v_fingerprint := ''v1:TV 2|acme'',
       v_canonical_name := ''TV 2''\<rparr>) (pb_versions demo_db2),
     pb_changes := pb_changes demo_db2 @ [\<lparr>ch_id = ''ci'', ch_product_id = ''a'', ch_from_version_id = Some ''aii'',
       ch_to_version_id = ''c'', ch_type = ChangeTypeChanged, ch_changed_fields = [''canonical_name''],
       ch_ingestion_run_id = Some ''run'', ch_raw_record_id = Some ''r2'', ch_detected_at = 40\<rparr>]\<rparr>"

lemma demo_writes:
  "demo_write (CHR ''a'') Map.empty [demo_record ''r1'' ''TV'' 10] no_products = Inr demo_db1"
  "demo_write (CHR ''b'') (demo_read demo_db1) [demo_record ''r3'' ''TV'' 30] demo_db1 = Inr demo_db2"
  "demo_write (CHR ''c'') (demo_read demo_db1) [demo_record ''r2'' ''TV 2'' 20] demo_db2 = Inr demo_db3"
  by code_simp+

lemma demo_versions_exist:
  "current_versions_exist demo_db1" "current_versions_exist demo_db2" "current_versions_exist demo_db3"
  by code_simp+

lemma demo_step:
  assumes "demo_write c sn incoming db = Inr db'" "current_versions_exist db'" "op t = Some sn"
  shows "product_step demo_te demo_scan (db, op) (db', op(t := None))"
proof -
  from assms(1) obtain pl where "decide_batch demo_te (demo_draws c) sn incoming 40 = Inr pl"
    "apply_batch demo_products pl db = Inr db'"
    unfolding demo_write_def bindr_Inr_iff by blast
  with assms(2,3) show ?thesis by (intro write_page [where e = demo_products]) (simp_all add: demo_products_def)
qed

lemma demo_reads: "product_step demo_te demo_scan (db, op) (db, op(t \<mapsto> demo_read db))"
  by (rule read_snapshots [where e = demo_products and refs = "[(''s1'', ''x1'')]"])
    (simp_all add: demo_products_def find_snapshots_def demo_read_def)

lemma demo_reached:
  "product_reachable demo_te demo_scan (demo_db3, Map.empty)"
proof -
  let ?r = "product_reachable demo_te demo_scan"
  have e: "demo_read no_products = Map.empty" by (simp add: demo_read_def snapshot_rows_def no_products_def)
  have "?r (no_products, Map.empty)" using product_reachable.empty_tables by (simp add: no_products_def)
  from next_step [OF this demo_reads [of _ _ 0]] have "?r (no_products, [0 \<mapsto> Map.empty])" by (simp add: e)
  from next_step [OF this demo_step [OF demo_writes(1) demo_versions_exist(1), of _ 0]]
  have "?r (demo_db1, Map.empty)" by simp
  from next_step [OF this demo_reads [of _ _ 1]] have "?r (demo_db1, [1 \<mapsto> demo_read demo_db1])" by simp
  from next_step [OF this demo_reads [of _ _ 2]] have "?r (demo_db1, [1 \<mapsto> demo_read demo_db1, 2 \<mapsto> demo_read demo_db1])" by simp
  from next_step [OF this demo_step [OF demo_writes(2) demo_versions_exist(2), of _ 2]]
  have "?r (demo_db2, [1 \<mapsto> demo_read demo_db1])" by simp
  from next_step [OF this demo_step [OF demo_writes(3) demo_versions_exist(3), of _ 1]]
  show ?thesis by simp
qed

theorem product_histories_kept_witness:
  "keys_ok demo_scan demo_db3 \<and> list_all (has_history demo_db3) (pb_products demo_db3)"
  using product_histories_kept [OF demo_reached demo_scan_canonical] by (simp add: list_all_iff)

text \<open>
  The guard of the update is the version alone. A page that read its snapshot before another page
  moved the watermark, without a new version, still commits: the catalogue then shows the content of
  an older record (time 20), though a newer one (time 30) had confirmed the content before it.
\<close>

lemma older_record_can_win:
  "product_reachable demo_te demo_scan (demo_db3, Map.empty)"
  "map p_canonical_name (pb_products demo_db3) = [''TV 2'']"
  "map ps_last_source_updated_at (pb_sources demo_db3) = [Some 30]"
  "map v_number (pb_versions demo_db3) = [1, 2]"
  by (rule demo_reached) code_simp+

end
