(* ===== verification/ProcessRun.thy ===== *)
theory ProcessRun
  imports ProductStore SyncStore Source
begin

text \<open>
  The run processor, \<open>internal/application/product/process_run.go\<close>: claim a finished run, read its raw
  records page by page after the cursor, normalize and fingerprint them, decide and apply the batch
  and advance the cursor in one transaction, until no record is left; then complete the claim. It is
  a client of the run, source, raw record, processing and product repositories, of the outbox and of
  the transaction runner.

  The locale \<open>run_queue\<close> states what the processor relies on, and what it promises.
\<close>

subsection \<open>What the processor calls\<close>

text \<open>\<open>'t\<close> is the state that a transaction works on. \<open>pd_draw\<close> is what \<open>time.Now\<close> and the id
  generator give inside a transaction; \<open>pd_release\<close>, \<open>pd_fail\<close> and \<open>pd_complete\<close> are called under a
  context of their own (\<open>cleanup.Context\<close>).\<close>

record ('s, 't, 'f, 'g) process_deps =
  pd_ctx_err :: "'s \<Rightarrow> gerr option"
  pd_find_run :: "string \<Rightarrow> 's \<Rightarrow> 's \<times> (gerr + ingestion_run)"
  pd_ensure :: "string \<Rightarrow> 's \<Rightarrow> 's \<times> (gerr + run_processing)"
  pd_reset :: "string \<Rightarrow> 's \<Rightarrow> 's \<times> (gerr + run_processing)"
  pd_claim_next :: "string \<Rightarrow> duration \<Rightarrow> 's \<Rightarrow> 's \<times> (gerr + run_processing option)"
  pd_claim :: "string \<Rightarrow> string \<Rightarrow> duration \<Rightarrow> 's \<Rightarrow> 's \<times> (gerr + run_processing)"
  pd_source :: "string \<Rightarrow> 's \<Rightarrow> 's \<times> (gerr + 'g source)"
  pd_list :: "string \<Rightarrow> string option \<Rightarrow> int \<Rightarrow> 's \<Rightarrow> 's \<times> (gerr + raw_record list)"
  pd_release :: "string \<Rightarrow> string \<Rightarrow> 's \<Rightarrow> 's \<times> (gerr + unit)"
  pd_fail :: "string \<Rightarrow> string \<Rightarrow> string \<Rightarrow> 's \<Rightarrow> 's \<times> (gerr + unit)"
  pd_complete :: "string \<Rightarrow> string \<Rightarrow> 's \<Rightarrow> 's \<times> (gerr + run_processing)"
  pd_within_tx :: "('t \<Rightarrow> gerr + ('t \<times> run_processing option)) \<Rightarrow> 's \<Rightarrow> 's \<times> (gerr + run_processing option)"
  pd_snapshots :: "identity_ref list \<Rightarrow> 't \<Rightarrow> gerr + ('t \<times> (string \<rightharpoonup> snapshot))"
  pd_draw :: "'t \<Rightarrow> instant \<times> id_supply"
  pd_apply :: "plan \<Rightarrow> 't \<Rightarrow> gerr + ('t \<times> unit)"
  pd_events :: "product_changed list \<Rightarrow> 't \<Rightarrow> gerr + ('t \<times> unit)"
  pd_progress :: "string \<Rightarrow> string \<Rightarrow> metrics \<Rightarrow> string option \<Rightarrow> duration \<Rightarrow> 't \<Rightarrow> gerr + ('t \<times> run_processing option)"
  pd_text :: text_env
  pd_decode :: "string \<Rightarrow> gerr + (json \<times> string)"
  pd_source_env :: "'g source_env"
  pd_error_text :: "gerr \<Rightarrow> string"
  pd_fdiv :: "int \<Rightarrow> int \<Rightarrow> 'f"

record 'f process_options =
  po_claim_token :: string
  po_lease :: duration
  po_batch_size :: int
  po_from_start :: bool
  po_budget :: "'f error_budget"

record process_result =
  pr_run_id :: string
  pr_metrics :: metrics

subsection \<open>A page\<close>

definition to_batch_record :: "text_env \<Rightarrow> string \<Rightarrow> raw_record \<Rightarrow> normalized \<Rightarrow> batch_record" where
  "to_batch_record te runid r n = \<lparr>br_raw_record_id = rr_id r, br_source_id = rr_source_id r,
     br_external_product_id = rr_external_product_id r, br_normalized = n, br_fingerprint = fingerprint te n,
     br_source_updated_at = rr_source_updated_at r, br_received_at = rr_received_at r, br_ingestion_run_id = runid\<rparr>"

text \<open>The records of a page that normalize, and how many do not.\<close>

fun page_records ::
  "text_env \<Rightarrow> (string \<Rightarrow> gerr + (json \<times> string)) \<Rightarrow> field_mapping \<Rightarrow> string \<Rightarrow> raw_record list \<Rightarrow> batch_record list \<times> int" where
  "page_records te decode fm runid [] = ([], 0)"
| "page_records te decode fm runid (r # rs) =
     (case page_records te decode fm runid rs of (valid, failed) \<Rightarrow>
        (case normalize te decode (rr_payload r) fm of
           Inl _ \<Rightarrow> (valid, failed + 1)
         | Inr n \<Rightarrow> (to_batch_record te runid r n # valid, failed)))"

fun page_identities :: "string list \<Rightarrow> batch_record list \<Rightarrow> identity_ref list" where
  "page_identities seen [] = []"
| "page_identities seen (r # rs) =
     (if record_key r \<in> set seen then page_identities seen rs
      else (br_source_id r, br_external_product_id r) # page_identities (record_key r # seen) rs)"

record page_args =
  pa_valid :: "batch_record list"
  pa_seen :: int
  pa_failed :: int
  pa_last :: string

definition page_counters :: "page_args \<Rightarrow> plan option \<Rightarrow> metrics" where
  "page_counters a pl = (case pl of
       None \<Rightarrow> \<lparr>m_seen = pa_seen a, m_new = 0, m_changed = 0, m_unchanged = 0, m_failed = pa_failed a\<rparr>
     | Some p \<Rightarrow> \<lparr>m_seen = pa_seen a, m_new = m_new (pl_metrics p), m_changed = m_changed (pl_metrics p),
         m_unchanged = m_unchanged (pl_metrics p), m_failed = pa_failed a\<rparr>)"

definition page_plan ::
  "('s, 't, 'f, 'g) process_deps \<Rightarrow> page_args \<Rightarrow> 't \<Rightarrow> gerr + ('t \<times> plan option)" where
  "page_plan d a t =
     (if pa_valid a = [] then Inr (t, None)
      else bindr (mapl Wrap (pd_snapshots d (page_identities [] (pa_valid a)) t)) (\<lambda>(t, snapshots).
        case pd_draw d t of (now, ids) \<Rightarrow>
        bindr (mapl Wrap (decide_batch (pd_text d) ids snapshots (pa_valid a) now)) (\<lambda>pl.
        bindr (pd_apply d pl t) (\<lambda>(t, _).
        bindr (mapl Wrap (pd_events d (pl_events pl) t)) (\<lambda>(t, _). Inr (t, Some pl))))))"

definition page_body ::
  "('s, 't, 'f, 'g) process_deps \<Rightarrow> string \<Rightarrow> string \<Rightarrow> duration \<Rightarrow> page_args \<Rightarrow> 't \<Rightarrow> gerr + ('t \<times> run_processing option)" where
  "page_body d runid token lease a t =
     bindr (page_plan d a t) (\<lambda>(t, pl). pd_progress d runid token (page_counters a pl) (Some (pa_last a)) lease t)"

definition is_conflict :: "gerr \<Rightarrow> bool" where
  "is_conflict x \<longleftrightarrow> err_is x (Product ErrIdentityConflict) \<or> err_is x (Product ErrVersionConflict) \<or>
     err_is x (Product ErrDeadlockConflict)"

text \<open>At most \<open>n\<close> attempts, after the conflict \<open>lastErr\<close>.\<close>

fun page_attempts ::
  "('s, 't, 'f::linorder, 'g) process_deps \<Rightarrow> 'f error_budget \<Rightarrow> string \<Rightarrow> string \<Rightarrow> duration \<Rightarrow> page_args \<Rightarrow> nat \<Rightarrow> gerr \<Rightarrow> 's
     \<Rightarrow> 's \<times> (gerr + run_processing)" where
  "page_attempts d budget runid token lease a 0 lastErr w = (w, Inl (Wrap lastErr))"
| "page_attempts d budget runid token lease a (Suc n) lastErr w =
     (case pd_within_tx d (page_body d runid token lease a) w of
        (w, Inr None) \<Rightarrow> (w, Inl (Leaf (Processing ErrProgressNotReturned)))
      | (w, Inr (Some rp)) \<Rightarrow>
          (case check_budget (pd_fdiv d) budget (m_seen (rp_metrics rp)) (m_failed (rp_metrics rp)) of
             Inl x \<Rightarrow> (w, Inl x) | Inr _ \<Rightarrow> (w, Inr rp))
      | (w, Inl x) \<Rightarrow>
          if err_is x (Processing ErrLeaseLost) then (w, Inl x)
          else if is_conflict x then page_attempts d budget runid token lease a n x w
          else (w, Inl x))"

definition page_with_retry ::
  "('s, 't, 'f::linorder, 'g) process_deps \<Rightarrow> 'f error_budget \<Rightarrow> string \<Rightarrow> string \<Rightarrow> duration \<Rightarrow> page_args \<Rightarrow> 's
     \<Rightarrow> 's \<times> (gerr + run_processing)" where
  "page_with_retry d budget runid token lease a w = page_attempts d budget runid token lease a 2 (Opaque []) w"

subsection \<open>The ways out\<close>

type_synonym process_outcome = "gerr + process_result"

definition err_of :: "gerr + 'a \<Rightarrow> gerr option" where
  "err_of r = (case r of Inl x \<Rightarrow> Some x | Inr _ \<Rightarrow> None)"

text \<open>\<open>errors.Join(err, other)\<close> where \<open>err\<close> is not nil.\<close>

definition joined :: "gerr \<Rightarrow> gerr + 'a \<Rightarrow> gerr" where
  "joined x r = (case join_errs [Some x, err_of r] of None \<Rightarrow> x | Some y \<Rightarrow> y)"

definition release_claimed ::
  "('s, 't, 'f, 'g) process_deps \<Rightarrow> string \<Rightarrow> string \<Rightarrow> gerr \<Rightarrow> 's \<Rightarrow> 's \<times> process_outcome" where
  "release_claimed d runid token cause w = (case pd_release d runid token w of (w, r) \<Rightarrow> (w, Inl (joined cause r)))"

definition fail_claimed ::
  "('s, 't, 'f, 'g) process_deps \<Rightarrow> string \<Rightarrow> string \<Rightarrow> string \<Rightarrow> gerr \<Rightarrow> 's \<Rightarrow> 's \<times> process_outcome" where
  "fail_claimed d runid token reason x w = (case pd_fail d runid token reason w of (w, r) \<Rightarrow> (w, Inl (joined x r)))"

text \<open>\<open>if ctx.Err() != nil { release }\<close>, otherwise fail.\<close>

definition release_or_fail ::
  "('s, 't, 'f, 'g) process_deps \<Rightarrow> string \<Rightarrow> string \<Rightarrow> string \<Rightarrow> gerr \<Rightarrow> 's \<Rightarrow> 's \<times> process_outcome" where
  "release_or_fail d runid token reason x w =
     (case pd_ctx_err d w of Some c \<Rightarrow> release_claimed d runid token c w | None \<Rightarrow> fail_claimed d runid token reason x w)"

subsection \<open>The loop\<close>

definition page_args_of ::
  "('s, 't, 'f, 'g) process_deps \<Rightarrow> field_mapping \<Rightarrow> string \<Rightarrow> raw_record list \<Rightarrow> page_args" where
  "page_args_of d fm runid records = (case page_records (pd_text d) (pd_decode d) fm runid records of (valid, failed) \<Rightarrow>
     \<lparr>pa_valid = valid, pa_seen = int (length records), pa_failed = failed, pa_last = rr_id (last records)\<rparr>)"

definition finish_run ::
  "('s, 't, 'f, 'g) process_deps \<Rightarrow> string \<Rightarrow> string \<Rightarrow> 's \<Rightarrow> 's \<times> process_outcome" where
  "finish_run d runid token w = (case pd_complete d runid token w of
       (w, Inl x) \<Rightarrow> (w, Inl (Wrap x))
     | (w, Inr rp) \<Rightarrow> (w, Inr \<lparr>pr_run_id = runid, pr_metrics = rp_metrics rp\<rparr>))"

text \<open>One iteration: it returns (\<open>Inl\<close>), or goes on after the last record of the page (\<open>Inr\<close>).\<close>

definition process_page ::
  "('s, 't, 'f::linorder, 'g) process_deps \<Rightarrow> 'f process_options \<Rightarrow> field_mapping \<Rightarrow> string \<Rightarrow> string \<Rightarrow> string option \<Rightarrow> 's
     \<Rightarrow> ('s \<times> process_outcome) + (string option \<times> 's)" where
  "process_page d opts fm runid token cursor w =
     (case pd_ctx_err d w of Some c \<Rightarrow> Inl (release_claimed d runid token c w)
      | None \<Rightarrow>
          (case pd_list d runid cursor (po_batch_size opts) w of
             (w, Inl x) \<Rightarrow> Inl (release_or_fail d runid token (pd_error_text d x) (Wrap x) w)
           | (w, Inr records) \<Rightarrow>
               if records = [] then Inl (finish_run d runid token w)
               else (let a = page_args_of d fm runid records in
                 case page_with_retry d (po_budget opts) runid token (po_lease opts) a w of
                   (w, Inl x) \<Rightarrow>
                     (if pd_ctx_err d w = None \<and> err_is x (Processing ErrLeaseLost) then Inl (w, Inl x)
                      else Inl (release_or_fail d runid token (pd_error_text d x) x w))
                 | (w, Inr _) \<Rightarrow> Inr (Some (pa_last a), w))))"

partial_function (option) process_loop ::
  "('s, 't, 'f::linorder, 'g) process_deps \<Rightarrow> 'f process_options \<Rightarrow> field_mapping \<Rightarrow> string \<Rightarrow> string \<Rightarrow> string option \<Rightarrow> 's
     \<Rightarrow> ('s \<times> process_outcome) option" where
  "process_loop d opts fm runid token cursor w =
     (case process_page d opts fm runid token cursor w of
        Inl y \<Rightarrow> Some y | Inr (cursor', w') \<Rightarrow> process_loop d opts fm runid token cursor' w')"

declare process_loop.simps [code]

subsection \<open>The run\<close>

text \<open>From the claim on: the source, its field mapping, the loop.\<close>

definition process_claimed ::
  "('s, 't, 'f::linorder, 'g) process_deps \<Rightarrow> 'f process_options \<Rightarrow> string \<Rightarrow> string \<Rightarrow> ingestion_run \<Rightarrow> run_processing \<Rightarrow> 's
     \<Rightarrow> ('s \<times> process_outcome) option" where
  "process_claimed d opts runid token run rp w =
     (case pd_source d (ir_source_id run) w of
        (w, Inl x) \<Rightarrow> Some (release_or_fail d runid token (pd_error_text d x) (Wrap x) w)
      | (w, Inr src) \<Rightarrow>
          (case get_field_mapping (pd_source_env d) src of
             Inl x \<Rightarrow> Some (fail_claimed d runid token (pd_error_text d x) (wrap2 (Product ErrInvalidFieldMapping) x) w)
           | Inr None \<Rightarrow> Some (fail_claimed d runid token ''missing field mapping on source configuration''
                             (Leaf (Product ErrMissingFieldMapping)) w)
           | Inr (Some fm) \<Rightarrow> process_loop d opts fm runid token (rp_cursor rp) w))"

definition reset_if :: "('s, 't, 'f, 'g) process_deps \<Rightarrow> bool \<Rightarrow> string \<Rightarrow> 's \<Rightarrow> 's \<times> (gerr + unit)" where
  "reset_if d from_start runid w =
     (if from_start then (case pd_reset d runid w of (w, Inl x) \<Rightarrow> (w, Inl (Wrap x)) | (w, Inr _) \<Rightarrow> (w, Inr ()))
      else (w, Inr ()))"

definition process_ready ::
  "('s, 't, 'f::linorder, 'g) process_deps \<Rightarrow> 'f process_options \<Rightarrow> string \<Rightarrow> string \<Rightarrow> 's \<Rightarrow> ('s \<times> process_outcome) option" where
  "process_ready d opts runid token w =
     (case pd_find_run d runid w of
        (w, Inl x) \<Rightarrow> Some (w, Inl (Wrap x))
      | (w, Inr run) \<Rightarrow>
          if \<not> processable (ir_status run) then Some (w, Inl (Wrap (Leaf (Ingestion ErrInvalidRunState))))
          else (case pd_ensure d runid w of
            (w, Inl x) \<Rightarrow> Some (w, Inl (Wrap x))
          | (w, Inr _) \<Rightarrow>
              (case reset_if d (po_from_start opts) runid w of
                 (w, Inl x) \<Rightarrow> Some (w, Inl x)
               | (w, Inr _) \<Rightarrow>
                   (case pd_claim d runid token (po_lease opts) w of
                      (w, Inl x) \<Rightarrow> Some (w, Inl (Wrap x))
                    | (w, Inr rp) \<Rightarrow> process_claimed d opts runid token run rp w))))"

definition validate_options :: "'f \<Rightarrow> 'f \<Rightarrow> string \<Rightarrow> 'f::linorder process_options \<Rightarrow> gerr + unit" where
  "validate_options zero one run_id opts =
     failif (is_blank run_id) (Leaf (Ingestion ErrInvalidRunID))
    (failif (is_blank (po_claim_token opts)) (Leaf (Ingestion ErrInvalidClaimToken))
    (failif (po_lease opts \<le> 0) (Leaf (Ingestion ErrInvalidLeaseDuration))
    (failif (po_batch_size opts \<le> 0) (Leaf (Ingestion ErrInvalidBatchSize))
    (mapl Wrap (validate_budget zero one (po_budget opts))))))"

definition process_run ::
  "'f \<Rightarrow> 'f \<Rightarrow> ('s, 't, 'f::linorder, 'g) process_deps \<Rightarrow> 'f process_options \<Rightarrow> string \<Rightarrow> 's \<Rightarrow> ('s \<times> process_outcome) option" where
  "process_run zero one d opts run_id w =
     (case validate_options zero one run_id opts of
        Inl x \<Rightarrow> Some (w, Inl x)
      | Inr _ \<Rightarrow> process_ready d opts (trim_space run_id) (trim_space (po_claim_token opts)) w)"

text \<open>One step of a worker; no claimable run is no result and no error.\<close>

definition process_next ::
  "'f \<Rightarrow> 'f \<Rightarrow> ('s, 't, 'f::linorder, 'g) process_deps \<Rightarrow> 'f process_options \<Rightarrow> 's \<Rightarrow> ('s \<times> (gerr + process_result option)) option" where
  "process_next zero one d opts w =
     (case pd_claim_next d (po_claim_token opts) (po_lease opts) w of
        (w, Inl x) \<Rightarrow> Some (w, Inl (Wrap x))
      | (w, Inr None) \<Rightarrow> Some (w, Inr None)
      | (w, Inr (Some rp)) \<Rightarrow>
          (case process_run zero one d opts (rp_run_id rp) w of
             None \<Rightarrow> None
           | Some (w, Inl x) \<Rightarrow> Some (w, Inl (Wrap x))
           | Some (w, Inr r) \<Rightarrow> Some (w, Inr (Some r))))"

subsection \<open>What a run counts\<close>

definition after_cursor :: "string option \<Rightarrow> raw_record \<Rightarrow> bool" where
  "after_cursor c r \<longleftrightarrow> (case c of None \<Rightarrow> True | Some x \<Rightarrow> x < rr_id r)"

definition metrics_add_up :: "metrics \<Rightarrow> bool" where
  "metrics_add_up m \<longleftrightarrow> m_seen m = m_new m + m_changed m + m_unchanged m + m_failed m"

text \<open>The counters of a claim count each record up to its cursor, and no other, exactly once.\<close>

definition accounted :: "raw_record list \<Rightarrow> string option \<Rightarrow> metrics \<Rightarrow> bool" where
  "accounted rs c m \<longleftrightarrow> m_seen m = int (length (filter (\<lambda>r. \<not> after_cursor c r) rs)) \<and> metrics_add_up m \<and>
     (case c of None \<Rightarrow> True | Some x \<Rightarrow> x \<in> rr_id ` set rs)"

definition by_id :: "raw_record list \<Rightarrow> bool" where
  "by_id rs \<longleftrightarrow> sorted_wrt (\<lambda>x y. rr_id x < rr_id y) rs"

definition next_page :: "raw_record list \<Rightarrow> string option \<Rightarrow> raw_record list \<Rightarrow> bool" where
  "next_page rs c xs \<longleftrightarrow> xs \<noteq> [] \<and> (\<exists>n. xs = take n (filter (after_cursor c) rs))"

lemma after_cursor_simps [simp]: "after_cursor None r" "after_cursor (Some x) r \<longleftrightarrow> x < rr_id r"
  by (simp_all add: after_cursor_def)

lemma metrics_add_up_add: "metrics_add_up m \<Longrightarrow> metrics_add_up k \<Longrightarrow> metrics_add_up (add_metrics m k)"
  by (simp add: metrics_add_up_def add_metrics_def)

lemma by_id_filter: "by_id rs \<Longrightarrow> by_id (filter P rs)"
  unfolding by_id_def by (induction rs) auto

lemma by_id_last:
  assumes "by_id (xs @ ys)" "xs \<noteq> []"
  shows "filter (\<lambda>r. \<not> rr_id (last xs) < rr_id r) (xs @ ys) = xs"
proof -
  have le: "r = last xs \<or> rr_id r < rr_id (last xs)" if "r \<in> set xs" for r
  proof -
    have "by_id (butlast xs @ [last xs])" using assms by (auto simp: by_id_def sorted_wrt_append)
    moreover have "r \<in> set (butlast xs @ [last xs])" using that assms(2) by simp
    ultimately show ?thesis by (auto simp: by_id_def sorted_wrt_append)
  qed
  have "rr_id (last xs) < rr_id r" if "r \<in> set ys" for r
    using assms that by (auto simp: by_id_def sorted_wrt_append)
  then have "filter (\<lambda>r. \<not> rr_id (last xs) < rr_id r) ys = []" by (simp add: filter_empty_conv)
  moreover have "filter (\<lambda>r. \<not> rr_id (last xs) < rr_id r) xs = xs"
    by (rule filter_True) (use le in \<open>metis less_asym' order_less_irrefl\<close>)
  ultimately show ?thesis by simp
qed

lemma filter_swap: "filter P (filter Q xs) = filter Q (filter P xs)"
  by (induction xs) auto

text \<open>A page moves the cursor over exactly its records.\<close>

lemma next_page_cursor:
  assumes "by_id rs" "next_page rs c xs"
  shows "length (filter (\<lambda>r. \<not> after_cursor (Some (rr_id (last xs))) r) rs) =
      length (filter (\<lambda>r. \<not> after_cursor c r) rs) + length xs"
    "rr_id (last xs) \<in> rr_id ` set rs"
    "length (filter (after_cursor (Some (rr_id (last xs)))) rs) < length (filter (after_cursor c) rs)"
proof -
  let ?a = "after_cursor c" and ?l = "rr_id (last xs)"
  obtain ys where ys: "filter ?a rs = xs @ ys" and ne: "xs \<noteq> []"
    using assms(2) append_take_drop_id by (metis next_page_def)
  have "last xs \<in> set (filter ?a rs)" using ys ne by simp
  then have l: "last xs \<in> set rs" "?a (last xs)" by simp_all
  then show "?l \<in> rr_id ` set rs" by blast
  have lower: "?a r" if "?l < rr_id r" for r using l(2) that by (cases c) auto
  have "filter (\<lambda>r. \<not> ?l < rr_id r) (filter ?a rs) = xs"
    unfolding ys by (rule by_id_last [OF _ ne]) (use by_id_filter [OF assms(1), of ?a] ys in simp)
  then have both: "filter ?a (filter (\<lambda>r. \<not> ?l < rr_id r) rs) = xs" by (simp only: filter_swap [of ?a])
  have "length (filter (\<lambda>r. \<not> ?l < rr_id r) rs) =
      length (filter ?a (filter (\<lambda>r. \<not> ?l < rr_id r) rs)) + length (filter (\<lambda>r. \<not> ?a r) (filter (\<lambda>r. \<not> ?l < rr_id r) rs))"
    by (rule sum_length_filter_compl [symmetric])
  moreover have "filter (\<lambda>r. \<not> ?a r) (filter (\<lambda>r. \<not> ?l < rr_id r) rs) = filter (\<lambda>r. \<not> ?a r) rs"
    using lower by (auto intro: filter_cong)
  ultimately show eq: "length (filter (\<lambda>r. \<not> after_cursor (Some ?l) r) rs) = length (filter (\<lambda>r. \<not> ?a r) rs) + length xs"
    unfolding both by (simp del: filter_filter)
  have "length (filter (after_cursor (Some ?l)) rs) + length (filter (\<lambda>r. \<not> after_cursor (Some ?l) r) rs) =
      length (filter ?a rs) + length (filter (\<lambda>r. \<not> ?a r) rs)"
    by (simp only: sum_length_filter_compl)
  with eq ne show "length (filter (after_cursor (Some ?l)) rs) < length (filter ?a rs)"
    by (cases xs) simp_all
qed

lemma accounted_page:
  assumes "by_id rs" "accounted rs c m" "next_page rs c xs" "metrics_add_up k" "m_seen k = int (length xs)"
  shows "accounted rs (Some (rr_id (last xs))) (add_metrics m k)"
  using assms(2,4,5) next_page_cursor [OF assms(1,3)] metrics_add_up_add
  by (simp add: accounted_def add_metrics_def metrics_add_up_def)

lemma accounted_end:
  assumes "accounted rs c m" "filter (after_cursor c) rs = []"
  shows "m_seen m = int (length rs)" "metrics_add_up m"
proof -
  have "filter (\<lambda>r. \<not> after_cursor c r) rs = rs"
    using assms(2) by (simp add: filter_empty_conv)
  with assms(1) show "m_seen m = int (length rs)" "metrics_add_up m" by (simp_all add: accounted_def)
qed

lemma accounted_start: "accounted rs None zero_metrics"
  by (simp add: accounted_def metrics_add_up_def zero_metrics_def)

text \<open>The arguments of a page count its records.\<close>

definition counts_page :: "page_args \<Rightarrow> bool" where
  "counts_page a \<longleftrightarrow> pa_seen a = int (length (pa_valid a)) + pa_failed a"

lemma page_records_count:
  "page_records te decode fm runid rs = (valid, failed) \<Longrightarrow> int (length rs) = int (length valid) + failed"
  by (induction rs arbitrary: valid failed) (auto split: prod.splits sum.splits)

lemma page_args_count:
  "counts_page (page_args_of d fm runid rs)" "pa_seen (page_args_of d fm runid rs) = int (length rs)"
  "pa_last (page_args_of d fm runid rs) = rr_id (last rs)"
  by (auto simp: page_args_of_def counts_page_def page_records_count split: prod.splits)

lemma decide_batch_counted:
  assumes "decide_batch te ids sn xs now = Inr pl"
  shows "m_new (pl_metrics pl) + m_changed (pl_metrics pl) + m_unchanged (pl_metrics pl) = int (length xs)"
proof -
  obtain st where st: "fold_groups te ids now sn (group_by_identity xs) (0, empty_plan (int (length xs))) = Inr st" "pl = snd st"
    using assms by (auto simp: decide_batch_def bindr_Inr_iff split: if_splits)
  have "counted (int (length xs)) 0 (empty_plan (int (length xs)))" by (simp add: counted_def empty_plan_def Let_def)
  then have "counted (int (length xs)) (length xs) (snd st)"
    using fold_groups_counted [OF st(1)] group_by_identity_total by (metis add_0 snd_conv)
  with st(2) show ?thesis by (simp add: counted_def Let_def)
qed

lemma page_plan_counts:
  assumes "page_plan d a t = Inr (t', pl)" "counts_page a"
  shows "metrics_add_up (page_counters a pl)" "m_seen (page_counters a pl) = pa_seen a"
proof -
  have "pl = None \<and> pa_valid a = [] \<or> (\<exists>p now ids sn. pl = Some p \<and> decide_batch (pd_text d) ids sn (pa_valid a) now = Inr p)"
    using assms(1) by (auto simp: page_plan_def bindr_Inr_iff case_prod_unfold split: if_splits)
  with assms(2) decide_batch_counted show "metrics_add_up (page_counters a pl)" "m_seen (page_counters a pl) = pa_seen a"
    by (fastforce simp: metrics_add_up_def page_counters_def counts_page_def)+
qed

subsection \<open>The interface\<close>

text \<open>What the processor sees of a state: an invariant, the raw records of its run by id, and the cursor
  and the counters of the run while its claim is alive.\<close>

record 's run_view =
  qv_inv :: "'s \<Rightarrow> bool"
  qv_records :: "'s \<Rightarrow> raw_record list"
  qv_held :: "'s \<Rightarrow> (string option \<times> metrics) option"

definition runs_on :: "'s run_view \<Rightarrow> 's \<Rightarrow> 's \<Rightarrow> bool" where
  "runs_on v w w' \<longleftrightarrow> qv_inv v w' \<and> qv_records v w' = qv_records v w"

text \<open>Nothing but that the claim may be lost.\<close>

definition calm :: "'s run_view \<Rightarrow> 's \<Rightarrow> 's \<Rightarrow> bool" where
  "calm v w w' \<longleftrightarrow> runs_on v w w' \<and> (qv_held v w' = qv_held v w \<or> qv_held v w' = None)"

text \<open>The page \<open>a\<close> is committed under the claim.\<close>

definition page_committed ::
  "('s, 't, 'f, 'g) process_deps \<Rightarrow> 's run_view \<Rightarrow> page_args \<Rightarrow> 's \<Rightarrow> 's \<Rightarrow> run_processing \<Rightarrow> bool" where
  "page_committed d v a w w' rp \<longleftrightarrow> runs_on v w w' \<and> (\<exists>c m pl t t'. page_plan d a t = Inr (t', pl) \<and>
     qv_held v w = Some (c, m) \<and> rp_metrics rp = add_metrics m (page_counters a pl) \<and>
     qv_held v w' = Some (Some (pa_last a), rp_metrics rp))"

definition fits :: "'s run_view \<Rightarrow> page_args \<Rightarrow> 's \<Rightarrow> bool" where
  "fits v a w \<longleftrightarrow> counts_page a \<and> (\<forall>c m. qv_held v w = Some (c, m) \<longrightarrow>
     (\<exists>xs. next_page (qv_records v w) c xs \<and> pa_seen a = int (length xs) \<and> pa_last a = rr_id (last xs)))"

definition known_cursor :: "'s run_view \<Rightarrow> string option \<Rightarrow> 's \<Rightarrow> bool" where
  "known_cursor v c w \<longleftrightarrow> (case c of None \<Rightarrow> True | Some x \<Rightarrow> x \<in> rr_id ` set (qv_records v w))"

text \<open>What a call of the processor promises: a result counts every record of the run.\<close>

definition promises :: "'s run_view \<Rightarrow> string \<Rightarrow> 's \<Rightarrow> 's \<times> process_outcome \<Rightarrow> bool" where
  "promises v runid w y \<longleftrightarrow> runs_on v w (fst y) \<and> (\<forall>res. snd y = Inr res \<longrightarrow> pr_run_id res = runid \<and>
     m_seen (pr_metrics res) = int (length (qv_records v w)) \<and> metrics_add_up (pr_metrics res))"

text \<open>The cursor in the loop is the cursor of the claim, as long as there is one.\<close>

definition at_cursor :: "'s run_view \<Rightarrow> string option \<Rightarrow> 's \<Rightarrow> bool" where
  "at_cursor v c w \<longleftrightarrow> qv_inv v w \<and> known_cursor v c w \<and> (\<forall>c' m. qv_held v w = Some (c', m) \<longrightarrow> c' = c)"

definition left_after :: "'s run_view \<Rightarrow> string option \<Rightarrow> 's \<Rightarrow> nat" where
  "left_after v c w = length (filter (after_cursor c) (qv_records v w))"

locale run_queue =
  fixes d :: "('s, 't, 'f::linorder, 'g) process_deps" and runid token :: string and v :: "'s run_view"
  assumes records_sorted: "qv_inv v w \<Longrightarrow> by_id (qv_records v w)"
    and held_accounted: "qv_inv v w \<Longrightarrow> qv_held v w = Some (c, m) \<Longrightarrow> accounted (qv_records v w) c m"
    and find_law: "qv_inv v w \<Longrightarrow> pd_find_run d runid w = (w', r1) \<Longrightarrow> runs_on v w w'"
    and ensure_law: "qv_inv v w \<Longrightarrow> pd_ensure d runid w = (w', r2) \<Longrightarrow> runs_on v w w'"
    and reset_law: "qv_inv v w \<Longrightarrow> pd_reset d runid w = (w', r3) \<Longrightarrow> runs_on v w w'"
    and claim_law: "qv_inv v w \<Longrightarrow> pd_claim d runid token lease w = (w', r4) \<Longrightarrow>
      runs_on v w w' \<and> (\<forall>rp. r4 = Inr rp \<longrightarrow> qv_held v w' = Some (rp_cursor rp, rp_metrics rp))"
    and source_law: "qv_inv v w \<Longrightarrow> pd_source d src w = (w', r5) \<Longrightarrow> calm v w w'"
    and list_law: "qv_inv v w \<Longrightarrow> known_cursor v c w \<Longrightarrow> 0 < n \<Longrightarrow> pd_list d runid c n w = (w', r6) \<Longrightarrow>
      calm v w w' \<and> (\<forall>rs. r6 = Inr rs \<longrightarrow> (\<exists>k > 0. rs = take k (filter (after_cursor c) (qv_records v w))))"
    and page_law: "qv_inv v w \<Longrightarrow> fits v a w \<Longrightarrow> pd_within_tx d (page_body d runid token lease a) w = (w', r7) \<Longrightarrow>
      runs_on v w w' \<and> (\<forall>rp. r7 = Inr (Some rp) \<longrightarrow> page_committed d v a w w' rp) \<and>
      (\<forall>x. r7 = Inl x \<longrightarrow> is_conflict x \<longrightarrow> calm v w w')"
    and release_law: "qv_inv v w \<Longrightarrow> pd_release d runid token w = (w', r8) \<Longrightarrow> runs_on v w w'"
    and fail_law: "qv_inv v w \<Longrightarrow> pd_fail d runid token reason w = (w', r8) \<Longrightarrow> runs_on v w w'"
    and complete_law: "qv_inv v w \<Longrightarrow> pd_complete d runid token w = (w', r9) \<Longrightarrow>
      runs_on v w w' \<and> (\<forall>rp. r9 = Inr rp \<longrightarrow> (\<exists>c. qv_held v w = Some (c, rp_metrics rp)))"
begin

lemma runs_on_refl: "qv_inv v w \<Longrightarrow> runs_on v w w"
  by (simp add: runs_on_def)

lemma runs_on_trans: "runs_on v w w1 \<Longrightarrow> runs_on v w1 w2 \<Longrightarrow> runs_on v w w2"
  by (simp add: runs_on_def)

lemma calm_trans: "calm v w w1 \<Longrightarrow> calm v w1 w2 \<Longrightarrow> calm v w w2"
  by (auto simp: calm_def runs_on_def)

lemma calm_runs_on: "calm v w w' \<Longrightarrow> runs_on v w w'"
  by (simp add: calm_def)

lemma runs_on_inv: "runs_on v w w' \<Longrightarrow> qv_inv v w'"
  by (simp add: runs_on_def)

lemma promises_error: "runs_on v w w' \<Longrightarrow> promises v runid w (w', Inl x)"
  by (simp add: promises_def)

lemma promises_after: "runs_on v w w1 \<Longrightarrow> promises v runid w1 y \<Longrightarrow> promises v runid w y"
  by (simp add: promises_def runs_on_def)

lemma promises_exits:
  assumes "qv_inv v w"
  shows "promises v runid w (release_claimed d runid token x w)" "promises v runid w (fail_claimed d runid token reason x w)"
    "promises v runid w (release_or_fail d runid token reason x w)"
proof -
  show rel: "promises v runid w (release_claimed d runid token x w)" for x
    using release_law [OF assms] by (auto simp: release_claimed_def promises_def split: prod.splits)
  show fl: "promises v runid w (fail_claimed d runid token reason x w)"
    using fail_law [OF assms] by (auto simp: fail_claimed_def promises_def split: prod.splits)
  show "promises v runid w (release_or_fail d runid token reason x w)"
    using rel fl by (simp add: release_or_fail_def split: option.split)
qed

lemma at_cursor_calm: "at_cursor v c w \<Longrightarrow> calm v w w' \<Longrightarrow> at_cursor v c w'"
  unfolding at_cursor_def calm_def runs_on_def by (cases c) (auto simp: known_cursor_def)

lemma fits_calm: "fits v a w \<Longrightarrow> calm v w w' \<Longrightarrow> fits v a w'"
  unfolding fits_def calm_def runs_on_def by auto

lemma page_attempts_law:
  assumes "page_attempts d budget runid token lease a n e0 w = (w', r)" "qv_inv v w" "fits v a w"
  shows "runs_on v w w' \<and> (\<forall>rp. r = Inr rp \<longrightarrow> (\<exists>u. calm v w u \<and> page_committed d v a u w' rp))"
  using assms
proof (induction n arbitrary: e0 w)
  case 0
  then show ?case using runs_on_refl by auto
next
  case (Suc n)
  obtain w1 r1 where tx: "pd_within_tx d (page_body d runid token lease a) w = (w1, r1)"
    by (cases "pd_within_tx d (page_body d runid token lease a) w")
  note l = page_law [OF Suc.prems(2,3) tx]
  have here: "calm v w w" using Suc.prems(2) by (simp add: calm_def runs_on_def)
  show ?case
  proof (cases "\<exists>x. r1 = Inl x \<and> is_conflict x \<and> \<not> err_is x (Processing ErrLeaseLost)")
    case True
    then obtain x where x: "r1 = Inl x" "is_conflict x" "\<not> err_is x (Processing ErrLeaseLost)" by blast
    with l have c1: "calm v w w1" by blast
    have "page_attempts d budget runid token lease a n x w1 = (w', r)" using Suc.prems(1) tx x by simp
    from Suc.IH [OF this runs_on_inv [OF calm_runs_on [OF c1]] fits_calm [OF Suc.prems(3) c1]]
    show ?thesis using calm_trans [OF c1] runs_on_trans [OF calm_runs_on [OF c1]] by blast
  next
    case False
    with Suc.prems(1) tx have "w' = w1 \<and> (\<forall>rp. r = Inr rp \<longrightarrow> r1 = Inr (Some rp))"
      by (auto split: sum.splits option.splits if_splits)
    with l here show ?thesis by blast
  qed
qed

lemma committed_cursor:
  assumes "at_cursor v c w" "fits v a w" "calm v w u" "page_committed d v a u w' rp" "next_page (qv_records v w) c xs"
    "pa_seen a = int (length xs)" "pa_last a = rr_id (last xs)"
  shows "at_cursor v (Some (pa_last a)) w' \<and> runs_on v w w'"
proof -
  have "runs_on v w w'" using runs_on_trans [OF calm_runs_on [OF assms(3)]] assms(4) unfolding page_committed_def by blast
  moreover have "by_id (qv_records v w)" using assms(1) records_sorted by (simp add: at_cursor_def)
  then have "pa_last a \<in> rr_id ` set (qv_records v w)" using next_page_cursor(2) [OF _ assms(5)] assms(7) by simp
  ultimately show ?thesis using assms(4) by (auto simp: at_cursor_def runs_on_def known_cursor_def page_committed_def)
qed

lemma finish_law:
  assumes "at_cursor v c w" "filter (after_cursor c) (qv_records v w) = []"
  shows "promises v runid w (finish_run d runid token w)"
proof -
  have inv: "qv_inv v w" using assms(1) by (simp add: at_cursor_def)
  obtain w' r where cp: "pd_complete d runid token w = (w', r)" by (cases "pd_complete d runid token w")
  note l = complete_law [OF inv cp]
  show ?thesis
  proof (cases r)
    case (Inl x)
    with cp l show ?thesis by (simp add: finish_run_def promises_error)
  next
    case (Inr rp)
    with l obtain c' where h: "qv_held v w = Some (c', rp_metrics rp)" by blast
    with assms(1) have "c' = c" by (simp add: at_cursor_def)
    with h held_accounted [OF inv] have "accounted (qv_records v w) c (rp_metrics rp)" by blast
    from accounted_end [OF this assms(2)] cp Inr l show ?thesis by (simp add: finish_run_def promises_def)
  qed
qed

lemma process_page_law:
  assumes "at_cursor v c w" "0 < po_batch_size opts"
  shows "case process_page d opts fm runid token c w of
      Inl y \<Rightarrow> promises v runid w y
    | Inr (c', w') \<Rightarrow> at_cursor v c' w' \<and> runs_on v w w' \<and> left_after v c' w' < left_after v c w"
proof -
  have inv: "qv_inv v w" and kn: "known_cursor v c w" using assms(1) by (simp_all add: at_cursor_def)
  show ?thesis
  proof (cases "pd_ctx_err d w")
    case (Some e)
    then show ?thesis using promises_exits(1) [OF inv] by (simp add: process_page_def)
  next
    case None
    obtain w1 r where ls: "pd_list d runid c (po_batch_size opts) w = (w1, r)" by (cases "pd_list d runid c (po_batch_size opts) w")
    note l = list_law [OF inv kn assms(2) ls]
    then have c1: "calm v w w1" by blast
    note on1 = calm_runs_on [OF c1] and at1 = at_cursor_calm [OF assms(1) c1]
    have inv1: "qv_inv v w1" using on1 by (rule runs_on_inv)
    have recs: "qv_records v w1 = qv_records v w" using on1 by (simp add: runs_on_def)
    show ?thesis
    proof (cases r)
      case (Inl x)
      then show ?thesis
        using promises_after [OF on1 promises_exits(3) [OF inv1]] None ls by (simp add: process_page_def)
    next
      case (Inr rs)
      with l obtain k where k: "0 < k" "rs = take k (filter (after_cursor c) (qv_records v w))" by blast
      show ?thesis
      proof (cases "rs = []")
        case True
        with k have "filter (after_cursor c) (qv_records v w1) = []" using recs by simp
        from promises_after [OF on1 finish_law [OF at1 this]] True Inr None ls show ?thesis
          by (simp add: process_page_def)
      next
        case False
        let ?a = "page_args_of d fm runid rs"
        have np: "next_page (qv_records v w1) c rs" using False k recs by (auto simp: next_page_def)
        have fit: "fits v ?a w1" using at1 np by (auto simp: fits_def page_args_count at_cursor_def)
        obtain w2 r2 where pg: "page_with_retry d (po_budget opts) runid token (po_lease opts) ?a w1 = (w2, r2)"
          by (cases "page_with_retry d (po_budget opts) runid token (po_lease opts) ?a w1")
        note pl = page_attempts_law [OF pg [unfolded page_with_retry_def] inv1 fit]
        have on2: "runs_on v w w2" using runs_on_trans [OF on1] pl by blast
        show ?thesis
        proof (cases r2)
          case i: (Inl x)
          have "promises v runid w (w2, Inl x)" "promises v runid w (release_or_fail d runid token (pd_error_text d x) x w2)"
            using promises_error [OF on2] promises_after [OF on2 promises_exits(3) [OF runs_on_inv [OF on2]]] by blast+
          with i pg False Inr None ls show ?thesis by (simp add: process_page_def Let_def)
        next
          case i: (Inr rp)
          with pl obtain u where u: "calm v w1 u" "page_committed d v ?a u w2 rp" by blast
          have at2: "at_cursor v (Some (pa_last ?a)) w2"
            using committed_cursor [OF at1 fit u np] page_args_count by blast
          have "left_after v (Some (pa_last ?a)) w2 < left_after v c w"
            using next_page_cursor(3) [OF records_sorted [OF inv1] np] recs on2
            by (simp add: left_after_def page_args_count runs_on_def)
          with at2 on2 i pg False Inr None ls show ?thesis by (simp add: process_page_def Let_def)
        qed
      qed
    qed
  qed
qed

lemma process_loop_law:
  assumes "at_cursor v c w" "0 < po_batch_size opts"
  shows "\<exists>y. process_loop d opts fm runid token c w = Some y \<and> promises v runid w y"
  using assms(1)
proof (induction "left_after v c w" arbitrary: c w rule: less_induct)
  case less
  note p = process_page_law [OF less.prems assms(2), of fm]
  show ?case
  proof (cases "process_page d opts fm runid token c w")
    case (Inl y)
    with p show ?thesis by (simp add: process_loop.simps)
  next
    case (Inr z)
    obtain c' w' where z: "z = (c', w')" by (cases z)
    with p Inr have w': "at_cursor v c' w'" "runs_on v w w'" "left_after v c' w' < left_after v c w" by simp_all
    from less.hyps [OF w'(3,1)] promises_after [OF w'(2)] show ?thesis
      using Inr z by (auto simp: process_loop.simps [of d opts fm runid token c w])
  qed
qed

lemma process_claimed_law:
  assumes "qv_inv v w" "qv_held v w = Some (rp_cursor rp, rp_metrics rp)" "0 < po_batch_size opts"
  shows "\<exists>y. process_claimed d opts runid token run rp w = Some y \<and> promises v runid w y"
proof -
  obtain w1 r where s: "pd_source d (ir_source_id run) w = (w1, r)" by (cases "pd_source d (ir_source_id run) w")
  note c1 = source_law [OF assms(1) s]
  note on1 = calm_runs_on [OF c1]
  note exits = promises_after [OF on1] promises_exits [OF runs_on_inv [OF on1]]
  have "accounted (qv_records v w) (rp_cursor rp) (rp_metrics rp)" by (rule held_accounted [OF assms(1,2)])
  then have "at_cursor v (rp_cursor rp) w" using assms(1,2) by (simp add: at_cursor_def known_cursor_def accounted_def)
  then have at1: "at_cursor v (rp_cursor rp) w1" using at_cursor_calm c1 by blast
  show ?thesis
  proof (cases r)
    case (Inl x)
    with s exits show ?thesis by (simp add: process_claimed_def)
  next
    case (Inr src)
    show ?thesis
    proof (cases "\<exists>fm. get_field_mapping (pd_source_env d) src = Inr (Some fm)")
      case True
      then obtain fm where fm: "get_field_mapping (pd_source_env d) src = Inr (Some fm)" by blast
      from process_loop_law [OF at1 assms(3), of fm] obtain y where
        "process_loop d opts fm runid token (rp_cursor rp) w1 = Some y" "promises v runid w1 y" by blast
      with fm Inr s exits(1) show ?thesis by (simp add: process_claimed_def)
    next
      case False
      have fl: "promises v runid w (fail_claimed d runid token reason x w1)" for reason x using exits by blast
      with False Inr s show ?thesis
        by (cases "get_field_mapping (pd_source_env d) src"; cases "projr (get_field_mapping (pd_source_env d) src)")
           (simp_all add: process_claimed_def)
    qed
  qed
qed

theorem process_run_law:
  assumes inv: "qv_inv v w" and keys: "runid = trim_space run_id" "token = trim_space (po_claim_token opts)"
  shows "\<exists>y. process_run zero one d opts run_id w = Some y \<and> promises v runid w y"
proof (cases "validate_options zero one run_id opts")
  case (Inl x)
  with runs_on_refl [OF inv] show ?thesis by (simp add: process_run_def promises_error)
next
  case (Inr u)
  then have n: "0 < po_batch_size opts" by (simp add: validate_options_def)
  have "\<exists>y. process_ready d opts runid token w = Some y \<and> promises v runid w y"
  proof -
    obtain w1 r1 where c1: "pd_find_run d runid w = (w1, r1)" by (cases "pd_find_run d runid w")
    note on1 = find_law [OF inv c1]
    obtain w2 r2 where c2: "pd_ensure d runid w1 = (w2, r2)" by (cases "pd_ensure d runid w1")
    note on2 = runs_on_trans [OF on1 ensure_law [OF runs_on_inv [OF on1] c2]]
    obtain w3 r3 where c3: "reset_if d (po_from_start opts) runid w2 = (w3, r3)" by (cases "reset_if d (po_from_start opts) runid w2")
    have on3: "runs_on v w w3"
      using c3 on2 reset_law [OF runs_on_inv [OF on2]] runs_on_trans [OF on2]
      by (auto simp: reset_if_def split: if_splits sum.splits prod.splits)
    obtain w4 r4 where c4: "pd_claim d runid token (po_lease opts) w3 = (w4, r4)" by (cases "pd_claim d runid token (po_lease opts) w3")
    note cl = claim_law [OF runs_on_inv [OF on3] c4]
    then have on4: "runs_on v w w4" using runs_on_trans [OF on3] by blast
    note errs = on1 [THEN promises_error] on2 [THEN promises_error] on3 [THEN promises_error] on4 [THEN promises_error]
    show ?thesis
    proof (cases "\<exists>run rp. r1 = Inr run \<and> processable (ir_status run) \<and> is_ok r2 \<and> is_ok r3 \<and> r4 = Inr rp")
      case True
      then obtain run rp where ok: "r1 = Inr run" "processable (ir_status run)" "is_ok r2" "is_ok r3" "r4 = Inr rp" by blast
      with cl have h: "qv_held v w4 = Some (rp_cursor rp, rp_metrics rp)" by blast
      from process_claimed_law [OF runs_on_inv [OF on4] h n, of run] promises_after [OF on4] ok c1 c2 c3 c4
      show ?thesis by (cases r2; cases r3) (auto simp: process_ready_def)
    next
      case False
      with errs c1 c2 c3 c4 show ?thesis by (auto simp: process_ready_def is_ok_def split: sum.splits)
    qed
  qed
  with Inr keys show ?thesis by (simp add: process_run_def)
qed

end

end
