(* ===== verification/ProcessStore.thy ===== *)
theory ProcessStore
  imports ProcessRun ProductHistory Outbox
begin

text \<open>
  The run processor on the tables: the interpretation of the locale \<open>run_queue\<close> of theory ProcessRun
  by the repositories of theories IngestionStore, ProductStore, Outbox and Source, while other workers
  work on the same queue.
\<close>

subsection \<open>The world of a worker\<close>

record process_tables =
  qt_db :: ingest_db
  qt_products :: product_db
  qt_outbox :: "outbox_row list"

text \<open>What others do: any statement of the ingestion side, or a page of another worker on run \<open>i\<close>, from
  the cursor the row has, as the processor itself does it.\<close>

datatype worker_act = IngestAct ingest_act | PageAct string nat metrics duration

definition page_act :: "ingest_env \<Rightarrow> string \<Rightarrow> instant \<Rightarrow> string \<Rightarrow> nat \<Rightarrow> metrics \<Rightarrow> duration \<Rightarrow> ingest_db \<Rightarrow> ingest_db" where
  "page_act e i now k n m lease db = (case find_row i (id_queue db) of
       None \<Rightarrow> db
     | Some r \<Rightarrow> (let xs = take n (keyset_rows i (rp_cursor r) (id_raw db)) in
         if xs = [] \<or> m_seen m \<noteq> int (length xs) \<or> \<not> metrics_add_up m then db
         else queue_op e now (UpdateProgress i k m (Some (rr_id (last xs))) lease) db))"

fun exec_worker_act :: "ingest_env \<Rightarrow> string \<Rightarrow> instant \<Rightarrow> worker_act \<Rightarrow> ingest_db \<Rightarrow> ingest_db" where
  "exec_worker_act e i now (IngestAct act) db = exec_act e now act db"
| "exec_worker_act e i now (PageAct k n m lease) db = page_act e i now k n m lease db"

fun exec_worker_acts :: "ingest_env \<Rightarrow> string \<Rightarrow> (instant \<times> worker_act) list \<Rightarrow> ingest_db \<Rightarrow> ingest_db" where
  "exec_worker_acts e i [] db = db"
| "exec_worker_acts e i ((now, act) # acts) db = exec_worker_acts e i acts (exec_worker_act e i now act db)"

text \<open>What surrounds one call: the acts of others before it, its instant, what the database reports on
  its own account (\<open>qs_applied\<close>: the statement took effect all the same), the rows others have locked,
  the sources, what others commit to the products (before the call, and between the snapshots and the
  writes of a page) and to the outbox, the ids drawn, and whether the context is cancelled meanwhile.\<close>

record 'g process_slot =
  qs_others :: "(instant \<times> worker_act) list"
  qs_now :: instant
  qs_fault :: "gerr option"
  qs_applied :: bool
  qs_cancel :: bool
  qs_locked :: "string \<Rightarrow> bool"
  qs_sources :: "'g source list"
  qs_products :: "product_db \<Rightarrow> product_db"
  qs_meanwhile :: "product_db \<Rightarrow> product_db"
  qs_outbox :: "outbox_row list \<Rightarrow> outbox_row list"
  qs_product_env :: product_env
  qs_clock :: instant
  qs_ids :: id_supply

record 'g process_world =
  qw_tables :: process_tables
  qw_cancelled :: bool
  qw_sched :: "'g process_slot list"

record ('f, 'g) process_env =
  qe_ingest :: ingest_env
  qe_outbox :: outbox_env
  qe_run :: string
  qe_idle :: "'g process_slot"
  qe_text :: text_env
  qe_decode :: "string \<Rightarrow> gerr + (json \<times> string)"
  qe_source :: "'g source_env"
  qe_error_text :: "gerr \<Rightarrow> string"
  qe_fdiv :: "int \<Rightarrow> int \<Rightarrow> 'f"

definition process_ctx_err :: "'g process_world \<Rightarrow> gerr option" where
  "process_ctx_err w = (if qw_cancelled w \<or> qw_sched w = [] then Some canceled_err else None)"

definition advance_tables :: "ingest_env \<Rightarrow> string \<Rightarrow> 'g process_slot \<Rightarrow> process_tables \<Rightarrow> process_tables" where
  "advance_tables e i s tb = \<lparr>qt_db = exec_worker_acts e i (qs_others s) (qt_db tb),
     qt_products = qs_products s (qt_products tb), qt_outbox = qs_outbox s (qt_outbox tb)\<rparr>"

definition process_slot_step :: "('f, 'g) process_env \<Rightarrow> 'g process_world \<Rightarrow> 'g process_slot \<times> 'g process_world" where
  "process_slot_step e w = (case qw_sched w of
       [] \<Rightarrow> (qe_idle e, w\<lparr>qw_cancelled := True\<rparr>)
     | s # ss \<Rightarrow> (s, w\<lparr>qw_sched := ss, qw_cancelled := qw_cancelled w \<or> qs_cancel s,
         qw_tables := advance_tables (qe_ingest e) (qe_run e) s (qw_tables w)\<rparr>))"

text \<open>A statement, or a transaction, under a context; one that has ended refuses the caller's calls.\<close>

definition process_call ::
  "('f, 'g) process_env \<Rightarrow> ctx \<Rightarrow> ('g process_slot \<Rightarrow> process_tables \<Rightarrow> gerr + (process_tables \<times> 'a)) \<Rightarrow> 'g process_world
     \<Rightarrow> 'g process_world \<times> (gerr + 'a)" where
  "process_call e c f w =
     (case process_slot_step e w of (s, w1) \<Rightarrow>
        if c = CallerCtx \<and> process_ctx_err w \<noteq> None then (w1, Inl (Wrap canceled_err))
        else case f s (qw_tables w1) of
          Inl x \<Rightarrow> (w1, Inl x)
        | Inr (tb, a) \<Rightarrow>
            (case qs_fault s of
               None \<Rightarrow> (w1\<lparr>qw_tables := tb\<rparr>, Inr a)
             | Some x \<Rightarrow> (if qs_applied s then w1\<lparr>qw_tables := tb\<rparr> else w1, Inl x)))"

definition table_read :: "('g process_slot \<Rightarrow> ingest_db \<Rightarrow> gerr + 'a) \<Rightarrow> 'g process_slot \<Rightarrow> process_tables \<Rightarrow> gerr + (process_tables \<times> 'a)" where
  "table_read f s tb = bindr (f s (qt_db tb)) (\<lambda>a. Inr (tb, a))"

definition queue_stmt ::
  "ingest_env \<Rightarrow> (rp_env \<Rightarrow> instant \<Rightarrow> run_processing list \<Rightarrow> 'a rp_result) \<Rightarrow> 'g process_slot \<Rightarrow> process_tables
     \<Rightarrow> gerr + (process_tables \<times> 'a)" where
  "queue_stmt e f s tb = bindr (f (queue_env e (qt_db tb)) (qs_now s) (id_queue (qt_db tb)))
     (\<lambda>(rows, a). Inr (tb\<lparr>qt_db := (qt_db tb)\<lparr>id_queue := rows\<rparr>\<rparr>, a))"

text \<open>The calls inside the transaction; its state is the tables, in the slot of the transaction.\<close>

type_synonym 'g process_tx = "'g process_slot \<times> process_tables"

definition tx_products_env :: "ingest_env \<Rightarrow> 'g process_slot \<Rightarrow> product_env" where
  "tx_products_env e s = (qs_product_env s)\<lparr>px_scan := ie_scan e\<rparr>"

definition tx_snapshots :: "ingest_env \<Rightarrow> identity_ref list \<Rightarrow> 'g process_tx \<Rightarrow> gerr + ('g process_tx \<times> (string \<rightharpoonup> snapshot))" where
  "tx_snapshots e refs t = bindr (find_snapshots (tx_products_env e (fst t)) refs (qt_products (snd t))) (\<lambda>sn.
     Inr ((fst t, (snd t)\<lparr>qt_products := qs_meanwhile (fst t) (qt_products (snd t))\<rparr>), sn))"

definition tx_apply :: "ingest_env \<Rightarrow> plan \<Rightarrow> 'g process_tx \<Rightarrow> gerr + ('g process_tx \<times> unit)" where
  "tx_apply e pl t = bindr (apply_batch (tx_products_env e (fst t)) pl (qt_products (snd t))) (\<lambda>db.
     Inr ((fst t, (snd t)\<lparr>qt_products := db\<rparr>), ()))"

definition tx_events :: "outbox_env \<Rightarrow> product_changed list \<Rightarrow> 'g process_tx \<Rightarrow> gerr + ('g process_tx \<times> unit)" where
  "tx_events e evs t = bindr (create_product_changed e (qs_now (fst t)) evs (qt_outbox (snd t))) (\<lambda>(rows, _).
     Inr ((fst t, (snd t)\<lparr>qt_outbox := rows\<rparr>), ()))"

definition tx_progress ::
  "ingest_env \<Rightarrow> string \<Rightarrow> string \<Rightarrow> metrics \<Rightarrow> string option \<Rightarrow> duration \<Rightarrow> 'g process_tx
     \<Rightarrow> gerr + ('g process_tx \<times> run_processing option)" where
  "tx_progress e i k m c lease t =
     bindr (queue_stmt e (\<lambda>pe now. update_progress pe now i k m c lease) (fst t) (snd t)) (\<lambda>(tb, r).
       Inr ((fst t, tb), Some r))"

definition tx_run ::
  "('g process_tx \<Rightarrow> gerr + ('g process_tx \<times> 'a)) \<Rightarrow> 'g process_slot \<Rightarrow> process_tables \<Rightarrow> gerr + (process_tables \<times> 'a)" where
  "tx_run f s tb = bindr (f (s, tb)) (\<lambda>(t, a). Inr (snd t, a))"

text \<open>\<open>RunProcessor\<close> on the repositories.\<close>

definition store_process_deps :: "('f, 'g) process_env \<Rightarrow> ('g process_world, 'g process_tx, 'f::linorder, 'g) process_deps" where
  "store_process_deps e = (let ie = qe_ingest e in \<lparr>
     pd_ctx_err = process_ctx_err,
     pd_find_run = (\<lambda>i. process_call e CallerCtx (table_read (\<lambda>_. find_run_by_id ie i))),
     pd_ensure = (\<lambda>i. process_call e CallerCtx (queue_stmt ie (\<lambda>pe now. ensure_exists pe now i))),
     pd_reset = (\<lambda>i. process_call e CallerCtx (queue_stmt ie (\<lambda>pe now. reset_from_start pe now i))),
     pd_claim_next = (\<lambda>k lease. process_call e CallerCtx (\<lambda>s.
       queue_stmt ie (\<lambda>pe now. claim_next pe now (qs_locked s) k lease) s)),
     pd_claim = (\<lambda>i k lease. process_call e CallerCtx (queue_stmt ie (\<lambda>pe now. claim_specific pe now i k lease))),
     pd_source = (\<lambda>src. process_call e CallerCtx (table_read (\<lambda>s _. find_source_by_id (qs_sources s) src))),
     pd_list = (\<lambda>i c n. process_call e CallerCtx (table_read (\<lambda>_. list_keyset_by_run ie i c n))),
     pd_release = (\<lambda>i k. process_call e DetachedCtx (queue_stmt ie (\<lambda>pe now. release_claim pe now i k))),
     pd_fail = (\<lambda>i k msg. process_call e DetachedCtx (queue_stmt ie (\<lambda>pe now. fail_processing pe now i k msg))),
     pd_complete = (\<lambda>i k. process_call e DetachedCtx (queue_stmt ie (\<lambda>pe now. complete_processing pe now i k))),
     pd_within_tx = (\<lambda>f. process_call e CallerCtx (tx_run f)),
     pd_snapshots = tx_snapshots ie,
     pd_draw = (\<lambda>t. (qs_clock (fst t), qs_ids (fst t))),
     pd_apply = tx_apply ie,
     pd_events = tx_events (qe_outbox e),
     pd_progress = tx_progress ie,
     pd_text = qe_text e, pd_decode = qe_decode e, pd_source_env = qe_source e,
     pd_error_text = qe_error_text e, pd_fdiv = qe_fdiv e\<rparr>)"

lemma store_process_deps_simps [simp]:
  "pd_ctx_err (store_process_deps e) = process_ctx_err"
  "pd_find_run (store_process_deps e) i = process_call e CallerCtx (table_read (\<lambda>_. find_run_by_id (qe_ingest e) i))"
  "pd_ensure (store_process_deps e) i = process_call e CallerCtx (queue_stmt (qe_ingest e) (\<lambda>pe now. ensure_exists pe now i))"
  "pd_reset (store_process_deps e) i = process_call e CallerCtx (queue_stmt (qe_ingest e) (\<lambda>pe now. reset_from_start pe now i))"
  "pd_claim (store_process_deps e) i k lease = process_call e CallerCtx (queue_stmt (qe_ingest e) (\<lambda>pe now. claim_specific pe now i k lease))"
  "pd_source (store_process_deps e) src = process_call e CallerCtx (table_read (\<lambda>s _. find_source_by_id (qs_sources s) src))"
  "pd_list (store_process_deps e) i c n = process_call e CallerCtx (table_read (\<lambda>_. list_keyset_by_run (qe_ingest e) i c n))"
  "pd_release (store_process_deps e) i k = process_call e DetachedCtx (queue_stmt (qe_ingest e) (\<lambda>pe now. release_claim pe now i k))"
  "pd_fail (store_process_deps e) i k msg = process_call e DetachedCtx (queue_stmt (qe_ingest e) (\<lambda>pe now. fail_processing pe now i k msg))"
  "pd_complete (store_process_deps e) i k = process_call e DetachedCtx (queue_stmt (qe_ingest e) (\<lambda>pe now. complete_processing pe now i k))"
  "pd_within_tx (store_process_deps e) f = process_call e CallerCtx (tx_run f)"
  "pd_snapshots (store_process_deps e) = tx_snapshots (qe_ingest e)"
  "pd_draw (store_process_deps e) t = (qs_clock (fst t), qs_ids (fst t))"
  "pd_apply (store_process_deps e) = tx_apply (qe_ingest e)"
  "pd_events (store_process_deps e) = tx_events (qe_outbox e)"
  "pd_progress (store_process_deps e) = tx_progress (qe_ingest e)"
  by (simp_all add: store_process_deps_def Let_def)

subsection \<open>The rows of the run\<close>

text \<open>Run \<open>i\<close> in the tables: it exists, its records have canonical ids, and the counters of its row are
  accounted for.\<close>

definition run_records :: "string \<Rightarrow> ingest_db \<Rightarrow> raw_record list" where
  "run_records i db = sort_key rr_id (raw_of_run i db)"

definition held_by :: "string \<Rightarrow> string \<Rightarrow> ingest_db \<Rightarrow> (string option \<times> metrics) option" where
  "held_by i t db = (case find_row i (id_queue db) of None \<Rightarrow> None
     | Some r \<Rightarrow> if rp_claim_token r = Some t then Some (rp_cursor r, rp_metrics r) else None)"

definition row_accounted :: "string \<Rightarrow> ingest_db \<Rightarrow> bool" where
  "row_accounted i db \<longleftrightarrow> (case find_row i (id_queue db) of None \<Rightarrow> True
     | Some r \<Rightarrow> accounted (run_records i db) (rp_cursor r) (rp_metrics r))"

definition db_ok :: "ingest_env \<Rightarrow> string \<Rightarrow> ingest_db \<Rightarrow> bool" where
  "db_ok e i db \<longleftrightarrow> store_inv db \<and> i \<noteq> [] \<and> find_run i (id_runs db) \<noteq> None \<and>
     list_all (\<lambda>x. parse_uuid (ie_scan e) (rr_id x) = Inr (rr_id x)) (raw_of_run i db) \<and> row_accounted i db"

definition db_goes_on :: "ingest_env \<Rightarrow> string \<Rightarrow> ingest_db \<Rightarrow> ingest_db \<Rightarrow> bool" where
  "db_goes_on e i db db' \<longleftrightarrow> db_ok e i db' \<and> raw_of_run i db' = raw_of_run i db"

definition db_calm :: "ingest_env \<Rightarrow> string \<Rightarrow> string \<Rightarrow> ingest_db \<Rightarrow> ingest_db \<Rightarrow> bool" where
  "db_calm e i t db db' \<longleftrightarrow> db_goes_on e i db db' \<and> (held_by i t db' = held_by i t db \<or> held_by i t db' = None)"

lemma db_calm_refl: "db_ok e i db \<Longrightarrow> db_calm e i t db db"
  by (simp add: db_calm_def db_goes_on_def)

lemma db_calm_trans: "db_calm e i t db db1 \<Longrightarrow> db_calm e i t db1 db2 \<Longrightarrow> db_calm e i t db db2"
  by (auto simp: db_calm_def db_goes_on_def)

lemma db_calm_ok: "db_calm e i t db db' \<Longrightarrow> db_ok e i db'"
  by (simp add: db_calm_def db_goes_on_def)

lemma run_records_by_id: "store_inv db \<Longrightarrow> by_id (run_records i db)"
proof -
  assume "store_inv db"
  then have "distinct (map rr_id (raw_of_run i db))"
    by (simp add: store_inv_def raw_of_run_def distinct_map_filter)
  then have "distinct (map rr_id (run_records i db))"
    unfolding run_records_def by (metis distinct_map distinct_sort set_sort)
  then have "sorted_wrt (<) (map rr_id (run_records i db))"
    by (simp add: strict_sorted_iff run_records_def)
  then show ?thesis by (simp add: by_id_def sorted_wrt_map)
qed

lemma set_run_records [simp]: "set (run_records i db) = set (raw_of_run i db)"
  by (simp add: run_records_def)

text \<open>The keyset is the records after the cursor.\<close>

lemma keyset_run_records: "keyset_rows i c (id_raw db) = filter (after_cursor c) (run_records i db)"
  by (simp add: keyset_rows_def run_records_def raw_of_run_def filter_sort after_cursor_def conj_commute)

text \<open>One operation on the queue, on the row of one run.\<close>

lemma op_row:
  assumes "find_row i (exec_op e now op rows) = Some y"
  obtains "find_row i rows = Some y" | x where "find_row i rows = Some x" "op_writes e op x y"
    | "find_row i rows = None" "y = new_processing_row now i"
proof (rule exec_cases [of e now op rows])
  assume "exec_op e now op rows = rows"
  with assms that(1) show thesis by simp
next
  fix j g f assume f: "exec_op e now op rows = fst (update_where j g f rows)" "\<And>x. rp_run_id (f x) = rp_run_id x"
    "\<And>x. g x \<Longrightarrow> rp_run_id x = j \<Longrightarrow> op_writes e op x (f x)"
  from assms obtain x where x: "find_row i rows = Some x" "y = (if i = j \<and> g x then f x else x)"
    unfolding f(1) find_row_update_where [of f i j g rows, OF f(2)] by (auto split: option.splits if_splits)
  show thesis
  proof (cases "i = j \<and> g x")
    case True
    with x f(3) [of x] find_row_Some [OF x(1)] show thesis by (intro that(2)) auto
  qed (use x that(1) in auto)
next
  fix j assume j: "exec_op e now op rows = rows @ [new_processing_row now j]" "find_row j rows = None"
  show thesis
  proof (cases "find_row i rows")
    case None
    with assms j have "find_row i [new_processing_row now j] = Some y" by (simp add: find_row_append)
    then have "y = new_processing_row now i" by (auto simp: find_row_def split: if_splits)
    with None that(3) show thesis by blast
  next
    case (Some x)
    with assms j that(1) show thesis by (simp add: find_row_append)
  qed
qed

text \<open>An operation without progress on run \<open>i\<close>, and one that does not carry token \<open>t\<close> into it.\<close>

definition no_progress_on :: "scanner \<Rightarrow> string \<Rightarrow> rp_op \<Rightarrow> bool" where
  "no_progress_on scan i op \<longleftrightarrow> (case op of UpdateProgress j _ _ _ _ \<Rightarrow> parse_uuid scan j \<noteq> Inr i | _ \<Rightarrow> True)"

definition other_token :: "scanner \<Rightarrow> string \<Rightarrow> rp_op \<Rightarrow> bool" where
  "other_token scan t op \<longleftrightarrow> (case op of ClaimNext _ k _ \<Rightarrow> parse_uuid scan k \<noteq> Inr t
     | ClaimSpecific _ k _ \<Rightarrow> parse_uuid scan k \<noteq> Inr t | UpdateProgress _ k _ _ _ \<Rightarrow> parse_uuid scan k \<noteq> Inr t | _ \<Rightarrow> True)"

lemma carries_iff: "carries (queue_env e db) k y \<longleftrightarrow> (\<exists>t. parse_uuid (ie_scan e) k = Inr t \<and> rp_claim_token y = Some t)"
  by (auto simp: carries_def parse_token_def queue_env_def split: sum.split)

lemma writes_accounted:
  assumes "op_writes (queue_env e db) op x y" "no_progress_on (ie_scan e) i op" "rp_run_id x = i"
    "accounted rs (rp_cursor x) (rp_metrics x)"
  shows "accounted rs (rp_cursor y) (rp_metrics y)"
  using assms accounted_start [of rs]
  by (cases op) (auto simp: same_progress_def no_progress_on_def parse_run_id_def queue_env_def)

lemma writes_held:
  assumes "op_writes (queue_env e db) op x y" "other_token (ie_scan e) t op" "rp_claim_token y = Some t"
  shows "rp_claim_token x = Some t \<and> same_progress x y"
  using assms by (cases op) (auto simp: carries_iff other_token_def)

lemma queue_op_simps [simp]:
  "id_runs (queue_op e now op db) = id_runs db" "raw_of_run i (queue_op e now op db) = raw_of_run i db"
  "run_records i (queue_op e now op db) = run_records i db"
  by (simp_all add: queue_op_def raw_of_run_def run_records_def)

lemma queue_set: "db\<lparr>id_queue := id_queue (queue_op e now op db)\<rparr> = queue_op e now op db"
  by (simp add: queue_op_def)

lemma queue_op_goes_on:
  assumes "db_ok e i db" "no_progress_on (ie_scan e) i op"
  shows "db_goes_on e i db (queue_op e now op db)"
proof -
  have "row_accounted i (queue_op e now op db)"
  proof (cases "find_row i (id_queue (queue_op e now op db))")
    case (Some y)
    then have "find_row i (exec_op (queue_env e db) now op (id_queue db)) = Some y" by (simp add: queue_op_def)
    then show ?thesis
    proof (rule op_row)
      assume "find_row i (id_queue db) = Some y"
      with assms(1) Some show ?thesis by (simp add: db_ok_def row_accounted_def)
    next
      fix x assume x: "find_row i (id_queue db) = Some x" "op_writes (queue_env e db) op x y"
      with assms(1) have "accounted (run_records i db) (rp_cursor x) (rp_metrics x)" by (simp add: db_ok_def row_accounted_def)
      from writes_accounted [OF x(2) assms(2) _ this] find_row_Some [OF x(1)] Some show ?thesis
        by (simp add: row_accounted_def)
    next
      assume "y = new_processing_row now i"
      with Some show ?thesis using accounted_start by (simp add: row_accounted_def new_processing_row_def)
    qed
  qed (simp add: row_accounted_def)
  with assms(1) queue_op_inv show ?thesis by (simp add: db_goes_on_def db_ok_def)
qed

lemma queue_op_held:
  assumes "other_token (ie_scan e) t op"
  shows "held_by i t (queue_op e now op db) = held_by i t db \<or> held_by i t (queue_op e now op db) = None"
proof (cases "find_row i (id_queue (queue_op e now op db))")
  case (Some y)
  then have "find_row i (exec_op (queue_env e db) now op (id_queue db)) = Some y" by (simp add: queue_op_def)
  then show ?thesis
  proof (rule op_row)
    assume "find_row i (id_queue db) = Some y"
    with Some show ?thesis by (simp add: held_by_def)
  next
    fix x assume x: "find_row i (id_queue db) = Some x" "op_writes (queue_env e db) op x y"
    with writes_held [OF x(2) assms] Some show ?thesis by (auto simp: held_by_def same_progress_def)
  next
    assume "y = new_processing_row now i"
    with Some show ?thesis by (simp add: held_by_def new_processing_row_def)
  qed
qed (simp add: held_by_def)

text \<open>Progress on the run: only under its token, over exactly the page.\<close>

lemma progress_row_facts:
  assumes "update_progress (queue_env e db) now j k m (Some c) lease (id_queue db) = Inr (rows, r')"
    "parse_uuid (ie_scan e) j = Inr i" "parse_uuid (ie_scan e) k = Inr t" "parse_uuid (ie_scan e) c = Inr c"
  obtains r where "find_row i (id_queue db) = Some r" "rp_claim_token r = Some t" "rp_claim_token r' = Some t"
    "rp_cursor r' = Some c" "rp_metrics r' = add_metrics (rp_metrics r) m" "find_row i rows = Some r'"
    "rows = id_queue (queue_op e now (UpdateProgress j k m (Some c) lease) db)"
proof -
  from assms(1) obtain i' t' c' cm where pp: "parse_progress (queue_env e db) j k m (Some c) = Inr (i', t', c', cm)"
    and u: "update_where i' (\<lambda>r. rp_status r = ProcessingRunning \<and> rp_claim_token r = Some t') (progress_set now cm c' lease)
      (id_queue db) = (rows, Some r')"
    by (rule update_progress_Inr) auto
  have keys: "i' = i" "t' = t" "cm = m" using parse_progress_token [OF pp] assms(2,3)
    by (auto simp: parse_token_def parse_run_id_def queue_env_def)
  have "\<not> is_blank c" using parse_uuid_not_blank [OF assms(4)] .
  then have c': "c' = Some c" using pp assms(4) by (auto simp: parse_progress_def bindr_Inr_iff parse_optional_uuid_def queue_env_def)
  obtain r where r: "find_row i (id_queue db) = Some r" "rp_status r = ProcessingRunning \<and> rp_claim_token r = Some t"
    "r' = progress_set now m (Some c) lease r"
    "rows = map (\<lambda>x. if rp_run_id x = i then progress_set now m (Some c) lease x else x) (id_queue db)"
    by (rule update_where_Some [OF u]) (simp add: keys c')
  have "find_row i rows = Some r'" unfolding r(4) by (simp add: find_row_update r)
  moreover have "rows = id_queue (queue_op e now (UpdateProgress j k m (Some c) lease) db)"
    using assms(1) by (simp add: queue_op_def after_def)
  ultimately show thesis using r by (intro that [of r]) (simp_all add: progress_set_def)
qed

lemma page_of_row:
  assumes "db_ok e i db" "find_row i (id_queue db) = Some r" "next_page (run_records i db) (rp_cursor r) xs"
    "metrics_add_up m" "m_seen m = int (length xs)"
  shows "accounted (run_records i db) (Some (rr_id (last xs))) (add_metrics (rp_metrics r) m)"
    "parse_uuid (ie_scan e) (rr_id (last xs)) = Inr (rr_id (last xs))"
proof -
  have srt: "by_id (run_records i db)" using assms(1) run_records_by_id by (simp add: db_ok_def)
  have "accounted (run_records i db) (rp_cursor r) (rp_metrics r)" using assms(1,2) by (simp add: db_ok_def row_accounted_def)
  from accounted_page [OF srt this assms(3-5)]
  show "accounted (run_records i db) (Some (rr_id (last xs))) (add_metrics (rp_metrics r) m)" .
  have "rr_id (last xs) \<in> rr_id ` set (run_records i db)" by (rule next_page_cursor(2) [OF srt assms(3)])
  with assms(1) show "parse_uuid (ie_scan e) (rr_id (last xs)) = Inr (rr_id (last xs))"
    by (auto simp: db_ok_def list_all_iff)
qed

text \<open>A page on the run, by whoever holds the claim.\<close>

lemma progress_goes_on:
  assumes "db_ok e i db" "find_row i (id_queue db) = Some r" "next_page (run_records i db) (rp_cursor r) xs"
    "metrics_add_up m" "m_seen m = int (length xs)" "parse_uuid (ie_scan e) k = Inr t"
    "update_progress (queue_env e db) now j k m (Some (rr_id (last xs))) lease (id_queue db) = Inr (rows, r')"
    "parse_uuid (ie_scan e) j = Inr i"
  shows "db_goes_on e i db (db\<lparr>id_queue := rows\<rparr>)"
proof -
  note pg = page_of_row [OF assms(1-5)]
  from assms(7,8,6) pg(2) obtain r0 where r0: "find_row i (id_queue db) = Some r0" "rp_cursor r' = Some (rr_id (last xs))"
    "rp_metrics r' = add_metrics (rp_metrics r0) m" "find_row i rows = Some r'"
    "rows = id_queue (queue_op e now (UpdateProgress j k m (Some (rr_id (last xs))) lease) db)"
    by (rule progress_row_facts)
  have "store_inv (db\<lparr>id_queue := rows\<rparr>)"
    unfolding r0(5) queue_set by (rule queue_op_inv) (use assms(1) in \<open>simp add: db_ok_def\<close>)
  moreover have "raw_of_run i (db\<lparr>id_queue := rows\<rparr>) = raw_of_run i db" by (simp add: raw_of_run_def)
  moreover have "run_records i (db\<lparr>id_queue := rows\<rparr>) = run_records i db" by (simp add: run_records_def raw_of_run_def)
  ultimately show ?thesis using assms(1,2) pg(1) r0 by (simp add: db_goes_on_def db_ok_def row_accounted_def)
qed

subsection \<open>What others may do\<close>

definition worker_act_legal :: "ingest_env \<Rightarrow> string \<Rightarrow> string \<Rightarrow> worker_act \<Rightarrow> bool" where
  "worker_act_legal e i t act \<longleftrightarrow> (case act of
       IngestAct a \<Rightarrow> act_legal a \<and> spares e i a \<and>
         (case a of ActQueue op \<Rightarrow> no_progress_on (ie_scan e) i op \<and> other_token (ie_scan e) t op | _ \<Rightarrow> True)
     | PageAct k n m lease \<Rightarrow> parse_uuid (ie_scan e) k \<noteq> Inr t)"

lemma find_row_new: "find_row i [new_processing_row now j] = (if i = j then Some (new_processing_row now j) else None)"
  by (simp add: find_row_def)

lemma status_queue:
  assumes "update_run_status e now run st db = Inr (db', u)" "parse_uuid (ie_scan e) (ir_id run) \<noteq> Inr i"
  shows "find_row i (id_queue db') = find_row i (id_queue db)"
proof -
  obtain j d r where j: "parse_uuid (ie_scan e) (ir_id run) = Inr j"
    "update_run e j st ErrInvalidRunTransition (status_row e run) db = Inr (d, r)"
    "db' = (if processable (ir_status run) then d\<lparr>id_queue := queue_run now j (id_queue d)\<rparr> else d)"
    using update_run_status_Inr [OF assms(1)] by blast
  have "id_queue d = id_queue db" by (rule update_run_Inr [OF j(2)]) simp
  moreover have "find_row i (queue_run now j q) = find_row i q" for q
    using assms(2) j(1) by (auto simp: queue_run_def find_row_append find_row_new split: option.splits)
  ultimately show ?thesis using j(3) by simp
qed

lemma spared_queue:
  assumes "spares e i act" "\<And>op. act \<noteq> ActQueue op"
  shows "find_row i (id_queue (exec_act e now act db)) = find_row i (id_queue db)"
proof (cases act)
  case (ActCreate q)
  then show ?thesis by (auto simp: after_db_def split: sum.split elim: create_run_Inr)
next
  case (ActProgress j m cp)
  then show ?thesis by (auto simp: after_db_def split: sum.split elim: progress_find_run)
next
  case (ActStatus q st)
  with assms(1) show ?thesis using status_queue by (auto simp: after_db_def spares_def split: sum.split)
next
  case (ActSaveBatch rs)
  then show ?thesis by (auto simp: after_db_def save_batch_def bindr_def split: sum.splits if_splits)
next
  case (ActSave q)
  then show ?thesis by (auto simp: after_db_def save_record_def bindr_def split: sum.splits)
qed (use assms(2) in blast)

lemma same_row_calm:
  assumes "db_ok e i db" "store_inv db'" "find_run i (id_runs db') \<noteq> None" "raw_of_run i db' = raw_of_run i db"
    "find_row i (id_queue db') = find_row i (id_queue db)"
  shows "db_calm e i t db db'"
proof -
  have "run_records i db' = run_records i db" using assms(4) by (simp add: run_records_def)
  with assms(1,5) have "row_accounted i db'" by (cases "find_row i (id_queue db)") (simp_all add: db_ok_def row_accounted_def)
  with assms show ?thesis by (simp add: db_calm_def db_goes_on_def db_ok_def held_by_def)
qed

lemma ingest_act_calm:
  assumes "db_ok e i db" "worker_act_legal e i t (IngestAct a)"
  shows "db_calm e i t db (exec_act e now a db)"
proof (cases "\<exists>op. a = ActQueue op")
  case True
  then obtain op where op: "a = ActQueue op" by blast
  with assms queue_op_goes_on queue_op_held show ?thesis
    by (simp add: worker_act_legal_def db_calm_def)
next
  case False
  obtain r where r: "find_run i (id_runs db) = Some r" "i \<noteq> []" using assms(1) by (auto simp: db_ok_def)
  have sp: "spares e i a" "act_legal a" using assms(2) by (simp_all add: worker_act_legal_def)
  note same = spared_act [OF sp(1) r(2,1)]
  show ?thesis
    by (rule same_row_calm [OF assms(1)])
       (use same exec_act_inv [OF sp(2)] spared_queue [OF sp(1)] False assms(1) in \<open>simp_all add: db_ok_def\<close>)
qed

lemma page_act_calm:
  assumes "db_ok e i db" "worker_act_legal e i t (PageAct k n m lease)" "parse_uuid (ie_scan e) i = Inr i"
  shows "db_calm e i t db (page_act e i now k n m lease db)"
proof (cases "find_row i (id_queue db)")
  case None
  with db_calm_refl [OF assms(1)] show ?thesis by (simp add: page_act_def)
next
  case (Some r)
  let ?xs = "take n (keyset_rows i (rp_cursor r) (id_raw db))"
  let ?op = "UpdateProgress i k m (Some (rr_id (last ?xs))) lease"
  show ?thesis
  proof (cases "?xs = [] \<or> m_seen m \<noteq> int (length ?xs) \<or> \<not> metrics_add_up m")
    case True
    with db_calm_refl [OF assms(1)] Some show ?thesis by (simp add: page_act_def Let_def)
  next
    case False
    then have act: "page_act e i now k n m lease db = queue_op e now ?op db" using Some by (simp add: page_act_def Let_def)
    have np: "next_page (run_records i db) (rp_cursor r) ?xs" "metrics_add_up m" "m_seen m = int (length ?xs)"
      using False by (auto simp: next_page_def keyset_run_records)
    have held: "held_by i t (queue_op e now ?op db) = held_by i t db \<or> held_by i t (queue_op e now ?op db) = None"
      by (rule queue_op_held) (use assms(2) in \<open>simp add: other_token_def worker_act_legal_def\<close>)
    show ?thesis
    proof (cases "update_progress (queue_env e db) now i k m (Some (rr_id (last ?xs))) lease (id_queue db)")
      case (Inl x)
      then have "queue_op e now ?op db = db" by (simp add: queue_op_def after_def)
      with act db_calm_refl [OF assms(1)] show ?thesis by simp
    next
      case (Inr p)
      obtain rows r' where p: "p = (rows, r')" by (cases p)
      obtain k' where k': "parse_uuid (ie_scan e) k = Inr k'"
        by (rule update_progress_Inr [OF Inr]) (use parse_progress_token in \<open>force simp: parse_token_def queue_env_def\<close>)
      have "db_goes_on e i db (db\<lparr>id_queue := rows\<rparr>)"
        by (rule progress_goes_on [OF assms(1) Some np k' Inr [unfolded p] assms(3)])
      moreover have "queue_op e now ?op db = db\<lparr>id_queue := rows\<rparr>" using Inr p by (simp add: queue_op_def after_def)
      ultimately show ?thesis using held act by (simp add: db_calm_def)
    qed
  qed
qed

lemma worker_acts_calm:
  "\<forall>a \<in> set acts. worker_act_legal e i t (snd a) \<Longrightarrow> db_ok e i db \<Longrightarrow> parse_uuid (ie_scan e) i = Inr i \<Longrightarrow>
   db_calm e i t db (exec_worker_acts e i acts db)"
proof (induction e i acts db rule: exec_worker_acts.induct)
  case (1 e i db)
  then show ?case by (simp add: db_calm_refl)
next
  case (2 e i now act acts db)
  have "db_calm e i t db (exec_worker_act e i now act db)"
    using 2(2-4) ingest_act_calm page_act_calm by (cases act) auto
  with 2 db_calm_trans db_calm_ok show ?case by (metis exec_worker_acts.simps(2) list.set_intros(2))
qed

subsection \<open>The laws of the processor hold for the tables\<close>

definition process_slot_legal :: "ingest_env \<Rightarrow> string \<Rightarrow> string \<Rightarrow> 'g process_slot \<Rightarrow> bool" where
  "process_slot_legal e i t s \<longleftrightarrow> (\<forall>a \<in> set (qs_others s). worker_act_legal e i t (snd a)) \<and>
     (case qs_fault s of None \<Rightarrow> True | Some x \<Rightarrow> \<not> is_conflict x)"

definition claim_key :: "('f, 'g) process_env \<Rightarrow> string \<Rightarrow> string" where
  "claim_key e token = rid (ie_scan (qe_ingest e)) token"

definition process_inv :: "('f, 'g) process_env \<Rightarrow> string \<Rightarrow> string \<Rightarrow> 'g process_world \<Rightarrow> bool" where
  "process_inv e runid token w \<longleftrightarrow> (let scan = ie_scan (qe_ingest e) in
     parse_uuid scan runid = Inr (qe_run e) \<and> parse_uuid scan (qe_run e) = Inr (qe_run e) \<and>
     parse_uuid scan token = Inr (claim_key e token) \<and> db_ok (qe_ingest e) (qe_run e) (qt_db (qw_tables w)) \<and>
     process_slot_legal (qe_ingest e) (qe_run e) (claim_key e token) (qe_idle e) \<and>
     list_all (process_slot_legal (qe_ingest e) (qe_run e) (claim_key e token)) (qw_sched w))"

definition process_view :: "('f, 'g) process_env \<Rightarrow> string \<Rightarrow> string \<Rightarrow> 'g process_world run_view" where
  "process_view e runid token = \<lparr>
     qv_inv = process_inv e runid token,
     qv_records = (\<lambda>w. run_records (qe_run e) (qt_db (qw_tables w))),
     qv_held = (\<lambda>w. held_by (qe_run e) (claim_key e token) (qt_db (qw_tables w)))\<rparr>"

lemma process_view_simps [simp]:
  "qv_inv (process_view e runid token) = process_inv e runid token"
  "qv_records (process_view e runid token) w = run_records (qe_run e) (qt_db (qw_tables w))"
  "qv_held (process_view e runid token) w = held_by (qe_run e) (claim_key e token) (qt_db (qw_tables w))"
  by (simp_all add: process_view_def)

lemma process_inv_db:
  "process_inv e runid token w \<Longrightarrow> db_ok (qe_ingest e) (qe_run e) (qt_db (qw_tables w))"
  "process_inv e runid token w \<Longrightarrow> db_ok (qe_ingest e) (qe_run e) (qt_db tb) \<Longrightarrow> process_inv e runid token (w\<lparr>qw_tables := tb\<rparr>)"
  "process_inv e runid token w \<Longrightarrow> parse_uuid (ie_scan (qe_ingest e)) runid = Inr (qe_run e)"
  "process_inv e runid token w \<Longrightarrow> parse_uuid (ie_scan (qe_ingest e)) token = Inr (claim_key e token)"
  by (simp_all add: process_inv_def Let_def)

lemma process_slot_law:
  assumes "process_inv e runid token w" "process_slot_step e w = (s, w1)"
  shows "process_inv e runid token w1"
    "db_calm (qe_ingest e) (qe_run e) (claim_key e token) (qt_db (qw_tables w)) (qt_db (qw_tables w1))"
    "process_slot_legal (qe_ingest e) (qe_run e) (claim_key e token) s"
proof -
  have ok: "db_ok (qe_ingest e) (qe_run e) (qt_db (qw_tables w))" using assms(1) by (rule process_inv_db(1))
  have "process_inv e runid token w1 \<and>
    db_calm (qe_ingest e) (qe_run e) (claim_key e token) (qt_db (qw_tables w)) (qt_db (qw_tables w1)) \<and>
    process_slot_legal (qe_ingest e) (qe_run e) (claim_key e token) s"
  proof (cases "qw_sched w")
    case Nil
    with assms db_calm_refl [OF ok] show ?thesis by (auto simp: process_slot_step_def process_inv_def Let_def)
  next
    case (Cons x xs)
    then have s: "s = x" "w1 = w\<lparr>qw_sched := xs, qw_cancelled := qw_cancelled w \<or> qs_cancel x,
        qw_tables := advance_tables (qe_ingest e) (qe_run e) x (qw_tables w)\<rparr>"
      using assms(2) by (auto simp: process_slot_step_def)
    have leg: "process_slot_legal (qe_ingest e) (qe_run e) (claim_key e token) x"
      and key: "parse_uuid (ie_scan (qe_ingest e)) (qe_run e) = Inr (qe_run e)"
      using assms(1) Cons by (simp_all add: process_inv_def Let_def)
    have "db_calm (qe_ingest e) (qe_run e) (claim_key e token) (qt_db (qw_tables w)) (qt_db (qw_tables w1))"
      using worker_acts_calm [OF _ ok key] leg by (simp add: s advance_tables_def process_slot_legal_def)
    moreover from db_calm_ok [OF this] have "process_inv e runid token w1"
      using assms(1) Cons by (simp add: process_inv_def Let_def s)
    ultimately show ?thesis using leg s(1) by simp
  qed
  then show "process_inv e runid token w1"
    "db_calm (qe_ingest e) (qe_run e) (claim_key e token) (qt_db (qw_tables w)) (qt_db (qw_tables w1))"
    "process_slot_legal (qe_ingest e) (qe_run e) (claim_key e token) s" by blast+
qed

lemma process_call_cases:
  assumes "process_call e c f w = (w', r)"
  obtains (refused) s w1 x where "process_slot_step e w = (s, w1)" "w' = w1" "r = Inl x"
  | (applied) s w1 tb a where "process_slot_step e w = (s, w1)" "f s (qw_tables w1) = Inr (tb, a)" "w' = w1\<lparr>qw_tables := tb\<rparr>"
      "r = Inr a \<or> (\<exists>x. r = Inl x \<and> qs_fault s = Some x)"
proof -
  obtain s w1 where st: "process_slot_step e w = (s, w1)" by (cases "process_slot_step e w")
  show thesis
  proof (cases "c = CallerCtx \<and> process_ctx_err w \<noteq> None")
    case True
    with assms st refused [OF st, of "Wrap canceled_err"] show ?thesis by (auto simp: process_call_def)
  next
    case no: False
    show ?thesis
    proof (cases "f s (qw_tables w1)")
      case (Inl x)
      with assms st no refused [OF st] show ?thesis by (auto simp: process_call_def)
    next
      case (Inr p)
      obtain tb a where p: "p = (tb, a)" by (cases p)
      have "(w' = w1 \<and> (\<exists>x. r = Inl x)) \<or>
          (w' = w1\<lparr>qw_tables := tb\<rparr> \<and> (r = Inr a \<or> (\<exists>x. r = Inl x \<and> qs_fault s = Some x)))"
        using assms st no Inr p by (auto simp: process_call_def split: option.splits if_splits)
      with refused [OF st] applied [OF st Inr [unfolded p]] show ?thesis by blast
    qed
  qed
qed

lemma slot_calm:
  assumes "process_inv e runid token w" "process_slot_step e w = (s, w1)"
  shows "calm (process_view e runid token) w w1"
  using process_slot_law [OF assms]
  by (auto simp: calm_def runs_on_def db_calm_def db_goes_on_def run_records_def)

lemma goes_on_runs_on:
  assumes "process_inv e runid token w" "process_slot_step e w = (s, w1)"
    "db_goes_on (qe_ingest e) (qe_run e) (qt_db (qw_tables w1)) (qt_db tb)"
  shows "runs_on (process_view e runid token) w (w1\<lparr>qw_tables := tb\<rparr>)"
proof -
  have "process_inv e runid token (w1\<lparr>qw_tables := tb\<rparr>)"
    using process_inv_db(2) [OF process_slot_law(1) [OF assms(1,2)]] assms(3) by (simp add: db_goes_on_def)
  with slot_calm [OF assms(1,2)] assms(3) show ?thesis
    by (simp add: calm_def runs_on_def db_goes_on_def run_records_def)
qed

lemma table_read_law:
  assumes "process_inv e runid token w" "process_call e c (table_read f) w = (w', r)"
  shows "calm (process_view e runid token) w w' \<and> (\<forall>a. r = Inr a \<longrightarrow> (\<exists>s. f s (qt_db (qw_tables w')) = Inr a))"
proof (rule process_call_cases [OF assms(2)])
  fix s w1 x assume "process_slot_step e w = (s, w1)" "w' = w1" "r = Inl x"
  with slot_calm [OF assms(1)] show ?thesis by auto
next
  fix s w1 tb a assume c: "process_slot_step e w = (s, w1)" "table_read f s (qw_tables w1) = Inr (tb, a)"
    "w' = w1\<lparr>qw_tables := tb\<rparr>" "r = Inr a \<or> (\<exists>x. r = Inl x \<and> qs_fault s = Some x)"
  then have "w' = w1" "f s (qt_db (qw_tables w1)) = Inr a" by (auto simp: table_read_def bindr_Inr_iff)
  with slot_calm [OF assms(1) c(1)] c(4) show ?thesis by auto
qed

lemma queue_stmt_Inr:
  assumes "queue_stmt e f s tb = Inr (tb', a)" "\<And>pe now rows. exec_op pe now op rows = after rows (f pe now rows)"
  obtains rows where "f (queue_env e (qt_db tb)) (qs_now s) (id_queue (qt_db tb)) = Inr (rows, a)"
    "tb' = tb\<lparr>qt_db := (qt_db tb)\<lparr>id_queue := rows\<rparr>\<rparr>" "(qt_db tb)\<lparr>id_queue := rows\<rparr> = queue_op e (qs_now s) op (qt_db tb)"
proof -
  obtain p where p: "f (queue_env e (qt_db tb)) (qs_now s) (id_queue (qt_db tb)) = Inr p"
    "(case p of (rows, a) \<Rightarrow> Inr (tb\<lparr>qt_db := (qt_db tb)\<lparr>id_queue := rows\<rparr>\<rparr>, a)) = (Inr (tb', a) :: gerr + _)"
    using assms(1) unfolding queue_stmt_def bindr_Inr_iff by blast
  obtain rows a' where rows: "p = (rows, a')" by (cases p)
  have "exec_op (queue_env e (qt_db tb)) (qs_now s) op (id_queue (qt_db tb)) = rows"
    unfolding assms(2) p(1) rows by (simp add: after_def)
  note set = this
  have eq: "tb' = tb\<lparr>qt_db := (qt_db tb)\<lparr>id_queue := rows\<rparr>\<rparr>" "a' = a" using p(2) unfolding rows by simp_all
  show thesis
    by (rule that [OF p(1) [unfolded rows eq(2)] eq(1)]) (simp only: queue_op_def set)
qed

text \<open>The operations of the worker itself on the queue.\<close>

lemma queue_call_law:
  assumes "process_inv e runid token w" "process_call e c (queue_stmt (qe_ingest e) f) w = (w', r)"
    "\<And>pe now rows. exec_op pe now op rows = after rows (f pe now rows)" "no_progress_on (ie_scan (qe_ingest e)) (qe_run e) op"
  shows "runs_on (process_view e runid token) w w' \<and> (\<forall>a. r = Inr a \<longrightarrow> (\<exists>now w1 rows.
    calm (process_view e runid token) w w1 \<and>
    f (queue_env (qe_ingest e) (qt_db (qw_tables w1))) now (id_queue (qt_db (qw_tables w1))) = Inr (rows, a) \<and>
    qt_db (qw_tables w') = (qt_db (qw_tables w1))\<lparr>id_queue := rows\<rparr>))"
proof (rule process_call_cases [OF assms(2)])
  fix s w1 x assume "process_slot_step e w = (s, w1)" "w' = w1" "r = Inl x"
  with slot_calm [OF assms(1)] show ?thesis by (auto simp: calm_def)
next
  fix s w1 tb a assume c: "process_slot_step e w = (s, w1)" "queue_stmt (qe_ingest e) f s (qw_tables w1) = Inr (tb, a)"
    "w' = w1\<lparr>qw_tables := tb\<rparr>" "r = Inr a \<or> (\<exists>x. r = Inl x \<and> qs_fault s = Some x)"
  obtain rows where rows: "f (queue_env (qe_ingest e) (qt_db (qw_tables w1))) (qs_now s) (id_queue (qt_db (qw_tables w1))) = Inr (rows, a)"
    "tb = (qw_tables w1)\<lparr>qt_db := (qt_db (qw_tables w1))\<lparr>id_queue := rows\<rparr>\<rparr>"
    "(qt_db (qw_tables w1))\<lparr>id_queue := rows\<rparr> = queue_op (qe_ingest e) (qs_now s) op (qt_db (qw_tables w1))"
    by (rule queue_stmt_Inr [OF c(2) assms(3)])
  have "db_ok (qe_ingest e) (qe_run e) (qt_db (qw_tables w1))"
    by (rule process_inv_db(1) [OF process_slot_law(1) [OF assms(1) c(1)]])
  from queue_op_goes_on [OF this assms(4), of "qs_now s", folded rows(3)]
  have "db_goes_on (qe_ingest e) (qe_run e) (qt_db (qw_tables w1)) (qt_db tb)" unfolding rows(2) by simp
  from goes_on_runs_on [OF assms(1) c(1) this] have "runs_on (process_view e runid token) w w'" by (simp add: c(3))
  moreover have "\<exists>now w1 rows. calm (process_view e runid token) w w1 \<and>
      f (queue_env (qe_ingest e) (qt_db (qw_tables w1))) now (id_queue (qt_db (qw_tables w1))) = Inr (rows, b) \<and>
      qt_db (qw_tables w') = (qt_db (qw_tables w1))\<lparr>id_queue := rows\<rparr>" if "r = Inr b" for b
  proof (intro exI conjI)
    show "calm (process_view e runid token) w w1" by (rule slot_calm [OF assms(1) c(1)])
    have "b = a" using c(4) that by auto
    then show "f (queue_env (qe_ingest e) (qt_db (qw_tables w1))) (qs_now s) (id_queue (qt_db (qw_tables w1))) = Inr (rows, b)"
      using rows(1) by simp
    show "qt_db (qw_tables w') = (qt_db (qw_tables w1))\<lparr>id_queue := rows\<rparr>" by (simp add: c(3) rows(2))
  qed
  ultimately show ?thesis by simp
qed

lemma own_ops [simp]:
  "no_progress_on scan i (ClaimSpecific j k d)" "no_progress_on scan i (EnsureExists j)" "no_progress_on scan i (ResetFromStart j)"
  "no_progress_on scan i (Release j k)" "no_progress_on scan i (Complete j k)" "no_progress_on scan i (Fail j k msg)"
  by (simp_all add: no_progress_on_def)

lemma calm_held: "calm v w w' \<Longrightarrow> qv_held v w' = Some x \<Longrightarrow> qv_held v w = Some x"
  by (auto simp: calm_def)

lemma claim_call_law:
  assumes inv: "process_inv e runid token w"
    and call: "process_call e CallerCtx (queue_stmt (qe_ingest e) (\<lambda>pe now. claim_specific pe now runid token lease)) w = (w', r)"
  shows "runs_on (process_view e runid token) w w' \<and>
    (\<forall>rp. r = Inr rp \<longrightarrow> qv_held (process_view e runid token) w' = Some (rp_cursor rp, rp_metrics rp))"
proof -
  note l = queue_call_law [OF inv call exec_op.simps(2) own_ops(1)]
  have on: "runs_on (process_view e runid token) w w'" using l by blast
  have "held_by (qe_run e) (claim_key e token) (qt_db (qw_tables w')) = Some (rp_cursor rp, rp_metrics rp)" if r: "r = Inr rp" for rp
  proof -
    obtain now w1 rows where c: "claim_specific (queue_env (qe_ingest e) (qt_db (qw_tables w1))) now runid token lease
        (id_queue (qt_db (qw_tables w1))) = Inr (rows, rp)"
      "qt_db (qw_tables w') = (qt_db (qw_tables w1))\<lparr>id_queue := rows\<rparr>" "calm (process_view e runid token) w w1"
      using l r by blast
    have keys: "parse_run_id (queue_env (qe_ingest e) (qt_db (qw_tables w1))) runid = Inr (qe_run e)"
      "parse_token (queue_env (qe_ingest e) (qt_db (qw_tables w1))) token = Inr (claim_key e token)"
      using process_inv_db(3,4) [OF inv] by (simp_all add: parse_run_id_def parse_token_def queue_env_def)
    obtain rows' q where u: "update_where (qe_run e) (claimable_specific now (claim_key e token)) (claim_set now (claim_key e token) lease)
        (id_queue (qt_db (qw_tables w1))) = (rows', q)" by fastforce
    with c(1) keys have q: "q = Some rp" "rows' = rows" by (auto simp: claim_specific_def split: option.splits)
    obtain x where x: "find_row (qe_run e) (id_queue (qt_db (qw_tables w1))) = Some x"
      "rp = claim_set now (claim_key e token) lease x"
      "rows = map (\<lambda>y. if rp_run_id y = qe_run e then claim_set now (claim_key e token) lease y else y) (id_queue (qt_db (qw_tables w1)))"
      using u unfolding q by (rule update_where_Some) blast
    have "find_row (qe_run e) rows = Some rp" unfolding x(3) by (simp add: find_row_update x(1,2))
    then show ?thesis by (simp add: held_by_def c(2) x(2) claim_set_def)
  qed
  with on show ?thesis by simp
qed

lemma complete_call_law:
  assumes inv: "process_inv e runid token w"
    and call: "process_call e DetachedCtx (queue_stmt (qe_ingest e) (\<lambda>pe now. complete_processing pe now runid token)) w = (w', r)"
  shows "runs_on (process_view e runid token) w w' \<and>
    (\<forall>rp. r = Inr rp \<longrightarrow> (\<exists>c. qv_held (process_view e runid token) w = Some (c, rp_metrics rp)))"
proof -
  note l = queue_call_law [OF inv call exec_op.simps(6) own_ops(5)]
  have on: "runs_on (process_view e runid token) w w'" using l by blast
  have "\<exists>c. held_by (qe_run e) (claim_key e token) (qt_db (qw_tables w)) = Some (c, rp_metrics rp)" if r: "r = Inr rp" for rp
  proof -
    obtain now w1 rows where c: "complete_processing (queue_env (qe_ingest e) (qt_db (qw_tables w1))) now runid token
        (id_queue (qt_db (qw_tables w1))) = Inr (rows, rp)" "calm (process_view e runid token) w w1"
      using l r by blast
    have keys: "parse_run_id (queue_env (qe_ingest e) (qt_db (qw_tables w1))) runid = Inr (qe_run e)"
      "parse_token (queue_env (qe_ingest e) (qt_db (qw_tables w1))) token = Inr (claim_key e token)"
      using process_inv_db(3,4) [OF inv] by (simp_all add: parse_run_id_def parse_token_def queue_env_def)
    obtain rows' q where u: "update_where (qe_run e) (\<lambda>r. rp_claim_token r = Some (claim_key e token)) (finish_set now ProcessingCompleted)
        (id_queue (qt_db (qw_tables w1))) = (rows', q)" by fastforce
    with c(1) keys have q: "q = Some rp" by (auto simp: complete_processing_def split: option.splits)
    obtain x where x: "find_row (qe_run e) (id_queue (qt_db (qw_tables w1))) = Some x"
      "rp_claim_token x = Some (claim_key e token)" "rp = finish_set now ProcessingCompleted x"
      using u unfolding q by (rule update_where_Some) blast
    then have "held_by (qe_run e) (claim_key e token) (qt_db (qw_tables w1)) = Some (rp_cursor x, rp_metrics rp)"
      by (simp add: held_by_def finish_set_def)
    then show ?thesis using calm_held [OF c(2)] by simp
  qed
  with on show ?thesis by simp
qed

lemma list_call_law:
  assumes inv: "process_inv e runid token w" and cur: "known_cursor (process_view e runid token) c w"
    and call: "process_call e CallerCtx (table_read (\<lambda>_. list_keyset_by_run (qe_ingest e) runid c n)) w = (w', r)"
  shows "calm (process_view e runid token) w w' \<and>
    (\<forall>rs. r = Inr rs \<longrightarrow> (\<exists>k > 0. rs = take k (filter (after_cursor c) (qv_records (process_view e runid token) w))))"
proof -
  note l = table_read_law [OF inv call]
  have "\<exists>k > 0. rs = take k (filter (after_cursor c) (run_records (qe_run e) (qt_db (qw_tables w))))" if "r = Inr rs" for rs
  proof -
    have "list_all (\<lambda>x. parse_uuid (ie_scan (qe_ingest e)) (rr_id x) = Inr (rr_id x)) (raw_of_run (qe_run e) (qt_db (qw_tables w)))"
      using process_inv_db(1) [OF inv] by (simp add: db_ok_def)
    with cur have "case c of None \<Rightarrow> True | Some x \<Rightarrow> parse_uuid (ie_scan (qe_ingest e)) x = Inr x"
      by (auto simp: known_cursor_def list_all_iff split: option.splits)
    then have c: "parse_optional_uuid (ie_scan (qe_ingest e)) c = Inr c"
      using parse_uuid_not_blank by (auto simp: parse_optional_uuid_def split: option.splits)
    have "list_keyset_by_run (qe_ingest e) runid c n (qt_db (qw_tables w')) = Inr rs" using l that by blast
    then have "rs = take (nat (list_limit n 50)) (keyset_rows (qe_run e) c (id_raw (qt_db (qw_tables w'))))"
      using process_inv_db(3) [OF inv] c by (simp add: list_keyset_by_run_def parse_run_key_def)
    moreover have "0 < nat (list_limit n 50)" using list_limit_bounds [of 50 n] by simp
    moreover have "run_records (qe_run e) (qt_db (qw_tables w')) = run_records (qe_run e) (qt_db (qw_tables w))"
      using l by (simp add: calm_def runs_on_def)
    ultimately show ?thesis by (intro exI [of _ "nat (list_limit n 50)"]) (simp add: keyset_run_records)
  qed
  with l show ?thesis by simp
qed

text \<open>The writes of a page leave the ingestion tables alone; its progress is the statement on the row.\<close>

lemma page_plan_frame:
  assumes "page_plan (store_process_deps e) a t = Inr (t', pl)"
  shows "fst t' = fst t" "qt_db (snd t') = qt_db (snd t)"
proof -
  have "fst t' = fst t \<and> qt_db (snd t') = qt_db (snd t)"
    using assms
    by (auto simp: page_plan_def tx_snapshots_def tx_apply_def tx_events_def bindr_Inr_iff split: if_splits prod.splits)
  then show "fst t' = fst t" "qt_db (snd t') = qt_db (snd t)" by simp_all
qed

lemma page_body_Inr:
  assumes "tx_run (page_body (store_process_deps e) runid token lease a) s tb = Inr (tb', r)"
  obtains t pl rows rp where "page_plan (store_process_deps e) a (s, tb) = Inr (t, pl)" "r = Some rp"
    "update_progress (queue_env (qe_ingest e) (qt_db tb)) (qs_now s) runid token (page_counters a pl) (Some (pa_last a)) lease
       (id_queue (qt_db tb)) = Inr (rows, rp)" "qt_db tb' = (qt_db tb)\<lparr>id_queue := rows\<rparr>"
proof -
  obtain t pl where t: "page_plan (store_process_deps e) a (s, tb) = Inr (t, pl)"
    and p: "bindr (tx_progress (qe_ingest e) runid token (page_counters a pl) (Some (pa_last a)) lease t) (\<lambda>(t, a). Inr (snd t, a)) = Inr (tb', r)"
    using assms by (auto simp: tx_run_def page_body_def bindr_Inr_iff)
  note fr = page_plan_frame [OF t]
  obtain s0 tb0 where t0: "t = (s0, tb0)" by (cases t)
  from p fr obtain rows rp where "update_progress (queue_env (qe_ingest e) (qt_db tb)) (qs_now s) runid token (page_counters a pl)
      (Some (pa_last a)) lease (id_queue (qt_db tb)) = Inr (rows, rp)" "r = Some rp" "tb' = tb0\<lparr>qt_db := (qt_db tb)\<lparr>id_queue := rows\<rparr>\<rparr>"
    unfolding t0 tx_progress_def queue_stmt_def bindr_Inr_iff by (auto simp del: process_tables.update_convs)
  then show thesis using that [OF t] by simp
qed

lemma page_call_law:
  assumes inv: "process_inv e runid token w" and fit: "fits (process_view e runid token) a w"
    and call: "process_call e CallerCtx (tx_run (page_body (store_process_deps e) runid token lease a)) w = (w', r)"
  shows "runs_on (process_view e runid token) w w' \<and>
    (\<forall>rp. r = Inr (Some rp) \<longrightarrow> page_committed (store_process_deps e) (process_view e runid token) a w w' rp) \<and>
    (\<forall>x. r = Inl x \<longrightarrow> is_conflict x \<longrightarrow> calm (process_view e runid token) w w')"
proof (rule process_call_cases [OF call])
  fix s w1 x assume "process_slot_step e w = (s, w1)" "w' = w1" "r = Inl x"
  with slot_calm [OF inv] show ?thesis by (auto simp: calm_def)
next
  fix s w1 tb b assume st: "process_slot_step e w = (s, w1)"
    and body: "tx_run (page_body (store_process_deps e) runid token lease a) s (qw_tables w1) = Inr (tb, b)"
    and w': "w' = w1\<lparr>qw_tables := tb\<rparr>" and r: "r = Inr b \<or> (\<exists>x. r = Inl x \<and> qs_fault s = Some x)"
  let ?i = "qe_run e" and ?db = "qt_db (qw_tables w1)"
  obtain t pl rows rp where plan: "page_plan (store_process_deps e) a (s, qw_tables w1) = Inr (t, pl)" "b = Some rp"
    and up: "update_progress (queue_env (qe_ingest e) ?db) (qs_now s) runid token (page_counters a pl) (Some (pa_last a)) lease
       (id_queue ?db) = Inr (rows, rp)" "qt_db tb = ?db\<lparr>id_queue := rows\<rparr>"
    by (rule page_body_Inr [OF body])
  note keys = process_inv_db(3,4) [OF inv] and c1 = slot_calm [OF inv st]
  have ok: "db_ok (qe_ingest e) ?i ?db" by (rule process_inv_db(1) [OF process_slot_law(1) [OF inv st]])
  have cnt: "counts_page a" using fit by (simp add: fits_def)
  note pc = page_plan_counts [OF plan(1) cnt]
  obtain i k c cm rp0 where pp: "parse_progress (queue_env (qe_ingest e) ?db) runid token (page_counters a pl) (Some (pa_last a)) = Inr (i, k, c, cm)"
    "update_where i (\<lambda>r. rp_status r = ProcessingRunning \<and> rp_claim_token r = Some k) (progress_set (qs_now s) cm c lease) (id_queue ?db) = (rows, Some rp0)"
    by (rule update_progress_Inr [OF up(1)]) auto
  have it: "i = ?i" "k = claim_key e token"
    using parse_progress_token [OF pp(1)] keys by (auto simp: parse_token_def parse_run_id_def queue_env_def)
  obtain row where row: "find_row ?i (id_queue ?db) = Some row" "rp_claim_token row = Some (claim_key e token)"
    by (rule update_where_Some [OF pp(2)]) (simp add: it)
  have held: "qv_held (process_view e runid token) w = Some (rp_cursor row, rp_metrics row)"
    by (rule calm_held [OF c1]) (simp add: held_by_def row)
  have recs: "run_records ?i ?db = run_records ?i (qt_db (qw_tables w))" using c1 by (simp add: calm_def runs_on_def)
  obtain xs where xs: "next_page (run_records ?i ?db) (rp_cursor row) xs" "pa_seen a = int (length xs)" "pa_last a = rr_id (last xs)"
    using fit held recs unfolding fits_def by auto
  have seen: "m_seen (page_counters a pl) = int (length xs)" using pc(2) xs(2) by simp
  note up' = up(1) [unfolded xs(3)]
  have "db_goes_on (qe_ingest e) ?i ?db (qt_db tb)"
    unfolding up(2) by (rule progress_goes_on [OF ok row(1) xs(1) pc(1) seen keys(2) up' keys(1)])
  from goes_on_runs_on [OF inv st this] have on: "runs_on (process_view e runid token) w w'" by (simp add: w')
  have "page_committed (store_process_deps e) (process_view e runid token) a w w' rp"
  proof -
    from up' keys page_of_row(2) [OF ok row(1) xs(1) pc(1) seen]
    obtain row' where "find_row ?i (id_queue ?db) = Some row'" "rp_claim_token rp = Some (claim_key e token)"
      "rp_cursor rp = Some (rr_id (last xs))" "rp_metrics rp = add_metrics (rp_metrics row') (page_counters a pl)" "find_row ?i rows = Some rp"
      by (rule progress_row_facts)
    then have h: "held_by ?i (claim_key e token) (qt_db (qw_tables w')) = Some (Some (pa_last a), rp_metrics rp)"
      "rp_metrics rp = add_metrics (rp_metrics row) (page_counters a pl)"
      using row(1) by (simp_all add: w' up(2) held_by_def xs(3))
    show ?thesis
      unfolding page_committed_def
      by (rule conjI [OF on], rule exI [of _ "rp_cursor row"], rule exI [of _ "rp_metrics row"], rule exI [of _ pl],
          rule exI [of _ "(s, qw_tables w1)"], rule exI [of _ t]) (use plan(1) held h in simp)
  qed
  moreover have "process_slot_legal (qe_ingest e) ?i (claim_key e token) s" by (rule process_slot_law(3) [OF inv st])
  ultimately show ?thesis using on r plan(2) by (auto simp: process_slot_legal_def)
qed

interpretation pq: run_queue "store_process_deps e" runid token "process_view e runid token"
proof unfold_locales
  fix w assume inv: "qv_inv (process_view e runid token) w"
  then have inv: "process_inv e runid token w" by simp
  note ok = process_inv_db(1) [OF inv]
  show "by_id (qv_records (process_view e runid token) w)" using ok run_records_by_id by (simp add: db_ok_def)
  show "accounted (qv_records (process_view e runid token) w) c m"
    if "qv_held (process_view e runid token) w = Some (c, m)" for c m
    using ok that by (auto simp: db_ok_def row_accounted_def held_by_def split: option.splits if_splits)
  show "runs_on (process_view e runid token) w w'" if "pd_find_run (store_process_deps e) runid w = (w', r)" for w' r
    using table_read_law [OF inv] that by (auto simp: calm_def)
  show "runs_on (process_view e runid token) w w'" if "pd_ensure (store_process_deps e) runid w = (w', r)" for w' r
    using queue_call_law [OF inv _ exec_op.simps(3) own_ops(2)] that by auto
  show "runs_on (process_view e runid token) w w'" if "pd_reset (store_process_deps e) runid w = (w', r)" for w' r
    using queue_call_law [OF inv _ exec_op.simps(8) own_ops(3)] that by auto
  show "runs_on (process_view e runid token) w w' \<and>
      (\<forall>rp. r = Inr rp \<longrightarrow> qv_held (process_view e runid token) w' = Some (rp_cursor rp, rp_metrics rp))"
    if "pd_claim (store_process_deps e) runid token lease w = (w', r)" for lease w' r
    using claim_call_law [OF inv] that by simp
  show "calm (process_view e runid token) w w'" if "pd_source (store_process_deps e) src w = (w', r)" for src w' r
    using table_read_law [OF inv] that by auto
  show "calm (process_view e runid token) w w' \<and>
      (\<forall>rs. r = Inr rs \<longrightarrow> (\<exists>k > 0. rs = take k (filter (after_cursor c) (qv_records (process_view e runid token) w))))"
    if "known_cursor (process_view e runid token) c w" "0 < n" "pd_list (store_process_deps e) runid c n w = (w', r)" for c n w' r
    using list_call_law [OF inv that(1)] that(3) by simp
  show "runs_on (process_view e runid token) w w' \<and>
      (\<forall>rp. r = Inr (Some rp) \<longrightarrow> page_committed (store_process_deps e) (process_view e runid token) a w w' rp) \<and>
      (\<forall>x. r = Inl x \<longrightarrow> is_conflict x \<longrightarrow> calm (process_view e runid token) w w')"
    if "fits (process_view e runid token) a w"
      "pd_within_tx (store_process_deps e) (page_body (store_process_deps e) runid token lease a) w = (w', r)" for a lease w' r
    using page_call_law [OF inv that(1)] that(2) by simp
  show "runs_on (process_view e runid token) w w'" if "pd_release (store_process_deps e) runid token w = (w', r)" for w' r
    using queue_call_law [OF inv _ exec_op.simps(5) own_ops(4)] that by auto
  show "runs_on (process_view e runid token) w w'" if "pd_fail (store_process_deps e) runid token reason w = (w', r)" for reason w' r
    using queue_call_law [OF inv _ exec_op.simps(7) own_ops(6)] that by auto
  show "runs_on (process_view e runid token) w w' \<and>
      (\<forall>rp. r = Inr rp \<longrightarrow> (\<exists>c. qv_held (process_view e runid token) w = Some (c, rp_metrics rp)))"
    if "pd_complete (store_process_deps e) runid token w = (w', r)" for w' r
    using complete_call_law [OF inv] that by simp
qed

subsection \<open>The run is counted once\<close>

text \<open>Claim C3. A worker processes every record of its run exactly once. Whatever other workers and the
  ingestion side do between its calls, without its claim token and without writing the run's records or
  the progress of a run they have not claimed, and whichever calls fail, are cancelled or take effect
  although they report an error: \<open>ProcessRun\<close> returns, the row of the run still counts exactly the records
  up to its cursor, and a result that is no error counts all raw records of the run, each as new, changed,
  unchanged or failed.\<close>

theorem run_counted_once:
  assumes "process_inv e runid token w" "runid = trim_space run_id" "token = trim_space (po_claim_token opts)"
  shows "\<exists>w' r. process_run zero one (store_process_deps e) opts run_id w = Some (w', r) \<and>
    row_accounted (qe_run e) (qt_db (qw_tables w')) \<and>
    run_records (qe_run e) (qt_db (qw_tables w')) = run_records (qe_run e) (qt_db (qw_tables w)) \<and>
    (case r of Inl _ \<Rightarrow> True | Inr res \<Rightarrow> pr_run_id res = runid \<and> metrics_add_up (pr_metrics res) \<and>
       m_seen (pr_metrics res) = int (length (raw_of_run (qe_run e) (qt_db (qw_tables w)))))"
proof -
  have "qv_inv (process_view e runid token) w" using assms(1) by simp
  from pq.process_run_law [OF this assms(2,3), of zero one] obtain y where
    y: "process_run zero one (store_process_deps e) opts run_id w = Some y" "promises (process_view e runid token) runid w y" by blast
  obtain w' r where wr: "y = (w', r)" by (cases y)
  have on: "process_inv e runid token w'" "run_records (qe_run e) (qt_db (qw_tables w')) = run_records (qe_run e) (qt_db (qw_tables w))"
    using y(2) by (simp_all add: wr promises_def runs_on_def)
  have "row_accounted (qe_run e) (qt_db (qw_tables w'))" using process_inv_db(1) [OF on(1)] by (simp add: db_ok_def)
  with y on(2) show ?thesis by (auto simp: wr promises_def run_records_def split: sum.split)
qed

subsection \<open>An instance\<close>

definition demo_run_record :: "string \<Rightarrow> string \<Rightarrow> string \<Rightarrow> raw_record" where
  "demo_run_record i x p = \<lparr>rr_id = i, rr_source_id = ''s1'', rr_external_product_id = x, rr_payload = p, rr_payload_raw = p,
     rr_payload_sha256 = [], rr_source_version = [], rr_etag = [], rr_source_updated_at = None, rr_run_id = ''run'', rr_received_at = 7\<rparr>"

definition demo_ready_run :: ingestion_run where
  "demo_ready_run = \<lparr>ir_id = ''run'', ir_source_id = ''s1'', ir_status = StatusPartial, ir_checkpoint = [], ir_metrics = zero_metrics,
     ir_error_summary = [], ir_started_at = Some 1, ir_completed_at = Some 9, ir_created_at = 1, ir_updated_at = 9\<rparr>"

text \<open>Two records of one product, and one that does not normalize.\<close>

definition demo_tables :: process_tables where
  "demo_tables = \<lparr>qt_db = \<lparr>id_runs = [demo_ready_run],
       id_raw = [demo_run_record ''q3'' ''x1'' ''a'', demo_run_record ''q1'' ''x1'' ''a'', demo_run_record ''q2'' ''x2'' ''{}''],
       id_queue = [new_processing_row 9 ''run'']\<rparr>,
     qt_products = no_products, qt_outbox = []\<rparr>"

definition demo_shop :: "int source" where
  "demo_shop = \<lparr>so_id = ''s1'', so_name = ''Shop'', so_type = TypeScraper,
     so_config = [(''field_mapping'', CMap [(''name_path'', CString ''title'')])],
     so_rate_limit = 1, so_created_at = 1, so_updated_at = 1, so_enabled = True\<rparr>"

text \<open>Another worker claims the run first, processes one record and releases it; a deadlock aborts the
  first attempt at a page.\<close>

definition demo_process_slot :: "nat \<Rightarrow> int process_slot" where
  "demo_process_slot n = \<lparr>
     qs_others = (if n = 1 then [(11, IngestAct (ActQueue (ClaimSpecific ''run'' ''t9'' 5000))),
       (12, PageAct ''t9'' 1 (zero_metrics\<lparr>m_seen := 1, m_new := 1\<rparr>) 5000), (13, IngestAct (ActQueue (Release ''run'' ''t9'')))] else []),
     qs_now = 20 + int n, qs_fault = None, qs_applied = False, qs_cancel = False, qs_locked = (\<lambda>_. False),
     qs_sources = [demo_shop], qs_products = (\<lambda>db. db), qs_meanwhile = (\<lambda>db. db), qs_outbox = (\<lambda>rows. rows),
     qs_product_env = demo_products\<lparr>px_fault := (\<lambda>st. if n = 8 \<and> st = CopyProducts then Some (PgError ''40P01'' []) else None)\<rparr>,
     qs_clock = 20 + int n, qs_ids = (\<lambda>k. Inr (replicate n (CHR ''x'') @ CHR ''-'' # replicate k (CHR ''i'')))\<rparr>"

definition demo_process_env :: "(int, int) process_env" where
  "demo_process_env = \<lparr>qe_ingest = SyncStore.demo_env, qe_outbox = \<lparr>ox_scan = SyncStore.demo_ids, ox_marshal_activated = (\<lambda>_. Inr ''{}''),
       ox_marshal_changed = (\<lambda>_. Inr ''{}''), ox_check_row = (\<lambda>_. None)\<rparr>, qe_run = ''run'', qe_idle = demo_process_slot 0,
     qe_text = demo_te, qe_decode = demo_decode, qe_source = demo_source_env, qe_error_text = (\<lambda>_. ''failed''),
     qe_fdiv = (\<lambda>f n. 100 * f div n)\<rparr>"

definition demo_process_world :: "int process_world" where
  "demo_process_world = \<lparr>qw_tables = demo_tables, qw_cancelled = False, qw_sched = map demo_process_slot [1..<16]\<rparr>"

definition demo_process_opts :: "int process_options" where
  "demo_process_opts = \<lparr>po_claim_token = ''t1'', po_lease = 60000, po_batch_size = 1, po_from_start = False,
     po_budget = \<lparr>eb_max_error_rate = 50, eb_min_sample_rows = 10\<rparr>\<rparr>"

definition demo_process :: "(int process_world \<times> process_outcome) option" where
  "demo_process = process_run 0 100 (store_process_deps demo_process_env) demo_process_opts '' run '' demo_process_world"

definition demo_process_result :: process_result where
  "demo_process_result = \<lparr>pr_run_id = ''run'', pr_metrics = \<lparr>m_seen = 3, m_new = 2, m_changed = 0, m_unchanged = 0, m_failed = 1\<rparr>\<rparr>"

lemma demo_process_eval: "map_option snd demo_process = Some (Inr demo_process_result)"
  by code_simp

lemma demo_process_inv: "process_inv demo_process_env ''run'' ''t1'' demo_process_world"
  by code_simp

theorem run_counted_once_witness:
  "\<exists>w'. process_run 0 100 (store_process_deps demo_process_env) demo_process_opts '' run '' demo_process_world
      = Some (w', Inr demo_process_result) \<and>
    row_accounted ''run'' (qt_db (qw_tables w')) \<and> run_records ''run'' (qt_db (qw_tables w')) = run_records ''run'' (qt_db demo_tables) \<and>
    metrics_add_up (pr_metrics demo_process_result) \<and> m_seen (pr_metrics demo_process_result) = int (length (raw_of_run ''run'' (qt_db demo_tables)))"
proof -
  have keys: "''run'' = trim_space '' run ''" "''t1'' = trim_space (po_claim_token demo_process_opts)" by code_simp+
  have env: "qe_run demo_process_env = ''run''" "qw_tables demo_process_world = demo_tables"
    by (simp_all add: demo_process_env_def demo_process_world_def)
  obtain w' r where w': "demo_process = Some (w', r)" "row_accounted ''run'' (qt_db (qw_tables w'))"
    "run_records ''run'' (qt_db (qw_tables w')) = run_records ''run'' (qt_db demo_tables)"
    "case r of Inl _ \<Rightarrow> True | Inr res \<Rightarrow> pr_run_id res = ''run'' \<and> metrics_add_up (pr_metrics res) \<and>
       m_seen (pr_metrics res) = int (length (raw_of_run ''run'' (qt_db demo_tables)))"
    using run_counted_once [OF demo_process_inv keys, of 0 100] unfolding env demo_process_def [symmetric] by blast
  have "r = Inr demo_process_result" using demo_process_eval unfolding w'(1) by simp
  with w' show ?thesis unfolding demo_process_def by (intro exI [of _ w']) simp
qed

end
