(* ===== verification/Idempotency.thy ===== *)
theory Idempotency
  imports Db
begin

text \<open>
  Idempotency keys: the table \<open>idempotency_keys\<close> with the SQL of \<open>generated/idempotency_keys.sql.go\<close>, its
  repository \<open>internal/infrastructure/postgres/idempotency_repository.go\<close>, and the guard of message
  handlers \<open>internal/application/idempotency/guard.go\<close>. \<open>NOW()\<close> is the argument \<open>now\<close>. The locale
  \<open>exactly_once\<close> states what the guard relies on; it is interpreted on the table for a handler that
  commits its effect and the completion of its key in one transaction.
\<close>

subsection \<open>Rows\<close>

datatype key_status = KeyInProgress | KeyCompleted

record idem_row =
  ik_scope :: string
  ik_key :: string
  ik_status :: key_status
  ik_hash :: string
  ik_token :: "string option"
  ik_expires :: "instant option"
  ik_attempts :: int
  ik_created :: instant
  ik_completed :: "instant option"

text \<open>The widths of the columns are the argument \<open>ke_check\<close>.\<close>

record key_env =
  ke_scan :: scanner
  ke_check :: "idem_row \<Rightarrow> gerr option"

definition find_key :: "string \<Rightarrow> string \<Rightarrow> idem_row list \<Rightarrow> idem_row option" where
  "find_key s k rows = find (\<lambda>r. ik_scope r = s \<and> ik_key r = k) rows"

definition update_key :: "string \<Rightarrow> string \<Rightarrow> (idem_row \<Rightarrow> idem_row) \<Rightarrow> idem_row list \<Rightarrow> idem_row list" where
  "update_key s k f rows = map (\<lambda>r. if ik_scope r = s \<and> ik_key r = k then f r else r) rows"

subsection \<open>Statements\<close>

definition new_key_row :: "instant \<Rightarrow> string \<Rightarrow> string \<Rightarrow> string \<Rightarrow> string \<Rightarrow> duration \<Rightarrow> idem_row" where
  "new_key_row now s k h t d = \<lparr>ik_scope = s, ik_key = k, ik_status = KeyInProgress, ik_hash = h, ik_token = Some t,
     ik_expires = Some (now + d), ik_attempts = 1, ik_created = now, ik_completed = None\<rparr>"

definition takeable :: "instant \<Rightarrow> string \<Rightarrow> idem_row \<Rightarrow> bool" where
  "takeable now h r \<longleftrightarrow> ik_status r = KeyInProgress \<and> (case ik_expires r of None \<Rightarrow> False | Some x \<Rightarrow> x \<le> now) \<and> ik_hash r = h"

definition take_key :: "instant \<Rightarrow> string \<Rightarrow> duration \<Rightarrow> idem_row \<Rightarrow> idem_row" where
  "take_key now t d r = r\<lparr>ik_token := Some t, ik_expires := Some (now + d), ik_attempts := ik_attempts r + 1\<rparr>"

text \<open>\<open>INSERT \<dots> ON CONFLICT (scope, key) DO UPDATE \<dots> WHERE \<dots> RETURNING\<close>: the row, or no row. \<open>attempts\<close> is an
  int4 column.\<close>

definition claim_statement ::
  "key_env \<Rightarrow> instant \<Rightarrow> string \<Rightarrow> string \<Rightarrow> string \<Rightarrow> string \<Rightarrow> duration \<Rightarrow> idem_row list \<Rightarrow> gerr + (idem_row list \<times> idem_row option)" where
  "claim_statement e now s k h t d rows =
     (let new = new_key_row now s k h t d in
      case ke_check e new of Some x \<Rightarrow> Inl x
      | None \<Rightarrow> (case find_key s k rows of
            None \<Rightarrow> Inr (rows @ [new], Some new)
          | Some r \<Rightarrow>
              if \<not> takeable now h r then Inr (rows, None)
              else if ik_attempts r \<ge> 2 ^ 31 - 1 then Inl (Opaque ''22003'')
              else Inr (update_key s k (take_key now t d) rows, Some (take_key now t d r))))"

definition leased_by :: "string \<Rightarrow> idem_row \<Rightarrow> bool" where
  "leased_by t r \<longleftrightarrow> ik_token r = Some t \<and> ik_status r = KeyInProgress"

definition complete_row :: "instant \<Rightarrow> idem_row \<Rightarrow> idem_row" where
  "complete_row now r = r\<lparr>ik_status := KeyCompleted, ik_completed := Some now, ik_token := None, ik_expires := None\<rparr>"

text \<open>An \<open>UPDATE\<close> of the row while the token leases it, with the number of rows affected.\<close>

definition leased_update ::
  "(idem_row \<Rightarrow> idem_row) \<Rightarrow> string \<Rightarrow> string \<Rightarrow> string \<Rightarrow> idem_row list \<Rightarrow> idem_row list \<times> nat" where
  "leased_update f s k t rows = (case find_key s k rows of
       None \<Rightarrow> (rows, 0)
     | Some r \<Rightarrow> if leased_by t r then (update_key s k f rows, 1) else (rows, 0))"

definition complete_statement :: "instant \<Rightarrow> string \<Rightarrow> string \<Rightarrow> string \<Rightarrow> idem_row list \<Rightarrow> idem_row list \<times> nat" where
  "complete_statement now = leased_update (complete_row now)"

definition release_statement :: "instant \<Rightarrow> string \<Rightarrow> string \<Rightarrow> string \<Rightarrow> idem_row list \<Rightarrow> idem_row list \<times> nat" where
  "release_statement now = leased_update (\<lambda>r. r\<lparr>ik_expires := Some now\<rparr>)"

subsection \<open>The repository\<close>

datatype claim_status = ClaimAcquired | ClaimAlreadyCompleted

record claim =
  cl_scope :: string
  cl_key :: string
  cl_status :: claim_status
  cl_token :: string
  cl_expires :: instant
  cl_attempts :: int
  cl_completed :: bool

definition key_guard :: "string \<Rightarrow> string \<Rightarrow> gerr + 'a \<Rightarrow> gerr + 'a" where
  "key_guard s k rest =
     failif (is_blank s) (Leaf (Idempotency ErrInvalidScope)) (failif (is_blank k) (Leaf (Idempotency ErrInvalidKey)) rest)"

definition milliseconds :: "duration \<Rightarrow> duration" where
  "milliseconds d = d div 1000000 * 1000000"

definition acquired :: "idem_row \<Rightarrow> claim" where
  "acquired r = \<lparr>cl_scope = ik_scope r, cl_key = ik_key r, cl_status = ClaimAcquired,
     cl_token = (case ik_token r of None \<Rightarrow> [] | Some t \<Rightarrow> t), cl_expires = (case ik_expires r of None \<Rightarrow> 0 | Some x \<Rightarrow> x),
     cl_attempts = ik_attempts r, cl_completed = False\<rparr>"

definition already_completed :: "idem_row \<Rightarrow> claim" where
  "already_completed r = \<lparr>cl_scope = ik_scope r, cl_key = ik_key r, cl_status = ClaimAlreadyCompleted, cl_token = [],
     cl_expires = 0, cl_attempts = 0, cl_completed = False\<rparr>"

text \<open>What an existing row that was not claimed says.\<close>

definition inspect_key :: "string \<Rightarrow> idem_row option \<Rightarrow> gerr + claim" where
  "inspect_key h existing = (case existing of
       None \<Rightarrow> Inl (Leaf (Idempotency ErrKeyInProgress))
     | Some r \<Rightarrow>
         if ik_hash r \<noteq> h then Inl (Leaf (Idempotency ErrPayloadMismatch))
         else if ik_status r = KeyCompleted then Inr (already_completed r)
         else Inl (Leaf (Idempotency ErrKeyInProgress)))"

text \<open>The statements as calls on a state \<open>'s\<close> that others change between them.\<close>

record 's key_stmts =
  ks_claim :: "string \<Rightarrow> string \<Rightarrow> string \<Rightarrow> string \<Rightarrow> duration \<Rightarrow> 's \<Rightarrow> 's \<times> (gerr + idem_row option)"
  ks_get :: "string \<Rightarrow> string \<Rightarrow> 's \<Rightarrow> 's \<times> (gerr + idem_row option)"
  ks_release :: "string \<Rightarrow> string \<Rightarrow> string \<Rightarrow> 's \<Rightarrow> 's \<times> (gerr + nat)"

definition check_claim :: "key_env \<Rightarrow> string \<Rightarrow> string \<Rightarrow> string \<Rightarrow> string \<Rightarrow> duration \<Rightarrow> gerr + string" where
  "check_claim e s k h token ttl =
     key_guard s k
    (failif (length h \<noteq> 32) (Leaf (Idempotency ErrInvalidPayloadHash))
    (failif (ttl \<le> 0) (Leaf (Idempotency ErrInvalidLeaseTTL))
    (mapl Wrap (parse_uuid (ke_scan e) token))))"

definition claim_key ::
  "key_env \<Rightarrow> 's key_stmts \<Rightarrow> string \<Rightarrow> string \<Rightarrow> string \<Rightarrow> string \<Rightarrow> duration \<Rightarrow> 's \<Rightarrow> 's \<times> (gerr + claim)" where
  "claim_key e q s k h token ttl w =
     (case check_claim e s k h token ttl of
        Inl x \<Rightarrow> (w, Inl x)
      | Inr t \<Rightarrow> (case ks_claim q s k h t (milliseconds ttl) w of
            (w1, Inl x) \<Rightarrow> (w1, Inl (Wrap x))
          | (w1, Inr (Some r)) \<Rightarrow> (w1, Inr (acquired r))
          | (w1, Inr None) \<Rightarrow> (case ks_get q s k w1 of
                (w2, Inl x) \<Rightarrow> (w2, Inl (Wrap x))
              | (w2, Inr existing) \<Rightarrow> (w2, inspect_key h existing))))"

definition complete_key ::
  "key_env \<Rightarrow> (string \<Rightarrow> string \<Rightarrow> string \<Rightarrow> 't \<Rightarrow> gerr + ('t \<times> nat)) \<Rightarrow> string \<Rightarrow> string \<Rightarrow> string \<Rightarrow> 't \<Rightarrow> gerr + ('t \<times> unit)" where
  "complete_key e stmt s k token t =
     key_guard s k (bindr (mapl Wrap (parse_uuid (ke_scan e) token)) (\<lambda>u.
       bindr (mapl Wrap (stmt s k u t)) (\<lambda>(t', n).
         failif (n = 0) (Leaf (Idempotency ErrKeyLeaseLost)) (Inr (t', ())))))"

definition release_key :: "key_env \<Rightarrow> 's key_stmts \<Rightarrow> string \<Rightarrow> string \<Rightarrow> string \<Rightarrow> 's \<Rightarrow> 's \<times> (gerr + unit)" where
  "release_key e q s k token w =
     (case key_guard s k (mapl Wrap (parse_uuid (ke_scan e) token)) of
        Inl x \<Rightarrow> (w, Inl x)
      | Inr t \<Rightarrow> (case ks_release q s k t w of (w1, r) \<Rightarrow> (w1, mapl Wrap (map_sum (\<lambda>x. x) (\<lambda>_. ()) r))))"

definition get_key :: "'s key_stmts \<Rightarrow> string \<Rightarrow> string \<Rightarrow> 's \<Rightarrow> 's \<times> (gerr + idem_row)" where
  "get_key q s k w =
     (case key_guard s k (Inr ()) of
        Inl x \<Rightarrow> (w, Inl x)
      | Inr _ \<Rightarrow> (case ks_get q s k w of
            (w1, Inl x) \<Rightarrow> (w1, Inl (Wrap x))
          | (w1, Inr None) \<Rightarrow> (w1, Inl (Leaf (Idempotency ErrKeyNotFound)))
          | (w1, Inr (Some r)) \<Rightarrow> (w1, Inr r)))"

subsection \<open>The guard\<close>

record message =
  ms_stream_id :: string
  ms_stream :: string
  ms_event_id :: string
  ms_aggregate_type :: string
  ms_aggregate_id :: string
  ms_correlation_id :: string
  ms_event_type :: string
  ms_payload :: string
  ms_created_at :: instant
  ms_target_group :: string

text \<open>A handler returns or panics. It reaches its claim through the context, and may complete it.\<close>

datatype handler_end = Returned "gerr option" | Panicked string

type_synonym 's handler = "message \<Rightarrow> claim \<Rightarrow> 's \<Rightarrow> 's \<times> claim \<times> handler_end"

record 's guard_deps =
  gd_uuid :: "'s \<Rightarrow> 's \<times> (gerr + string)"
  gd_claim_key :: "string \<Rightarrow> string \<Rightarrow> string \<Rightarrow> string \<Rightarrow> duration \<Rightarrow> 's \<Rightarrow> 's \<times> (gerr + claim)"
  gd_release_key :: "string \<Rightarrow> string \<Rightarrow> string \<Rightarrow> 's \<Rightarrow> 's \<times> (gerr + unit)"
  gd_hash :: "string \<Rightarrow> string"
  gd_ttl :: duration

definition complete_in_tx ::
  "(string \<Rightarrow> string \<Rightarrow> string \<Rightarrow> 't \<Rightarrow> gerr + ('t \<times> unit)) \<Rightarrow> claim option \<Rightarrow> 't \<Rightarrow> gerr + ('t \<times> claim)" where
  "complete_in_tx completer c t = (case c of
       None \<Rightarrow> Inl (Opaque ''no idempotency claim found in context'')
     | Some c \<Rightarrow> bindr (completer (cl_scope c) (cl_key c) (cl_token c) t) (\<lambda>(t', _). Inr (t', c\<lparr>cl_completed := True\<rparr>)))"

definition release_guard :: "'s guard_deps \<Rightarrow> string \<Rightarrow> message \<Rightarrow> string \<Rightarrow> 's \<Rightarrow> 's" where
  "release_guard g scope msg token w = fst (gd_release_key g scope (ms_event_id msg) token w)"

text \<open>The end of a handler under a claim.\<close>

definition settle_handler :: "'s guard_deps \<Rightarrow> string \<Rightarrow> message \<Rightarrow> string \<Rightarrow> 's \<times> claim \<times> handler_end \<Rightarrow> 's \<times> handler_end" where
  "settle_handler g scope msg token y = (case y of (w, c, fin) \<Rightarrow>
     (case fin of
        Panicked p \<Rightarrow> (release_guard g scope msg token w, Panicked p)
      | Returned (Some x) \<Rightarrow> (release_guard g scope msg token w, Returned (Some x))
      | Returned None \<Rightarrow>
          if cl_completed c then (w, Returned None)
          else (release_guard g scope msg token w, Returned (Some (Leaf (Idempotency ErrNotCompletedInTx))))))"

definition claim_failure :: "gerr \<Rightarrow> gerr" where
  "claim_failure x = (if err_is x (Idempotency ErrPayloadMismatch) \<or> err_is x (Idempotency ErrKeyInProgress) then x else Wrap x)"

definition guarded_handler :: "'s guard_deps \<Rightarrow> string \<Rightarrow> 's handler \<Rightarrow> message \<Rightarrow> 's \<Rightarrow> 's \<times> handler_end" where
  "guarded_handler g scope next msg w =
     (if is_blank (ms_event_id msg) then (w, Returned (Some (Leaf (Idempotency ErrInvalidKey))))
      else case gd_uuid g w of
        (w1, Inl x) \<Rightarrow> (w1, Returned (Some (Wrap x)))
      | (w1, Inr token) \<Rightarrow>
          (case gd_claim_key g scope (ms_event_id msg) (gd_hash g (ms_payload msg)) token (gd_ttl g) w1 of
             (w2, Inl x) \<Rightarrow> (w2, Returned (Some (claim_failure x)))
           | (w2, Inr c) \<Rightarrow>
               if cl_status c = ClaimAlreadyCompleted then (w2, Returned None)
               else settle_handler g scope msg token (next msg c w2)))"

definition new_guard :: "('s \<Rightarrow> 's \<times> (gerr + string)) \<Rightarrow> 's key_stmts \<Rightarrow> key_env \<Rightarrow> (string \<Rightarrow> string) \<Rightarrow> duration \<Rightarrow> gerr + 's guard_deps" where
  "new_guard uuid q e hash ttl = failif (ttl \<le> 0) (Wrap (Leaf (Idempotency ErrInvalidLeaseTTL)))
     (Inr \<lparr>gd_uuid = uuid, gd_claim_key = claim_key e q, gd_release_key = release_key e q, gd_hash = hash, gd_ttl = ttl\<rparr>)"

definition wrap_handler :: "'s guard_deps \<Rightarrow> string \<Rightarrow> 's handler \<Rightarrow> gerr + (message \<Rightarrow> 's \<Rightarrow> 's \<times> handler_end)" where
  "wrap_handler g scope next = failif (is_blank scope) (Leaf (Idempotency ErrInvalidScope)) (Inr (guarded_handler g scope next))"

subsection \<open>The interface of the guard\<close>

text \<open>\<open>effects w k\<close> are the payload hashes whose effect has been committed for key \<open>k\<close> of the scope;
  \<open>bound w k h\<close> says that the key belongs to the payload with hash \<open>h\<close>.\<close>

locale exactly_once =
  fixes g :: "'s guard_deps" and scope :: string and handle :: "'s handler"
    and inv :: "'s \<Rightarrow> bool" and effects :: "'s \<Rightarrow> string \<Rightarrow> string list" and bound :: "'s \<Rightarrow> string \<Rightarrow> string \<Rightarrow> bool"
  assumes uuid_law: "inv w \<Longrightarrow> gd_uuid g w = (w', u) \<Longrightarrow> inv w'"
    and claim_law: "inv w \<Longrightarrow> gd_claim_key g scope k h token ttl w = (w', r) \<Longrightarrow> inv w' \<and>
      (\<forall>c. r = Inr c \<longrightarrow> (if cl_status c = ClaimAlreadyCompleted then effects w' k = [h]
         else bound w' k h \<and> cl_scope c = scope \<and> cl_key c = k \<and> \<not> cl_completed c))"
    and handle_law: "inv w \<Longrightarrow> bound w (ms_event_id msg) (gd_hash g (ms_payload msg)) \<Longrightarrow> cl_scope c = scope \<Longrightarrow>
      cl_key c = ms_event_id msg \<Longrightarrow> \<not> cl_completed c \<Longrightarrow> handle msg c w = (w', c', fin) \<Longrightarrow>
      inv w' \<and> (fin = Returned None \<longrightarrow> cl_completed c' \<longrightarrow> effects w' (ms_event_id msg) = [gd_hash g (ms_payload msg)])"
    and release_law: "inv w \<Longrightarrow> gd_release_key g scope k token w = (w', r') \<Longrightarrow> inv w'"
    and effects_once: "inv w \<Longrightarrow> length (effects w k) \<le> 1"
begin

lemma release_guard_inv: "inv w \<Longrightarrow> inv (release_guard g scope msg token w)"
  using release_law by (metis prod.collapse release_guard_def)

theorem guarded_once:
  assumes inv: "inv w" and run: "guarded_handler g scope handle msg w = (w', fin)"
  shows "inv w'" "fin = Returned None \<Longrightarrow> effects w' (ms_event_id msg) = [gd_hash g (ms_payload msg)]"
    "length (effects w' k) \<le> 1"
proof -
  have "inv w' \<and> (fin = Returned None \<longrightarrow> effects w' (ms_event_id msg) = [gd_hash g (ms_payload msg)])"
  proof (cases "is_blank (ms_event_id msg)")
    case True
    with inv run show ?thesis by (auto simp: guarded_handler_def)
  next
    case False
    obtain w1 u where u: "gd_uuid g w = (w1, u)" by (cases "gd_uuid g w")
    note inv1 = uuid_law [OF inv u]
    show ?thesis
    proof (cases u)
      case (Inl x)
      with False u run inv1 show ?thesis by (auto simp: guarded_handler_def)
    next
      case (Inr token)
      obtain w2 r where c: "gd_claim_key g scope (ms_event_id msg) (gd_hash g (ms_payload msg)) token (gd_ttl g) w1 = (w2, r)"
        by (cases "gd_claim_key g scope (ms_event_id msg) (gd_hash g (ms_payload msg)) token (gd_ttl g) w1")
      note l = claim_law [OF inv1 c]
      show ?thesis
      proof (cases "\<exists>cl. r = Inr cl \<and> cl_status cl \<noteq> ClaimAlreadyCompleted")
        case True
        then obtain cl where cl: "r = Inr cl" "cl_status cl \<noteq> ClaimAlreadyCompleted" by blast
        obtain w3 c' e where h: "handle msg cl w2 = (w3, c', e)" by (cases "handle msg cl w2")
        have l2: "inv w3 \<and> (e = Returned None \<longrightarrow> cl_completed c' \<longrightarrow> effects w3 (ms_event_id msg) = [gd_hash g (ms_payload msg)])"
          using l cl handle_law [OF _ _ _ _ _ h] by auto
        have "(w', fin) = settle_handler g scope msg token (w3, c', e)"
          using run False u Inr c cl h by (simp add: guarded_handler_def)
        with l2 release_guard_inv show ?thesis
          by (auto simp: settle_handler_def split: handler_end.splits option.splits if_splits)
      next
        case no: False
        with run False u Inr c l show ?thesis by (auto simp: guarded_handler_def split: sum.splits if_splits)
      qed
    qed
  qed
  then show "inv w'" "fin = Returned None \<Longrightarrow> effects w' (ms_event_id msg) = [gd_hash g (ms_payload msg)]"
    "length (effects w' k) \<le> 1"
    using effects_once by blast+
qed

end

subsection \<open>Keys and the effects of handlers\<close>

text \<open>The rows, and the log of the effects that handlers have committed: scope, key and payload hash.\<close>

record key_tables =
  kt_rows :: "idem_row list"
  kt_effects :: "(string \<times> string \<times> string) list"

definition effects_of :: "string \<Rightarrow> string \<Rightarrow> (string \<times> string \<times> string) list \<Rightarrow> string list" where
  "effects_of s k es = map (\<lambda>x. snd (snd x)) (filter (\<lambda>x. fst x = s \<and> fst (snd x) = k) es)"

definition bound_to :: "string \<Rightarrow> string \<Rightarrow> string \<Rightarrow> key_tables \<Rightarrow> bool" where
  "bound_to s k h kt \<longleftrightarrow> (case find_key s k (kt_rows kt) of None \<Rightarrow> False | Some r \<Rightarrow> ik_hash r = h)"

text \<open>The CHECK constraint of the table.\<close>

definition key_row_ok :: "idem_row \<Rightarrow> bool" where
  "key_row_ok r \<longleftrightarrow> (if ik_status r = KeyCompleted then ik_completed r \<noteq> None \<and> ik_token r = None \<and> ik_expires r = None
     else ik_completed r = None \<and> ik_token r \<noteq> None \<and> ik_expires r \<noteq> None)"

text \<open>A key has no effect while it is open, and its one effect once it is completed.\<close>

definition effects_expected :: "idem_row option \<Rightarrow> string list" where
  "effects_expected x = (case x of None \<Rightarrow> [] | Some r \<Rightarrow> if ik_status r = KeyCompleted then [ik_hash r] else [])"

definition keys_inv :: "key_tables \<Rightarrow> bool" where
  "keys_inv kt \<longleftrightarrow> distinct (map (\<lambda>r. (ik_scope r, ik_key r)) (kt_rows kt)) \<and> list_all key_row_ok (kt_rows kt) \<and>
     (\<forall>s k. effects_of s k (kt_effects kt) = effects_expected (find_key s k (kt_rows kt)))"

lemma find_key_append:
  "find_key s k (rows @ xs) = (case find_key s k rows of None \<Rightarrow> find_key s k xs | Some r \<Rightarrow> Some r)"
  by (induction rows) (auto simp: find_key_def)

lemma find_key_Some: "find_key s k rows = Some r \<Longrightarrow> r \<in> set rows \<and> ik_scope r = s \<and> ik_key r = k"
  by (auto simp: find_key_def find_Some_iff)

lemma find_key_None: "find_key s k rows = None \<longleftrightarrow> (s, k) \<notin> (\<lambda>r. (ik_scope r, ik_key r)) ` set rows"
  by (auto simp: find_key_def find_None_iff)

definition same_key :: "(idem_row \<Rightarrow> idem_row) \<Rightarrow> bool" where
  "same_key f \<longleftrightarrow> (\<forall>r. ik_scope (f r) = ik_scope r \<and> ik_key (f r) = ik_key r \<and> ik_hash (f r) = ik_hash r)"

lemma find_key_update:
  "same_key f \<Longrightarrow> find_key s k (update_key s' k' f rows) =
     (if s = s' \<and> k = k' then map_option f (find_key s k rows) else find_key s k rows)"
  by (induction rows) (auto simp: find_key_def update_key_def same_key_def)

lemma update_key_keys: "same_key f \<Longrightarrow> map (\<lambda>r. (ik_scope r, ik_key r)) (update_key s k f rows) = map (\<lambda>r. (ik_scope r, ik_key r)) rows"
  by (induction rows) (auto simp: update_key_def same_key_def)

lemma setters_same_key [simp]:
  "same_key (take_key now t d)" "same_key (complete_row now)" "same_key (\<lambda>r. r\<lparr>ik_expires := x\<rparr>)"
  by (simp_all add: same_key_def take_key_def complete_row_def)

lemma only_row: "distinct (map (\<lambda>r. (ik_scope r, ik_key r)) rows) \<Longrightarrow> find_key s k rows = Some r \<Longrightarrow> q \<in> set rows \<Longrightarrow>
    ik_scope q = s \<Longrightarrow> ik_key q = k \<Longrightarrow> q = r"
  by (rule map_of_distinct_in [where f = "\<lambda>r. (ik_scope r, ik_key r)"]) (auto dest: find_key_Some)

text \<open>An update of the row of one key, with the effects it commits.\<close>

lemma keys_inv_update:
  assumes inv: "keys_inv kt" and r: "find_key s k (kt_rows kt) = Some r" and f: "same_key f" "key_row_ok (f r)"
    and es: "effects_expected (Some (f r)) = effects_expected (Some r) @ map (\<lambda>x. snd (snd x)) new"
      "\<And>x. x \<in> set new \<Longrightarrow> fst x = s \<and> fst (snd x) = k"
  shows "keys_inv \<lparr>kt_rows = update_key s k f (kt_rows kt), kt_effects = kt_effects kt @ new\<rparr>"
proof -
  have all: "filter (\<lambda>x. fst x = s \<and> fst (snd x) = k) new = new" using es(2) by (simp add: filter_id_conv)
  have none: "filter (\<lambda>x. fst x = s' \<and> fst (snd x) = k') new = []" if "\<not> (s' = s \<and> k' = k)" for s' k'
    using es(2) that by (auto simp: filter_empty_conv)
  have "effects_of s' k' (kt_effects kt @ new) = effects_expected (find_key s' k' (update_key s k f (kt_rows kt)))" for s' k'
  proof (cases "s' = s \<and> k' = k")
    case True
    have "effects_of s k (kt_effects kt) = effects_expected (Some r)" using inv r by (simp add: keys_inv_def)
    with True all es(1) show ?thesis by (simp add: find_key_update [OF f(1)] r effects_of_def)
  next
    case False
    with inv none [OF False] show ?thesis by (auto simp: find_key_update [OF f(1)] effects_of_def keys_inv_def)
  qed
  moreover have "list_all key_row_ok (update_key s k f (kt_rows kt))"
    using inv f(2) only_row [OF _ r] by (auto simp: keys_inv_def list_all_iff update_key_def)
  ultimately show ?thesis using inv by (simp add: keys_inv_def update_key_keys [OF f(1)])
qed

lemma keys_inv_new:
  assumes inv: "keys_inv kt" and "find_key s k (kt_rows kt) = None"
  shows "keys_inv (kt\<lparr>kt_rows := kt_rows kt @ [new_key_row now s k h t d]\<rparr>)"
proof -
  let ?n = "new_key_row now s k h t d"
  have n: "find_key s' k' [?n] = (if s' = s \<and> k' = k then Some ?n else None)" for s' k'
    by (auto simp: find_key_def new_key_row_def)
  have st: "ik_status ?n = KeyInProgress" by (simp add: new_key_row_def)
  have "effects_of s' k' (kt_effects kt) = effects_expected (find_key s' k' (kt_rows kt @ [?n]))" for s' k'
    using inv assms(2) by (cases "find_key s' k' (kt_rows kt)") (auto simp: keys_inv_def find_key_append n effects_expected_def st)
  with inv assms(2) show ?thesis
    by (auto simp: keys_inv_def find_key_None new_key_row_def key_row_ok_def)
qed

text \<open>Claims: the row returned is the row of the key, bound to the hash; nothing is ever unbound.\<close>

definition keys_grow :: "key_tables \<Rightarrow> key_tables \<Rightarrow> bool" where
  "keys_grow kt kt' \<longleftrightarrow> keys_inv kt' \<and> (\<forall>s k h. bound_to s k h kt \<longrightarrow> bound_to s k h kt')"

lemma keys_grow_refl: "keys_inv kt \<Longrightarrow> keys_grow kt kt"
  by (simp add: keys_grow_def)

lemma keys_grow_trans: "keys_grow kt kt1 \<Longrightarrow> keys_grow kt1 kt2 \<Longrightarrow> keys_grow kt kt2"
  by (simp add: keys_grow_def)

lemma bound_to_update: "same_key f \<Longrightarrow> bound_to s k h kt \<Longrightarrow> bound_to s k h \<lparr>kt_rows = update_key s' k' f (kt_rows kt), kt_effects = es\<rparr>"
  by (auto simp: bound_to_def find_key_update same_key_def split: option.splits)

lemma claim_statement_law:
  assumes inv: "keys_inv kt" and st: "claim_statement e now s k h t d (kt_rows kt) = Inr (rows, x)"
  shows "keys_grow kt (kt\<lparr>kt_rows := rows\<rparr>)"
    "x = Some r \<Longrightarrow> bound_to s k h (kt\<lparr>kt_rows := rows\<rparr>) \<and> ik_scope r = s \<and> ik_key r = k"
proof -
  have "keys_grow kt (kt\<lparr>kt_rows := rows\<rparr>) \<and>
    (x = Some r \<longrightarrow> bound_to s k h (kt\<lparr>kt_rows := rows\<rparr>) \<and> ik_scope r = s \<and> ik_key r = k)"
  proof (cases "find_key s k (kt_rows kt)")
    case None
    with st have x: "rows = kt_rows kt @ [new_key_row now s k h t d]" "x = Some (new_key_row now s k h t d)"
      by (auto simp: claim_statement_def Let_def split: option.splits)
    have "bound_to s' k' h' kt \<Longrightarrow> bound_to s' k' h' (kt\<lparr>kt_rows := rows\<rparr>)" for s' k' h'
      by (auto simp: bound_to_def x(1) find_key_append split: option.splits)
    moreover have "bound_to s k h (kt\<lparr>kt_rows := rows\<rparr>)"
      using None by (simp add: bound_to_def x(1) find_key_append) (simp add: find_key_def new_key_row_def)
    ultimately show ?thesis
      using keys_inv_new [OF inv None] x by (auto simp: keys_grow_def new_key_row_def)
  next
    case (Some q)
    note q = find_key_Some [OF Some]
    show ?thesis
    proof (cases "takeable now h q")
      case True
      with st Some have x: "rows = update_key s k (take_key now t d) (kt_rows kt)" "x = Some (take_key now t d q)"
        by (auto simp: claim_statement_def Let_def split: option.splits if_splits)
      have hq: "ik_hash q = h" "ik_status q = KeyInProgress" using True by (simp_all add: takeable_def)
      have "key_row_ok q" using inv q by (auto simp: keys_inv_def list_all_iff)
      with hq have ok: "key_row_ok (take_key now t d q)" by (simp add: key_row_ok_def take_key_def)
      have "keys_inv \<lparr>kt_rows = rows, kt_effects = kt_effects kt @ []\<rparr>" unfolding x(1)
        by (rule keys_inv_update [where f = "take_key now t d", OF inv Some _ ok]) (use hq in \<open>simp_all add: effects_expected_def take_key_def\<close>)
      moreover have eq: "kt\<lparr>kt_rows := rows\<rparr> = \<lparr>kt_rows = rows, kt_effects = kt_effects kt\<rparr>" by simp
      ultimately have "keys_inv (kt\<lparr>kt_rows := rows\<rparr>)" unfolding eq by simp
      moreover have "bound_to s' k' h' kt \<Longrightarrow> bound_to s' k' h' (kt\<lparr>kt_rows := rows\<rparr>)" for s' k' h'
        unfolding eq unfolding x(1) by (rule bound_to_update) simp_all
      moreover have "bound_to s k h kt" using Some hq by (simp add: bound_to_def)
      ultimately show ?thesis using q x(2) by (auto simp: keys_grow_def take_key_def)
    next
      case False
      with st Some have "rows = kt_rows kt" "x = None" by (auto simp: claim_statement_def Let_def split: option.splits)
      with keys_grow_refl [OF inv] show ?thesis by simp
    qed
  qed
  then show "keys_grow kt (kt\<lparr>kt_rows := rows\<rparr>)"
    "x = Some r \<Longrightarrow> bound_to s k h (kt\<lparr>kt_rows := rows\<rparr>) \<and> ik_scope r = s \<and> ik_key r = k" by blast+
qed

lemma release_statement_law:
  assumes inv: "keys_inv kt" shows "keys_grow kt (kt\<lparr>kt_rows := fst (release_statement now s k t (kt_rows kt))\<rparr>)"
proof (cases "\<exists>r. find_key s k (kt_rows kt) = Some r \<and> leased_by t r")
  case True
  then obtain r where r: "find_key s k (kt_rows kt) = Some r" "leased_by t r" by blast
  let ?f = "\<lambda>r. r\<lparr>ik_expires := Some now\<rparr>" and ?rows = "fst (release_statement now s k t (kt_rows kt))"
  have rows: "?rows = update_key s k ?f (kt_rows kt)" using r by (simp add: release_statement_def leased_update_def)
  have "key_row_ok r" using inv find_key_Some [OF r(1)] by (auto simp: keys_inv_def list_all_iff)
  with r(2) have ok: "key_row_ok (?f r)" by (simp add: key_row_ok_def leased_by_def)
  have "keys_inv \<lparr>kt_rows = update_key s k ?f (kt_rows kt), kt_effects = kt_effects kt @ []\<rparr>"
    by (rule keys_inv_update [where f = ?f, OF inv r(1) _ ok]) (simp_all add: effects_expected_def)
  moreover have eq: "kt\<lparr>kt_rows := ?rows\<rparr> = \<lparr>kt_rows = update_key s k ?f (kt_rows kt), kt_effects = kt_effects kt\<rparr>"
    using rows by simp
  moreover have "bound_to s' k' h' kt \<Longrightarrow> bound_to s' k' h' \<lparr>kt_rows = update_key s k ?f (kt_rows kt), kt_effects = kt_effects kt\<rparr>" for s' k' h'
    by (rule bound_to_update) simp_all
  ultimately show ?thesis unfolding keys_grow_def eq by simp
next
  case False
  then have "fst (release_statement now s k t (kt_rows kt)) = kt_rows kt"
    by (auto simp: release_statement_def leased_update_def split: option.splits)
  with keys_grow_refl [OF inv] show ?thesis by simp
qed

text \<open>A completion and the effect of the payload to which the key is bound, in one transaction.\<close>

lemma complete_statement_law:
  assumes inv: "keys_inv kt" and b: "bound_to s k h kt" and st: "complete_statement now s k t (kt_rows kt) = (rows, n)" "n \<noteq> 0"
  shows "keys_grow kt \<lparr>kt_rows = rows, kt_effects = kt_effects kt @ [(s, k, h)]\<rparr>"
    "effects_of s k (kt_effects kt @ [(s, k, h)]) = [h]"
proof -
  obtain r where r: "find_key s k (kt_rows kt) = Some r" "leased_by t r" "rows = update_key s k (complete_row now) (kt_rows kt)"
    using st by (auto simp: complete_statement_def leased_update_def split: option.splits if_splits)
  have h: "ik_hash r = h" "ik_status r = KeyInProgress" using b r by (simp_all add: bound_to_def leased_by_def)
  have "keys_inv \<lparr>kt_rows = update_key s k (complete_row now) (kt_rows kt), kt_effects = kt_effects kt @ [(s, k, h)]\<rparr>"
    by (rule keys_inv_update [OF inv r(1)])
       (use h in \<open>simp_all add: effects_expected_def complete_row_def key_row_ok_def same_key_def\<close>)
  moreover have "bound_to s' k' h' kt \<Longrightarrow> bound_to s' k' h' \<lparr>kt_rows = rows, kt_effects = kt_effects kt @ [(s, k, h)]\<rparr>" for s' k' h'
    unfolding r(3) by (rule bound_to_update) simp_all
  ultimately show "keys_grow kt \<lparr>kt_rows = rows, kt_effects = kt_effects kt @ [(s, k, h)]\<rparr>"
    by (simp add: keys_grow_def r(3))
  have "effects_of s k (kt_effects kt) = []" using inv r h by (simp add: keys_inv_def effects_expected_def)
  then show "effects_of s k (kt_effects kt @ [(s, k, h)]) = [h]" by (simp add: effects_of_def)
qed

subsection \<open>The world of a delivery\<close>

text \<open>What other consumers do: a claim, the transaction of a handler under a claim (its payload is the one to
  which the key is bound), a release.\<close>

datatype key_act = KeyClaim string string string string duration | KeyApply string string string | KeyRelease string string string

fun exec_key_act :: "key_env \<Rightarrow> instant \<Rightarrow> key_act \<Rightarrow> key_tables \<Rightarrow> key_tables" where
  "exec_key_act e now (KeyClaim s k h t d) kt =
     (case claim_statement e now s k h t d (kt_rows kt) of Inl _ \<Rightarrow> kt | Inr (rows, _) \<Rightarrow> kt\<lparr>kt_rows := rows\<rparr>)"
| "exec_key_act e now (KeyApply s k t) kt =
     (case find_key s k (kt_rows kt) of
        None \<Rightarrow> kt
      | Some r \<Rightarrow> (case complete_statement now s k t (kt_rows kt) of (rows, n) \<Rightarrow>
          if n = 0 then kt else \<lparr>kt_rows = rows, kt_effects = kt_effects kt @ [(s, k, ik_hash r)]\<rparr>))"
| "exec_key_act e now (KeyRelease s k t) kt = kt\<lparr>kt_rows := fst (release_statement now s k t (kt_rows kt))\<rparr>"

fun exec_key_acts :: "key_env \<Rightarrow> (instant \<times> key_act) list \<Rightarrow> key_tables \<Rightarrow> key_tables" where
  "exec_key_acts e [] kt = kt"
| "exec_key_acts e ((now, act) # acts) kt = exec_key_acts e acts (exec_key_act e now act kt)"

text \<open>What surrounds one call: the acts of others before it, its instant, the fault the database reports
  (\<open>kl_applied\<close>: it took effect all the same), the token drawn, and how the handler ends before its
  transaction, or after it.\<close>

record key_slot =
  kl_others :: "(instant \<times> key_act) list"
  kl_now :: instant
  kl_fault :: "gerr option"
  kl_applied :: bool
  kl_uuid :: "gerr + string"
  kl_before :: "handler_end option"
  kl_after :: "handler_end option"

record key_world =
  kw_tables :: key_tables
  kw_sched :: "key_slot list"

definition idle_key_slot :: key_slot where
  "idle_key_slot = \<lparr>kl_others = [], kl_now = 0, kl_fault = Some canceled_err, kl_applied = False,
     kl_uuid = Inl (Opaque ''no entropy''), kl_before = None, kl_after = None\<rparr>"

definition key_slot_step :: "key_env \<Rightarrow> key_world \<Rightarrow> key_slot \<times> key_world" where
  "key_slot_step e w = (case kw_sched w of
       [] \<Rightarrow> (idle_key_slot, w)
     | s # ss \<Rightarrow> (s, w\<lparr>kw_sched := ss, kw_tables := exec_key_acts e (kl_others s) (kw_tables w)\<rparr>))"

definition commit_key_call :: "key_slot \<Rightarrow> key_tables \<Rightarrow> key_world \<Rightarrow> key_world" where
  "commit_key_call s kt w = (if kl_fault s = None \<or> kl_applied s then w\<lparr>kw_tables := kt\<rparr> else w)"

definition key_call :: "key_env \<Rightarrow> (key_slot \<Rightarrow> key_tables \<Rightarrow> gerr + (key_tables \<times> 'a)) \<Rightarrow> key_world \<Rightarrow> key_world \<times> (gerr + 'a)" where
  "key_call e f w = (case key_slot_step e w of (s, w1) \<Rightarrow>
     (case f s (kw_tables w1) of
        Inl x \<Rightarrow> (w1, Inl x)
      | Inr (kt, a) \<Rightarrow> (commit_key_call s kt w1, case kl_fault s of None \<Rightarrow> Inr a | Some x \<Rightarrow> Inl x)))"

definition world_stmts :: "key_env \<Rightarrow> key_world key_stmts" where
  "world_stmts e = \<lparr>
     ks_claim = (\<lambda>s k h t d. key_call e (\<lambda>sl kt. bindr (claim_statement e (kl_now sl) s k h t d (kt_rows kt)) (\<lambda>(rows, r).
       Inr (kt\<lparr>kt_rows := rows\<rparr>, r)))),
     ks_get = (\<lambda>s k. key_call e (\<lambda>_ kt. Inr (kt, find_key s k (kt_rows kt)))),
     ks_release = (\<lambda>s k t. key_call e (\<lambda>sl kt. case release_statement (kl_now sl) s k t (kt_rows kt) of (rows, n) \<Rightarrow>
       Inr (kt\<lparr>kt_rows := rows\<rparr>, n)))\<rparr>"

definition world_guard :: "key_env \<Rightarrow> (string \<Rightarrow> string) \<Rightarrow> duration \<Rightarrow> key_world guard_deps" where
  "world_guard e hash ttl = \<lparr>
     gd_uuid = (\<lambda>w. case key_slot_step e w of (s, w1) \<Rightarrow> (w1, kl_uuid s)),
     gd_claim_key = claim_key e (world_stmts e),
     gd_release_key = release_key e (world_stmts e),
     gd_hash = hash, gd_ttl = ttl\<rparr>"

text \<open>A transactional handler: it commits its effect and, by \<open>CompleteInTx\<close>, the completion of its key, and
  returns the error of the transaction. It may end otherwise before and after.\<close>

definition effect_body ::
  "key_env \<Rightarrow> string \<Rightarrow> instant \<Rightarrow> claim \<Rightarrow> key_tables \<Rightarrow> gerr + (key_tables \<times> claim)" where
  "effect_body e h now c kt =
     complete_in_tx (complete_key e (\<lambda>s k t kt. case complete_statement now s k t (kt_rows kt) of (rows, n) \<Rightarrow> Inr (kt\<lparr>kt_rows := rows\<rparr>, n)))
       (Some c) (kt\<lparr>kt_effects := kt_effects kt @ [(cl_scope c, cl_key c, h)]\<rparr>)"

definition tx_handler :: "key_env \<Rightarrow> (string \<Rightarrow> string) \<Rightarrow> key_world handler" where
  "tx_handler e hash msg c w = (case key_slot_step e w of (s, w1) \<Rightarrow>
     (case kl_before s of
        Some fin \<Rightarrow> (w1, c, fin)
      | None \<Rightarrow> (case effect_body e (hash (ms_payload msg)) (kl_now s) c (kw_tables w1) of
            Inl x \<Rightarrow> (w1, c, Returned (Some x))
          | Inr (kt, c') \<Rightarrow> (commit_key_call s kt w1, c',
              case kl_fault s of Some x \<Rightarrow> Returned (Some (Wrap x))
              | None \<Rightarrow> (case kl_after s of None \<Rightarrow> Returned None | Some fin \<Rightarrow> fin)))))"

subsection \<open>The laws of the guard hold\<close>

lemma exec_key_act_grows: "keys_inv kt \<Longrightarrow> keys_grow kt (exec_key_act e now act kt)"
proof (cases act)
  case (KeyClaim s k h t d)
  assume "keys_inv kt"
  with KeyClaim show ?thesis
    using claim_statement_law(1) keys_grow_refl by (auto split: sum.split)
next
  case (KeyApply s k t)
  assume inv: "keys_inv kt"
  show ?thesis
  proof (cases "find_key s k (kt_rows kt)")
    case (Some r)
    then have "bound_to s k (ik_hash r) kt" by (simp add: bound_to_def)
    with Some KeyApply complete_statement_law(1) [OF inv this] keys_grow_refl [OF inv] show ?thesis
      by (auto split: prod.split)
  qed (use KeyApply keys_grow_refl [OF inv] in simp)
qed (simp add: release_statement_law)

lemma exec_key_acts_grow: "keys_inv kt \<Longrightarrow> keys_grow kt (exec_key_acts e acts kt)"
proof (induction e acts kt rule: exec_key_acts.induct)
  case (2 e now act acts kt)
  from exec_key_act_grows [OF 2(2), of e now act] 2(1) show ?case
    using keys_grow_trans by (auto simp: keys_grow_def)
qed (simp add: keys_grow_refl)

definition world_grows :: "key_world \<Rightarrow> key_world \<Rightarrow> bool" where
  "world_grows w w' \<longleftrightarrow> keys_grow (kw_tables w) (kw_tables w')"

lemma key_slot_grows: "keys_inv (kw_tables w) \<Longrightarrow> key_slot_step e w = (s, w1) \<Longrightarrow> world_grows w w1"
  using exec_key_acts_grow keys_grow_refl by (auto simp: key_slot_step_def world_grows_def split: list.splits)

lemma commit_grows: "keys_inv (kw_tables w) \<Longrightarrow> keys_grow (kw_tables w) kt \<Longrightarrow> world_grows w (commit_key_call s kt w)"
  by (simp add: commit_key_call_def world_grows_def keys_grow_refl)

text \<open>A call whose body keeps the tables in order; a result without fault is that of the body.\<close>

lemma key_call_law:
  assumes inv: "keys_inv (kw_tables w)" and call: "key_call e f w = (w', r)"
    and body: "\<And>s kt kt' a. keys_inv kt \<Longrightarrow> f s kt = Inr (kt', a) \<Longrightarrow> keys_grow kt kt' \<and> Q kt' a"
  shows "world_grows w w' \<and> (\<forall>a. r = Inr a \<longrightarrow> Q (kw_tables w') a)"
proof -
  obtain s w1 where st: "key_slot_step e w = (s, w1)" by (cases "key_slot_step e w")
  note g1 = key_slot_grows [OF inv st]
  then have inv1: "keys_inv (kw_tables w1)" by (simp add: world_grows_def keys_grow_def)
  show ?thesis
  proof (cases "f s (kw_tables w1)")
    case (Inl x)
    with call st g1 show ?thesis by (auto simp: key_call_def)
  next
    case (Inr p)
    obtain kt a where p: "p = (kt, a)" by (cases p)
    note b = body [OF inv1 Inr [unfolded p]]
    have w': "w' = commit_key_call s kt w1" "r = (case kl_fault s of None \<Rightarrow> Inr a | Some x \<Rightarrow> Inl x)"
      using call st Inr p by (auto simp: key_call_def)
    have "world_grows w w'"
      using g1 commit_grows [OF inv1 conjunct1 [OF b]] keys_grow_trans unfolding w'(1) world_grows_def by blast
    with b w' show ?thesis by (auto simp: commit_key_call_def split: option.splits)
  qed
qed

lemma key_claim_law:
  assumes inv: "keys_inv (kw_tables w)" and call: "claim_key e (world_stmts e) s k h token ttl w = (w', r)"
  shows "world_grows w w' \<and> (\<forall>c. r = Inr c \<longrightarrow>
    (if cl_status c = ClaimAlreadyCompleted then effects_of s k (kt_effects (kw_tables w')) = [h]
     else bound_to s k h (kw_tables w') \<and> cl_scope c = s \<and> cl_key c = k \<and> \<not> cl_completed c))"
proof (cases "check_claim e s k h token ttl")
  case (Inl x)
  with call keys_grow_refl [OF inv] show ?thesis by (auto simp: claim_key_def world_grows_def)
next
  case (Inr t)
  obtain w1 r1 where c1: "ks_claim (world_stmts e) s k h t (milliseconds ttl) w = (w1, r1)"
    by (cases "ks_claim (world_stmts e) s k h t (milliseconds ttl) w")
  have l1: "world_grows w w1 \<and> (\<forall>x. r1 = Inr x \<longrightarrow>
      (\<forall>q. x = Some q \<longrightarrow> bound_to s k h (kw_tables w1) \<and> ik_scope q = s \<and> ik_key q = k))"
    by (rule key_call_law [OF inv, where e = e and Q = "\<lambda>kt x. \<forall>q. x = Some q \<longrightarrow> bound_to s k h kt \<and> ik_scope q = s \<and> ik_key q = k"])
       (use c1 claim_statement_law in \<open>auto simp: world_stmts_def bindr_Inr_iff\<close>)
  have inv1: "keys_inv (kw_tables w1)" using l1 by (simp add: world_grows_def keys_grow_def)
  show ?thesis
  proof (cases "r1 = Inr None")
    case False
    with call Inr c1 l1 show ?thesis by (auto simp: claim_key_def acquired_def split: sum.splits option.splits)
  next
    case True
    obtain w2 r2 where c2: "ks_get (world_stmts e) s k w1 = (w2, r2)" by (cases "ks_get (world_stmts e) s k w1")
    have l2: "world_grows w1 w2 \<and> (\<forall>x. r2 = Inr x \<longrightarrow> x = find_key s k (kt_rows (kw_tables w2)))"
      by (rule key_call_law [OF inv1, where e = e and Q = "\<lambda>kt x. x = find_key s k (kt_rows kt)"])
         (use c2 keys_grow_refl in \<open>auto simp: world_stmts_def\<close>)
    have g: "world_grows w w2" using l1 l2 keys_grow_trans unfolding world_grows_def by blast
    have w': "w' = w2" "r = (case r2 of Inl x \<Rightarrow> Inl (Wrap x) | Inr x \<Rightarrow> inspect_key h x)"
      using call Inr c1 True c2 by (auto simp: claim_key_def split: sum.splits)
    have "cl_status c = ClaimAlreadyCompleted \<and> effects_of s k (kt_effects (kw_tables w2)) = [h]" if r: "r = Inr c" for c
    proof -
      from r w'(2) obtain x where x: "r2 = Inr x" "inspect_key h x = Inr c" by (cases r2) auto
      then obtain q where q: "x = Some q" "ik_hash q = h" "ik_status q = KeyCompleted" "c = already_completed q"
        by (auto simp: inspect_key_def split: option.splits if_splits)
      have "find_key s k (kt_rows (kw_tables w2)) = Some q" using l2 x(1) q(1) by simp
      moreover have "keys_inv (kw_tables w2)" using l2 by (simp add: world_grows_def keys_grow_def)
      ultimately show ?thesis using q by (simp add: keys_inv_def effects_expected_def already_completed_def)
    qed
    with g w'(1) show ?thesis by simp
  qed
qed

lemma key_release_law:
  assumes "keys_inv (kw_tables w)" "release_key e (world_stmts e) s k token w = (w', r)"
  shows "world_grows w w'"
proof (cases "key_guard s k (mapl Wrap (parse_uuid (ke_scan e) token))")
  case (Inl x)
  with assms keys_grow_refl show ?thesis by (auto simp: release_key_def world_grows_def)
next
  case (Inr t)
  obtain r1 where c: "ks_release (world_stmts e) s k t w = (w', r1)"
    using assms(2) Inr by (auto simp: release_key_def split: prod.splits)
  have "world_grows w w' \<and> (\<forall>a. r1 = Inr a \<longrightarrow> True)"
    by (rule key_call_law [OF assms(1), where e = e and Q = "\<lambda>_ _. True"])
       (use c release_statement_law in \<open>auto simp: world_stmts_def split: prod.splits, metis fst_conv\<close>)
  then show ?thesis by blast
qed

lemma effect_body_law:
  assumes "keys_inv kt" "bound_to (cl_scope c) (cl_key c) h kt" "effect_body e h now c kt = Inr (kt', c')"
  shows "keys_grow kt kt' \<and> effects_of (cl_scope c) (cl_key c) (kt_effects kt') = [h]"
proof -
  have "\<exists>u. snd (complete_statement now (cl_scope c) (cl_key c) u (kt_rows kt)) \<noteq> 0 \<and>
      kt' = kt\<lparr>kt_effects := kt_effects kt @ [(cl_scope c, cl_key c, h)],
        kt_rows := fst (complete_statement now (cl_scope c) (cl_key c) u (kt_rows kt))\<rparr>"
    using assms(3)
    by (auto simp: effect_body_def complete_in_tx_def complete_key_def key_guard_def bindr_Inr_iff case_prod_unfold)
  then obtain u where u': "snd (complete_statement now (cl_scope c) (cl_key c) u (kt_rows kt)) \<noteq> 0"
    "kt' = kt\<lparr>kt_effects := kt_effects kt @ [(cl_scope c, cl_key c, h)],
        kt_rows := fst (complete_statement now (cl_scope c) (cl_key c) u (kt_rows kt))\<rparr>" by blast
  obtain rows n where u: "complete_statement now (cl_scope c) (cl_key c) u (kt_rows kt) = (rows, n)" "n \<noteq> 0"
    using u'(1) by (metis prod.collapse)
  have kt': "kt' = \<lparr>kt_rows = rows, kt_effects = kt_effects kt @ [(cl_scope c, cl_key c, h)]\<rparr>"
    unfolding u'(2) u(1) by simp
  from complete_statement_law [OF assms(1,2) u] show ?thesis by (simp add: kt')
qed

lemma tx_handler_law:
  assumes inv: "keys_inv (kw_tables w)" and b: "bound_to scope (ms_event_id msg) (hash (ms_payload msg)) (kw_tables w)"
    and c: "cl_scope c = scope" "cl_key c = ms_event_id msg" "\<not> cl_completed c"
    and run: "tx_handler e hash msg c w = (w', c', fin)"
  shows "keys_inv (kw_tables w') \<and> (fin = Returned None \<longrightarrow> cl_completed c' \<longrightarrow>
    effects_of scope (ms_event_id msg) (kt_effects (kw_tables w')) = [hash (ms_payload msg)])"
proof -
  obtain s w1 where st: "key_slot_step e w = (s, w1)" by (cases "key_slot_step e w")
  note g1 = key_slot_grows [OF inv st]
  have inv1: "keys_inv (kw_tables w1)" and b1: "bound_to scope (ms_event_id msg) (hash (ms_payload msg)) (kw_tables w1)"
    using g1 b by (auto simp: world_grows_def keys_grow_def)
  show ?thesis
  proof (cases "kl_before s = None \<and> is_ok (effect_body e (hash (ms_payload msg)) (kl_now s) c (kw_tables w1))")
    case False
    with run st inv1 c(3) show ?thesis by (auto simp: tx_handler_def split: option.splits sum.splits)
  next
    case True
    then obtain kt cc where k: "effect_body e (hash (ms_payload msg)) (kl_now s) c (kw_tables w1) = Inr (kt, cc)"
      by (cases "effect_body e (hash (ms_payload msg)) (kl_now s) c (kw_tables w1)") auto
    have l: "keys_grow (kw_tables w1) kt \<and> effects_of scope (ms_event_id msg) (kt_effects kt) = [hash (ms_payload msg)]"
      using effect_body_law [OF inv1 _ k] b1 c by simp
    have w': "w' = commit_key_call s kt w1" "fin = Returned None \<Longrightarrow> kl_fault s = None"
      using run st True k by (auto simp: tx_handler_def split: option.splits)
    have "keys_inv (kw_tables w')"
      using commit_grows [OF inv1 conjunct1 [OF l]] by (simp add: w'(1) world_grows_def keys_grow_def)
    with l w' show ?thesis by (auto simp: commit_key_call_def)
  qed
qed

interpretation guarded: exactly_once "world_guard e hash ttl" scope "tx_handler e hash" "\<lambda>w. keys_inv (kw_tables w)"
  "\<lambda>w k. effects_of scope k (kt_effects (kw_tables w))" "\<lambda>w k h. bound_to scope k h (kw_tables w)"
proof
  fix w w' u assume "keys_inv (kw_tables w)" "gd_uuid (world_guard e hash ttl) w = (w', u)"
  then show "keys_inv (kw_tables w')"
    using key_slot_grows by (auto simp: world_guard_def world_grows_def keys_grow_def split: prod.splits)
next
  fix w k h token d w' r assume "keys_inv (kw_tables w)" "gd_claim_key (world_guard e hash ttl) scope k h token d w = (w', r)"
  then show "keys_inv (kw_tables w') \<and> (\<forall>c. r = Inr c \<longrightarrow>
      (if cl_status c = ClaimAlreadyCompleted then effects_of scope k (kt_effects (kw_tables w')) = [h]
       else bound_to scope k h (kw_tables w') \<and> cl_scope c = scope \<and> cl_key c = k \<and> \<not> cl_completed c))"
    using key_claim_law [of w e scope k h token d w' r] by (simp add: world_guard_def world_grows_def keys_grow_def)
next
  fix w msg c w' c' fin
  assume "keys_inv (kw_tables w)" "bound_to scope (ms_event_id msg) (gd_hash (world_guard e hash ttl) (ms_payload msg)) (kw_tables w)"
    "cl_scope c = scope" "cl_key c = ms_event_id msg" "\<not> cl_completed c" "tx_handler e hash msg c w = (w', c', fin)"
  then show "keys_inv (kw_tables w') \<and> (fin = Returned None \<longrightarrow> cl_completed c' \<longrightarrow>
      effects_of scope (ms_event_id msg) (kt_effects (kw_tables w')) = [gd_hash (world_guard e hash ttl) (ms_payload msg)])"
    using tx_handler_law [of w scope msg hash c e w' c' fin] by (simp add: world_guard_def)
next
  fix w k token w' r' assume "keys_inv (kw_tables w)" "gd_release_key (world_guard e hash ttl) scope k token w = (w', r')"
  then show "keys_inv (kw_tables w')"
    using key_release_law [of w e scope k token w' r'] by (simp add: world_guard_def world_grows_def keys_grow_def)
next
  fix w k assume "keys_inv (kw_tables w)"
  then show "length (effects_of scope k (kt_effects (kw_tables w))) \<le> 1"
    by (simp add: keys_inv_def effects_expected_def split: option.split)
qed


subsection \<open>An instance\<close>

definition demo_key_env :: key_env where
  "demo_key_env = \<lparr>ke_scan = (\<lambda>s. if s \<noteq> [] \<and> trim_space s = s then Some s else None), ke_check = (\<lambda>_. None)\<rparr>"

definition demo_hash :: "string \<Rightarrow> string" where
  "demo_hash p = take 32 (p @ replicate 32 (CHR ''0''))"

definition demo_message :: message where
  "demo_message = \<lparr>ms_stream_id = ''1-0'', ms_stream = ''events'', ms_event_id = ''e1'', ms_aggregate_type = ''product'',
     ms_aggregate_id = ''p1'', ms_correlation_id = [], ms_event_type = ''product.changed'', ms_payload = ''{}'', ms_created_at = 1,
     ms_target_group = []\<rparr>"

text \<open>Another consumer claimed the key, crashed, and its lease has expired; the first commit is lost although
  it took effect, so that the message comes again.\<close>

definition demo_key_slot :: "nat \<Rightarrow> key_slot" where
  "demo_key_slot n = \<lparr>kl_others = (if n = 1 then [(1, KeyClaim ''grp'' ''e1'' (demo_hash ''{}'') ''t9'' 5000000)] else []),
     kl_now = 10000000 * int n, kl_fault = (if n = 3 then Some (Opaque ''connection lost'') else None), kl_applied = True,
     kl_uuid = Inr (''t'' @ replicate n (CHR ''x'')), kl_before = None, kl_after = None\<rparr>"

definition demo_key_world :: key_world where
  "demo_key_world = \<lparr>kw_tables = \<lparr>kt_rows = [], kt_effects = []\<rparr>, kw_sched = map demo_key_slot [1..<10]\<rparr>"

definition demo_guard :: "key_world guard_deps" where
  "demo_guard = world_guard demo_key_env demo_hash 60000000"

definition demo_delivery :: "key_world \<Rightarrow> key_world \<times> handler_end" where
  "demo_delivery w = guarded_handler demo_guard ''grp'' (tx_handler demo_key_env demo_hash) demo_message w"

definition demo_redelivered :: "key_world \<times> handler_end" where
  "demo_redelivered = demo_delivery (fst (demo_delivery demo_key_world))"

lemma demo_deliveries:
  "snd (demo_delivery demo_key_world) = Returned (Some (Wrap (Opaque ''connection lost'')))"
  "snd demo_redelivered = Returned None"
  by code_simp+

lemma demo_key_world_inv: "keys_inv (kw_tables demo_key_world)"
  by (simp add: demo_key_world_def keys_inv_def effects_of_def effects_expected_def find_key_def)

lemma demo_wrap: "wrap_handler (world_guard demo_key_env demo_hash 60000000) ''grp'' (tx_handler demo_key_env demo_hash)
    = Inr (\<lambda>msg w. guarded_handler demo_guard ''grp'' (tx_handler demo_key_env demo_hash) msg w)"
proof -
  have "\<not> is_blank ''grp''" by code_simp
  then show ?thesis by (simp add: wrap_handler_def demo_guard_def)
qed

lemma demo_first_inv: "keys_inv (kw_tables (fst (demo_delivery demo_key_world)))"
  using guarded.guarded_once(1) [OF demo_key_world_inv, of demo_key_env demo_hash 60000000 "''grp''" demo_message]
  by (metis demo_delivery_def demo_guard_def prod.collapse)


end
