(* ===== verification/Utf8.thy ===== *)
theory Utf8
  imports GoText
begin

text \<open>
  The parts of \<open>unicode/utf8\<close> and \<open>strings\<close> that split a string into runes: \<open>[]rune(s)\<close> and back,
  \<open>utf8.RuneCountInString\<close> and \<open>strings.ToValidUTF8\<close>. A rune is represented by its encoding; every byte
  that does not start one decodes as U+FFFD.
\<close>

text \<open>What the first byte says: the width of the rune, and the range of its second byte. Width 0 is no first byte.\<close>

definition rune_lead :: "nat \<Rightarrow> nat \<times> nat \<times> nat" where
  "rune_lead n =
     (if n < 0x80 then (1, 0, 0)
      else if n < 0xC2 then (0, 0, 0)
      else if n \<le> 0xDF then (2, 0x80, 0xBF)
      else if n \<le> 0xEF then (3, if n = 0xE0 then 0xA0 else 0x80, if n = 0xED then 0x9F else 0xBF)
      else if n \<le> 0xF4 then (4, if n = 0xF0 then 0x90 else 0x80, if n = 0xF4 then 0x8F else 0xBF)
      else (0, 0, 0))"

definition byte_within :: "nat \<Rightarrow> nat \<Rightarrow> char \<Rightarrow> bool" where
  "byte_within lo hi c \<longleftrightarrow> lo \<le> code_of c \<and> code_of c \<le> hi"

text \<open>The width of the encoded rune at the front, 0 when there is none.\<close>

fun rune_len :: "string \<Rightarrow> nat" where
  "rune_len [] = 0"
| "rune_len (a # s) = (case rune_lead (code_of a) of (w, lo, hi) \<Rightarrow>
     if w \<le> 1 then w
     else if w - 1 \<le> length s \<and> byte_within lo hi (hd s) \<and> list_all (byte_within 0x80 0xBF) (take (w - 2) (tl s)) then w
     else 0)"

definition rune_error :: string where
  "rune_error = [char_of (0xEF :: nat), char_of (0xBF :: nat), char_of (0xBD :: nat)]"

function runes :: "string \<Rightarrow> string list" where
  "runes [] = []"
| "runes (a # s) = (let n = rune_len (a # s) in
     if n = 0 then rune_error # runes s else take n (a # s) # runes (drop (n - 1) s))"
  by pat_completeness auto
termination
  by (relation "measure length") auto

function to_valid_utf8_from :: "string \<Rightarrow> bool \<Rightarrow> string \<Rightarrow> string" where
  "to_valid_utf8_from rep bad [] = []"
| "to_valid_utf8_from rep bad (a # s) = (let n = rune_len (a # s) in
     if n = 0 then (if bad then [] else rep) @ to_valid_utf8_from rep True s
     else take n (a # s) @ to_valid_utf8_from rep False (drop (n - 1) s))"
  by pat_completeness auto
termination
  by (relation "measure (\<lambda>(rep, bad, s). length s)") auto

text \<open>\<open>strings.ToValidUTF8(s, rep)\<close>: each run of invalid bytes becomes one replacement.\<close>

definition to_valid_utf8 :: "string \<Rightarrow> string \<Rightarrow> string" where
  "to_valid_utf8 s rep = to_valid_utf8_from rep False s"

text \<open>\<open>utf8.ValidString\<close>: decoding loses nothing.\<close>

definition valid_utf8 :: "string \<Rightarrow> bool" where
  "valid_utf8 s \<longleftrightarrow> concat (runes s) = s"

definition rune_count :: "string \<Rightarrow> nat" where
  "rune_count s = length (runes s)"

subsection \<open>Concatenations of runes\<close>

definition is_rune :: "string \<Rightarrow> bool" where
  "is_rune u \<longleftrightarrow> u \<noteq> [] \<and> rune_len u = length u"

lemma rune_len_le: "rune_len s \<le> length s"
  by (cases s) (auto split: prod.split)

lemma take_tl_take: "0 < m \<Longrightarrow> take (m - 1) (tl (take m s)) = take (m - 1) (tl s)"
  by (cases s; cases m) auto

lemma rune_len_take: "rune_len (take (rune_len s) s) = rune_len s"
proof (cases s)
  case (Cons a u)
  obtain w lo hi where l: "rune_lead (code_of a) = (w, lo, hi)" by (cases "rune_lead (code_of a)")
  show ?thesis
  proof (cases "rune_len s \<le> 1")
    case True
    with Cons l show ?thesis by (cases "rune_len s") (auto split: if_splits)
  next
    case False
    with Cons l have w: "rune_len s = w" "1 < w" by (auto split: if_splits)
    then obtain n where n: "w = Suc (Suc n)" by (metis One_nat_def less_imp_Suc_add add_Suc_shift add_0)
    from w(1) Cons l n have c: "Suc n \<le> length u" "byte_within lo hi (hd u)" "list_all (byte_within 0x80 0xBF) (take n (tl u))"
      by (auto split: if_splits)
    have "tl (take (Suc n) u) = take n (tl u)" by (cases u) auto
    with c l Cons w n show ?thesis by (simp add: hd_take)
  qed
qed simp

lemma is_rune_take: "rune_len s \<noteq> 0 \<Longrightarrow> is_rune (take (rune_len s) s)"
  using rune_len_take [of s] rune_len_le [of s] by (auto simp: is_rune_def)

lemma rune_len_append: "rune_len s \<noteq> 0 \<Longrightarrow> rune_len (s @ t) = rune_len s"
  by (cases s; cases "tl s") (auto split: prod.splits if_splits)

lemma is_rune_append: "is_rune u \<Longrightarrow> rune_len (u @ t) = length u"
  using rune_len_append [of u t] by (simp add: is_rune_def)

lemma runes_rune: "is_rune u \<Longrightarrow> runes (u @ t) = u # runes t"
  using is_rune_append [of u t] by (cases u) (auto simp: is_rune_def)

lemma runes_concat: "list_all is_rune us \<Longrightarrow> runes (concat us) = us"
  by (induction us) (simp_all add: runes_rune)

lemma valid_concat: "list_all is_rune us \<Longrightarrow> valid_utf8 (concat us)"
  by (simp add: valid_utf8_def runes_concat)

lemma is_rune_error: "is_rune rune_error"
  by code_simp

lemma runes_are_runes: "list_all is_rune (runes s)"
proof (induction s rule: runes.induct)
  case (2 a s)
  have "is_rune (take (rune_len (a # s)) (a # s))" if "rune_len (a # s) \<noteq> 0" using is_rune_take that .
  with 2 is_rune_error show ?case by (auto simp: Let_def simp del: rune_len.simps)
qed simp

text \<open>\<open>ToValidUTF8\<close> yields runes, and keeps a valid string.\<close>

lemma to_valid_runes:
  "is_rune rep \<Longrightarrow> \<exists>us. to_valid_utf8_from rep bad s = concat us \<and> list_all is_rune us"
proof (induction rep bad s rule: to_valid_utf8_from.induct)
  case (1 rep bad)
  show ?case by (intro exI [of _ "[]"]) simp
next
  case (2 rep bad a s)
  let ?n = "rune_len (a # s)"
  show ?case
  proof (cases "?n = 0")
    case True
    then obtain us where "to_valid_utf8_from rep True s = concat us" "list_all is_rune us" using 2 by blast
    with True 2(3) show ?thesis
      by (intro exI [of _ "(if bad then [] else [rep]) @ us"]) (simp add: Let_def del: rune_len.simps)
  next
    case False
    then obtain us where "to_valid_utf8_from rep False (drop (?n - 1) s) = concat us" "list_all is_rune us" using 2 by blast
    with False is_rune_take [OF False] show ?thesis
      by (intro exI [of _ "take ?n (a # s) # us"]) (simp add: Let_def del: rune_len.simps)
  qed
qed

lemma to_valid_rune: "is_rune u \<Longrightarrow> to_valid_utf8_from rep bad (u @ t) = u @ to_valid_utf8_from rep False t"
  using is_rune_append [of u t] by (cases u) (auto simp: is_rune_def)

lemma to_valid_concat: "list_all is_rune us \<Longrightarrow> to_valid_utf8_from rep False (concat us) = concat us"
  by (induction us) (simp_all add: to_valid_rune)

lemma to_valid_utf8_id: "valid_utf8 s \<Longrightarrow> to_valid_utf8 s rep = s"
  using to_valid_concat [OF runes_are_runes, of rep s] by (simp add: to_valid_utf8_def valid_utf8_def)

text \<open>A byte below 0x80 is a rune of its own; no longer rune contains one.\<close>

lemma rune_ascii: "is_rune u \<Longrightarrow> c \<in> set u \<Longrightarrow> code_of c < (0x80 :: nat) \<Longrightarrow> u = [c]"
proof -
  assume u: "is_rune u" and c: "c \<in> set u" "code_of c < (0x80 :: nat)"
  obtain a s where s: "u = a # s" using u by (auto simp: is_rune_def neq_Nil_conv)
  obtain w lo hi where l: "rune_lead (code_of a) = (w, lo, hi)" by (cases "rune_lead (code_of a)")
  have w: "w = Suc (length s)" using u s l by (auto simp: is_rune_def split: if_splits)
  show ?thesis
  proof (cases s)
    case Nil
    with s c show ?thesis by simp
  next
    case (Cons b t)
    with u s l w have r: "byte_within lo hi b" "list_all (byte_within 0x80 0xBF) t"
      by (auto simp: is_rune_def split: if_splits)
    have "0x80 \<le> lo" "\<not> code_of a < (0x80 :: nat)" using l w Cons by (auto simp: rune_lead_def split: if_splits)
    with r s Cons c show ?thesis by (auto simp: byte_within_def list_all_iff)
  qed
qed

lemma filter_byte_concat:
  "list_all is_rune us \<Longrightarrow> code_of x < (0x80 :: nat) \<Longrightarrow> filter (\<lambda>c. c \<noteq> x) (concat us) = concat (filter (\<lambda>u. u \<noteq> [x]) us)"
proof (induction us)
  case (Cons u us)
  have "filter (\<lambda>c. c \<noteq> x) u = (if u = [x] then [] else u)"
  proof (cases "u = [x]")
    case False
    have "c \<noteq> x" if "c \<in> set u" for c using rune_ascii [of u c] Cons.prems that False by auto
    then have "filter (\<lambda>c. c \<noteq> x) u = u" by (simp add: filter_id_conv)
    with False show ?thesis by simp
  qed simp
  moreover have "filter (\<lambda>c. c \<noteq> x) (concat us) = concat (filter (\<lambda>u. u \<noteq> [x]) us)" using Cons by simp
  ultimately show ?case by simp
qed simp

end
