(* ===== verification/Dlq.thy ===== *)
theory Dlq
  imports Utf8 Outbox "HOL-Library.Multiset"
begin

text \<open>
  The dead letter queue: \<open>internal/application/dlq\<close> (\<open>Classify\<close> and \<open>Replay\<close>), the table \<open>dlq_messages\<close> with
  the SQL of \<open>generated/dlq_messages.sql.go\<close>, and its repository
  \<open>internal/infrastructure/postgres/dlq_repository.go\<close>. The locale \<open>replay_store\<close> states what a replay relies
  on; it is interpreted on the table and the outbox.
\<close>

subsection \<open>Classification of failures\<close>

datatype decision = DecisionRetry | DecisionDeadLetter | DecisionLeavePending

text \<open>A \<open>FailureClass\<close> is a string.\<close>

definition class_handler_panic :: string where "class_handler_panic = ''HANDLER_PANIC''"
definition class_corrupt_envelope :: string where "class_corrupt_envelope = ''CORRUPT_ENVELOPE''"
definition class_payload_mismatch :: string where "class_payload_mismatch = ''PAYLOAD_MISMATCH''"
definition class_not_completed_in_tx :: string where "class_not_completed_in_tx = ''NOT_COMPLETED_IN_TX''"
definition class_contract_violation :: string where "class_contract_violation = ''CONTRACT_VIOLATION''"
definition class_malformed_record :: string where "class_malformed_record = ''MALFORMED_RECORD''"
definition class_invalid_config :: string where "class_invalid_config = ''INVALID_CONFIG''"
definition class_permanent :: string where "class_permanent = ''PERMANENT''"

definition permanent_failures :: "(sentinel \<times> string) list" where
  "permanent_failures =
     [(Dlq ErrHandlerPanic, class_handler_panic),
      (Dlq ErrCorruptEnvelope, class_corrupt_envelope),
      (Idempotency ErrPayloadMismatch, class_payload_mismatch),
      (Idempotency ErrNotCompletedInTx, class_not_completed_in_tx),
      (Ingestion ErrSourceContractViolation, class_contract_violation),
      (Product ErrMalformedRecord, class_malformed_record),
      (Source ErrInvalidSourceConfig, class_invalid_config),
      (Dlq ErrPermanent, class_permanent)]"

text \<open>\<open>errors.Is(nil, target)\<close> is false.\<close>

definition error_is :: "gerr option \<Rightarrow> sentinel \<Rightarrow> bool" where
  "error_is x t \<longleftrightarrow> (case x of None \<Rightarrow> False | Some y \<Rightarrow> err_is y t)"

definition classify :: "gerr option \<Rightarrow> gerr option \<Rightarrow> decision \<times> string" where
  "classify x parent_ctx_err =
     (if parent_ctx_err \<noteq> None then (DecisionLeavePending, [])
      else if error_is x (Idempotency ErrKeyInProgress) \<or> error_is x (Idempotency ErrKeyLeaseLost) then (DecisionLeavePending, [])
      else case find (\<lambda>p. error_is x (fst p)) permanent_failures of
          Some p \<Rightarrow> (DecisionDeadLetter, snd p)
        | None \<Rightarrow> (DecisionRetry, []))"

text \<open>The marker \<open>ErrPermanent\<close> is the last resort: any specific failure in the chain gives its own class.\<close>

lemma classify_permanent_last:
  "classify x None = (DecisionDeadLetter, class_permanent) \<longleftrightarrow>
     error_is x (Dlq ErrPermanent) \<and> list_all (\<lambda>p. \<not> error_is x (fst p)) (butlast permanent_failures) \<and>
     \<not> error_is x (Idempotency ErrKeyInProgress) \<and> \<not> error_is x (Idempotency ErrKeyLeaseLost)"
  by (simp add: classify_def permanent_failures_def class_handler_panic_def class_corrupt_envelope_def class_payload_mismatch_def
      class_not_completed_in_tx_def class_contract_violation_def class_malformed_record_def class_invalid_config_def
      class_permanent_def)

subsection \<open>Messages, rows\<close>

record failed_message =
  fm_stream :: string
  fm_consumer_group :: string
  fm_stream_message_id :: string
  fm_event_id :: "string option"
  fm_event_type :: string
  fm_aggregate_type :: string
  fm_aggregate_id :: string
  fm_correlation_id :: string
  fm_payload :: string
  fm_failure_class :: string
  fm_last_error :: string
  fm_stack :: string
  fm_attempts :: int
  fm_consumer_name :: string
  fm_event_created_at :: "instant option"
  fm_first_failed_at :: instant

datatype letter_status = LetterDead | LetterReplayed

record letter_row =
  lr_id :: string
  lr_stream :: string
  lr_consumer_group :: string
  lr_stream_message_id :: string
  lr_event_id :: "string option"
  lr_event_type :: string
  lr_aggregate_type :: string
  lr_aggregate_id :: string
  lr_correlation_id :: string
  lr_payload :: string
  lr_failure_class :: string
  lr_last_error :: string
  lr_stack :: "string option"
  lr_attempts :: int
  lr_consumer_name :: string
  lr_event_created_at :: "instant option"
  lr_first_failed_at :: instant
  lr_dead_lettered_at :: instant
  lr_status :: letter_status
  lr_replayed_at :: "instant option"
  lr_replay_outbox_id :: "string option"
  lr_replayable :: bool

text \<open>\<open>json.Valid\<close>, and the outbox with the scanner of UUIDs.\<close>

record dlq_env =
  dq_json_valid :: "string \<Rightarrow> bool"
  dq_outbox :: outbox_env

subsection \<open>Text that the columns accept\<close>

definition nul :: char where "nul = char_of (0 :: nat)"

definition sanitize_text :: "string \<Rightarrow> string" where
  "sanitize_text s = filter (\<lambda>c. c \<noteq> nul) (to_valid_utf8 s rune_error)"

definition storable :: "string \<Rightarrow> nat \<Rightarrow> string \<times> bool" where
  "storable s max_runes =
     (let clean = sanitize_text s; rs = runes clean; cut = (if length rs > max_runes then concat (take max_runes rs) else clean)
      in (cut, cut = s))"

definition dlq_identity_len :: nat where "dlq_identity_len = 128"
definition dlq_stream_msg_id_len :: nat where "dlq_stream_msg_id_len = 64"
definition dlq_event_id_len :: nat where "dlq_event_id_len = 256"
definition dlq_event_type_len :: nat where "dlq_event_type_len = 64"
definition dlq_aggregate_type_len :: nat where "dlq_aggregate_type_len = 64"
definition dlq_aggregate_id_len :: nat where "dlq_aggregate_id_len = 128"
definition dlq_correlation_id_len :: nat where "dlq_correlation_id_len = 128"
definition dlq_failure_class_len :: nat where "dlq_failure_class_len = 64"

text \<open>The columns of \<open>dlq_messages\<close>: PostgreSQL refuses text that is not UTF-8, NUL bytes, and more characters
  than a \<open>VARCHAR\<close> has; then the CHECK constraints.\<close>

definition text_ok :: "string \<Rightarrow> bool" where
  "text_ok s \<longleftrightarrow> valid_utf8 s \<and> nul \<notin> set s"

definition varchar_ok :: "nat \<Rightarrow> string \<Rightarrow> bool" where
  "varchar_ok n s \<longleftrightarrow> text_ok s \<and> rune_count s \<le> n"

definition letter_columns :: "letter_row \<Rightarrow> bool" where
  "letter_columns r \<longleftrightarrow> varchar_ok 128 (lr_stream r) \<and> varchar_ok 128 (lr_consumer_group r) \<and>
     varchar_ok 64 (lr_stream_message_id r) \<and> (case lr_event_id r of None \<Rightarrow> True | Some i \<Rightarrow> varchar_ok 256 i) \<and>
     varchar_ok 64 (lr_event_type r) \<and> varchar_ok 64 (lr_aggregate_type r) \<and> varchar_ok 128 (lr_aggregate_id r) \<and>
     varchar_ok 128 (lr_correlation_id r) \<and> varchar_ok 64 (lr_failure_class r) \<and> text_ok (lr_last_error r) \<and>
     (case lr_stack r of None \<Rightarrow> True | Some t \<Rightarrow> text_ok t) \<and> 1 \<le> lr_attempts r \<and> varchar_ok 128 (lr_consumer_name r) \<and>
     (lr_replayable r \<longrightarrow> lr_event_id r \<noteq> None) \<and>
     (if lr_status r = LetterDead then lr_replayed_at r = None \<and> lr_replay_outbox_id r = None
      else lr_replayed_at r \<noteq> None \<and> lr_replay_outbox_id r \<noteq> None)"

subsection \<open>Statements\<close>

definition find_letter :: "string \<Rightarrow> letter_row list \<Rightarrow> letter_row option" where
  "find_letter i rows = find (\<lambda>r. lr_id r = i) rows"

definition letter_key :: "letter_row \<Rightarrow> string \<times> string \<times> string" where
  "letter_key r = (lr_stream r, lr_consumer_group r, lr_stream_message_id r)"

text \<open>\<open>INSERT \<dots> ON CONFLICT (stream, consumer_group, stream_message_id) DO NOTHING\<close>; \<open>gen_random_uuid()\<close> draws the
  id of the row.\<close>

definition insert_letter :: "letter_row \<Rightarrow> letter_row list \<Rightarrow> gerr + letter_row list" where
  "insert_letter new rows =
     (if \<not> letter_columns new then Inl (Opaque ''column check'')
      else if list_ex (\<lambda>r. letter_key r = letter_key new) rows then Inr rows
      else if find_letter (lr_id new) rows \<noteq> None then Inl (Opaque ''23505'')
      else Inr (rows @ [new]))"

definition replayed_letter :: "instant \<Rightarrow> string \<Rightarrow> letter_row \<Rightarrow> letter_row" where
  "replayed_letter now oid r = r\<lparr>lr_status := LetterReplayed, lr_replayed_at := Some now, lr_replay_outbox_id := Some oid\<rparr>"

definition dead_letter_with :: "string \<Rightarrow> letter_row \<Rightarrow> bool" where
  "dead_letter_with i r \<longleftrightarrow> lr_id r = i \<and> lr_status r = LetterDead"

definition mark_letter :: "instant \<Rightarrow> string \<Rightarrow> string \<Rightarrow> letter_row list \<Rightarrow> letter_row list \<times> nat" where
  "mark_letter now oid i rows =
     (map (\<lambda>r. if dead_letter_with i r then replayed_letter now oid r else r) rows, length (filter (dead_letter_with i) rows))"

subsection \<open>The repository\<close>

fun check_fields :: "(string \<times> nat) list \<Rightarrow> gerr + unit" where
  "check_fields [] = Inr ()"
| "check_fields ((value, max_len) # fs) =
     failif (is_blank value) (Wrap (Leaf (Dlq ErrInvalidDLQInput)))
    (failif (rune_count value > max_len) (Wrap (Leaf (Dlq ErrInvalidDLQInput))) (check_fields fs))"

definition validate_dlq_identity :: "failed_message \<Rightarrow> gerr + unit" where
  "validate_dlq_identity m =
     bindr (check_fields [(fm_stream m, dlq_identity_len), (fm_consumer_group m, dlq_identity_len),
       (fm_consumer_name m, dlq_identity_len), (fm_stream_message_id m, dlq_stream_msg_id_len),
       (fm_failure_class m, dlq_failure_class_len)]) (\<lambda>_.
     failif (fm_attempts m < 1) (Wrap (Leaf (Dlq ErrInvalidDLQInput)))
    (failif (is_zero (fm_first_failed_at m)) (Wrap (Leaf (Dlq ErrInvalidDLQInput))) (Inr ())))"

definition stored_event_id :: "failed_message \<Rightarrow> string option \<times> bool" where
  "stored_event_id m = (case fm_event_id m of
       None \<Rightarrow> (None, False)
     | Some i \<Rightarrow> if is_blank i then (None, False) else (case storable i dlq_event_id_len of (c, ok) \<Rightarrow> (Some c, ok)))"

definition can_replay :: "dlq_env \<Rightarrow> failed_message \<Rightarrow> bool" where
  "can_replay e m \<longleftrightarrow> fm_failure_class m \<noteq> class_corrupt_envelope \<and>
     snd (stored_event_id m) \<and> snd (storable (fm_event_type m) dlq_event_type_len) \<and>
     snd (storable (fm_aggregate_type m) dlq_aggregate_type_len) \<and> snd (storable (fm_aggregate_id m) dlq_aggregate_id_len) \<and>
     fst (storable (fm_event_type m) dlq_event_type_len) \<noteq> [] \<and> dq_json_valid e (fm_payload m)"

definition new_letter :: "dlq_env \<Rightarrow> instant \<Rightarrow> string \<Rightarrow> failed_message \<Rightarrow> int \<Rightarrow> letter_row" where
  "new_letter e now i m attempts = \<lparr>lr_id = i, lr_stream = fm_stream m, lr_consumer_group = fm_consumer_group m,
     lr_stream_message_id = fm_stream_message_id m, lr_event_id = fst (stored_event_id m),
     lr_event_type = fst (storable (fm_event_type m) dlq_event_type_len),
     lr_aggregate_type = fst (storable (fm_aggregate_type m) dlq_aggregate_type_len),
     lr_aggregate_id = fst (storable (fm_aggregate_id m) dlq_aggregate_id_len),
     lr_correlation_id = fst (storable (fm_correlation_id m) dlq_correlation_id_len), lr_payload = fm_payload m,
     lr_failure_class = fm_failure_class m, lr_last_error = sanitize_text (fm_last_error m),
     lr_stack = optional_text (sanitize_text (fm_stack m)), lr_attempts = attempts, lr_consumer_name = fm_consumer_name m,
     lr_event_created_at = fm_event_created_at m, lr_first_failed_at = fm_first_failed_at m, lr_dead_lettered_at = now,
     lr_status = LetterDead, lr_replayed_at = None, lr_replay_outbox_id = None, lr_replayable = can_replay e m\<rparr>"

definition insert_message ::
  "dlq_env \<Rightarrow> instant \<Rightarrow> string \<Rightarrow> failed_message \<Rightarrow> letter_row list \<Rightarrow> gerr + letter_row list" where
  "insert_message e now i m rows =
     bindr (validate_dlq_identity m) (\<lambda>_.
     bindr (mapl (wrap2 (Dlq ErrInvalidDLQInput)) (to_int32 (fm_attempts m))) (\<lambda>attempts.
       mapl Wrap (insert_letter (new_letter e now i m attempts) rows)))"

record replay_source =
  rs_consumer_group :: string
  rs_event_id :: string
  rs_event_type :: string
  rs_aggregate_type :: string
  rs_aggregate_id :: string
  rs_payload :: string
  rs_replayable :: bool

definition source_of_letter :: "letter_row \<Rightarrow> replay_source" where
  "source_of_letter r = \<lparr>rs_consumer_group = lr_consumer_group r,
     rs_event_id = (case lr_event_id r of None \<Rightarrow> [] | Some i \<Rightarrow> i), rs_event_type = lr_event_type r,
     rs_aggregate_type = lr_aggregate_type r, rs_aggregate_id = lr_aggregate_id r, rs_payload = lr_payload r,
     rs_replayable = lr_replayable r\<rparr>"

definition get_replay_source :: "dlq_env \<Rightarrow> string \<Rightarrow> letter_row list \<Rightarrow> gerr + replay_source" where
  "get_replay_source e i rows =
     bindr (mapl (wrap2 (Dlq ErrInvalidDLQID)) (parse_uuid (ox_scan (dq_outbox e)) i)) (\<lambda>u.
       case find_letter u rows of None \<Rightarrow> Inl (Leaf (Dlq ErrDLQNotFound)) | Some r \<Rightarrow> Inr (source_of_letter r))"

definition mark_replayed :: "dlq_env \<Rightarrow> instant \<Rightarrow> string \<Rightarrow> string \<Rightarrow> letter_row list \<Rightarrow> gerr + (letter_row list \<times> bool)" where
  "mark_replayed e now i oid rows =
     bindr (mapl (wrap2 (Dlq ErrInvalidDLQID)) (parse_uuid (ox_scan (dq_outbox e)) i)) (\<lambda>u.
     bindr (mapl Wrap (parse_uuid (ox_scan (dq_outbox e)) oid)) (\<lambda>ou.
       case mark_letter now ou u rows of (rows', n) \<Rightarrow> Inr (rows', n = 1)))"

subsection \<open>Replay\<close>

text \<open>\<open>TxRepos\<close>. Under READ COMMITTED others may commit between the read of the letter and the first write, so
  the read has its own, earlier, snapshot and is no function of the state that is written.\<close>

record 't replay_repos =
  rp_get_replay_source :: "string \<Rightarrow> gerr + replay_source"
  rp_create_replay_event :: "replay_event \<Rightarrow> 't \<Rightarrow> gerr + ('t \<times> unit)"
  rp_mark_replayed :: "string \<Rightarrow> string \<Rightarrow> 't \<Rightarrow> gerr + ('t \<times> bool)"

definition replay_event_of :: "replay_source \<Rightarrow> string \<Rightarrow> replay_event" where
  "replay_event_of src oid = \<lparr>rv_id = oid, rv_replay_of_event_id = rs_event_id src, rv_target_group = rs_consumer_group src,
     rv_event_type = rs_event_type src, rv_aggregate_type = rs_aggregate_type src, rv_aggregate_id = rs_aggregate_id src,
     rv_payload = rs_payload src\<rparr>"

definition replay_body :: "'t replay_repos \<Rightarrow> string \<Rightarrow> string \<Rightarrow> 't \<Rightarrow> gerr + ('t \<times> unit)" where
  "replay_body d i oid t =
     bindr (rp_get_replay_source d i) (\<lambda>src.
     failif (\<not> rs_replayable src) (Leaf (Dlq ErrNotReplayable))
    (bindr (mapl Wrap (rp_create_replay_event d (replay_event_of src oid) t)) (\<lambda>(t1, _).
     bindr (mapl Wrap (rp_mark_replayed d i oid t1)) (\<lambda>(t2, marked).
     failif (\<not> marked) (Leaf (Dlq ErrAlreadyReplayed)) (Inr (t2, ()))))))"

text \<open>\<open>Replay\<close>: \<open>run\<close> is \<open>WithinTx\<close>, \<open>u\<close> what \<open>uuid.NewString\<close> returned.\<close>

definition replay :: "'t replay_repos \<Rightarrow> (('t \<Rightarrow> gerr + ('t \<times> unit)) \<Rightarrow> 't \<Rightarrow> 't \<times> (gerr + unit)) \<Rightarrow> gerr + string \<Rightarrow> string \<Rightarrow> 't
    \<Rightarrow> 't \<times> (gerr + string)" where
  "replay d run u i t =
     (if is_blank i then (t, Inl (Wrap (Leaf (Dlq ErrInvalidDLQID))))
      else case u of Inl x \<Rightarrow> (t, Inl (Wrap x))
      | Inr oid \<Rightarrow> (case run (replay_body d i oid) t of
            (t', Inl x) \<Rightarrow> (t', Inl x)
          | (t', Inr _) \<Rightarrow> (t', Inr oid)))"

subsection \<open>The interface of a replay\<close>

text \<open>A transaction commits its body, or changes nothing and reports an error.\<close>

definition transactional :: "(('t \<Rightarrow> gerr + ('t \<times> unit)) \<Rightarrow> 't \<Rightarrow> 't \<times> (gerr + unit)) \<Rightarrow> bool" where
  "transactional run \<longleftrightarrow> (\<forall>f t t1 x. run f t = (t1, x) \<longrightarrow> (t1 = t \<and> \<not> is_ok x) \<or> f t = Inr (t1, ()))"

text \<open>\<open>published t\<close> are the replay events of the outbox, \<open>due t\<close> those that the replayed letters stand for;
  \<open>canon\<close> is the canonical text of a UUID.\<close>

locale replay_store =
  fixes d :: "'t replay_repos" and ok :: "'t \<Rightarrow> bool" and published due :: "'t \<Rightarrow> replay_event multiset"
    and canon :: "string \<Rightarrow> string"
  assumes create_law: "ok t \<Longrightarrow> rp_create_replay_event d ev t = Inr (t', u) \<Longrightarrow>
      ok t' \<and> published t' = add_mset (ev\<lparr>rv_id := canon (rv_id ev)\<rparr>) (published t) \<and> due t' = due t"
    and mark_law: "ok t \<Longrightarrow> rp_get_replay_source d i = Inr src \<Longrightarrow> rs_replayable src \<Longrightarrow> rp_mark_replayed d i oid t = Inr (t', True) \<Longrightarrow>
      ok t' \<and> published t' = published t \<and> due t' = add_mset (replay_event_of src (canon oid)) (due t)"
begin

text \<open>The transaction publishes one event exactly when it turns one letter.\<close>

lemma replay_body_law:
  assumes "ok t" "published t = due t" "replay_body d i oid t = Inr (t', u)"
  shows "ok t' \<and> published t' = due t' \<and>
    (\<exists>src. rp_get_replay_source d i = Inr src \<and> rs_replayable src \<and>
       published t' = add_mset (replay_event_of src (canon oid)) (published t))"
proof -
  from assms(3) obtain src t1 v where b: "rp_get_replay_source d i = Inr src" "rs_replayable src"
    "rp_create_replay_event d (replay_event_of src oid) t = Inr (t1, v)" "rp_mark_replayed d i oid t1 = Inr (t', True)"
    by (auto simp: replay_body_def bindr_Inr_iff)
  from create_law [OF assms(1) b(3)] have c: "ok t1" "due t1 = due t"
    "published t1 = add_mset (replay_event_of src (canon oid)) (published t)"
    by (simp_all add: replay_event_of_def)
  from mark_law [OF c(1) b(1,2,4)] c assms(2) b(1,2) show ?thesis by simp
qed

text \<open>What is published stays what is due, whatever the transaction reports.\<close>

lemma replay_law:
  assumes "ok t" "published t = due t" "replay d run u i t = (t', r)"
    and run: "transactional run"
  shows "ok t' \<and> published t' = due t' \<and> (t' = t \<or> (\<exists>oid. u = Inr oid \<and> replay_body d i oid t = Inr (t', ())))"
    "r = Inr oid \<Longrightarrow> u = Inr oid \<and> replay_body d i oid t = Inr (t', ())"
proof -
  have "(ok t' \<and> published t' = due t' \<and> (t' = t \<or> (\<exists>oid. u = Inr oid \<and> replay_body d i oid t = Inr (t', ())))) \<and>
    (r = Inr oid \<longrightarrow> u = Inr oid \<and> replay_body d i oid t = Inr (t', ()))"
  proof (cases "\<not> is_blank i \<and> is_ok u")
    case False
    with assms show ?thesis by (cases u) (auto simp: replay_def split: if_splits)
  next
    case True
    then obtain oi where u: "u = Inr oi" by (cases u) auto
    obtain t1 x where x: "run (replay_body d i oi) t = (t1, x)" by (cases "run (replay_body d i oi) t")
    from assms(3) True u x have r: "t' = t1" "r = Inr oid \<Longrightarrow> oid = oi \<and> is_ok x"
      by (auto simp: replay_def split: sum.splits)
    have "(t1 = t \<and> \<not> is_ok x) \<or> replay_body d i oi t = Inr (t1, ())"
      using run x by (simp add: transactional_def)
    with replay_body_law [OF assms(1,2)] assms(1,2) r u show ?thesis by auto
  qed
  then show "ok t' \<and> published t' = due t' \<and> (t' = t \<or> (\<exists>oid. u = Inr oid \<and> replay_body d i oid t = Inr (t', ())))"
    "r = Inr oid \<Longrightarrow> u = Inr oid \<and> replay_body d i oid t = Inr (t', ())" by blast+
qed

end

subsection \<open>Letters and the outbox\<close>

definition event_of_row :: "outbox_row \<Rightarrow> replay_event" where
  "event_of_row r = \<lparr>rv_id = or_id r, rv_replay_of_event_id = (case or_replay_of r of None \<Rightarrow> [] | Some i \<Rightarrow> i),
     rv_target_group = (case or_target_group r of None \<Rightarrow> [] | Some g \<Rightarrow> g), rv_event_type = or_event_type r,
     rv_aggregate_type = or_aggregate_type r, rv_aggregate_id = or_aggregate_id r, rv_payload = or_payload r\<rparr>"

definition replay_events :: "outbox_row list \<Rightarrow> replay_event list" where
  "replay_events rows = map event_of_row (filter (\<lambda>r. or_replay_of r \<noteq> None) rows)"

definition event_due :: "letter_row \<Rightarrow> replay_event" where
  "event_due r = replay_event_of (source_of_letter r) (case lr_replay_outbox_id r of None \<Rightarrow> [] | Some i \<Rightarrow> i)"

definition replays_due :: "letter_row list \<Rightarrow> replay_event list" where
  "replays_due rows = map event_due (filter (\<lambda>r. lr_status r = LetterReplayed) rows)"

text \<open>The tables, and the log of the messages that were dead-lettered.\<close>

record dlq_tables =
  dt_letters :: "letter_row list"
  dt_outbox :: "outbox_row list"
  dt_failed :: "failed_message list"

text \<open>The letter is the message's; it may be replayed only if it keeps every field that a replay sends.\<close>

definition carries_message :: "dlq_env \<Rightarrow> letter_row \<Rightarrow> failed_message \<Rightarrow> bool" where
  "carries_message e r m \<longleftrightarrow> validate_dlq_identity m = Inr () \<and> lr_consumer_group r = fm_consumer_group m \<and>
     (lr_replayable r \<longrightarrow> can_replay e m \<and> lr_event_id r = fm_event_id m \<and> lr_event_type r = fm_event_type m \<and>
        lr_aggregate_type r = fm_aggregate_type m \<and> lr_aggregate_id r = fm_aggregate_id m \<and> lr_payload r = fm_payload m)"

definition letter_ok :: "dlq_env \<Rightarrow> failed_message list \<Rightarrow> letter_row \<Rightarrow> bool" where
  "letter_ok e ms r \<longleftrightarrow> letter_columns r \<and> (lr_status r = LetterReplayed \<longrightarrow> lr_replayable r) \<and> list_ex (carries_message e r) ms"

definition tables_ok :: "dlq_env \<Rightarrow> dlq_tables \<Rightarrow> bool" where
  "tables_ok e t \<longleftrightarrow> distinct (map lr_id (dt_letters t)) \<and> distinct (map letter_key (dt_letters t)) \<and>
     list_all (letter_ok e (dt_failed t)) (dt_letters t) \<and> outbox_inv (dt_outbox t)"

definition dlq_inv :: "dlq_env \<Rightarrow> dlq_tables \<Rightarrow> bool" where
  "dlq_inv e t \<longleftrightarrow> tables_ok e t \<and> mset (replay_events (dt_outbox t)) = mset (replays_due (dt_letters t))"

definition uuid_text :: "dlq_env \<Rightarrow> string \<Rightarrow> string" where
  "uuid_text e i = (case parse_uuid (ox_scan (dq_outbox e)) i of Inl _ \<Rightarrow> [] | Inr u \<Rightarrow> u)"

subsection \<open>The world of a replay\<close>

text \<open>What one replay meets: its instant, faults of its calls, of its transaction, and whether a commit that
  reported an error took effect all the same.\<close>

record replay_call =
  rc_now :: instant
  rc_uuid :: "gerr + string"
  rc_tx :: tx_env
  rc_lost :: bool
  rc_read_fault :: "gerr option"
  rc_create_fault :: "gerr option"
  rc_mark_fault :: "gerr option"

definition fault_or :: "gerr option \<Rightarrow> gerr + 'a \<Rightarrow> gerr + 'a" where
  "fault_or x r = (case x of None \<Rightarrow> r | Some y \<Rightarrow> Inl (Wrap y))"

definition world_repos :: "dlq_env \<Rightarrow> replay_call \<Rightarrow> dlq_tables \<Rightarrow> dlq_tables replay_repos" where
  "world_repos e c t0 = \<lparr>
     rp_get_replay_source = (\<lambda>i. fault_or (rc_read_fault c) (get_replay_source e i (dt_letters t0))),
     rp_create_replay_event = (\<lambda>ev t. fault_or (rc_create_fault c)
       (bindr (create_replay (dq_outbox e) (rc_now c) ev (dt_outbox t)) (\<lambda>(rows, u). Inr (t\<lparr>dt_outbox := rows\<rparr>, u)))),
     rp_mark_replayed = (\<lambda>i oid t. fault_or (rc_mark_fault c)
       (bindr (mark_replayed e (rc_now c) i oid (dt_letters t)) (\<lambda>(rows, b). Inr (t\<lparr>dt_letters := rows\<rparr>, b))))\<rparr>"

definition world_tx :: "replay_call \<Rightarrow> ('t \<Rightarrow> gerr + ('t \<times> unit)) \<Rightarrow> 't \<Rightarrow> 't \<times> (gerr + unit)" where
  "world_tx c f t = (case within_tx (rc_tx c) f t of (t', r) \<Rightarrow>
     if rc_lost c \<and> tx_begin (rc_tx c) = None \<and> is_ok (f t) then (fst (projr (f t)), r) else (t', r))"

datatype dlq_act = DeadLetter string failed_message | OutboxAct outbox_op | ReplayAct replay_call string

text \<open>Only \<open>Replay\<close> calls \<open>CreateReplayEvent\<close>.\<close>

fun exec_dlq_act :: "dlq_env \<Rightarrow> instant \<Rightarrow> dlq_act \<Rightarrow> dlq_tables \<Rightarrow> dlq_tables" where
  "exec_dlq_act e now (DeadLetter i m) t = (case insert_message e now i m (dt_letters t) of
       Inl _ \<Rightarrow> t | Inr rows \<Rightarrow> t\<lparr>dt_letters := rows, dt_failed := dt_failed t @ [m]\<rparr>)"
| "exec_dlq_act e now (OutboxAct op) t = (case op of
       CreateReplay _ \<Rightarrow> t | _ \<Rightarrow> t\<lparr>dt_outbox := exec_outbox (dq_outbox e) now op (dt_outbox t)\<rparr>)"
| "exec_dlq_act e now (ReplayAct c i) t = fst (replay (world_repos e c t) (world_tx c) (rc_uuid c) i t)"

fun exec_dlq_acts :: "dlq_env \<Rightarrow> (instant \<times> dlq_act) list \<Rightarrow> dlq_tables \<Rightarrow> dlq_tables" where
  "exec_dlq_acts e [] t = t"
| "exec_dlq_acts e ((now, act) # acts) t = exec_dlq_acts e acts (exec_dlq_act e now act t)"

text \<open>A replay with what others do before its read, and between its read and its writes.\<close>

definition replay_run ::
  "dlq_env \<Rightarrow> replay_call \<Rightarrow> (instant \<times> dlq_act) list \<Rightarrow> (instant \<times> dlq_act) list \<Rightarrow> string \<Rightarrow> dlq_tables \<Rightarrow> dlq_tables \<times> (gerr + string)" where
  "replay_run e c early late i t =
     (let t0 = exec_dlq_acts e early t in replay (world_repos e c t0) (world_tx c) (rc_uuid c) i (exec_dlq_acts e late t0))"

subsection \<open>Texts that fit\<close>

lemma sanitize_runes: "\<exists>us. sanitize_text s = concat us \<and> list_all is_rune us \<and> nul \<notin> set (concat us)"
proof -
  obtain us where us: "to_valid_utf8 s rune_error = concat us" "list_all is_rune us"
    unfolding to_valid_utf8_def using to_valid_runes [OF is_rune_error] by blast
  have "code_of nul < (0x80 :: nat)" by (simp add: nul_def)
  from filter_byte_concat [OF us(2) this] us have "sanitize_text s = concat (filter (\<lambda>u. u \<noteq> [nul]) us)"
    by (simp add: sanitize_text_def)
  moreover have "list_all is_rune (filter (\<lambda>u. u \<noteq> [nul]) us)" using us(2) by (auto simp: list_all_iff)
  moreover have "nul \<notin> set (sanitize_text s)" by (simp add: sanitize_text_def)
  ultimately show ?thesis by metis
qed

lemma sanitize_ok: "text_ok (sanitize_text s)"
  using sanitize_runes [of s] valid_concat by (auto simp: text_ok_def)

lemma sanitize_id: "text_ok s \<Longrightarrow> sanitize_text s = s"
  by (auto simp: text_ok_def sanitize_text_def to_valid_utf8_id filter_id_conv)

text \<open>What is stored fits its column; a text that fits is stored as it is, and only that counts as unchanged.\<close>

lemma storable_fits: "varchar_ok n (fst (storable s n))"
proof -
  obtain us where us: "sanitize_text s = concat us" "list_all is_rune us" "nul \<notin> set (concat us)"
    using sanitize_runes by blast
  have "list_all is_rune (take n us)" using us(2) by (auto simp: list_all_iff dest: in_set_takeD)
  moreover have "nul \<notin> set (concat (take n us))" using us(3) by (auto dest: in_set_takeD)
  ultimately show ?thesis using us
    by (auto simp: storable_def Let_def runes_concat varchar_ok_def text_ok_def rune_count_def valid_concat)
qed

lemma storable_intact: "snd (storable s n) \<longleftrightarrow> varchar_ok n s"
proof
  assume "snd (storable s n)"
  then have "fst (storable s n) = s" by (simp add: storable_def Let_def)
  with storable_fits [of n s] show "varchar_ok n s" by simp
next
  assume "varchar_ok n s"
  then have "sanitize_text s = s" "rune_count s \<le> n" using sanitize_id by (auto simp: varchar_ok_def)
  then show "snd (storable s n)" by (simp add: storable_def Let_def rune_count_def)
qed

lemma storable_same: "snd (storable s n) \<Longrightarrow> fst (storable s n) = s"
  by (simp add: storable_def Let_def)

lemma check_fields_Inr: "check_fields fs = Inr u \<longleftrightarrow> list_all (\<lambda>(v, n). \<not> is_blank v \<and> rune_count v \<le> n) fs"
  by (induction fs) auto

lemma stored_event_id_fits: "fst (stored_event_id m) = Some i \<Longrightarrow> varchar_ok 256 i"
  using storable_fits [of dlq_event_id_len]
  by (auto simp: stored_event_id_def dlq_event_id_len_def split: option.splits if_splits prod.splits, metis fst_conv)

lemma stored_event_id_intact: "snd (stored_event_id m) \<Longrightarrow> fst (stored_event_id m) = fm_event_id m \<and> fm_event_id m \<noteq> None"
  using storable_same [of _ dlq_event_id_len]
  by (auto simp: stored_event_id_def split: option.splits if_splits prod.splits, metis fst_conv snd_conv)

text \<open>A validated message fits the columns once the fields that identify it are text.\<close>

definition identity_text :: "failed_message \<Rightarrow> bool" where
  "identity_text m \<longleftrightarrow> text_ok (fm_stream m) \<and> text_ok (fm_consumer_group m) \<and> text_ok (fm_consumer_name m) \<and>
     text_ok (fm_stream_message_id m) \<and> text_ok (fm_failure_class m)"

lemma new_letter_columns:
  assumes "validate_dlq_identity m = Inr ()" "identity_text m" "fm_attempts m = a"
  shows "letter_columns (new_letter e now i m a)"
proof -
  have v: "rune_count (fm_stream m) \<le> 128" "rune_count (fm_consumer_group m) \<le> 128" "rune_count (fm_consumer_name m) \<le> 128"
    "rune_count (fm_stream_message_id m) \<le> 64" "rune_count (fm_failure_class m) \<le> 64" "1 \<le> fm_attempts m"
    using assms(1)
    by (auto simp: validate_dlq_identity_def bindr_Inr_iff check_fields_Inr dlq_identity_len_def dlq_stream_msg_id_len_def
        dlq_failure_class_len_def)
  have f: "varchar_ok 64 (fst (storable (fm_event_type m) dlq_event_type_len))"
    "varchar_ok 64 (fst (storable (fm_aggregate_type m) dlq_aggregate_type_len))"
    "varchar_ok 128 (fst (storable (fm_aggregate_id m) dlq_aggregate_id_len))"
    "varchar_ok 128 (fst (storable (fm_correlation_id m) dlq_correlation_id_len))"
    by (simp_all add: dlq_event_type_len_def dlq_aggregate_type_len_def dlq_aggregate_id_len_def dlq_correlation_id_len_def storable_fits)
  have r: "can_replay e m \<longrightarrow> fst (stored_event_id m) \<noteq> None"
    using stored_event_id_intact [of m] by (auto simp: can_replay_def)
  have o': "(case optional_text (sanitize_text (fm_stack m)) of None \<Rightarrow> True | Some t \<Rightarrow> text_ok t)"
    using sanitize_ok by (simp add: optional_text_def)
  have i: "(case fst (stored_event_id m) of None \<Rightarrow> True | Some i \<Rightarrow> varchar_ok 256 i)"
    using stored_event_id_fits [of m] by (simp split: option.split)
  show ?thesis unfolding letter_columns_def new_letter_def
    using v f r o' i assms(2,3) sanitize_ok by (simp add: varchar_ok_def identity_text_def)
qed


subsection \<open>What the acts keep\<close>

definition letters_grow :: "letter_row list \<Rightarrow> letter_row list \<Rightarrow> bool" where
  "letters_grow l0 l \<longleftrightarrow> (\<forall>i r. find_letter i l0 = Some r \<longrightarrow> (\<exists>q. find_letter i l = Some q \<and> source_of_letter q = source_of_letter r))"

lemma letters_grow_refl [simp]: "letters_grow l l"
  by (simp add: letters_grow_def)

lemma letters_grow_trans: "letters_grow a b \<Longrightarrow> letters_grow b c \<Longrightarrow> letters_grow a c"
  unfolding letters_grow_def by metis

lemma find_letter_Some: "find_letter i rows = Some r \<Longrightarrow> r \<in> set rows \<and> lr_id r = i"
  by (auto simp: find_letter_def find_Some_iff)

lemma find_letter_None: "find_letter i rows = None \<longleftrightarrow> i \<notin> lr_id ` set rows"
  by (auto simp: find_letter_def find_None_iff)

lemma known_letter_key: "list_ex (\<lambda>r. letter_key r = k) rows \<longleftrightarrow> k \<in> letter_key ` set rows"
  by (auto simp: list_ex_iff)

lemma find_letter_append:
  "find_letter i (rows @ xs) = (case find_letter i rows of None \<Rightarrow> find_letter i xs | Some r \<Rightarrow> Some r)"
  by (induction rows) (auto simp: find_letter_def)

lemma replay_events_append [simp]: "replay_events (xs @ ys) = replay_events xs @ replay_events ys"
  by (simp add: replay_events_def)

lemma replays_due_append [simp]: "replays_due (xs @ ys) = replays_due xs @ replays_due ys"
  by (simp add: replays_due_def)

text \<open>Only \<open>CreateReplayEvent\<close> writes replay events; no operation changes one.\<close>

lemma replay_events_update:
  "(\<And>r. event_of_row (f r) = event_of_row r \<and> or_replay_of (f r) = or_replay_of r) \<Longrightarrow>
     replay_events (update_events sel f rows) = replay_events rows"
  by (induction rows) (auto simp: replay_events_def update_events_def)

lemma replay_events_insert: "insert_events e rs rows = Inr rows' \<Longrightarrow> replay_events rows' = replay_events rows @ replay_events rs"
  using insert_events_Inr by fastforce

lemma event_setters_event [simp]:
  "event_of_row (claim_event now t d r) = event_of_row r \<and> or_replay_of (claim_event now t d r) = or_replay_of r"
  "event_of_row (mark_event now r) = event_of_row r \<and> or_replay_of (mark_event now r) = or_replay_of r"
  "event_of_row (fail_event now c d m r) = event_of_row r \<and> or_replay_of (fail_event now c d m r) = or_replay_of r"
  "event_of_row (release_event now r) = event_of_row r \<and> or_replay_of (release_event now r) = or_replay_of r"
  by (simp_all add: event_of_row_def claim_event_def mark_event_def fail_event_def release_event_def)

lemma replay_events_new [simp]: "replay_events [new_event_row now i a b k p] = []"
  by (simp add: replay_events_def new_event_row_def)

lemma changed_rows_events: "changed_rows e now evs = Inr rs \<Longrightarrow> replay_events rs = []"
  by (induction evs arbitrary: rs) (auto simp: bindr_Inr_iff replay_events_def new_event_row_def)

lemma exec_outbox_events: "\<nexists>ev. op = CreateReplay ev \<Longrightarrow> replay_events (exec_outbox e now op rows) = replay_events rows"
proof (cases op)
  case (ClaimBatch locked ord t n d)
  then show ?thesis
    by (cases "claim_batch e now locked ord t n d rows") (auto dest!: claim_batch_Inr [THEN iffD1] simp: replay_events_update)
next
  case (MarkPublished t ids)
  then show ?thesis
    by (cases "mark_published e now t ids rows") (auto dest!: mark_published_Inr simp: replay_events_update)
next
  case (RecordFailure t i c m d)
  then show ?thesis
    by (cases "record_failure e now t i c m d rows") (auto dest!: record_failure_Inr simp: replay_events_update)
next
  case (ReleaseClaims t ids)
  then show ?thesis
    by (cases "release_claims e now t ids rows") (auto dest!: release_claims_Inr simp: replay_events_update)
next
  case (CreateDatasetActivated ev)
  then show ?thesis
    by (cases "create_dataset_activated e now ev rows")
       (auto dest!: create_dataset_activated_Inr replay_events_insert simp del: insert_events.simps)
next
  case (CreateProductChanged evs)
  then show ?thesis
    by (cases "create_product_changed e now evs rows")
       (auto dest!: create_product_changed_Inr replay_events_insert changed_rows_events)
qed blast

lemma insert_message_inv:
  assumes "tables_ok e t" "insert_message e now i m (dt_letters t) = Inr rows"
  shows "tables_ok e (t\<lparr>dt_letters := rows, dt_failed := dt_failed t @ [m]\<rparr>)" "replays_due rows = replays_due (dt_letters t)"
    "letters_grow (dt_letters t) rows"
proof -
  have old: "list_all (letter_ok e (dt_failed t @ [m])) (dt_letters t)"
    using assms(1) by (auto simp: tables_ok_def letter_ok_def list_all_iff)
  have "(rows = dt_letters t \<or> (\<exists>n. rows = dt_letters t @ [n] \<and> letter_ok e (dt_failed t @ [m]) n \<and> lr_status n = LetterDead \<and>
      lr_id n \<notin> lr_id ` set (dt_letters t) \<and> letter_key n \<notin> letter_key ` set (dt_letters t)))"
  proof -
    let ?n = "new_letter e now i m (fm_attempts m)"
    have m': "carries_message e ?n m" "lr_status ?n = LetterDead"
      using stored_event_id_intact [of m] storable_same assms(2)
      by (auto simp: carries_message_def new_letter_def can_replay_def insert_message_def bindr_Inr_iff)
    from assms(2) have "insert_letter ?n (dt_letters t) = Inr rows"
      by (auto simp: insert_message_def bindr_Inr_iff to_int32_Inr)
    with m' show ?thesis
      by (auto simp: insert_letter_def letter_ok_def find_letter_None known_letter_key simp del: not_None_eq split: if_splits)
  qed
  then show "tables_ok e (t\<lparr>dt_letters := rows, dt_failed := dt_failed t @ [m]\<rparr>)" "replays_due rows = replays_due (dt_letters t)"
    "letters_grow (dt_letters t) rows"
    using assms(1) old
    by (auto simp: tables_ok_def replays_due_def letters_grow_def find_letter_append)
qed

text \<open>The two writes of a replay.\<close>

lemma create_replay_tables:
  assumes ok: "tables_ok e t" and c: "create_replay (dq_outbox e) now ev (dt_outbox t) = Inr (rows, u)"
  shows "tables_ok e (t\<lparr>dt_outbox := rows\<rparr>)"
    "mset (replay_events rows) = add_mset (ev\<lparr>rv_id := uuid_text e (rv_id ev)\<rparr>) (mset (replay_events (dt_outbox t)))"
proof -
  have "outbox_inv (exec_outbox (dq_outbox e) now (CreateReplay ev) (dt_outbox t))"
    by (rule exec_outbox_inv) (use ok in \<open>simp add: tables_ok_def\<close>)
  with c ok show "tables_ok e (t\<lparr>dt_outbox := rows\<rparr>)" by (simp add: tables_ok_def)
  obtain i where i: "parse_uuid (ox_scan (dq_outbox e)) (rv_id ev) = Inr i"
    "insert_events (dq_outbox e) [(new_event_row now i (rv_aggregate_type ev) (rv_aggregate_id ev) (rv_event_type ev) (rv_payload ev))
         \<lparr>or_replay_of := Some (rv_replay_of_event_id ev), or_target_group := Some (rv_target_group ev)\<rparr>] (dt_outbox t) = Inr rows"
    using create_replay_Inr [OF c] by auto
  from replay_events_insert [OF i(2)] i(1)
  show "mset (replay_events rows) = add_mset (ev\<lparr>rv_id := uuid_text e (rv_id ev)\<rparr>) (mset (replay_events (dt_outbox t)))"
    by (simp add: replay_events_def event_of_row_def new_event_row_def uuid_text_def)
qed

lemma replayed_letter_same [simp]:
  "lr_id (replayed_letter now oid r) = lr_id r" "letter_key (replayed_letter now oid r) = letter_key r"
  "source_of_letter (replayed_letter now oid r) = source_of_letter r" "lr_status (replayed_letter now oid r) = LetterReplayed"
  "event_due (replayed_letter now oid r) = replay_event_of (source_of_letter r) oid"
  by (simp_all add: replayed_letter_def letter_key_def source_of_letter_def event_due_def)

lemma replayed_letter_ok: "letter_ok e ms r \<Longrightarrow> lr_status r = LetterDead \<Longrightarrow> lr_replayable r \<Longrightarrow> letter_ok e ms (replayed_letter now oid r)"
  by (auto simp: letter_ok_def letter_columns_def carries_message_def replayed_letter_def list_ex_iff)

text \<open>The guarded update turns one letter, the one with the id.\<close>

lemma mark_letter_one:
  assumes "distinct (map lr_id rows)" "mark_letter now oid i rows = (rows', 1)"
  shows "\<exists>xs r ys. rows = xs @ r # ys \<and> dead_letter_with i r \<and> rows' = xs @ replayed_letter now oid r # ys"
proof -
  from assms(2) have "\<exists>r \<in> set rows. dead_letter_with i r"
    by (auto simp: mark_letter_def length_Suc_conv filter_eq_Cons_iff)
  then obtain xs r ys where r: "rows = xs @ r # ys" "dead_letter_with i r" by (meson split_list)
  have "\<not> dead_letter_with i q" if "q \<in> set xs \<union> set ys" for q
  proof
    assume "dead_letter_with i q"
    then have "lr_id q = lr_id r" using r(2) by (simp add: dead_letter_with_def)
    moreover have "lr_id r \<notin> lr_id ` (set xs \<union> set ys)" using assms(1) unfolding r(1) by auto
    ultimately show False using that by (metis imageI)
  qed
  then have "map (\<lambda>r. if dead_letter_with i r then replayed_letter now oid r else r) xs = xs"
    "map (\<lambda>r. if dead_letter_with i r then replayed_letter now oid r else r) ys = ys"
    by (auto intro: map_idI)
  with assms(2) r show ?thesis by (auto simp: mark_letter_def)
qed

lemma find_letter_split: "distinct (map lr_id (xs @ r # ys)) \<Longrightarrow> find_letter (lr_id r) (xs @ r # ys) = Some r"
  by (induction xs) (auto simp: find_letter_def)

lemma find_letter_replace:
  "lr_id q = lr_id r \<Longrightarrow> source_of_letter q = source_of_letter r \<Longrightarrow> letters_grow (xs @ r # ys) (xs @ q # ys)"
  by (induction xs) (auto simp: letters_grow_def find_letter_def)

lemma mark_replayed_tables:
  assumes ok: "tables_ok e t" and i: "parse_uuid (ox_scan (dq_outbox e)) i = Inr u" "find_letter u (dt_letters t) = Some q"
    and q: "lr_replayable q" and m: "mark_replayed e now i oid (dt_letters t) = Inr (rows, True)"
  shows "tables_ok e (t\<lparr>dt_letters := rows\<rparr>)" "letters_grow (dt_letters t) rows"
    "mset (replays_due rows) = add_mset (replay_event_of (source_of_letter q) (uuid_text e oid)) (mset (replays_due (dt_letters t)))"
proof -
  have d: "distinct (map lr_id (dt_letters t))" using ok by (simp add: tables_ok_def)
  obtain ou where o1: "parse_uuid (ox_scan (dq_outbox e)) oid = Inr ou"
    using m by (auto simp: mark_replayed_def bindr_Inr_iff)
  have "mark_letter now ou u (dt_letters t) = (rows, 1)"
    using m i(1) o1 by (auto simp: mark_replayed_def split: prod.splits)
  note ou = o1 this
  obtain xs r ys where r: "dt_letters t = xs @ r # ys" "dead_letter_with u r" "rows = xs @ replayed_letter now ou r # ys"
    using mark_letter_one [OF d ou(2)] by blast
  have "find_letter u (dt_letters t) = Some r" using find_letter_split d r by (metis dead_letter_with_def)
  with i(2) have [simp]: "q = r" by simp
  have rok: "letter_ok e (dt_failed t) (replayed_letter now ou r)"
    using ok r q by (intro replayed_letter_ok) (auto simp: tables_ok_def dead_letter_with_def)
  with ok r show "tables_ok e (t\<lparr>dt_letters := rows\<rparr>)" by (simp add: tables_ok_def)
  show "letters_grow (dt_letters t) rows" unfolding r(1,3) by (rule find_letter_replace) simp_all
  show "mset (replays_due rows) = add_mset (replay_event_of (source_of_letter q) (uuid_text e oid)) (mset (replays_due (dt_letters t)))"
    using r(2) ou(1) by (simp add: r(1,3) replays_due_def dead_letter_with_def uuid_text_def)
qed

text \<open>The laws hold while the letters read are an earlier state of those written.\<close>

definition after_read :: "dlq_env \<Rightarrow> dlq_tables \<Rightarrow> dlq_tables \<Rightarrow> bool" where
  "after_read e t0 t \<longleftrightarrow> tables_ok e t \<and> letters_grow (dt_letters t0) (dt_letters t)"

lemma fault_or_Inr [simp]: "fault_or x r = Inr y \<longleftrightarrow> x = None \<and> r = Inr y"
  by (auto simp: fault_or_def split: option.splits)

lemma get_replay_source_Inr:
  "get_replay_source e i rows = Inr src \<longleftrightarrow>
     (\<exists>u r. parse_uuid (ox_scan (dq_outbox e)) i = Inr u \<and> find_letter u rows = Some r \<and> src = source_of_letter r)"
  by (auto simp: get_replay_source_def bindr_Inr_iff split: option.splits)

interpretation letters: replay_store "world_repos e c t0" "after_read e t0" "\<lambda>t. mset (replay_events (dt_outbox t))"
  "\<lambda>t. mset (replays_due (dt_letters t))" "uuid_text e"
proof
  fix t ev t' u
  assume a: "after_read e t0 t" "rp_create_replay_event (world_repos e c t0) ev t = Inr (t', u)"
  then obtain rows where r: "create_replay (dq_outbox e) (rc_now c) ev (dt_outbox t) = Inr (rows, u)" "t' = t\<lparr>dt_outbox := rows\<rparr>"
    by (auto simp: world_repos_def bindr_Inr_iff)
  from create_replay_tables [OF _ r(1)] a(1) r(2)
  show "after_read e t0 t' \<and> mset (replay_events (dt_outbox t')) =
      add_mset (ev\<lparr>rv_id := uuid_text e (rv_id ev)\<rparr>) (mset (replay_events (dt_outbox t))) \<and>
    mset (replays_due (dt_letters t')) = mset (replays_due (dt_letters t))"
    by (simp add: after_read_def)
next
  fix t i src oid t'
  assume a: "after_read e t0 t" "rp_get_replay_source (world_repos e c t0) i = Inr src" "rs_replayable src"
    "rp_mark_replayed (world_repos e c t0) i oid t = Inr (t', True)"
  then obtain u r where u: "parse_uuid (ox_scan (dq_outbox e)) i = Inr u" "find_letter u (dt_letters t0) = Some r"
    "src = source_of_letter r"
    by (auto simp: world_repos_def get_replay_source_Inr)
  with a(1) obtain q where q: "find_letter u (dt_letters t) = Some q" "source_of_letter q = src"
    by (auto simp: after_read_def letters_grow_def)
  have "lr_replayable q" using a(3) by (simp add: q(2) [symmetric] source_of_letter_def)
  moreover obtain rows where r: "mark_replayed e (rc_now c) i oid (dt_letters t) = Inr (rows, True)" "t' = t\<lparr>dt_letters := rows\<rparr>"
    using a(4) by (auto simp: world_repos_def bindr_Inr_iff)
  ultimately show "after_read e t0 t' \<and> mset (replay_events (dt_outbox t')) = mset (replay_events (dt_outbox t)) \<and>
      mset (replays_due (dt_letters t')) = add_mset (replay_event_of src (uuid_text e oid)) (mset (replays_due (dt_letters t)))"
    using mark_replayed_tables [OF _ u(1) q(1) _ r(1)] a(1) letters_grow_trans q(2) by (simp add: after_read_def) blast
qed

lemma replay_tx_transactional: "transactional (world_tx c)"
  unfolding transactional_def
proof (intro allI impI)
  fix f :: "'t \<Rightarrow> gerr + ('t \<times> unit)" and t t1 x
  assume "world_tx c f t = (t1, x)"
  then show "(t1 = t \<and> \<not> is_ok x) \<or> f t = Inr (t1, ())"
    by (cases "f t") (auto simp: world_tx_def within_tx_def split: option.splits if_splits prod.splits)
qed

lemma exec_dlq_act_inv:
  assumes inv: "dlq_inv e t"
  shows "dlq_inv e (exec_dlq_act e now act t) \<and> letters_grow (dt_letters t) (dt_letters (exec_dlq_act e now act t))"
proof (cases act)
  case (DeadLetter i m)
  then show ?thesis using inv insert_message_inv by (auto simp: dlq_inv_def split: sum.split)
next
  case (OutboxAct op)
  show ?thesis
  proof (cases "\<exists>ev. op = CreateReplay ev")
    case True
    with OutboxAct inv show ?thesis by auto
  next
    case False
    then have "exec_dlq_act e now act t = t\<lparr>dt_outbox := exec_outbox (dq_outbox e) now op (dt_outbox t)\<rparr>"
      using OutboxAct by (cases op) auto
    with inv exec_outbox_events [OF False] exec_outbox_inv show ?thesis by (simp add: dlq_inv_def tables_ok_def)
  qed
next
  case (ReplayAct c i)
  obtain t' r where r: "replay (world_repos e c t) (world_tx c) (rc_uuid c) i t = (t', r)"
    by (cases "replay (world_repos e c t) (world_tx c) (rc_uuid c) i t")
  have "after_read e t t" "mset (replay_events (dt_outbox t)) = mset (replays_due (dt_letters t))"
    using inv by (simp_all add: after_read_def dlq_inv_def)
  from letters.replay_law(1) [OF this r replay_tx_transactional] ReplayAct r show ?thesis
    by (simp add: after_read_def dlq_inv_def)
qed

lemma exec_dlq_acts_inv:
  "dlq_inv e t \<Longrightarrow> dlq_inv e (exec_dlq_acts e acts t) \<and> letters_grow (dt_letters t) (dt_letters (exec_dlq_acts e acts t))"
proof (induction e acts t rule: exec_dlq_acts.induct)
  case (2 e now act acts t)
  from exec_dlq_act_inv [OF 2(2), of now act] 2(1) letters_grow_trans show ?case by simp blast
qed simp

text \<open>A replay event sends a failed message again, to the group in which it failed.\<close>

definition republishes :: "dlq_env \<Rightarrow> replay_event \<Rightarrow> failed_message \<Rightarrow> bool" where
  "republishes e ev m \<longleftrightarrow> can_replay e m \<and> fm_event_id m = Some (rv_replay_of_event_id ev) \<and>
     rv_target_group ev = fm_consumer_group m \<and> rv_event_type ev = fm_event_type m \<and>
     rv_aggregate_type ev = fm_aggregate_type m \<and> rv_aggregate_id ev = fm_aggregate_id m \<and> rv_payload ev = fm_payload m"

lemma due_republishes:
  assumes "tables_ok e t" "ev \<in> set (replays_due (dt_letters t))"
  shows "list_ex (republishes e ev) (dt_failed t)"
proof -
  from assms(2) obtain r where r: "r \<in> set (dt_letters t)" "lr_status r = LetterReplayed" "ev = event_due r"
    by (auto simp: replays_due_def)
  with assms(1) have l: "letter_columns r" "lr_replayable r" "list_ex (carries_message e r) (dt_failed t)"
    by (auto simp: tables_ok_def list_all_iff letter_ok_def)
  obtain m where m: "m \<in> set (dt_failed t)" "carries_message e r m" using l(3) by (auto simp: list_ex_iff)
  obtain i where i: "lr_event_id r = Some i" using l(1,2) by (auto simp: letter_columns_def)
  have fe: "fm_event_id m = Some i" using m(2) l(2) i by (simp add: carries_message_def)
  have "republishes e ev m"
    using m(2) l(2) fe r(3) by (simp add: republishes_def carries_message_def event_due_def replay_event_of_def source_of_letter_def)
  with m(1) show ?thesis by (auto simp: list_ex_iff)
qed


subsection \<open>A replay that meets no fault\<close>

definition quiet_call :: "replay_call \<Rightarrow> bool" where
  "quiet_call c \<longleftrightarrow> rc_read_fault c = None \<and> rc_create_fault c = None \<and> rc_mark_fault c = None"

text \<open>The row that \<open>CreateReplayEvent\<close> inserts.\<close>

definition replay_row :: "instant \<Rightarrow> string \<Rightarrow> letter_row \<Rightarrow> outbox_row" where
  "replay_row now ou l = (new_event_row now ou (lr_aggregate_type l) (lr_aggregate_id l) (lr_event_type l) (lr_payload l))
     \<lparr>or_replay_of := Some (case lr_event_id l of None \<Rightarrow> [] | Some i \<Rightarrow> i), or_target_group := Some (lr_consumer_group l)\<rparr>"

lemma mark_letter_split:
  "distinct (map lr_id (xs @ r # ys)) \<Longrightarrow> lr_status r = LetterDead \<Longrightarrow>
     mark_letter now oid (lr_id r) (xs @ r # ys) = (xs @ replayed_letter now oid r # ys, 1)"
  by (auto simp: mark_letter_def dead_letter_with_def filter_empty_conv image_iff intro!: map_idI)

lemma replayable_letter:
  assumes "letter_ok e ms r" "lr_replayable r" "\<not> dq_json_valid e []"
  shows "\<exists>i. lr_event_id r = Some i \<and> \<not> is_blank i" "\<not> is_blank (lr_consumer_group r)" "lr_payload r \<noteq> []"
proof -
  obtain m where m: "carries_message e r m" using assms(1) by (auto simp: letter_ok_def list_ex_iff)
  with assms(2) have c: "can_replay e m" "lr_event_id r = fm_event_id m" "lr_payload r = fm_payload m"
    "lr_consumer_group r = fm_consumer_group m" "validate_dlq_identity m = Inr ()"
    by (simp_all add: carries_message_def)
  from c(1,2) show "\<exists>i. lr_event_id r = Some i \<and> \<not> is_blank i"
    by (auto simp: can_replay_def stored_event_id_def split: option.splits if_splits)
  from c(4,5) show "\<not> is_blank (lr_consumer_group r)"
    by (auto simp: validate_dlq_identity_def bindr_Inr_iff check_fields_Inr)
  from c(1,3) assms(3) show "lr_payload r \<noteq> []" by (auto simp: can_replay_def)
qed

text \<open>What a successful replay leaves.\<close>

definition replayed_tables :: "instant \<Rightarrow> string \<Rightarrow> letter_row \<Rightarrow> dlq_tables \<Rightarrow> dlq_tables" where
  "replayed_tables now ou l t = t\<lparr>dt_outbox := dt_outbox t @ [replay_row now ou l],
     dt_letters := map (\<lambda>r. if dead_letter_with (lr_id l) r then replayed_letter now ou r else r) (dt_letters t)\<rparr>"

lemma replay_body_succeeds:
  assumes inv: "tables_ok e t" and i: "parse_uuid (ox_scan (dq_outbox e)) i = Inr u" "find_letter u (dt_letters t) = Some l"
    and l: "lr_status l = LetterDead" "lr_replayable l" "\<not> is_blank (lr_event_type l)" "\<not> dq_json_valid e []"
    and c: "quiet_call c" and ou: "parse_uuid (ox_scan (dq_outbox e)) oid = Inr ou" "find_event ou (dt_outbox t) = None"
      "ox_check_row (dq_outbox e) (replay_row (rc_now c) ou l) = None"
  shows "replay_body (world_repos e c t) i oid t = Inr (replayed_tables (rc_now c) ou l t, ())"
    "find_letter u (dt_letters (replayed_tables (rc_now c) ou l t)) = Some (replayed_letter (rc_now c) ou l)"
    "replay_events (dt_outbox (replayed_tables (rc_now c) ou l t)) =
       replay_events (dt_outbox t) @ [event_due (replayed_letter (rc_now c) ou l)]"
proof -
  note f = find_letter_Some [OF i(2)]
  have ok: "letter_ok e (dt_failed t) l" and d: "distinct (map lr_id (dt_letters t))"
    using inv f by (auto simp: tables_ok_def list_all_iff)
  note r = replayable_letter [OF ok l(2,4)]
  obtain ei where ei: "lr_event_id l = Some ei" "\<not> is_blank ei" using r(1) by blast
  let ?rows = "dt_outbox t @ [replay_row (rc_now c) ou l]"
  have create: "create_replay (dq_outbox e) (rc_now c) (replay_event_of (source_of_letter l) oid) (dt_outbox t) = Inr (?rows, ())"
    using l(3) ou r(2,3) ei
    by (simp add: create_replay_def replay_event_of_def source_of_letter_def replay_row_def)
  obtain xs ys where x: "dt_letters t = xs @ l # ys" using f by (meson split_list)
  let ?ls = "xs @ replayed_letter (rc_now c) ou l # ys"
  note m1 = mark_letter_split [OF d [unfolded x] l(1), of "rc_now c" ou]
  have mark: "mark_replayed e (rc_now c) i oid (dt_letters t) = Inr (?ls, True)"
    using i(1) ou(1) m1 f x by (simp add: mark_replayed_def)
  have t': "replayed_tables (rc_now c) ou l t = t\<lparr>dt_outbox := ?rows, dt_letters := ?ls\<rparr>"
    using m1 by (simp add: replayed_tables_def mark_letter_def x)
  have src: "get_replay_source e i (dt_letters t) = Inr (source_of_letter l)" using i by (simp add: get_replay_source_def)
  have "rs_replayable (source_of_letter l)" using l(2) by (simp add: source_of_letter_def)
  then show "replay_body (world_repos e c t) i oid t = Inr (replayed_tables (rc_now c) ou l t, ())"
    using c create mark src unfolding t' by (simp add: replay_body_def world_repos_def quiet_call_def fault_or_def)
  show "find_letter u (dt_letters (replayed_tables (rc_now c) ou l t)) = Some (replayed_letter (rc_now c) ou l)"
    using find_letter_split [of xs "replayed_letter (rc_now c) ou l" ys] d f x unfolding t' by simp
  show "replay_events (dt_outbox (replayed_tables (rc_now c) ou l t)) =
       replay_events (dt_outbox t) @ [event_due (replayed_letter (rc_now c) ou l)]"
    unfolding t' by (simp add: replay_events_def replay_row_def event_of_row_def new_event_row_def replay_event_of_def source_of_letter_def)
qed

lemma uuid_not_blank: "parse_uuid scan i = Inr u \<Longrightarrow> \<not> is_blank i"
  by (simp add: parse_uuid_def Let_def split: if_splits)


text \<open>A letter whose event type is white space can be marked replayable, but no replay of it succeeds.\<close>

lemma blank_type_is_stuck:
  assumes "is_blank (lr_event_type l)"
  shows "create_replay x now (replay_event_of (source_of_letter l) oid) rows \<noteq> Inr p"
  using assms by (simp add: create_replay_def replay_event_of_def source_of_letter_def bindr_Inr_iff)

subsection \<open>An instance\<close>

definition demo_dlq_env :: dlq_env where
  "demo_dlq_env = \<lparr>dq_json_valid = (\<lambda>p. p \<noteq> []), dq_outbox = demo_outbox_env\<rparr>"

text \<open>A message with two stray bytes and a NUL in its correlation id.\<close>

definition demo_failed :: failed_message where
  "demo_failed = \<lparr>fm_stream = ''events'', fm_consumer_group = ''grp'', fm_stream_message_id = ''1-0'', fm_event_id = Some ''e1'',
     fm_event_type = ''product.changed'', fm_aggregate_type = ''product'', fm_aggregate_id = ''p1'',
     fm_correlation_id = [CHR ''c'', CHR 0xFF, CHR 0xC3, CHR 0x00], fm_payload = ''{}'', fm_failure_class = class_permanent,
     fm_last_error = ''boom'', fm_stack = [], fm_attempts = 3, fm_consumer_name = ''w1'', fm_event_created_at = Some 5, fm_first_failed_at = 7\<rparr>"

lemma demo_sanitized: "lr_correlation_id (new_letter demo_dlq_env 9 ''d1'' demo_failed 3) = CHR ''c'' # rune_error"
  by code_simp

lemma demo_failed_ok:
  "validate_dlq_identity demo_failed = Inr ()" "identity_text demo_failed" "fm_attempts demo_failed < 2 ^ 31"
  "find_letter ''d1'' ([] :: letter_row list) = None"
  by code_simp+


definition demo_empty :: dlq_tables where
  "demo_empty = \<lparr>dt_letters = [], dt_outbox = [], dt_failed = []\<rparr>"

lemma demo_empty_inv: "dlq_inv demo_dlq_env demo_empty"
  by (simp add: dlq_inv_def tables_ok_def demo_empty_def replay_events_def replays_due_def)

definition demo_call :: "string \<Rightarrow> bool \<Rightarrow> replay_call" where
  "demo_call oid lost = \<lparr>rc_now = 20, rc_uuid = Inr oid,
     rc_tx = (if lost then \<lparr>tx_begin = None, tx_commit = Some (Opaque ''connection lost'')\<rparr> else tx_ok), rc_lost = lost,
     rc_read_fault = None, rc_create_fault = None, rc_mark_fault = None\<rparr>"

definition demo_letters :: dlq_tables where
  "demo_letters = exec_dlq_acts demo_dlq_env [(9, DeadLetter ''d1'' demo_failed)] demo_empty"

definition demo_letter :: letter_row where
  "demo_letter = new_letter demo_dlq_env 9 ''d1'' demo_failed 3"

lemma demo_letters_inv: "dlq_inv demo_dlq_env demo_letters"
  unfolding demo_letters_def using exec_dlq_acts_inv [OF demo_empty_inv] by blast

lemma demo_insert: "insert_message demo_dlq_env 9 ''d1'' demo_failed [] = Inr [demo_letter]"
proof -
  have "to_int32 (fm_attempts demo_failed) = Inr 3" "letter_columns demo_letter" by code_simp+
  with demo_failed_ok show ?thesis by (simp add: insert_message_def insert_letter_def demo_letter_def find_letter_def)
qed

lemma demo_letters_eq: "dt_letters demo_letters = [demo_letter]"
  by (simp add: demo_letters_def demo_empty_def demo_insert)

lemma demo_letter_found: "find_letter ''d1'' (dt_letters demo_letters) = Some demo_letter"
  by (simp add: demo_letters_eq find_letter_def demo_letter_def new_letter_def)

lemma demo_uuids: "parse_uuid (ox_scan (dq_outbox demo_dlq_env)) ''d1'' = Inr ''d1''"
  "parse_uuid (ox_scan (dq_outbox demo_dlq_env)) ''o1'' = Inr ''o1''"
  by code_simp+

lemma demo_letter_facts: "lr_status demo_letter = LetterDead" "lr_replayable demo_letter" "\<not> is_blank (lr_event_type demo_letter)"
  "\<not> dq_json_valid demo_dlq_env []"
proof -
  have "can_replay demo_dlq_env demo_failed" by code_simp
  then show "lr_status demo_letter = LetterDead" "lr_replayable demo_letter" by (simp_all add: demo_letter_def new_letter_def)
  have "fst (storable (fm_event_type demo_failed) dlq_event_type_len) = ''product.changed''" by code_simp
  moreover have "\<not> is_blank ''product.changed''" by code_simp
  ultimately show "\<not> is_blank (lr_event_type demo_letter)" by (simp add: demo_letter_def new_letter_def)
  show "\<not> dq_json_valid demo_dlq_env []" by code_simp
qed

lemma demo_calls: "quiet_call (demo_call oid lost)" "rc_tx (demo_call oid False) = tx_ok" "rc_uuid (demo_call oid lost) = Inr oid"
  "rc_now (demo_call oid lost) = 20"
  by (simp_all add: demo_call_def quiet_call_def)

lemma demo_outbox_new: "find_event ''o1'' (dt_outbox demo_letters) = None"
  "ox_check_row (dq_outbox demo_dlq_env) (replay_row (rc_now (demo_call ''o1'' lost)) ''o1'' demo_letter) = None"
  by (code_simp, simp add: demo_dlq_env_def demo_outbox_env_def)

text \<open>A first replay loses the outcome of its commit, between the read and the writes of a second one, which
  finds the letter already replayed.\<close>

definition demo_lost :: dlq_tables where
  "demo_lost = replayed_tables 20 ''o1'' demo_letter demo_letters"

lemma demo_lost_replay: "exec_dlq_act demo_dlq_env 15 (ReplayAct (demo_call ''o1'' True) ''d1'') demo_letters = demo_lost"
proof -
  have ok: "tables_ok demo_dlq_env demo_letters" using demo_letters_inv by (simp add: dlq_inv_def)
  have "replay_body (world_repos demo_dlq_env (demo_call ''o1'' True) demo_letters) ''d1'' ''o1'' demo_letters = Inr (demo_lost, ())"
    using replay_body_succeeds(1) [OF ok demo_uuids(1) demo_letter_found demo_letter_facts demo_calls(1) demo_uuids(2) demo_outbox_new]
    by (simp add: demo_lost_def demo_calls)
  then show ?thesis
    using uuid_not_blank [OF demo_uuids(1)] by (simp add: replay_def world_tx_def within_tx_def demo_call_def)
qed

lemma demo_second:
  "get_replay_source demo_dlq_env ''d1'' (dt_letters demo_letters) = Inr (source_of_letter demo_letter)"
  "\<exists>rows. create_replay (dq_outbox demo_dlq_env) 20 (replay_event_of (source_of_letter demo_letter) ''o2'') (dt_outbox demo_lost) = Inr (rows, ())"
  "mark_replayed demo_dlq_env 20 ''d1'' ''o2'' (dt_letters demo_lost) = Inr (dt_letters demo_lost, False)"
proof -
  show "get_replay_source demo_dlq_env ''d1'' (dt_letters demo_letters) = Inr (source_of_letter demo_letter)"
    using demo_uuids(1) demo_letter_found by (simp add: get_replay_source_def)
  have "is_ok (create_replay (dq_outbox demo_dlq_env) 20 (replay_event_of (source_of_letter demo_letter) ''o2'')
      [replay_row 20 ''o1'' demo_letter])"
    by code_simp
  moreover have "dt_outbox demo_lost = [replay_row 20 ''o1'' demo_letter]"
    by (simp add: demo_lost_def replayed_tables_def demo_letters_def demo_empty_def demo_insert)
  ultimately show "\<exists>rows. create_replay (dq_outbox demo_dlq_env) 20 (replay_event_of (source_of_letter demo_letter) ''o2'') (dt_outbox demo_lost) = Inr (rows, ())"
    using is_ok_pair by (metis (full_types) old.unit.exhaust)
  have "mark_letter 20 ''o2'' ''d1'' (dt_letters demo_lost) = (dt_letters demo_lost, 0)"
    using demo_letter_facts(1)
    by (simp add: demo_lost_def replayed_tables_def demo_letters_eq mark_letter_def dead_letter_with_def demo_letter_def new_letter_def)
  moreover have "parse_uuid (ox_scan (dq_outbox demo_dlq_env)) ''o2'' = Inr ''o2''" by code_simp
  ultimately show "mark_replayed demo_dlq_env 20 ''d1'' ''o2'' (dt_letters demo_lost) = Inr (dt_letters demo_lost, False)"
    using demo_uuids(1) by (simp add: mark_replayed_def)
qed

lemma demo_replay_again:
  "replay_run demo_dlq_env (demo_call ''o2'' False) [] [(15, ReplayAct (demo_call ''o1'' True) ''d1'')] ''d1'' demo_letters =
     (demo_lost, Inl (Leaf (Dlq ErrAlreadyReplayed)))"
proof -
  have rp: "rs_replayable (source_of_letter demo_letter)" using demo_letter_facts(2) by (simp add: source_of_letter_def)
  have "replay_body (world_repos demo_dlq_env (demo_call ''o2'' False) demo_letters) ''d1'' ''o2'' demo_lost =
      Inl (Leaf (Dlq ErrAlreadyReplayed))"
    using demo_second rp demo_calls(1,4) [of "''o2''" False]
    by (auto simp: replay_body_def world_repos_def fault_or_def quiet_call_def)
  with demo_calls(2) have "world_tx (demo_call ''o2'' False) (replay_body (world_repos demo_dlq_env (demo_call ''o2'' False) demo_letters) ''d1'' ''o2'')
      demo_lost = (demo_lost, Inl (Leaf (Dlq ErrAlreadyReplayed)))"
    by (simp add: world_tx_def within_tx_def tx_ok_def)
  then show ?thesis
    using uuid_not_blank [OF demo_uuids(1)]
    by (simp add: replay_run_def demo_lost_replay replay_def demo_calls(3) del: exec_dlq_act.simps)
qed



end
