(* ===== verification/Spec2Isabelle.thy ===== *)
theory Spec2Isabelle
  imports RegulatoryService Backoff Batch RunProcessing Outbox Relay FeedSync Source ProductHistory ProcessStore Idempotency Dlq
begin

text \<open>
  A verification development of the cross-border e-commerce backend, a Go service under \<open>internal/\<close>
  with PostgreSQL as its store and Redis streams as its broker. This header says what is modelled,
  where, and what the theorems show; the paths are those of the repository.

  \<^bold>\<open>The program.\<close> A sync fetches pages of raw records from a supplier's source and stores them with the
  progress of an ingestion run (\<open>application/ingestion\<close>, \<open>adapters/sources\<close>). A run that finishes is
  queued, and workers claim queued runs under leases (\<open>run_processing_repository.go\<close>) and turn their
  records into products, versions and changes, page by page (\<open>domain/product\<close>). Each change is written
  to an outbox in the same transaction, and a relay publishes the outbox to the broker
  (\<open>application/outbox\<close>). Regulatory datasets go through a reviewed lifecycle and answer tariff
  queries (\<open>domain/regulatory\<close>, \<open>application/regulatory\<close>).

  \<^bold>\<open>Conventions.\<close> A Go operation that can fail returns \<open>gerr + 'a\<close>; errors are trees of wrapped
  sentinels, \<open>err_is\<close> is \<open>errors.Is\<close>, and messages are not modelled (theory GoError). A string is its
  bytes (theory GoText). An instant is a number of nanoseconds, a duration of the retry arithmetic a
  64-bit word (theory Backoff), a counter of Go's type \<open>int\<close> an unbounded integer that the database
  bounds to 32 bits where it is stored. A table is a list of rows and a statement a function on it:
  the guards of its WHERE clause and its unique indexes are written out, CHECK constraints, widths
  and foreign keys to tables that are not modelled are an argument. UUIDs are their canonical texts
  and the scanner of pgx is an argument; so are SHA-256, JSON, the decimal library and the quotient of
  two floats. What the program does not determine (the clock, random ids, what other processes do
  between two statements, the faults of database and broker, the moment a context is cancelled) is an
  argument of an operation or a slot of a schedule, and the theorems hold for every schedule.

  \<^bold>\<open>Theories.\<close>
  \<^item> Prelude, GoError, GoText: results and their sequencing, errors, the used parts of package strings.
  \<^item> Db: \<open>convert.go\<close>, \<open>uuid.go\<close>, \<open>tx.go\<close> and \<open>cleanup.go\<close>: conversions, UUIDs, transactions, contexts.
  \<^item> Backoff: \<open>platform/backoff\<close> on 64-bit words: exact delays without overflow, the retry window.
  \<^item> Dataset, Tariff: \<open>domain/regulatory\<close>: the lifecycle of a dataset as a step relation with its
    invariant, refresh SLAs, and the choice of the duty, equal to a specification on multisets.
  \<^item> RegulatoryService: \<open>application/regulatory/service.go\<close> on \<open>regulatory_repository.go\<close>: loading, review,
    activation and tariff resolution over tables, the reachable states and what a resolution rests on.
  \<^item> Product, Batch: \<open>domain/product\<close>: fingerprints and changes, and \<open>DecideBatch\<close>, whose fold of an
    identity refines the processing of its records one at a time.
  \<^item> RunProcessing: the processing queue: leases are exclusive, progress is fenced, the oldest run is next.
  \<^item> Outbox, Relay: the outbox table, its writers and claims, and the relay. The locales \<open>relay_store\<close>
    and \<open>relay_shutdown\<close> state what the relay relies on; they are interpreted on the outbox repository.
  \<^item> Ingestion, IngestionStore, IngestionService: the run entity, checkpoints, error budget and raw
    records; the tables \<open>ingestion_runs\<close> and \<open>raw_records\<close> with their repositories; the services.
  \<^item> Sync, SyncStore: the sync coordinator \<open>application/ingestion/sync.go\<close> over the locales \<open>sync_store\<close> and
    \<open>sync_bounded\<close>, and their interpretation on the ingestion tables with other clients in between.
  \<^item> Json, FeedFile, FeedSync: JSON paths and identity strategies; the NDJSON side of
    \<open>adapters/sources/feed_file_adapter.go\<close>: bounded lines, rows, batches; and the sync of such a feed,
    whose batches along the checkpoints are one pass over the file.
  \<^item> Number, Normalize, Source: canonical numbers, which name rational values; \<open>Normalize\<close> and field
    mappings; \<open>domain/source\<close>, its service and repository, and the type of every row they reach.
  \<^item> ProductStore, ProductHistory: the product tables and \<open>ApplyBatch\<close> (\<open>product_repository.go\<close>,
    \<open>product_batch.go\<close>); and the histories that any interleaving of page transactions leaves.
  \<^item> ProcessRun, ProcessStore: the run processor \<open>application/product/process_run.go\<close> over the locale
    \<open>run_queue\<close>; its interpretation on the tables, where every record of a run is counted once.
  \<^item> Idempotency: idempotency keys (\<open>idempotency_repository.go\<close>) and the guard of message handlers
    (\<open>application/idempotency/guard.go\<close>) over the locale \<open>exactly_once\<close>: an acknowledged effect is applied once.
  \<^item> Utf8, Dlq: runes and valid UTF-8; the dead letter queue (\<open>application/dlq\<close>, \<open>dlq_repository.go\<close>) over the
    locale \<open>replay_store\<close>: every failed message is kept, and replayed at most once and unchanged.

  \<^bold>\<open>Loops and bounds.\<close> \<open>Run\<close> of the relay, \<open>SyncSource\<close> and \<open>ProcessRun\<close> may loop forever, so they are partial functions
  to \<open>option\<close>; that they return is proved for every finite schedule, at whose end the context is
  cancelled, with the length of the schedule as the measure; for \<open>ProcessRun\<close> the measure is the number of
  records after the cursor. Every other loop is structural or has a proved measure. No fuel is used.

  \<^bold>\<open>Not modelled.\<close> The generated row scanning of sqlc and the wiring of \<open>cmd/\<close> (glue), logging, metrics and
  configuration parsing; HTTP handlers; the REST adapter, authentication and pagination over HTTP;
  CSV feeds; the Redis consumer;
  timestamps as checkpoints (package time); the migrator and connection pools; test support.
\<close>

end
